(* ===== verification/Prelude.thy ===== *)
theory Prelude
  imports Main "HOL-Library.Word"
begin

text \<open>
  Shared vocabulary of the development: the machine integer types of the C code, the
  shape of a C function that may return 0 (a result option and the new state), the byte
  order functions, and the facts about them every component uses.
\<close>

unbundle bit_operations_syntax

type_synonym u8 = "8 word"
type_synonym u16 = "16 word"
type_synonym u32 = "32 word"
type_synonym u64 = "64 word"

text \<open>\<open>size_t\<close> of the 64-bit targets the pods are built for.\<close>

type_synonym size_t = "64 word"

named_theorems sizes \<open>turning size_t arithmetic into arithmetic on nat\<close>

section \<open>C functions with a status result\<close>

text \<open>
  A C function \<open>int f(S *s, T *out)\<close> that returns 0 or 1 is a function from the state
  to an optional output and the new state: the state is returned on failure too, since the
  code may have consumed input before it fails. \<open>step\<close> is the code's
  \<open>if (!f(s, &x)) return 0;\<close> followed by the rest of the function.
\<close>

type_synonym ('s, 'a) op = "'s \<Rightarrow> 'a option \<times> 's"

definition ret :: "'a \<Rightarrow> ('s, 'a) op" where
  "ret x = (\<lambda>s. (Some x, s))"

definition fail :: "('s, 'a) op" where
  "fail = (\<lambda>s. (None, s))"

definition step :: "('s, 'a) op \<Rightarrow> ('a \<Rightarrow> ('s, 'b) op) \<Rightarrow> ('s, 'b) op" where
  "step m f = (\<lambda>s. case m s of (None, s') \<Rightarrow> (None, s') | (Some x, s') \<Rightarrow> f x s')"

definition check :: "bool \<Rightarrow> ('s, 'a) op \<Rightarrow> ('s, 'a) op" where
  "check b m = (if b then m else fail)"

lemma ret_simp [simp]: "ret x s = (Some x, s)"
  by (simp add: ret_def)

lemma fail_simp [simp]: "fail s = (None, s)"
  by (simp add: fail_def)

lemma check_simps [simp]: "check True m = m" "check False m = fail"
  by (simp_all add: check_def)

lemma step_None: "m s = (None, s') \<Longrightarrow> step m f s = (None, s')"
  by (simp add: step_def)

lemma step_Some: "m s = (Some x, s') \<Longrightarrow> step m f s = f x s'"
  by (simp add: step_def)

lemma step_eq_Some:
  "step m f s = (Some y, s'') \<longleftrightarrow> (\<exists>x s'. m s = (Some x, s') \<and> f x s' = (Some y, s''))"
  by (auto simp: step_def split: prod.splits option.splits)

lemma check_eq_Some: "check b m s = (Some x, s') \<longleftrightarrow> b \<and> m s = (Some x, s')"
  by (auto simp: check_def)

section \<open>Byte order\<close>

definition be_val :: "u8 list \<Rightarrow> nat" where
  "be_val bs = foldl (\<lambda>a b. a * 256 + unat b) 0 bs"

primrec be_bytes :: "nat \<Rightarrow> nat \<Rightarrow> u8 list" where
  "be_bytes 0 v = []"
| "be_bytes (Suc n) v = be_bytes n (v div 256) @ [of_nat v]"

lemma unat_of_nat_u8 [simp]: "unat (of_nat v :: u8) = v mod 256"
  by (simp add: unat_of_nat)

lemma unat_u8_less: "unat (b :: u8) < 256"
  using unsigned_less [of b] by simp

lemma unat_drop_bit: "unat (drop_bit n v) = unat v div 2 ^ n"
  by (simp only: unsigned_drop_bit_eq take_bit_nat_eq_self unsigned_less flip: drop_bit_eq_div)

lemma unat_ucast_up:
  fixes b :: "'a::len word"
  shows "LENGTH('a) \<le> LENGTH('b) \<Longrightarrow> unat (ucast b :: 'b::len word) = unat b"
  by (simp add: unsigned_ucast_eq take_bit_nat_eq_self_iff)
    (metis order_less_le_trans power_increasing_iff one_less_numeral_iff semiring_norm(76)
      unsigned_less)

lemma unat_ucast_u8 [simp]:
  fixes b :: u8
  shows "unat (ucast b :: u64) = unat b" "unat (ucast b :: u32) = unat b"
    "unat (ucast b :: u16) = unat b"
  by (simp_all add: unat_ucast_up)

lemma of_nat_unat [simp]: "of_nat (unat w) = (w :: 'a::len word)"
  by simp

lemma be_val_Nil [simp]: "be_val [] = 0"
  by (simp add: be_val_def)

lemma be_val_snoc [simp]: "be_val (bs @ [b]) = be_val bs * 256 + unat b"
  by (simp add: be_val_def)

lemma foldl_be: "foldl (\<lambda>a (b::u8). a * 256 + unat b) a bs = a * 256 ^ length bs + be_val bs"
  unfolding be_val_def
proof (induction bs rule: rev_induct)
  case Nil
  then show ?case by simp
next
  case (snoc b bs)
  then show ?case by (simp add: algebra_simps)
qed

lemma be_val_append: "be_val (xs @ ys) = be_val xs * 256 ^ length ys + be_val ys"
  using foldl_be [of "be_val xs" ys] by (simp add: be_val_def)

lemma be_val_Cons: "be_val (b # bs) = unat b * 256 ^ length bs + be_val bs"
  using be_val_append [of "[b]" bs] by (simp add: be_val_def)

lemma be_val_less: "be_val bs < 256 ^ length bs"
proof (induction bs rule: rev_induct)
  case Nil
  then show ?case by simp
next
  case (snoc b bs)
  have "unat b < 256" by (rule unat_u8_less)
  with snoc have "be_val bs * 256 + unat b < (be_val bs + 1) * 256" by simp
  also have "\<dots> \<le> 256 ^ length bs * 256" using snoc by (intro mult_le_mono1) simp
  finally show ?case by (simp add: mult.commute)
qed

lemma length_be_bytes [simp]: "length (be_bytes n v) = n"
  by (induction n arbitrary: v) auto

lemma be_val_be_bytes: "be_val (be_bytes n v) = v mod 256 ^ n"
proof (induction n arbitrary: v)
  case 0
  then show ?case by simp
next
  case (Suc n)
  have "v mod 256 ^ Suc n = 256 * (v div 256 mod 256 ^ n) + v mod 256"
    using mod_mult2_eq [of v 256 "256 ^ n"] by simp
  with Suc show ?case by simp
qed

lemma be_bytes_be_val: "be_bytes (length bs) (be_val bs) = bs"
proof (induction bs rule: rev_induct)
  case Nil
  then show ?case by simp
next
  case (snoc b bs)
  have div: "(be_val bs * 256 + unat b) div 256 = be_val bs"
    using unat_u8_less [of b] by (simp add: div_add1_eq [of "be_val bs * 256"])
  have "of_nat (be_val bs * 256 + unat b) = b"
    using unat_u8_less [of b]
    by (intro word_unat_eq_iff [THEN iffD2]) (simp only: unat_of_nat_u8, simp)
  with snoc show ?case by (simp only: length_append_singleton be_bytes.simps be_val_snoc div)
qed

lemma be_bytes_numeral [simp]:
  "be_bytes (numeral n) v = be_bytes (pred_numeral n) (v div 256) @ [of_nat v]"
  by (subst numeral_eq_Suc) (simp only: be_bytes.simps)

lemma be_bytes_take: "k \<le> length bs \<Longrightarrow> be_bytes k (be_val (take k bs)) = take k bs"
  using be_bytes_be_val [of "take k bs"] by simp

lemma be_bytes_inj: "v < 256 ^ n \<Longrightarrow> w < 256 ^ n \<Longrightarrow> be_bytes n v = be_bytes n w \<Longrightarrow> v = w"
  by (metis be_val_be_bytes mod_less)

section \<open>Equal bits, equal words\<close>

text \<open>Word equations are proved bit by bit over the explicit list of positions.\<close>

lemma upt_8:
  "[0..<8] =
     [0, 1, 2, 3, 4, 5, 6, 7]"
  by code_simp

lemma upt_16:
  "[0..<16] =
     [0, 1, 2, 3, 4, 5, 6, 7, 8, 9, 10, 11, 12, 13, 14, 15]"
  by code_simp

lemma upt_32:
  "[0..<32] =
     [0, 1, 2, 3, 4, 5, 6, 7, 8, 9, 10, 11, 12, 13, 14, 15, 16, 17, 18, 19, 20, 21,
     22, 23, 24, 25, 26, 27, 28, 29, 30, 31]"
  by code_simp

lemma upt_64:
  "[0..<64] =
     [0, 1, 2, 3, 4, 5, 6, 7, 8, 9, 10, 11, 12, 13, 14, 15, 16, 17, 18, 19, 20, 21,
     22, 23, 24, 25, 26, 27, 28, 29, 30, 31, 32, 33, 34, 35, 36, 37, 38, 39, 40, 41,
     42, 43, 44, 45, 46, 47, 48, 49, 50, 51, 52, 53, 54, 55, 56, 57, 58, 59, 60, 61,
     62, 63]"
  by code_simp

lemma bit_words_eqI:
  "list_all (\<lambda>n. bit a n = bit b n) [0..<LENGTH('a)] \<Longrightarrow> a = (b :: 'a::len word)"
  by (rule bit_word_eqI) (auto simp: list_all_iff)

lemma bit_u8_ge [simp]: "8 \<le> n \<Longrightarrow> \<not> bit (b :: u8) n"
  using bit_imp_le_length by force

lemmas bitwise = upt_8 upt_16 upt_32 upt_64 bit_simps

section \<open>Shifting a byte into a word\<close>

lemma nat_push_bit_or: "w < 2 ^ n \<Longrightarrow> push_bit n v OR w = push_bit n v + (w::nat)"
  by (rule disjunctive_add [symmetric])
    (metis bit_push_bit_iff_nat bit_take_bit_iff not_le take_bit_nat_eq_self)

lemma unat_push_bit_or:
  fixes v w :: "'a::len word"
  assumes "unat v * 2 ^ n < 2 ^ LENGTH('a)" and "unat w < 2 ^ n"
  shows "unat (push_bit n v OR w) = unat v * 2 ^ n + unat w"
proof -
  have "push_bit n (unat v) < 2 ^ LENGTH('a)"
    using assms(1) by (simp add: push_bit_eq_mult)
  then have a: "unat (push_bit n v) = push_bit n (unat v)"
    by (simp only: unsigned_push_bit_eq take_bit_nat_eq_self)
  have "unat (push_bit n v OR w) = push_bit n (unat v) OR unat w"
    by (simp only: unsigned_or_eq a)
  also have "\<dots> = push_bit n (unat v) + unat w"
    by (rule nat_push_bit_or) fact
  finally show ?thesis by (simp add: push_bit_eq_mult)
qed

section \<open>Sums of sizes\<close>

lemma unat_u64_less: "unat (x :: u64) < 2 ^ 64"
  using unsigned_less [of x] by simp

lemma u64_add_overflow: "(x :: u64) + y < x \<longleftrightarrow> 2 ^ 64 \<le> unat x + unat y"
proof (cases "unat x + unat y < 2 ^ 64")
  case True
  then have "unat (x + y) = unat x + unat y" using unat_add_lem [of x y] by simp
  with True show ?thesis by (simp add: word_less_nat_alt)
next
  case False
  then have "(unat x + unat y) mod 2 ^ 64 = unat x + unat y - 2 ^ 64"
    using unat_u64_less [of x] unat_u64_less [of y] by (simp add: mod_if)
  then have "unat (x + y) = unat x + unat y - 2 ^ 64" by (simp add: unat_word_ariths)
  with False unat_u64_less [of y] show ?thesis by (simp add: word_less_nat_alt)
qed

lemma unat_add_u64: "unat x + unat y < 2 ^ 64 \<Longrightarrow> unat (x + y :: u64) = unat x + unat y"
  using unat_add_lem [of x y] by simp

end
