(* ===== verification/Mem.thy ===== *)
theory Mem
  imports Prelude
begin

text \<open>
  The memory and string helpers of crypto/mem.c. Memory is the list of the bytes a
  pointer can read; a loop that would run past the end of that list stops there, and the
  lemmas show that with the lengths the callers pass it never does. An allocation is a
  parameter \<open>can_alloc\<close>: whether the allocator serves a request of that size. A
  NULL result is \<open>None\<close>. A \<open>char\<close> is a signed byte, as on the Apple and x86
  targets of the pods, and a C string is a byte list that holds a NUL.
\<close>

section \<open>Comparing and hashing\<close>

fun memcmp_loop :: "u8 \<Rightarrow> u8 list \<Rightarrow> u8 list \<Rightarrow> u8" where
  "memcmp_loop x (a # as) (b # bs) = memcmp_loop (x OR (a XOR b)) as bs"
| "memcmp_loop x _ _ = x"

definition CRYPTO_memcmp :: "u8 list \<Rightarrow> u8 list \<Rightarrow> size_t \<Rightarrow> int" where
  "CRYPTO_memcmp in_a in_b len =
     uint (memcmp_loop 0 (take (unat len) in_a) (take (unat len) in_b))"

definition hash32_loop :: "u32 \<Rightarrow> u8 list \<Rightarrow> u32" where
  "hash32_loop = foldl (\<lambda>h b. (h XOR ucast b) * 16777619)"

definition OPENSSL_hash32 :: "u8 list \<Rightarrow> size_t \<Rightarrow> u32" where
  "OPENSSL_hash32 ptr len = hash32_loop 2166136261 (take (unat len) ptr)"

fun strlen :: "u8 list \<Rightarrow> nat" where
  "strlen [] = 0"
| "strlen (c # cs) = (if c = 0 then 0 else Suc (strlen cs))"

definition OPENSSL_strhash :: "u8 list \<Rightarrow> u32" where
  "OPENSSL_strhash s = OPENSSL_hash32 s (of_nat (strlen s))"

fun OPENSSL_strnlen :: "u8 list \<Rightarrow> nat \<Rightarrow> nat" where
  "OPENSSL_strnlen _ 0 = 0"
| "OPENSSL_strnlen [] (Suc n) = 0"
| "OPENSSL_strnlen (c # cs) (Suc n) = (if c = 0 then 0 else Suc (OPENSSL_strnlen cs n))"

section \<open>Characters\<close>

definition OPENSSL_isalpha :: "int \<Rightarrow> bool" where
  "OPENSSL_isalpha c = ((97 \<le> c \<and> c \<le> 122) \<or> (65 \<le> c \<and> c \<le> 90))"

definition OPENSSL_isdigit :: "int \<Rightarrow> bool" where
  "OPENSSL_isdigit c = (48 \<le> c \<and> c \<le> 57)"

definition OPENSSL_isxdigit :: "int \<Rightarrow> bool" where
  "OPENSSL_isxdigit c = (OPENSSL_isdigit c \<or> (97 \<le> c \<and> c \<le> 102) \<or> (65 \<le> c \<and> c \<le> 70))"

definition OPENSSL_fromxdigit :: "int \<Rightarrow> u8 option" where
  "OPENSSL_fromxdigit c =
     (if OPENSSL_isdigit c then Some (word_of_int (c - 48))
      else if 97 \<le> c \<and> c \<le> 102 then Some (word_of_int (c - 97 + 10))
      else if 65 \<le> c \<and> c \<le> 70 then Some (word_of_int (c - 65 + 10))
      else None)"

definition OPENSSL_isalnum :: "int \<Rightarrow> bool" where
  "OPENSSL_isalnum c = (OPENSSL_isalpha c \<or> OPENSSL_isdigit c)"

definition OPENSSL_tolower :: "int \<Rightarrow> int" where
  "OPENSSL_tolower c = (if 65 \<le> c \<and> c \<le> 90 then c + (97 - 65) else c)"

definition OPENSSL_isspace :: "int \<Rightarrow> bool" where
  "OPENSSL_isspace c = (c = 9 \<or> c = 10 \<or> c = 11 \<or> c = 12 \<or> c = 13 \<or> c = 32)"

fun OPENSSL_strcasecmp :: "u8 list \<Rightarrow> u8 list \<Rightarrow> int" where
  "OPENSSL_strcasecmp (a # as) (b # bs) =
     (let aa = OPENSSL_tolower (sint a); bb = OPENSSL_tolower (sint b) in
      if aa < bb then - 1
      else if aa > bb then 1
      else if aa = 0 then 0
      else OPENSSL_strcasecmp as bs)"
| "OPENSSL_strcasecmp _ _ = 0"

fun OPENSSL_strncasecmp :: "u8 list \<Rightarrow> u8 list \<Rightarrow> nat \<Rightarrow> int" where
  "OPENSSL_strncasecmp _ _ 0 = 0"
| "OPENSSL_strncasecmp (a # as) (b # bs) (Suc n) =
     (let aa = OPENSSL_tolower (sint a); bb = OPENSSL_tolower (sint b) in
      if aa < bb then - 1
      else if aa > bb then 1
      else if aa = 0 then 0
      else OPENSSL_strncasecmp as bs n)"
| "OPENSSL_strncasecmp _ _ (Suc n) = 0"

section \<open>Copying\<close>

definition OPENSSL_memdup :: "(size_t \<Rightarrow> bool) \<Rightarrow> u8 list \<Rightarrow> size_t \<Rightarrow> u8 list option" where
  "OPENSSL_memdup can_alloc data len =
     (if len = 0 then None
      else if \<not> can_alloc len then None
      else Some (take (unat len) data))"

definition OPENSSL_strdup :: "(size_t \<Rightarrow> bool) \<Rightarrow> u8 list option \<Rightarrow> u8 list option" where
  "OPENSSL_strdup can_alloc s =
     (case s of None \<Rightarrow> None
      | Some s \<Rightarrow> OPENSSL_memdup can_alloc s (of_nat (strlen s) + 1))"

definition OPENSSL_strndup :: "(size_t \<Rightarrow> bool) \<Rightarrow> u8 list \<Rightarrow> size_t \<Rightarrow> u8 list option" where
  "OPENSSL_strndup can_alloc str max_len =
     (let len = (of_nat (OPENSSL_strnlen str (unat max_len)) :: size_t);
          alloc_size = len + 1
      in if alloc_size < len then None
         else if \<not> can_alloc alloc_size then None
         else Some (take (unat len) str @ [0]))"

definition OPENSSL_realloc ::
  "(size_t \<Rightarrow> bool) \<Rightarrow> u8 list \<Rightarrow> size_t \<Rightarrow> u8 list option" where
  \<comment> \<open>\<open>orig\<close> is the whole old block, so its length is the size stored in the header; the
    bytes beyond the copied ones are fresh, and 0 here\<close>
  "OPENSSL_realloc can_alloc orig new_size =
     (if \<not> can_alloc new_size then None
      else let to_copy = min (unat new_size) (length orig)
           in Some (take to_copy orig @ replicate (unat new_size - to_copy) 0))"

text \<open>
  \<open>OPENSSL_strlcpy\<close> and \<open>OPENSSL_strlcat\<close> return the new destination memory with
  the C result. The loop of \<open>strlcpy\<close> writes one byte and moves both pointers; the
  recursion returns the bytes written, the rest of the source and how many were copied.
\<close>

fun strlcpy_loop :: "nat \<Rightarrow> u8 list \<Rightarrow> u8 list \<times> u8 list \<times> nat" where
  "strlcpy_loop dst_size [] = ([], [], dst_size)"
| "strlcpy_loop dst_size (c # cs) =
     (if dst_size > 1 \<and> c \<noteq> 0
      then (case strlcpy_loop (dst_size - 1) cs of (ws, rest, d) \<Rightarrow> (c # ws, rest, d))
      else ([], c # cs, dst_size))"

definition OPENSSL_strlcpy :: "u8 list \<Rightarrow> u8 list \<Rightarrow> nat \<Rightarrow> u8 list \<times> nat" where
  "OPENSSL_strlcpy dst src dst_size =
     (case strlcpy_loop dst_size src of (ws, rest, d) \<Rightarrow>
        (let out = (if d \<noteq> 0 then ws @ [0] else ws)
         in (out @ drop (length out) dst, length ws + strlen rest)))"

definition OPENSSL_strlcat :: "u8 list \<Rightarrow> u8 list \<Rightarrow> nat \<Rightarrow> u8 list \<times> nat" where
  "OPENSSL_strlcat dst src dst_size =
     (let l = OPENSSL_strnlen dst dst_size;
          (d, n) = OPENSSL_strlcpy (drop l dst) src (dst_size - l)
      in (take l dst @ d, l + n))"

section \<open>Lemmas\<close>

lemma memcmp_loop_0: "length as = length bs \<Longrightarrow> memcmp_loop x as bs = 0 \<longleftrightarrow> x = 0 \<and> as = bs"
proof (induction as bs arbitrary: x rule: list_induct2)
  case Nil
  then show ?case by simp
next
  case (Cons a as b bs)
  have "x OR (a XOR b) = 0 \<longleftrightarrow> x = 0 \<and> a = b"
    by (auto simp: bit_eq_iff [where ?'a = "8 word"] bit_simps)
  with Cons show ?case by auto
qed

lemma CRYPTO_memcmp_eq_0:
  assumes "unat len \<le> length a" and "unat len \<le> length b"
  shows "CRYPTO_memcmp a b len = 0 \<longleftrightarrow> take (unat len) a = take (unat len) b"
  using memcmp_loop_0 [of "take (unat len) a" "take (unat len) b" 0] assms
  by (simp add: CRYPTO_memcmp_def uint_0_iff)

lemma strlen_le: "strlen s \<le> length s"
  by (induction s) auto

lemma strlen_append: "0 \<notin> set xs \<Longrightarrow> strlen (xs @ 0 # ys) = length xs"
  by (induction xs) auto

lemma strnlen_takeWhile: "OPENSSL_strnlen s n = length (takeWhile (\<lambda>c. c \<noteq> 0) (take n s))"
  by (induction s n rule: OPENSSL_strnlen.induct) auto

lemma strnlen_le: "OPENSSL_strnlen s n \<le> n" "OPENSSL_strnlen s n \<le> length s"
  by (induction s n rule: OPENSSL_strnlen.induct) auto

lemma strnlen_take: "take (OPENSSL_strnlen s n) s = takeWhile (\<lambda>c. c \<noteq> 0) (take n s)"
  by (induction s n rule: OPENSSL_strnlen.induct) auto

end
