(* ===== verification/Cbs.thy ===== *)
theory Cbs
  imports Mem
begin

text \<open>
  crypto/bytestring/cbs.c, first part: the CBS itself and its byte-level readers. A CBS is
  a pointer and a length. The pointer is modelled by the bytes that can be read from it up
  to the end of the object it points into, so a CBS is well formed (\<open>cbs_ok\<close>) when its
  length does not run past that object. Every reader is a status operation on the CBS
  (\<open>op\<close> of the prelude): what it has consumed stays consumed when it fails.
\<close>

record cbs =
  cbs_data :: "u8 list"
  cbs_len :: size_t

definition CBS_init :: "u8 list \<Rightarrow> size_t \<Rightarrow> cbs" where
  "CBS_init data len = \<lparr>cbs_data = data, cbs_len = len\<rparr>"

definition cbs_get :: "size_t \<Rightarrow> (cbs, u8 list) op" where
  "cbs_get n cbs =
     (if cbs_len cbs < n then (None, cbs)
      else (Some (cbs_data cbs),
            cbs\<lparr>cbs_data := drop (unat n) (cbs_data cbs), cbs_len := cbs_len cbs - n\<rparr>))"

definition CBS_skip :: "size_t \<Rightarrow> (cbs, unit) op" where
  "CBS_skip len = step (cbs_get len) (\<lambda>_. ret ())"

text \<open>\<open>CBS_stow\<close> returns its status, the new \<open>*out_ptr\<close> and the new \<open>*out_len\<close>.\<close>

definition CBS_stow :: "(size_t \<Rightarrow> bool) \<Rightarrow> cbs \<Rightarrow> bool \<times> u8 list option \<times> size_t" where
  "CBS_stow can_alloc cbs =
     (if cbs_len cbs = 0 then (True, None, 0)
      else case OPENSSL_memdup can_alloc (cbs_data cbs) (cbs_len cbs) of
             None \<Rightarrow> (False, None, 0)
           | Some p \<Rightarrow> (True, Some p, cbs_len cbs))"

definition CBS_strdup :: "(size_t \<Rightarrow> bool) \<Rightarrow> cbs \<Rightarrow> bool \<times> u8 list option" where
  "CBS_strdup can_alloc cbs =
     (let p = OPENSSL_strndup can_alloc (cbs_data cbs) (cbs_len cbs) in (p \<noteq> None, p))"

text \<open>\<open>OPENSSL_memchr\<close>: the offset of the first match among the first \<open>n\<close> bytes.\<close>

fun memchr_loop :: "u8 \<Rightarrow> u8 list \<Rightarrow> nat option" where
  "memchr_loop c [] = None"
| "memchr_loop c (b # bs) = (if b = c then Some 0 else map_option Suc (memchr_loop c bs))"

definition OPENSSL_memchr :: "u8 list \<Rightarrow> u8 \<Rightarrow> size_t \<Rightarrow> nat option" where
  "OPENSSL_memchr s c n = (if n = 0 then None else memchr_loop c (take (unat n) s))"

definition CBS_contains_zero_byte :: "cbs \<Rightarrow> bool" where
  "CBS_contains_zero_byte cbs = (OPENSSL_memchr (cbs_data cbs) 0 (cbs_len cbs) \<noteq> None)"

definition CBS_mem_equal :: "cbs \<Rightarrow> u8 list \<Rightarrow> size_t \<Rightarrow> bool" where
  "CBS_mem_equal cbs data len =
     (if len \<noteq> cbs_len cbs then False
      else CRYPTO_memcmp (cbs_data cbs) data len = 0)"

section \<open>Integers\<close>

fun get_u_loop :: "u64 \<Rightarrow> u8 list \<Rightarrow> u64" where
  "get_u_loop result [] = result"
| "get_u_loop result (b # bs) = get_u_loop (push_bit 8 result OR ucast b) bs"

definition cbs_get_u :: "size_t \<Rightarrow> (cbs, u64) op" where
  "cbs_get_u len = step (cbs_get len) (\<lambda>data. ret (get_u_loop 0 (take (unat len) data)))"

definition CBS_get_u8 :: "(cbs, u8) op" where
  "CBS_get_u8 = step (cbs_get 1) (\<lambda>v. ret (hd v))"

definition CBS_get_u16 :: "(cbs, u16) op" where
  "CBS_get_u16 = step (cbs_get_u 2) (\<lambda>v. ret (ucast v))"

definition CRYPTO_bswap2 :: "u16 \<Rightarrow> u16" where
  "CRYPTO_bswap2 x = drop_bit 8 x OR push_bit 8 x"

definition CRYPTO_bswap4 :: "u32 \<Rightarrow> u32" where
  "CRYPTO_bswap4 x =
     (let x = drop_bit 16 x OR push_bit 16 x
      in drop_bit 8 (x AND 0xff00ff00) OR push_bit 8 (x AND 0x00ff00ff))"

definition CRYPTO_bswap8 :: "u64 \<Rightarrow> u64" where
  "CRYPTO_bswap8 x =
     ucast (CRYPTO_bswap4 (ucast (drop_bit 32 x)))
       OR push_bit 32 (ucast (CRYPTO_bswap4 (ucast x)))"

definition CBS_get_u16le :: "(cbs, u16) op" where
  "CBS_get_u16le = step CBS_get_u16 (\<lambda>v. ret (CRYPTO_bswap2 v))"

definition CBS_get_u24 :: "(cbs, u32) op" where
  "CBS_get_u24 = step (cbs_get_u 3) (\<lambda>v. ret (ucast v))"

definition CBS_get_u32 :: "(cbs, u32) op" where
  "CBS_get_u32 = step (cbs_get_u 4) (\<lambda>v. ret (ucast v))"

definition CBS_get_u32le :: "(cbs, u32) op" where
  "CBS_get_u32le = step CBS_get_u32 (\<lambda>v. ret (CRYPTO_bswap4 v))"

definition CBS_get_u64 :: "(cbs, u64) op" where
  "CBS_get_u64 = cbs_get_u 8"

definition CBS_get_u64le :: "(cbs, u64) op" where
  "CBS_get_u64le = step (cbs_get_u 8) (\<lambda>v. ret (CRYPTO_bswap8 v))"

definition CBS_get_last_u8 :: "(cbs, u8) op" where
  "CBS_get_last_u8 cbs =
     (if cbs_len cbs = 0 then (None, cbs)
      else (Some (cbs_data cbs ! unat (cbs_len cbs - 1)), cbs\<lparr>cbs_len := cbs_len cbs - 1\<rparr>))"

section \<open>Byte strings\<close>

definition CBS_get_bytes :: "size_t \<Rightarrow> (cbs, cbs) op" where
  "CBS_get_bytes len = step (cbs_get len) (\<lambda>v. ret (CBS_init v len))"

definition CBS_copy_bytes :: "size_t \<Rightarrow> (cbs, u8 list) op" where
  "CBS_copy_bytes len = step (cbs_get len) (\<lambda>v. ret (take (unat len) v))"

definition cbs_get_length_prefixed :: "size_t \<Rightarrow> (cbs, cbs) op" where
  "cbs_get_length_prefixed len_len = step (cbs_get_u len_len) (\<lambda>len. CBS_get_bytes len)"

definition CBS_get_u8_length_prefixed :: "(cbs, cbs) op" where
  "CBS_get_u8_length_prefixed = cbs_get_length_prefixed 1"

definition CBS_get_u16_length_prefixed :: "(cbs, cbs) op" where
  "CBS_get_u16_length_prefixed = cbs_get_length_prefixed 2"

definition CBS_get_u24_length_prefixed :: "(cbs, cbs) op" where
  "CBS_get_u24_length_prefixed = cbs_get_length_prefixed 3"

definition CBS_get_until_first :: "u8 \<Rightarrow> (cbs, cbs) op" where
  "CBS_get_until_first c cbs =
     (case OPENSSL_memchr (cbs_data cbs) c (cbs_len cbs) of
        None \<Rightarrow> (None, cbs)
      | Some split \<Rightarrow> CBS_get_bytes (of_nat split) cbs)"

text \<open>
  \<open>CBS_get_u64_decimal\<close>: the loop ends at the first byte that is no digit; the digit
  that makes the number invalid has been consumed when the function fails.
\<close>

lemma cbs_skip_1_less:
  assumes "CBS_skip 1 cbs = (Some u, cbs')"
  shows "unat (cbs_len cbs') < unat (cbs_len cbs)"
proof -
  from assms have "\<not> cbs_len cbs < 1" and "cbs_len cbs' = cbs_len cbs - 1"
    by (auto simp: CBS_skip_def step_def cbs_get_def split: if_splits)
  then have "cbs_len cbs \<noteq> 0" by auto
  with \<open>cbs_len cbs' = _\<close> show ?thesis
    by (simp add: unat_minus_one unat_gt_0)
qed

function u64_decimal_loop :: "u64 \<Rightarrow> bool \<Rightarrow> (cbs, u64) op" where
  "u64_decimal_loop v seen_digit cbs =
     (if cbs_len cbs \<noteq> 0 then
        let c = hd (cbs_data cbs) in
        if \<not> OPENSSL_isdigit (uint c) then
          (if seen_digit then (Some v, cbs) else (None, cbs))
        else
          (case CBS_skip 1 cbs of
             (None, cbs') \<Rightarrow> (None, cbs')
           | (Some _, cbs') \<Rightarrow>
               if (v = 0 \<and> seen_digit) \<or> v > 0xffffffffffffffff div 10 \<or>
                  v * 10 > 0xffffffffffffffff - ucast (c - 48)
               then (None, cbs')
               else u64_decimal_loop (v * 10 + ucast (c - 48)) True cbs')
      else if seen_digit then (Some v, cbs) else (None, cbs))"
  by pat_completeness auto
termination
  by (relation "measure (\<lambda>(v, s, cbs). unat (cbs_len cbs))")
    (auto dest: cbs_skip_1_less [OF sym])

declare u64_decimal_loop.simps [simp del]

definition CBS_get_u64_decimal :: "(cbs, u64) op" where
  "CBS_get_u64_decimal = u64_decimal_loop 0 False"

section \<open>Well-formed views\<close>

text \<open>
  \<open>cbs_view bs t\<close> is the CBS over the bytes \<open>bs\<close>, with the memory \<open>t\<close> behind
  them. Every well-formed CBS is such a view (\<open>cbs_okE\<close>), so a statement over all
  views is a statement over all well-formed CBSs, and that \<open>t\<close> only moves to the view of
  a prefix says that nothing behind the length is read.
\<close>

definition cbs_ok :: "cbs \<Rightarrow> bool" where
  "cbs_ok cbs \<longleftrightarrow> unat (cbs_len cbs) \<le> length (cbs_data cbs)"

definition cbs_bytes :: "cbs \<Rightarrow> u8 list" where
  "cbs_bytes cbs = take (unat (cbs_len cbs)) (cbs_data cbs)"

abbreviation fits :: "'a list \<Rightarrow> bool" where
  "fits xs \<equiv> length xs < 2 ^ 64"

definition cbs_view :: "u8 list \<Rightarrow> u8 list \<Rightarrow> cbs" where
  "cbs_view bs t = \<lparr>cbs_data = bs @ t, cbs_len = of_nat (length bs)\<rparr>"

lemma unat_of_nat_size: "n < 2 ^ 64 \<Longrightarrow> unat (of_nat n :: size_t) = n"
  by (simp add: unat_of_nat)

lemma cbs_ok_view [simp]: "fits bs \<Longrightarrow> cbs_ok (cbs_view bs t)"
  by (simp add: cbs_ok_def cbs_view_def unat_of_nat)

lemma cbs_bytes_view [simp]: "fits bs \<Longrightarrow> cbs_bytes (cbs_view bs t) = bs"
  by (simp add: cbs_bytes_def cbs_view_def unat_of_nat)

lemma cbs_okE:
  assumes "cbs_ok cbs"
  obtains t where "cbs = cbs_view (cbs_bytes cbs) t" and "fits (cbs_bytes cbs)"
proof
  have "length (cbs_bytes cbs) = unat (cbs_len cbs)"
    using assms by (simp add: cbs_ok_def cbs_bytes_def)
  then show "cbs = cbs_view (cbs_bytes cbs) (drop (unat (cbs_len cbs)) (cbs_data cbs))"
    by (simp add: cbs_view_def cbs_bytes_def)
  show "fits (cbs_bytes cbs)"
    using unsigned_less [of "cbs_len cbs"] \<open>length _ = _\<close> by simp
qed

lemma cbs_len_view [simp]: "cbs_len (cbs_view bs t) = of_nat (length bs)"
  by (simp add: cbs_view_def)

lemma cbs_data_view [simp]: "cbs_data (cbs_view bs t) = bs @ t"
  by (simp add: cbs_view_def)

lemma cbs_len_view_0: "fits bs \<Longrightarrow> of_nat (length bs) = (0::size_t) \<longleftrightarrow> bs = []"
  by (auto simp: word_of_nat_eq_0_iff dest: nat_dvd_not_less [rotated])

lemma CBS_init_view: "CBS_init (bs @ t) (of_nat (length bs)) = cbs_view bs t"
  by (simp add: CBS_init_def cbs_view_def)

lemma cbs_view_inject:
  "fits xs \<Longrightarrow> fits ys \<Longrightarrow> cbs_view xs t = cbs_view ys u \<longleftrightarrow> xs = ys \<and> t = u"
  by (metis append_eq_append_conv cbs_bytes_view cbs_data_view)

lemma cbs_get_view:
  assumes "fits bs"
  shows "cbs_get n (cbs_view bs t) =
    (if unat n \<le> length bs
     then (Some (bs @ t), cbs_view (drop (unat n) bs) t)
     else (None, cbs_view bs t))"
proof -
  have "of_nat (length bs) < n \<longleftrightarrow> length bs < unat n"
    using assms by (simp add: word_less_nat_alt unat_of_nat_size del: unat_of_nat)
  moreover have "of_nat (length bs) - n = of_nat (length bs - unat n)" if "unat n \<le> length bs"
    using that by (simp add: of_nat_diff)
  ultimately show ?thesis
    by (auto simp: cbs_get_def cbs_view_def)
qed

lemma cbs_get_prefix:
  "fits (xs @ ys) \<Longrightarrow> n = of_nat (length xs) \<Longrightarrow>
     cbs_get n (cbs_view (xs @ ys) t) = (Some (xs @ ys @ t), cbs_view ys t)"
  by (subst cbs_get_view) (auto simp: unat_of_nat)

lemma CBS_get_u8_Nil [simp]: "CBS_get_u8 (cbs_view [] t) = (None, cbs_view [] t)"
  by (simp add: CBS_get_u8_def step_def cbs_get_view)

lemma CBS_get_u8_Cons [simp]:
  "fits (b # bs) \<Longrightarrow> CBS_get_u8 (cbs_view (b # bs) t) = (Some b, cbs_view bs t)"
  by (simp add: CBS_get_u8_def step_def cbs_get_view)

lemma CBS_get_bytes_view:
  assumes "fits bs"
  shows "CBS_get_bytes n (cbs_view bs t) =
    (if unat n \<le> length bs
     then (Some (cbs_view (take (unat n) bs) (drop (unat n) bs @ t)), cbs_view (drop (unat n) bs) t)
     else (None, cbs_view bs t))"
proof -
  have "CBS_init (bs @ t) n = cbs_view (take (unat n) bs) (drop (unat n) bs @ t)"
    if "unat n \<le> length bs"
    using that by (simp add: CBS_init_def cbs_view_def)
  with assms show ?thesis
    by (simp add: CBS_get_bytes_def step_def cbs_get_view)
qed

lemma CBS_get_bytes_prefix:
  "fits (xs @ ys) \<Longrightarrow> n = of_nat (length xs) \<Longrightarrow>
     CBS_get_bytes n (cbs_view (xs @ ys) t) = (Some (cbs_view xs (ys @ t)), cbs_view ys t)"
  by (subst CBS_get_bytes_view) (auto simp: unat_of_nat)

lemma CBS_skip_view:
  assumes "fits bs"
  shows "CBS_skip n (cbs_view bs t) =
    (if unat n \<le> length bs then (Some (), cbs_view (drop (unat n) bs) t)
     else (None, cbs_view bs t))"
  using assms by (simp add: CBS_skip_def step_def cbs_get_view)

section \<open>Integers are big-endian\<close>

lemma get_u_loop_val:
  "length bs \<le> 8 \<Longrightarrow> unat v < 256 ^ (8 - length bs) \<Longrightarrow>
     unat (get_u_loop v bs) = unat v * 256 ^ length bs + be_val bs"
proof (induction bs arbitrary: v)
  case Nil
  then show ?case by simp
next
  case (Cons b bs)
  have e: "(256::nat) ^ (8 - length bs) = 256 * 256 ^ (8 - Suc (length bs))"
    using Cons.prems(1) by (simp flip: power_Suc add: Suc_diff_le)
  have "(256::nat) ^ (8 - Suc (length bs)) \<le> 256 ^ 7"
    by (intro power_increasing) auto
  with Cons.prems have "unat v < 256 ^ 7" by simp
  then have s: "unat (push_bit 8 v OR ucast b) = unat v * 256 + unat b"
    using unat_push_bit_or [of v 8 "ucast b"] unat_u8_less [of b] by simp
  have "(unat v + 1) * 256 \<le> 256 ^ (8 - Suc (length bs)) * (256::nat)"
    using Cons.prems by (intro mult_le_mono1) simp
  then have "(unat v + 1) * 256 \<le> 256 ^ (8 - length bs)"
    by (simp only: e mult.commute)
  moreover have "unat v * 256 + unat b < (unat v + 1) * 256"
    using unat_u8_less [of b] by simp
  ultimately have "unat v * 256 + unat b < 256 ^ (8 - length bs)" by (rule order_less_le_trans [rotated])
  with Cons.IH [of "push_bit 8 v OR ucast b"] Cons.prems s show ?case
    by (simp add: be_val_Cons algebra_simps)
qed

lemma get_u_loop_be: "length bs \<le> 8 \<Longrightarrow> unat (get_u_loop 0 bs) = be_val bs"
  by (subst get_u_loop_val) auto

lemma cbs_get_u_view:
  assumes "fits bs"
  shows "cbs_get_u n (cbs_view bs t) =
    (if unat n \<le> length bs
     then (Some (get_u_loop 0 (take (unat n) bs)), cbs_view (drop (unat n) bs) t)
     else (None, cbs_view bs t))"
  using assms by (simp add: cbs_get_u_def step_def cbs_get_view)

lemma get_u_loop_eq: "length bs \<le> 8 \<Longrightarrow> get_u_loop 0 bs = of_nat (be_val bs)"
  using get_u_loop_be [of bs] by (metis of_nat_unat)

lemma CBS_get_u16_view:
  "fits bs \<Longrightarrow> CBS_get_u16 (cbs_view bs t) =
    (if 2 \<le> length bs then (Some (ucast (get_u_loop 0 (take 2 bs))), cbs_view (drop 2 bs) t)
     else (None, cbs_view bs t))"
  by (simp add: CBS_get_u16_def step_def cbs_get_u_view)

lemma CBS_get_u32_view:
  "fits bs \<Longrightarrow> CBS_get_u32 (cbs_view bs t) =
    (if 4 \<le> length bs then (Some (ucast (get_u_loop 0 (take 4 bs))), cbs_view (drop 4 bs) t)
     else (None, cbs_view bs t))"
  by (simp add: CBS_get_u32_def step_def cbs_get_u_view)

lemma ucast_get_u_loop:
  assumes "length bs \<le> 8" and "LENGTH('a) \<le> 64"
  shows "ucast (get_u_loop 0 bs) = (of_nat (be_val bs) :: 'a::len word)"
proof -
  have "be_val bs mod 2 ^ 64 mod 2 ^ LENGTH('a) = be_val bs mod 2 ^ LENGTH('a)"
    by (rule mod_mod_cancel) (rule le_imp_power_dvd [OF assms(2)])
  then have "ucast (of_nat (be_val bs) :: u64) = (of_nat (be_val bs) :: 'a word)"
    by (simp add: word_unat_eq_iff unat_of_nat unsigned_ucast_eq take_bit_eq_mod)
  then show ?thesis
    using assms(1) by (simp add: get_u_loop_eq)
qed

section \<open>Byte swapping\<close>

lemma bswap2_loop:
  "CRYPTO_bswap2 (ucast (get_u_loop 0 [a, b])) = ucast (get_u_loop 0 [b, a])"
  by (rule bit_words_eqI) (simp add: CRYPTO_bswap2_def bitwise)

lemma bswap4_loop:
  "CRYPTO_bswap4 (ucast (get_u_loop 0 [a, b, c, d])) = ucast (get_u_loop 0 [d, c, b, a])"
  by (rule bit_words_eqI) (simp add: CRYPTO_bswap4_def bitwise)

lemma get_u_loop_halves:
  "ucast (drop_bit 32 (get_u_loop 0 [a, b, c, d, e, f, g, h])) =
     (ucast (get_u_loop 0 [a, b, c, d]) :: u32)"
  "ucast (get_u_loop 0 [a, b, c, d, e, f, g, h]) = (ucast (get_u_loop 0 [e, f, g, h]) :: u32)"
  by (rule bit_words_eqI, simp add: bitwise)+

lemma get_u_loop_join:
  "ucast (ucast (get_u_loop 0 [e, f, g, h]) :: u32)
     OR push_bit 32 (ucast (ucast (get_u_loop 0 [a, b, c, d]) :: u32)) =
   get_u_loop 0 [a, b, c, d, e, f, g, h]"
  by (rule bit_words_eqI) (simp add: bitwise)

lemma bswap8_loop:
  "CRYPTO_bswap8 (get_u_loop 0 [a, b, c, d, e, f, g, h]) =
     get_u_loop 0 [h, g, f, e, d, c, b, a]"
  unfolding CRYPTO_bswap8_def get_u_loop_halves bswap4_loop get_u_loop_join ..

lemma list2E:
  assumes "length xs = 2" obtains a b where "xs = [a, b]"
  using assms by (auto simp: numeral_eq_Suc length_Suc_conv)

lemma list4E:
  assumes "length xs = 4" obtains a b c d where "xs = [a, b, c, d]"
  using assms by (auto simp: numeral_eq_Suc length_Suc_conv)

lemma list8E:
  assumes "length xs = 8" obtains a b c d e f g h where "xs = [a, b, c, d, e, f, g, h]"
  using assms by (auto simp: numeral_eq_Suc length_Suc_conv)

lemma bswap_loops:
  "length xs = 2 \<Longrightarrow> CRYPTO_bswap2 (ucast (get_u_loop 0 xs)) = ucast (get_u_loop 0 (rev xs))"
  "length xs = 4 \<Longrightarrow> CRYPTO_bswap4 (ucast (get_u_loop 0 xs)) = ucast (get_u_loop 0 (rev xs))"
  "length xs = 8 \<Longrightarrow> CRYPTO_bswap8 (get_u_loop 0 xs) = get_u_loop 0 (rev xs)"
  by (erule list2E list4E list8E, simp only: bswap2_loop bswap4_loop bswap8_loop rev.simps
      append.simps)+

section \<open>Properties\<close>

text \<open>
  C1: the fixed-width readers. On every well-formed CBS, \<open>CBS_get_u8\<close> to
  \<open>CBS_get_u64\<close> return the big-endian value of the first bytes, the \<open>le\<close> variants
  the little-endian value, and move the CBS just past them; when the CBS is too short they
  fail and consume nothing.
\<close>

theorem CBS_get_integers:
  assumes "fits bs"
  shows "CBS_get_u8 (cbs_view bs t) =
      (if 1 \<le> length bs then (Some (of_nat (be_val (take 1 bs))), cbs_view (drop 1 bs) t)
       else (None, cbs_view bs t)) \<and>
    CBS_get_u16 (cbs_view bs t) =
      (if 2 \<le> length bs then (Some (of_nat (be_val (take 2 bs))), cbs_view (drop 2 bs) t)
       else (None, cbs_view bs t)) \<and>
    CBS_get_u24 (cbs_view bs t) =
      (if 3 \<le> length bs then (Some (of_nat (be_val (take 3 bs))), cbs_view (drop 3 bs) t)
       else (None, cbs_view bs t)) \<and>
    CBS_get_u32 (cbs_view bs t) =
      (if 4 \<le> length bs then (Some (of_nat (be_val (take 4 bs))), cbs_view (drop 4 bs) t)
       else (None, cbs_view bs t)) \<and>
    CBS_get_u64 (cbs_view bs t) =
      (if 8 \<le> length bs then (Some (of_nat (be_val (take 8 bs))), cbs_view (drop 8 bs) t)
       else (None, cbs_view bs t)) \<and>
    CBS_get_u16le (cbs_view bs t) =
      (if 2 \<le> length bs then (Some (of_nat (be_val (rev (take 2 bs)))), cbs_view (drop 2 bs) t)
       else (None, cbs_view bs t)) \<and>
    CBS_get_u32le (cbs_view bs t) =
      (if 4 \<le> length bs then (Some (of_nat (be_val (rev (take 4 bs)))), cbs_view (drop 4 bs) t)
       else (None, cbs_view bs t)) \<and>
    CBS_get_u64le (cbs_view bs t) =
      (if 8 \<le> length bs then (Some (of_nat (be_val (rev (take 8 bs)))), cbs_view (drop 8 bs) t)
       else (None, cbs_view bs t))"
proof -
  have u8: "CBS_get_u8 (cbs_view bs t) =
      (if 1 \<le> length bs then (Some (of_nat (be_val (take 1 bs))), cbs_view (drop 1 bs) t)
       else (None, cbs_view bs t))"
    using assms by (cases bs) (simp_all add: be_val_Cons)
  show ?thesis
    using assms
    by (simp add: u8 CBS_get_u16_view CBS_get_u32_view CBS_get_u24_def CBS_get_u64_def
        CBS_get_u16le_def CBS_get_u32le_def CBS_get_u64le_def step_def cbs_get_u_view
        ucast_get_u_loop get_u_loop_eq [symmetric] bswap_loops flip: ucast_get_u_loop)
qed

theorem CBS_get_integers_witness:
  "CBS_get_u16 (cbs_view [1, 2, 3] [4]) = (Some 0x0102, cbs_view [3] [4]) \<and>
   CBS_get_u16le (cbs_view [1, 2, 3] [4]) = (Some 0x0201, cbs_view [3] [4])"
  using CBS_get_integers [of "[1, 2, 3]" "[4]"] by (simp add: be_val_Cons)

lemma cbs_get_length_prefixed_view:
  assumes "fits bs" and "k \<le> 3"
  shows "cbs_get_length_prefixed (of_nat k) (cbs_view bs t) =
    (if length bs < k then (None, cbs_view bs t)
     else let n = be_val (take k bs); r = drop k bs in
       if n \<le> length r
       then (Some (cbs_view (take n r) (drop n r @ t)), cbs_view (drop n r) t)
       else (None, cbs_view r t))"
proof -
  have k: "unat (of_nat k :: size_t) = k"
    using assms(2) by (simp add: unat_of_nat)
  have n: "unat (get_u_loop 0 (take k bs)) = be_val (take k bs)"
    using assms(2) by (simp add: get_u_loop_be)
  show ?thesis
    using assms(1)
    by (simp add: cbs_get_length_prefixed_def step_def cbs_get_u_view CBS_get_bytes_view k n Let_def)
qed

text \<open>
  C2: length-prefixed byte strings. \<open>cbs_get_length_prefixed\<close> with a prefix of \<open>k\<close> bytes
  succeeds exactly when the input starts with a \<open>k\<close>-byte big-endian length and that many
  bytes; the result is the view of those bytes and the CBS continues right behind them.
\<close>

theorem CBS_get_length_prefixed_iff:
  assumes "fits bs" and "k \<le> 3"
  shows "cbs_get_length_prefixed (of_nat k) (cbs_view bs t) = (Some out, cbs') \<longleftrightarrow>
    (\<exists>xs ys. bs = be_bytes k (length xs) @ xs @ ys \<and> length xs < 256 ^ k \<and>
             out = cbs_view xs (ys @ t) \<and> cbs' = cbs_view ys t)" (is "?l \<longleftrightarrow> ?r")
proof
  assume ?l
  let ?n = "be_val (take k bs)" and ?b = "drop k bs"
  from \<open>?l\<close> assms have *: "k \<le> length bs" "?n \<le> length ?b"
    "out = cbs_view (take ?n ?b) (drop ?n ?b @ t)" "cbs' = cbs_view (drop ?n ?b) t"
    by (auto simp: cbs_get_length_prefixed_view Let_def split: if_splits)
  have "bs = take k bs @ take ?n ?b @ drop ?n ?b"
    by (simp only: append_take_drop_id)
  then have "bs = be_bytes k (length (take ?n ?b)) @ take ?n ?b @ drop ?n ?b"
    using * by (simp add: be_bytes_take min_absorb2)
  moreover have "length (take ?n ?b) < 256 ^ k"
    using be_val_less [of "take k bs"] * by (simp add: min_absorb2)
  ultimately show ?r using * by blast
next
  assume ?r
  then obtain xs ys where "bs = be_bytes k (length xs) @ xs @ ys" "length xs < 256 ^ k"
    "out = cbs_view xs (ys @ t)" "cbs' = cbs_view ys t" by blast
  with assms show ?l
    by (simp add: cbs_get_length_prefixed_view be_val_be_bytes Let_def)
qed
theorem CBS_get_length_prefixed_iff_witness:
  "cbs_get_length_prefixed (of_nat 2) (cbs_view [0, 1, 7, 9] [5]) = (Some (cbs_view [7] [9, 5]), cbs_view [9] [5])"
  by (subst CBS_get_length_prefixed_iff, simp, simp, rule exI [of _ "[7]"], rule exI [of _ "[9]"],
      simp)

end
