(* ===== verification/Asn1.thy ===== *)
theory Asn1
  imports Cbs
begin

text \<open>
  crypto/bytestring/cbs.c, second part: ASN.1. Tags, the TLV element parser for DER and
  BER, and the readers of INTEGER, BOOLEAN, BIT STRING and optional elements. The encoder
  side of the specification (\<open>der_tag\<close>, \<open>der_len\<close>, \<open>der_tlv\<close>) is stated on byte lists
  and is what the builder of cbb.c is proved to write.
\<close>

type_synonym asn1_tag = u32

definition CBS_ASN1_CONSTRUCTED :: asn1_tag where
  "CBS_ASN1_CONSTRUCTED = 0x20000000"

definition CBS_ASN1_TAG_NUMBER_MASK :: asn1_tag where
  "CBS_ASN1_TAG_NUMBER_MASK = 0x1fffffff"

definition CBS_ASN1_BOOLEAN :: asn1_tag where "CBS_ASN1_BOOLEAN = 0x1"

definition CBS_ASN1_INTEGER :: asn1_tag where "CBS_ASN1_INTEGER = 0x2"

definition CBS_ASN1_OCTETSTRING :: asn1_tag where "CBS_ASN1_OCTETSTRING = 0x4"

section \<open>Tags\<close>

lemma CBS_get_u8_less:
  assumes "CBS_get_u8 cbs = (Some b, cbs')"
  shows "unat (cbs_len cbs') < unat (cbs_len cbs)"
proof -
  from assms have "\<not> cbs_len cbs < 1" and "cbs_len cbs' = cbs_len cbs - 1"
    by (auto simp: CBS_get_u8_def step_def cbs_get_def split: if_splits)
  then have "cbs_len cbs \<noteq> 0" by auto
  with \<open>cbs_len cbs' = _\<close> show ?thesis
    by (simp add: unat_minus_one unat_gt_0)
qed

function base128_loop :: "u64 \<Rightarrow> (cbs, u64) op" where
  "base128_loop v cbs =
     (case CBS_get_u8 cbs of
        (None, cbs') \<Rightarrow> (None, cbs')
      | (Some b, cbs') \<Rightarrow>
          if drop_bit (64 - 7) v \<noteq> 0 then (None, cbs')
          else if v = 0 \<and> b = 0x80 then (None, cbs')
          else let v' = push_bit 7 v OR ucast (b AND 0x7f) in
            if b AND 0x80 \<noteq> 0 then base128_loop v' cbs' else (Some v', cbs'))"
  by pat_completeness auto
termination
  by (relation "measure (\<lambda>(v, cbs). unat (cbs_len cbs))")
    (auto dest: CBS_get_u8_less [OF sym])

declare base128_loop.simps [simp del]

definition parse_base128_integer :: "(cbs, u64) op" where
  "parse_base128_integer = base128_loop 0"

definition parse_asn1_tag :: "(cbs, asn1_tag) op" where
  "parse_asn1_tag = step CBS_get_u8 (\<lambda>tag_byte.
     let tag = push_bit 24 (ucast tag_byte AND 0xe0);
         tag_number = ucast tag_byte AND 0x1f;
         finish = (\<lambda>tag_number.
           let tag = tag OR tag_number in
           if tag AND NOT CBS_ASN1_CONSTRUCTED = 0 then fail else ret tag)
     in if tag_number = 0x1f
        then step parse_base128_integer (\<lambda>v.
               if v > ucast CBS_ASN1_TAG_NUMBER_MASK \<or> v < 0x1f then fail
               else finish (ucast v))
        else finish tag_number)"

section \<open>Elements\<close>

text \<open>
  What \<open>cbs_get_any_asn1_element\<close> writes through its out-parameters when it succeeds. The
  callers never read them after a failure.
\<close>

record element =
  el_out :: cbs
  el_tag :: asn1_tag
  el_header_len :: size_t
  el_ber_found :: bool
  el_indefinite :: bool

definition cbs_get_any_asn1_element :: "bool \<Rightarrow> (cbs, element) op" where
  "cbs_get_any_asn1_element ber_ok cbs =
     (let finish = (\<lambda>tag header_len ber_found indefinite len.
            step (CBS_get_bytes len) (\<lambda>out. ret
              \<lparr>el_out = out, el_tag = tag, el_header_len = header_len,
               el_ber_found = ber_found, el_indefinite = indefinite\<rparr>) cbs)
      in case parse_asn1_tag cbs of (None, _) \<Rightarrow> (None, cbs) | (Some tag, header) \<Rightarrow>
        (case CBS_get_u8 header of (None, _) \<Rightarrow> (None, cbs) | (Some length_byte, header) \<Rightarrow>
          let header_len = cbs_len cbs - cbs_len header in
          if length_byte AND 0x80 = 0 then
            finish tag header_len False False (ucast length_byte + header_len)
          else
            let num_bytes = (ucast (length_byte AND 0x7f) :: size_t) in
            if ber_ok \<and> tag AND CBS_ASN1_CONSTRUCTED \<noteq> 0 \<and> num_bytes = 0 then
              finish tag header_len True True header_len
            else if num_bytes = 0 \<or> num_bytes > 4 then (None, cbs)
            else
              (case cbs_get_u num_bytes header of (None, _) \<Rightarrow> (None, cbs) | (Some len64, _) \<Rightarrow>
                let short = len64 < 128;
                    padded = drop_bit ((unat num_bytes - 1) * 8) len64 = 0 in
                if (short \<or> padded) \<and> \<not> ber_ok then (None, cbs)
                else if len64 + header_len + num_bytes < len64 then (None, cbs)
                else finish tag (header_len + num_bytes) (short \<or> padded) False
                       (len64 + (header_len + num_bytes)))))"

definition CBS_get_any_asn1_element :: "(cbs, element) op" where
  "CBS_get_any_asn1_element = cbs_get_any_asn1_element False"

definition CBS_get_any_ber_asn1_element :: "(cbs, element) op" where
  "CBS_get_any_ber_asn1_element = cbs_get_any_asn1_element True"

text \<open>The skip over the header runs on the output CBS, not on the input.\<close>

definition CBS_get_any_asn1 :: "(cbs, cbs \<times> asn1_tag) op" where
  "CBS_get_any_asn1 = step CBS_get_any_asn1_element (\<lambda>el.
     case CBS_skip (el_header_len el) (el_out el) of
       (None, _) \<Rightarrow> fail
     | (Some _, out) \<Rightarrow> ret (out, el_tag el))"

definition cbs_get_asn1 :: "asn1_tag \<Rightarrow> bool \<Rightarrow> (cbs, cbs) op" where
  "cbs_get_asn1 tag_value skip_header = step CBS_get_any_asn1_element (\<lambda>el.
     if el_tag el \<noteq> tag_value then fail
     else if skip_header then
       (case CBS_skip (el_header_len el) (el_out el) of
          (None, _) \<Rightarrow> fail
        | (Some _, out) \<Rightarrow> ret out)
     else ret (el_out el))"

definition CBS_get_asn1 :: "asn1_tag \<Rightarrow> (cbs, cbs) op" where
  "CBS_get_asn1 tag_value = cbs_get_asn1 tag_value True"

definition CBS_get_asn1_element :: "asn1_tag \<Rightarrow> (cbs, cbs) op" where
  "CBS_get_asn1_element tag_value = cbs_get_asn1 tag_value False"

definition CBS_peek_asn1_tag :: "cbs \<Rightarrow> asn1_tag \<Rightarrow> bool" where
  "CBS_peek_asn1_tag cbs tag_value = (fst (parse_asn1_tag cbs) = Some tag_value)"

section \<open>Values\<close>

definition CBS_is_valid_asn1_integer :: "cbs \<Rightarrow> bool option" where
  \<comment> \<open>\<open>Some is_negative\<close> when the INTEGER is valid\<close>
  "CBS_is_valid_asn1_integer cbs =
     (case CBS_get_u8 cbs of (None, _) \<Rightarrow> None | (Some first_byte, copy) \<Rightarrow>
       let is_negative = (first_byte AND 0x80 \<noteq> 0) in
       (case CBS_get_u8 copy of (None, _) \<Rightarrow> Some is_negative | (Some second_byte, _) \<Rightarrow>
         if (first_byte = 0 \<and> second_byte AND 0x80 = 0) \<or>
            (first_byte = 0xff \<and> second_byte AND 0x80 \<noteq> 0)
         then None else Some is_negative))"

definition CBS_is_unsigned_asn1_integer :: "cbs \<Rightarrow> bool" where
  "CBS_is_unsigned_asn1_integer cbs = (CBS_is_valid_asn1_integer cbs = Some False)"

fun uint64_loop :: "u64 \<Rightarrow> u8 list \<Rightarrow> u64 option" where
  "uint64_loop out [] = Some out"
| "uint64_loop out (b # bs) =
     (if drop_bit 56 out \<noteq> 0 then None else uint64_loop (push_bit 8 out OR ucast b) bs)"

definition CBS_get_asn1_uint64 :: "(cbs, u64) op" where
  "CBS_get_asn1_uint64 = step (CBS_get_asn1 CBS_ASN1_INTEGER) (\<lambda>bytes.
     if \<not> CBS_is_unsigned_asn1_integer bytes then fail
     else case uint64_loop 0 (take (unat (cbs_len bytes)) (cbs_data bytes)) of
            None \<Rightarrow> fail | Some v \<Rightarrow> ret v)"

definition CRYPTO_load_u64_be :: "u8 list \<Rightarrow> u64" where
  \<comment> \<open>a little-endian load of eight bytes, then a byte swap\<close>
  "CRYPTO_load_u64_be p = CRYPTO_bswap8 (get_u_loop 0 (rev (take 8 p)))"

definition CBS_get_asn1_int64 :: "(cbs, 64 word) op" where
  "CBS_get_asn1_int64 = step (CBS_get_asn1 CBS_ASN1_INTEGER) (\<lambda>bytes.
     case CBS_is_valid_asn1_integer bytes of None \<Rightarrow> fail | Some is_negative \<Rightarrow>
       let len = cbs_len bytes in
       if len > 8 then fail
       else
         let sign_extend = replicate 8 (if is_negative then 0xff else 0);
             sign_extend = take (8 - unat len) sign_extend @ take (unat len) (cbs_data bytes)
         in ret (CRYPTO_load_u64_be sign_extend))"

definition CBS_get_asn1_bool :: "(cbs, bool) op" where
  "CBS_get_asn1_bool = step (CBS_get_asn1 CBS_ASN1_BOOLEAN) (\<lambda>bytes.
     if cbs_len bytes \<noteq> 1 then fail
     else let v = hd (cbs_data bytes) in
       if v \<noteq> 0 \<and> v \<noteq> 0xff then fail else ret (v \<noteq> 0))"

text \<open>\<open>None\<close> inside the result is an element that is not present.\<close>

definition CBS_get_optional_asn1 :: "asn1_tag \<Rightarrow> (cbs, cbs option) op" where
  "CBS_get_optional_asn1 tag cbs =
     (if CBS_peek_asn1_tag cbs tag
      then step (CBS_get_asn1 tag) (\<lambda>out. ret (Some out)) cbs
      else (Some None, cbs))"

definition CBS_get_optional_asn1_octet_string :: "asn1_tag \<Rightarrow> (cbs, cbs \<times> bool) op" where
  "CBS_get_optional_asn1_octet_string tag = step (CBS_get_optional_asn1 tag) (\<lambda>r.
     case r of None \<Rightarrow> ret (CBS_init [] 0, False)
     | Some child \<Rightarrow>
         (case CBS_get_asn1 CBS_ASN1_OCTETSTRING child of (None, _) \<Rightarrow> fail
          | (Some out, child) \<Rightarrow> if cbs_len child \<noteq> 0 then fail else ret (out, True)))"

definition CBS_get_optional_asn1_uint64 :: "asn1_tag \<Rightarrow> u64 \<Rightarrow> (cbs, u64) op" where
  "CBS_get_optional_asn1_uint64 tag default_value = step (CBS_get_optional_asn1 tag) (\<lambda>r.
     case r of None \<Rightarrow> ret default_value
     | Some child \<Rightarrow>
         (case CBS_get_asn1_uint64 child of (None, _) \<Rightarrow> fail
          | (Some out, child) \<Rightarrow> if cbs_len child \<noteq> 0 then fail else ret out))"

definition CBS_get_optional_asn1_bool :: "asn1_tag \<Rightarrow> int \<Rightarrow> (cbs, int) op" where
  "CBS_get_optional_asn1_bool tag default_value = step (CBS_get_optional_asn1 tag) (\<lambda>r.
     case r of None \<Rightarrow> ret default_value
     | Some child \<Rightarrow>
         (case CBS_get_asn1 CBS_ASN1_BOOLEAN child of (None, _) \<Rightarrow> fail
          | (Some child2, child) \<Rightarrow>
              if cbs_len child2 \<noteq> 1 \<or> cbs_len child \<noteq> 0 then fail
              else let boolean = hd (cbs_data child2) in
                if boolean = 0 then ret 0
                else if boolean = 0xff then ret 1
                else fail))"

definition CBS_is_valid_asn1_bitstring :: "cbs \<Rightarrow> bool" where
  "CBS_is_valid_asn1_bitstring cbs =
     (case CBS_get_u8 cbs of (None, _) \<Rightarrow> False | (Some num_unused_bits, in') \<Rightarrow>
       if num_unused_bits > 7 then False
       else if num_unused_bits = 0 then True
       else (case CBS_get_last_u8 in' of (None, _) \<Rightarrow> False
             | (Some last_byte, _) \<Rightarrow> last_byte AND (push_bit (unat num_unused_bits) 1 - 1) = 0))"

definition CBS_asn1_bitstring_has_bit :: "cbs \<Rightarrow> u32 \<Rightarrow> bool" where
  "CBS_asn1_bitstring_has_bit cbs bit_index =
     (if \<not> CBS_is_valid_asn1_bitstring cbs then False
      else let byte_num = drop_bit 3 bit_index + 1; bit_num = 7 - (bit_index AND 7) in
        (ucast byte_num :: size_t) < cbs_len cbs \<and>
        cbs_data cbs ! unat byte_num AND push_bit (unat bit_num) 1 \<noteq> 0)"

function oid_loop :: "u8 \<Rightarrow> cbs \<Rightarrow> bool" where
  "oid_loop prev copy =
     (case CBS_get_u8 copy of
        (None, _) \<Rightarrow> prev AND 0x80 = 0
      | (Some v, copy') \<Rightarrow>
          if prev AND 0x80 = 0 \<and> v = 0x80 then False else oid_loop v copy')"
  by pat_completeness auto
termination
  by (relation "measure (\<lambda>(prev, cbs). unat (cbs_len cbs))")
    (auto dest: CBS_get_u8_less [OF sym])

declare oid_loop.simps [simp del]

definition CBS_is_valid_asn1_oid :: "cbs \<Rightarrow> bool" where
  "CBS_is_valid_asn1_oid cbs = (if cbs_len cbs = 0 then False else oid_loop 0 cbs)"

section \<open>The encodings the parser accepts\<close>

fun base128_hi :: "nat \<Rightarrow> u8 list" where
  "base128_hi n = (if n = 0 then [] else base128_hi (n div 128) @ [of_nat (n mod 128 + 128)])"

declare base128_hi.simps [simp del]

definition base128 :: "nat \<Rightarrow> u8 list" where
  "base128 n = base128_hi (n div 128) @ [of_nat (n mod 128)]"

lemma base128_hi_0 [simp]: "base128_hi 0 = []"
  by (simp add: base128_hi.simps)

lemma base128_hi_step: "n \<noteq> 0 \<Longrightarrow> base128_hi n = base128_hi (n div 128) @ [of_nat (n mod 128 + 128)]"
  by (simp add: base128_hi.simps [of n])

lemma u8_and_7f: "unat (b AND 0x7f :: u8) = unat b mod 128"
proof -
  have "b AND 0x7f = b mod 128"
    using take_bit_eq_mask [of 7 b] by (simp add: take_bit_eq_mod mask_eq_exp_minus_1)
  then show ?thesis
    by (simp add: unat_mod_distrib)
qed

lemma mod_128: "128 \<le> x \<Longrightarrow> x < 256 \<Longrightarrow> x mod 128 = x - (128::nat)"
  by (simp add: le_mod_geq)

lemma odd_div_128: "x < 256 \<Longrightarrow> odd (x div 128) \<longleftrightarrow> 128 \<le> (x::nat)"
  using div_nat_eqI [of 128 1 x] by (cases "x < 128") simp_all

lemma u8_and_80: "b AND 0x80 = 0 \<longleftrightarrow> unat (b :: u8) < 128"
proof -
  have "b AND 0x80 \<noteq> 0 \<longleftrightarrow> bit b 7"
    by (simp add: bit_iff_and_push_bit_not_eq_0)
  also have "\<dots> \<longleftrightarrow> bit (unat b) 7"
    by (simp add: bit_unsigned_iff)
  also have "\<dots> \<longleftrightarrow> odd (unat b div 128)"
    by (simp add: bit_iff_odd)
  also have "\<dots> \<longleftrightarrow> 128 \<le> unat b"
    by (rule odd_div_128 [OF unat_u8_less])
  finally show ?thesis by auto
qed

lemma u8_eq_iff: "b = (c :: u8) \<longleftrightarrow> unat b = unat c"
  by (rule word_unat_eq_iff)

lemma drop_bit_57: "drop_bit 57 v = 0 \<longleftrightarrow> unat (v :: u64) < 2 ^ 57"
  by (simp add: word_unat_eq_iff unsigned_drop_bit_eq drop_bit_eq_div unat_div_distrib div_eq_0_iff)

lemma base128_step_val:
  assumes "unat (v :: u64) < 2 ^ 57"
  shows "unat (push_bit 7 v OR ucast (b AND 0x7f :: u8)) = unat v * 128 + unat b mod 128"
  using unat_push_bit_or [of v 7 "ucast (b AND 0x7f)"] assms by (simp add: u8_and_7f)

lemma base128_loop_Cons:
  assumes "fits (b # bs)"
  shows "base128_loop v (cbs_view (b # bs) t) =
    (if \<not> unat v < 2 ^ 57 \<or> (v = 0 \<and> b = 0x80) then (None, cbs_view bs t)
     else let v' = push_bit 7 v OR ucast (b AND 0x7f) in
       if 128 \<le> unat b then base128_loop v' (cbs_view bs t) else (Some v', cbs_view bs t))"
  using assms
  by (auto simp: base128_loop.simps [of v "cbs_view (b # bs) t"] u8_and_80 drop_bit_57 Let_def)

lemma base128_loop_Nil: "base128_loop v (cbs_view [] t) = (None, cbs_view [] t)"
  by (simp add: base128_loop.simps)

lemma base128_step_hi:
  assumes "n = m * 128 + unat b mod 128" and "n \<noteq> 0" and "128 \<le> unat b"
  shows "base128_hi n = base128_hi m @ [b]"
proof -
  have "unat b mod 128 + 128 = unat b"
    using assms(3) unat_u8_less [of b] by (simp add: mod_128)
  then have "of_nat (n mod 128 + 128) = b"
    using assms(1) by (simp only: mod_mult_self3 mod_mod_trivial of_nat_unat)
  moreover have "n div 128 = m" using assms(1) by simp
  ultimately show ?thesis
    using assms(2) by (simp add: base128_hi_step)
qed

lemma base128_loop_sound:
  assumes "fits bs" and "base128_loop v (cbs_view bs t) = (Some w, cbs')"
  shows "\<exists>ds ys. bs = ds @ ys \<and> cbs' = cbs_view ys t \<and> base128 (unat w) = base128_hi (unat v) @ ds"
  using assms
proof (induction bs arbitrary: v)
  case Nil
  then show ?case by (simp add: base128_loop_Nil)
next
  case (Cons b bs)
  let ?v = "push_bit 7 v OR ucast (b AND 0x7f) :: u64"
  from Cons.prems have v: "unat v < 2 ^ 57" and nz: "\<not> (v = 0 \<and> b = 0x80)"
    and r: "(if 128 \<le> unat b then base128_loop ?v (cbs_view bs t) else (Some ?v, cbs_view bs t))
            = (Some w, cbs')"
    by (auto simp: base128_loop_Cons Let_def split: if_splits)
  note val = base128_step_val [OF v, of b]
  show ?case
  proof (cases "128 \<le> unat b")
    case True
    with Cons.IH [of ?v] Cons.prems(1) r obtain ds ys where
      ds: "bs = ds @ ys" "cbs' = cbs_view ys t" "base128 (unat w) = base128_hi (unat ?v) @ ds"
      by auto
    have "unat ?v \<noteq> 0"
    proof
      assume "unat ?v = 0"
      with val have "unat v = 0" "unat b mod 128 = 0" by auto
      with True unat_u8_less [of b] have "unat b = 128" by (simp add: mod_128)
      with \<open>unat v = 0\<close> nz show False by (simp add: word_unat_eq_iff)
    qed
    then have "base128_hi (unat ?v) = base128_hi (unat v) @ [b]"
      by (rule base128_step_hi [OF val _ True])
    with ds have "b # bs = (b # ds) @ ys \<and> cbs' = cbs_view ys t \<and>
        base128 (unat w) = base128_hi (unat v) @ b # ds" by simp
    then show ?thesis by blast
  next
    case False
    with r have "w = ?v" "cbs' = cbs_view bs t" by auto
    moreover have "base128 (unat ?v) = base128_hi (unat v) @ [b]"
      using False by (simp add: base128_def val)
    ultimately have "b # bs = [b] @ bs \<and> cbs' = cbs_view bs t \<and>
        base128 (unat w) = base128_hi (unat v) @ [b]" by simp
    then show ?thesis by blast
  qed
qed

lemma base128_loop_hi:
  "n < 2 ^ 64 \<Longrightarrow> fits (base128_hi n @ ys) \<Longrightarrow>
     base128_loop 0 (cbs_view (base128_hi n @ ys) t) = base128_loop (of_nat n) (cbs_view ys t)"
proof (induction n arbitrary: ys rule: base128_hi.induct)
  case (1 n)
  show ?case
  proof (cases "n = 0")
    case True
    then show ?thesis by simp
  next
    case False
    define c :: u8 where "c = of_nat (n mod 128 + 128)"
    have c: "unat c = n mod 128 + 128"
      by (simp add: c_def unat_of_nat del: of_nat_add)
    have hi: "base128_hi n = base128_hi (n div 128) @ [c]"
      using False by (simp add: base128_hi_step c_def del: of_nat_add)
    have dv: "n div 128 < 2 ^ 57" using 1(2) by (simp add: less_mult_imp_div_less)
    have v: "unat (of_nat (n div 128) :: u64) = n div 128"
      using dv by (simp add: unat_of_nat)
    have "base128_loop 0 (cbs_view (base128_hi n @ ys) t) =
        base128_loop (of_nat (n div 128)) (cbs_view (c # ys) t)"
      using 1(1) [OF False, of "c # ys"] 1(2,3) dv by (simp add: hi)
    also have "\<dots> = base128_loop (of_nat n) (cbs_view ys t)"
    proof -
      have "\<not> (n div 128 = 0 \<and> c = 0x80)"
        using False c by (auto simp: div_eq_0_iff)
      then have nz: "\<not> (of_nat (n div 128) = (0::u64) \<and> c = 0x80)"
        using v by (metis unat_0)
      have "push_bit 7 (of_nat (n div 128)) OR ucast (c AND 0x7f) = (of_nat n :: u64)"
        using base128_step_val [of "of_nat (n div 128)" c] dv v c 1(2)
        by (simp add: word_unat_eq_iff unat_of_nat)
      then show ?thesis
        using 1(3) nz v dv c by (auto simp: base128_loop_Cons hi Let_def)
    qed
    finally show ?thesis .
  qed
qed

lemma base128_loop_complete:
  assumes "n < 2 ^ 64" and "fits (base128 n @ ys)"
  shows "base128_loop 0 (cbs_view (base128 n @ ys) t) = (Some (of_nat n), cbs_view ys t)"
proof -
  define c :: u8 where "c = of_nat (n mod 128)"
  have c: "unat c = n mod 128"
    by (simp add: c_def unat_of_nat)
  have dv: "n div 128 < 2 ^ 57" using assms(1) by (simp add: less_mult_imp_div_less)
  have v: "unat (of_nat (n div 128) :: u64) = n div 128"
    using dv by (simp add: unat_of_nat)
  have "base128_loop 0 (cbs_view (base128 n @ ys) t) =
      base128_loop (of_nat (n div 128)) (cbs_view (c # ys) t)"
    using base128_loop_hi [of "n div 128" "c # ys"] assms(2) dv by (simp add: base128_def c_def)
  also have "\<dots> = (Some (of_nat n), cbs_view ys t)"
  proof -
    have "push_bit 7 (of_nat (n div 128)) OR ucast (c AND 0x7f) = (of_nat n :: u64)"
      using base128_step_val [of "of_nat (n div 128)" c] dv v c assms(1)
      by (simp add: word_unat_eq_iff unat_of_nat)
    moreover have "c \<noteq> 0x80" using c by auto
    ultimately show ?thesis
      using assms(2) v dv c mod_less_divisor [of 128 n]
      by (simp add: base128_loop_Cons base128_def Let_def del: mod_less_divisor)
  qed
  finally show ?thesis .
qed

lemma parse_base128_iff:
  assumes "fits bs"
  shows "parse_base128_integer (cbs_view bs t) = (Some v, cbs') \<longleftrightarrow>
    (\<exists>ys. bs = base128 (unat v) @ ys \<and> cbs' = cbs_view ys t)"
proof
  assume "parse_base128_integer (cbs_view bs t) = (Some v, cbs')"
  then show "\<exists>ys. bs = base128 (unat v) @ ys \<and> cbs' = cbs_view ys t"
    using base128_loop_sound [OF assms, of 0 t v cbs'] by (auto simp: parse_base128_integer_def)
next
  assume "\<exists>ys. bs = base128 (unat v) @ ys \<and> cbs' = cbs_view ys t"
  then obtain ys where "bs = base128 (unat v) @ ys" "cbs' = cbs_view ys t" by blast
  then show "parse_base128_integer (cbs_view bs t) = (Some v, cbs')"
    using base128_loop_complete [of "unat v" ys t] unsigned_less [of v] assms
    by (simp add: parse_base128_integer_def)
qed

section \<open>Encoded tags\<close>

definition der_tag :: "asn1_tag \<Rightarrow> u8 list" where
  "der_tag tag =
     (let tag_bits = ucast (drop_bit 24 tag) AND 0xe0 :: u8;
          tag_number = tag AND CBS_ASN1_TAG_NUMBER_MASK
      in if tag_number \<ge> 0x1f then (tag_bits OR 0x1f) # base128 (unat tag_number)
         else [tag_bits OR ucast tag_number])"

text \<open>Tag [UNIVERSAL 0] is reserved and refused.\<close>

definition valid_tag :: "asn1_tag \<Rightarrow> bool" where
  "valid_tag tag \<longleftrightarrow> tag AND NOT CBS_ASN1_CONSTRUCTED \<noteq> 0"

lemma take_bit_and_mask:
  "take_bit 29 n = n AND (0x1fffffff :: 'a::len word)" "take_bit 5 n = n AND (0x1f :: 'a word)"
  by (simp_all add: take_bit_eq_mask mask_eq_exp_minus_1)

lemma le_mask_and: "n \<le> 0x1fffffff \<Longrightarrow> n AND 0x1fffffff = (n :: u32)"
  unfolding take_bit_and_mask(1) [symmetric]
  by (simp add: word_unat_eq_iff unsigned_take_bit_eq take_bit_nat_eq_self word_le_nat_alt)

lemma less_mask5_and: "unat n < 32 \<Longrightarrow> n AND 0x1f = (n :: 'a::len word)"
  unfolding take_bit_and_mask(2) [symmetric]
  by (simp add: word_unat_eq_iff unsigned_take_bit_eq take_bit_nat_eq_self)

text \<open>Every tag is put together from the leading bits of a byte and a tag number.\<close>

definition mk_tag :: "u8 \<Rightarrow> u32 \<Rightarrow> asn1_tag" where
  "mk_tag tb n = push_bit 24 (ucast tb AND 0xe0) OR n"

lemma mk_tagE:
  obtains tb n where "tag = mk_tag tb n" and "n \<le> 0x1fffffff" and "n AND 0x1fffffff = n"
proof
  show "tag = mk_tag (ucast (drop_bit 24 tag)) (tag AND 0x1fffffff)"
    unfolding mk_tag_def by (rule bit_words_eqI) (simp add: bitwise)
  show "tag AND 0x1fffffff \<le> 0x1fffffff" by (rule word_and_le1)
  show "(tag AND 0x1fffffff) AND 0x1fffffff = tag AND 0x1fffffff"
    by (simp add: and.assoc)
qed

lemma mk_tag_bits:
  "ucast (drop_bit 24 (mk_tag tb (n AND 0x1fffffff))) AND 0xe0 = tb AND (0xe0 :: u8)"
  unfolding mk_tag_def by (rule bit_words_eqI) (simp add: bitwise)

lemma mk_tag_number: "mk_tag tb (n AND 0x1fffffff) AND 0x1fffffff = n AND 0x1fffffff"
  unfolding mk_tag_def by (rule bit_words_eqI) (simp add: bitwise)

lemma mk_tag_and_e0: "mk_tag (tb AND 0xe0 OR (x AND 0x1f)) n = mk_tag tb n"
proof -
  have "(ucast (tb AND 0xe0 OR (x AND 0x1f)) AND 0xe0 :: u32) = ucast tb AND 0xe0"
    by (rule bit_words_eqI) (simp add: bitwise)
  then show ?thesis by (simp add: mk_tag_def)
qed

lemma low_bits_tag:
  "ucast (tb AND 0xe0 OR (x AND 0x1f) :: u8) AND 0x1f = (ucast (x AND 0x1f) :: u32)"
  by (rule bit_words_eqI) (simp add: bitwise)

lemma tag_byte_split:
  "(tb AND 0xe0) OR (tb AND 0x1f) = (tb :: u8)"
  "ucast (ucast (tb :: u8) AND (0x1f :: u32)) = tb AND 0x1f"
  "(ucast (tb :: u8) AND 0x1f) AND 0x1fffffff = (ucast tb AND 0x1f :: u32)"
  by (rule bit_words_eqI, simp add: bitwise)+

lemma der_tag_mk_tag:
  assumes "n AND 0x1fffffff = n"
  shows "der_tag (mk_tag tb n) =
    (if n \<ge> 0x1f then ((tb AND 0xe0) OR 0x1f) # base128 (unat n) else [(tb AND 0xe0) OR ucast n])"
  using mk_tag_bits [of tb n] mk_tag_number [of tb n] assms
  by (simp add: der_tag_def CBS_ASN1_TAG_NUMBER_MASK_def Let_def)

lemma parse_asn1_tag_Cons:
  assumes "fits (tb # bs)"
  shows "parse_asn1_tag (cbs_view (tb # bs) t) =
    (let low = ucast tb AND 0x1f :: u32 in
     if low = 0x1f then
       (case parse_base128_integer (cbs_view bs t) of (None, c) \<Rightarrow> (None, c)
        | (Some v, c) \<Rightarrow>
            if v > 0x1fffffff \<or> v < 0x1f \<or> \<not> valid_tag (mk_tag tb (ucast v)) then (None, c)
            else (Some (mk_tag tb (ucast v)), c))
     else if valid_tag (mk_tag tb low) then (Some (mk_tag tb low), cbs_view bs t)
     else (None, cbs_view bs t))"
  using assms
  by (auto simp: parse_asn1_tag_def step_def Let_def valid_tag_def mk_tag_def
      CBS_ASN1_TAG_NUMBER_MASK_def split: prod.splits option.splits)

lemma parse_asn1_tag_Nil [simp]: "parse_asn1_tag (cbs_view [] t) = (None, cbs_view [] t)"
  by (simp add: parse_asn1_tag_def step_def)

lemma low_less: "ucast (tb :: u8) AND 0x1f \<noteq> (0x1f :: u32) \<Longrightarrow> ucast tb AND 0x1f < (0x1f :: u32)"
  using word_and_le1 [of "ucast tb" "0x1f :: u32"] by (simp add: order_le_less)

lemma ucast_number:
  "v \<le> 0x1fffffff \<Longrightarrow> unat (ucast (v :: u64) :: u32) = unat v"
  by (simp add: unsigned_ucast_eq take_bit_nat_eq_self_iff word_le_nat_alt)

lemma parse_asn1_tag_sound:
  assumes "fits bs" and "parse_asn1_tag (cbs_view bs t) = (Some tag, cbs')"
  shows "valid_tag tag \<and> (\<exists>ys. bs = der_tag tag @ ys \<and> cbs' = cbs_view ys t)"
proof (cases bs)
  case Nil
  with assms show ?thesis by simp
next
  case (Cons tb r)
  let ?low = "ucast tb AND 0x1f :: u32"
  show ?thesis
  proof (cases "?low = 0x1f")
    case True
    obtain res c where p: "parse_base128_integer (cbs_view r t) = (res, c)"
      by (cases "parse_base128_integer (cbs_view r t)")
    have "res \<noteq> None"
      using assms by (intro notI) (simp add: Cons parse_asn1_tag_Cons Let_def True p)
    then obtain v where "res = Some v" by blast
    with assms True p Cons have v: "parse_base128_integer (cbs_view r t) = (Some v, cbs')"
      "v \<le> 0x1fffffff" "0x1f \<le> v" and tag: "valid_tag tag" "tag = mk_tag tb (ucast v)"
      by (simp_all add: parse_asn1_tag_Cons Let_def not_less split: if_splits)
    have u: "unat (ucast v :: u32) = unat v" by (rule ucast_number) fact
    with v have n: "(ucast v :: u32) \<le> 0x1fffffff" "0x1f \<le> (ucast v :: u32)"
      by (simp_all add: word_le_nat_alt)
    have "(tb AND 0xe0) OR 0x1f = tb"
      using tag_byte_split(1,2) [of tb] True by simp
    then have "der_tag tag = tb # base128 (unat v)"
      using n u tag by (simp add: der_tag_mk_tag le_mask_and)
    moreover from v(1) assms Cons obtain ys where "r = base128 (unat v) @ ys" "cbs' = cbs_view ys t"
      by (auto simp: parse_base128_iff)
    ultimately show ?thesis using Cons tag by simp
  next
    case False
    with assms Cons have "valid_tag tag" "tag = mk_tag tb ?low" "cbs' = cbs_view r t"
      by (auto simp: parse_asn1_tag_Cons Let_def split: if_splits)
    moreover have "der_tag (mk_tag tb ?low) = [tb]"
      using low_less [OF False] tag_byte_split [of tb]
      by (simp add: der_tag_mk_tag not_le [symmetric])
    ultimately show ?thesis using Cons by simp
  qed
qed

lemma parse_asn1_tag_complete:
  assumes "valid_tag tag" and "fits (der_tag tag @ ys)"
  shows "parse_asn1_tag (cbs_view (der_tag tag @ ys) t) = (Some tag, cbs_view ys t)"
proof -
  obtain tb n where tag: "tag = mk_tag tb n" and n: "n \<le> 0x1fffffff" "n AND 0x1fffffff = n"
    by (rule mk_tagE)
  show ?thesis
  proof (cases "n \<ge> 0x1f")
    case True
    let ?tb = "(tb AND 0xe0) OR 0x1f"
    define v :: u64 where "v = ucast n"
    have uv: "unat v = unat n" by (simp add: v_def unat_ucast_up)
    then have v: "v \<le> 0x1fffffff" "0x1f \<le> v" "ucast v = n"
      using n True by (simp_all add: word_le_nat_alt word_unat_eq_iff ucast_number)
    have "parse_base128_integer (cbs_view (base128 (unat n) @ ys) t) = (Some v, cbs_view ys t)"
      using assms(2) n(2) True tag uv by (simp add: parse_base128_iff der_tag_mk_tag)
    moreover have "ucast ?tb AND 0x1f = (0x1f :: u32)" "mk_tag ?tb n = tag"
      using low_bits_tag [of tb "0x1f"] mk_tag_and_e0 [of tb "0x1f" n] tag by simp_all
    ultimately show ?thesis
      using assms True n tag v by (simp add: der_tag_mk_tag parse_asn1_tag_Cons not_less)
  next
    case False
    let ?tb = "(tb AND 0xe0) OR ucast n"
    from False have lt: "unat n < 31" by (simp add: word_less_nat_alt not_le)
    then have u: "unat (ucast n :: u8) = unat n"
      by (simp add: unsigned_ucast_eq take_bit_nat_eq_self)
    have un: "ucast n AND 0x1f = (ucast n :: u8)" "ucast (ucast n :: u8) = n"
      using lt u by (simp_all add: less_mask5_and word_unat_eq_iff [of _ n])
    have "ucast ?tb AND 0x1f = n" "mk_tag ?tb n = tag"
      using low_bits_tag [of tb "ucast n"] mk_tag_and_e0 [of tb "ucast n" n] tag un by simp_all
    moreover have "n \<noteq> 0x1f" using False by auto
    ultimately show ?thesis
      using assms False n tag by (simp add: der_tag_mk_tag parse_asn1_tag_Cons Let_def)
  qed
qed

lemma length_base128_hi: "n < 128 ^ k \<Longrightarrow> length (base128_hi n) \<le> k"
proof (induction k arbitrary: n)
  case 0
  then show ?case by simp
next
  case (Suc k)
  then have "n div 128 < 128 ^ k" by (simp add: less_mult_imp_div_less mult.commute)
  with Suc.IH show ?case by (cases "n = 0") (simp_all add: base128_hi_step)
qed

lemma length_der_tag: "length (der_tag tag) \<le> 6" "der_tag tag \<noteq> []"
proof -
  let ?n = "tag AND CBS_ASN1_TAG_NUMBER_MASK"
  have "?n \<le> 0x1fffffff"
    unfolding CBS_ASN1_TAG_NUMBER_MASK_def by (rule word_and_le1)
  then have "unat ?n div 128 < 128 ^ 4"
    by (simp add: word_le_nat_alt less_mult_imp_div_less)
  then have "length (base128_hi (unat ?n div 128)) \<le> 4" by (rule length_base128_hi)
  then show "length (der_tag tag) \<le> 6"
    by (simp add: der_tag_def base128_def Let_def)
  show "der_tag tag \<noteq> []" by (simp add: der_tag_def Let_def)
qed

definition len_len :: "nat \<Rightarrow> nat" where
  "len_len n = (if n \<le> 0xff then 1 else if n \<le> 0xffff then 2 else if n \<le> 0xffffff then 3 else 4)"

definition der_len :: "nat \<Rightarrow> u8 list" where
  "der_len n = (if n < 0x80 then [of_nat n] else of_nat (0x80 + len_len n) # be_bytes (len_len n) n)"

definition der_tlv :: "asn1_tag \<Rightarrow> u8 list \<Rightarrow> u8 list" where
  "der_tlv tag body = der_tag tag @ der_len (length body) @ body"

text \<open>What the element parser returns once it knows the header and the tot length.\<close>

definition el_result ::
  "u8 list \<Rightarrow> u8 list \<Rightarrow> asn1_tag \<Rightarrow> nat \<Rightarrow> bool \<Rightarrow> bool \<Rightarrow> nat \<Rightarrow> element option \<times> cbs" where
  "el_result bs t tag h ber ind tot =
     (if tot \<le> length bs
      then (Some \<lparr>el_out = cbs_view (take tot bs) (drop tot bs @ t), el_tag = tag,
                  el_header_len = of_nat h, el_ber_found = ber, el_indefinite = ind\<rparr>,
            cbs_view (drop tot bs) t)
      else (None, cbs_view bs t))"

lemma get_element_bytes:
  assumes "fits bs" and "unat len = tot" and "hl = of_nat h"
  shows "step (CBS_get_bytes len) (\<lambda>out. ret
      \<lparr>el_out = out, el_tag = tag, el_header_len = hl,
       el_ber_found = ber, el_indefinite = ind\<rparr>) (cbs_view bs t) =
    el_result bs t tag h ber ind tot"
  using assms by (simp add: el_result_def step_def CBS_get_bytes_view)

lemma cbs_len_diff:
  "cbs_len (cbs_view (xs @ ys) t) - cbs_len (cbs_view ys t') = of_nat (length xs)"
  by simp

lemma u8_length_byte: "128 \<le> unat (b :: u8) \<Longrightarrow> unat (ucast (b AND 0x7f) :: size_t) = unat b - 128"
  using unat_u8_less [of b] by (simp add: u8_and_7f mod_128)

lemma drop_bit_0_iff: "drop_bit n v = 0 \<longleftrightarrow> unat (v :: 'a::len word) < 2 ^ n"
proof -
  have "unat (drop_bit n v) = unat v div 2 ^ n"
    by (simp only: unsigned_drop_bit_eq take_bit_nat_eq_self unsigned_less flip: drop_bit_eq_div)
  then show ?thesis
    by (simp only: word_unat_eq_iff unat_0 div_eq_0_iff) simp
qed
lemma drop_bit_len: "drop_bit ((k - 1) * 8) (v :: u64) = 0 \<longleftrightarrow> unat v < 256 ^ (k - 1)"
proof -
  have "(256::nat) ^ (k - 1) = 2 ^ ((k - 1) * 8)"
    by (simp only: mult.commute [of _ 8] power_mult) simp
  then show ?thesis by (simp only: drop_bit_0_iff)
qed

lemma get_element_view:
  assumes "fits bs" and bs: "bs = der_tag tag @ b # r" and "valid_tag tag"
  shows "cbs_get_any_asn1_element ber_ok (cbs_view bs t) =
    (let h = length (der_tag tag) + 1; k = unat b - 128; n = be_val (take k r) in
     if unat b < 128 then el_result bs t tag h False False (unat b + h)
     else if ber_ok \<and> tag AND CBS_ASN1_CONSTRUCTED \<noteq> 0 \<and> k = 0 then
       el_result bs t tag h True True h
     else if k = 0 \<or> k > 4 \<or> length r < k then (None, cbs_view bs t)
     else if (n < 128 \<or> n < 256 ^ (k - 1)) \<and> \<not> ber_ok then (None, cbs_view bs t)
     else el_result bs t tag (h + k) (n < 128 \<or> n < 256 ^ (k - 1)) False (n + h + k))"
proof -
  define h where "h = length (der_tag tag) + 1"
  have h: "h \<le> 7" using length_der_tag [of tag] by (simp add: h_def)
  have hh: "unat (of_nat h :: size_t) = h" using h by (intro unat_of_nat_size) simp
  have p: "parse_asn1_tag (cbs_view bs t) = (Some tag, cbs_view (b # r) t)"
    using parse_asn1_tag_complete [OF assms(3), of "b # r" t] assms(1) bs by simp
  have g: "CBS_get_u8 (cbs_view (b # r) t) = (Some b, cbs_view r t)"
    using assms(1) bs by simp
  have hl: "cbs_len (cbs_view bs t) - cbs_len (cbs_view r t) = of_nat h"
    using bs cbs_len_diff [of "der_tag tag @ [b]" r t t] by (simp add: h_def)
  show ?thesis
  proof (cases "unat b < 128")
    case True
    have "unat (ucast b + of_nat h :: size_t) = unat b + h"
      using True h hh by (simp add: unat_word_ariths del: of_nat_add of_nat_Suc)
    with True show ?thesis
      unfolding h_def [symmetric]
      by (simp only: cbs_get_any_asn1_element_def p g hl u8_and_80 Let_def prod.case option.case
          if_True get_element_bytes [OF assms(1)])
  next
    case False
    then have b: "128 \<le> unat b" by simp
    let ?k = "unat b - 128" and ?nb = "ucast (b AND 0x7f) :: size_t"
    note nb = u8_length_byte [OF b]
    have k0: "?nb = 0 \<longleftrightarrow> ?k = 0" using nb by (metis unat_eq_zero)
    have k4: "?nb > 4 \<longleftrightarrow> ?k > 4" using nb by (simp add: word_less_nat_alt)
    have r: "fits r" using assms(1) bs by simp
    have u: "cbs_get_u ?nb (cbs_view r t) = (if ?k \<le> length r
        then (Some (get_u_loop 0 (take ?k r)), cbs_view (drop ?k r) t) else (None, cbs_view r t))"
      by (simp only: cbs_get_u_view [OF r] nb)
    show ?thesis
    proof (cases "?k = 0 \<or> ?k > 4 \<or> length r < ?k")
      case True
      with b k0 k4 u hh show ?thesis
        unfolding h_def [symmetric]
        by (auto simp: cbs_get_any_asn1_element_def p g hl u8_and_80 Let_def
            get_element_bytes [OF assms(1) hh refl] simp del: cbs_len_view)
    next
      case False
      then have k: "?k \<noteq> 0" "?k \<le> 4" "?k \<le> length r" by auto
      let ?l = "get_u_loop 0 (take ?k r)" and ?n = "be_val (take ?k r)"
      have l: "unat ?l = ?n" using k by (simp add: get_u_loop_be)
      have "?n < 256 ^ ?k" using be_val_less [of "take ?k r"] k by simp
      also have "\<dots> \<le> 256 ^ 4" using k by (intro power_increasing) auto
      finally have n: "?n < 256 ^ 4" .
      have t1: "unat (?l + (of_nat h + ?nb)) = ?n + h + ?k"
        using n h k l nb hh by (simp add: unat_word_ariths add.assoc del: of_nat_add)
      have t2: "\<not> ?l + of_nat h + ?nb < ?l"
        using t1 l by (simp add: word_less_nat_alt add.assoc del: of_nat_add)
      have t3: "of_nat h + ?nb = of_nat (h + ?k)"
        using nb by (metis of_nat_add of_nat_unat)
      have d: "drop_bit ((?k - 1) * 8) ?l = 0 \<longleftrightarrow> ?n < 256 ^ (?k - 1)"
        using drop_bit_len [of ?k ?l] l by simp
      have nb': "unat (b AND 0x7f) = ?k" using nb by simp
      have s: "?l < 128 \<longleftrightarrow> ?n < 128" using l by (simp add: word_less_nat_alt)
      show ?thesis
        using b k k0 k4 d unfolding h_def [symmetric]
        by (simp add: cbs_get_any_asn1_element_def p g hl u8_and_80 Let_def u s t2 nb'
            get_element_bytes [OF assms(1) t1 t3] del: of_nat_add cbs_len_view)
    qed
  qed
qed

lemma get_element_SomeD:
  assumes "fits bs" and "cbs_get_any_asn1_element ber_ok (cbs_view bs t) = (Some el, cbs')"
  obtains tag b r where "bs = der_tag tag @ b # r" and "valid_tag tag"
proof -
  obtain res c where p: "parse_asn1_tag (cbs_view bs t) = (res, c)"
    by (cases "parse_asn1_tag (cbs_view bs t)")
  with assms(2) obtain tag where "res = Some tag"
    by (cases res) (simp_all add: cbs_get_any_asn1_element_def)
  with p parse_asn1_tag_sound [OF assms(1)] obtain ys where
    ys: "valid_tag tag" "bs = der_tag tag @ ys" "c = cbs_view ys t" by blast
  have "ys \<noteq> []"
    using assms(2) p \<open>res = _\<close> ys by (auto simp: cbs_get_any_asn1_element_def)
  with ys that show thesis by (cases ys) auto
qed

lemma len_len_unique:
  assumes "128 \<le> n" and "256 ^ (k - 1) \<le> n" and "n < 256 ^ k" and "1 \<le> k" and "k \<le> 4"
  shows "len_len n = k"
proof -
  from assms(4,5) have "k = 1 \<or> k = 2 \<or> k = 3 \<or> k = 4" by auto
  with assms(1,2,3) show ?thesis by (auto simp: len_len_def)
qed

lemma len_len_bounds:
  assumes "128 \<le> n" and "n < 256 ^ 4"
  shows "256 ^ (len_len n - 1) \<le> n" and "n < 256 ^ len_len n" and "1 \<le> len_len n"
    and "len_len n \<le> 4"
  using assms by (auto simp: len_len_def)

lemma der_len_short: "unat b < 128 \<Longrightarrow> der_len (unat b) = [b]"
  by (simp add: der_len_def)

lemma der_len_long:
  assumes "128 < unat b" and "unat b \<le> 132" and "length ls = unat b - 128"
    and "128 \<le> be_val ls" and "256 ^ (unat b - 128 - 1) \<le> be_val ls"
  shows "der_len (be_val ls) = b # ls"
proof -
  have "be_val ls < 256 ^ (unat b - 128)" using be_val_less [of ls] assms(3) by simp
  then have k: "len_len (be_val ls) = unat b - 128"
    using assms by (intro len_len_unique) auto
  have "of_nat (0x80 + (unat b - 128)) = b" using assms(1) by simp
  then show ?thesis
    using assms(4) k be_bytes_be_val [of ls] assms(3) by (simp add: der_len_def del: of_nat_add)
qed

lemma der_len_Cons:
  assumes "n < 256 ^ 4"
  obtains (short) b where "unat b = n" "n < 128" "der_len n = [b]"
  | (long) b ls where "der_len n = b # ls" "128 < unat b" "unat b \<le> 132"
      "length ls = unat b - 128" "be_val ls = n" "128 \<le> n" "256 ^ (unat b - 128 - 1) \<le> n"
proof (cases "n < 128")
  case True
  then show ?thesis by (intro short [of "of_nat n"]) (simp_all add: der_len_def)
next
  case False
  then have n: "128 \<le> n" by simp
  note k = len_len_bounds [OF this assms]
  define b :: u8 where "b = of_nat (0x80 + len_len n)"
  have b: "unat b = 128 + len_len n" using k by (simp add: b_def del: of_nat_add)
  show ?thesis
  proof (rule long [of b "be_bytes (len_len n) n"])
    show "der_len n = b # be_bytes (len_len n) n"
      using n by (simp add: der_len_def b_def)
  qed (use b k n in \<open>simp_all add: be_val_be_bytes\<close>)
qed

definition der_element :: "asn1_tag \<Rightarrow> u8 list \<Rightarrow> u8 list \<Rightarrow> element" where
  "der_element tag body t = \<lparr>el_out = cbs_view (der_tlv tag body) t, el_tag = tag,
     el_header_len = of_nat (length (der_tag tag @ der_len (length body))),
     el_ber_found = False, el_indefinite = False\<rparr>"

lemma el_result_tlv:
  assumes "bs = der_tlv tag body @ ys"
    and "h = length (der_tag tag @ der_len (length body))"
    and "n = length (der_tlv tag body)"
  shows "el_result bs t tag h False False n =
    (Some (der_element tag body (ys @ t)), cbs_view ys t)"
  using assms by (simp add: el_result_def der_element_def)

lemma get_any_asn1_element_complete:
  assumes "fits bs" and bs: "bs = der_tlv tag body @ ys" and "valid_tag tag"
    and "length body < 256 ^ 4"
  shows "CBS_get_any_asn1_element (cbs_view bs t) =
    (Some (der_element tag body (ys @ t)), cbs_view ys t)"
  using assms(4)
proof (cases rule: der_len_Cons)
  case (short b)
  have "bs = der_tag tag @ b # body @ ys" using bs short by (simp add: der_tlv_def)
  note v = get_element_view [OF assms(1) this assms(3), of False t]
  show ?thesis
    using short bs unfolding CBS_get_any_asn1_element_def v
    by (simp add: el_result_tlv [where ys = ys] der_tlv_def Let_def)
next
  case (long b ls)
  have "bs = der_tag tag @ b # ls @ body @ ys" using bs long by (simp add: der_tlv_def)
  note v = get_element_view [OF assms(1) this assms(3), of False t]
  show ?thesis
    using long bs unfolding CBS_get_any_asn1_element_def v
    by (simp add: not_less le_diff_conv el_result_tlv [where ys = ys] der_tlv_def Let_def)
qed

lemma get_any_asn1_element_sound:
  assumes "fits bs" and "CBS_get_any_asn1_element (cbs_view bs t) = (Some el, cbs')"
  obtains tag body ys where "bs = der_tlv tag body @ ys" and "valid_tag tag"
    and "length body < 256 ^ 4" and "el = der_element tag body (ys @ t)"
    and "cbs' = cbs_view ys t"
proof -
  note result = that
  obtain tag b r where bs: "bs = der_tag tag @ b # r" and tag: "valid_tag tag"
    by (rule get_element_SomeD [OF assms [unfolded CBS_get_any_asn1_element_def]])
  have *: thesis if "r = ls @ body @ ys" "der_len (length body) = b # ls" "length body < 256 ^ 4"
    for ls body ys
  proof (rule result)
    show eq: "bs = der_tlv tag body @ ys" using bs that by (simp add: der_tlv_def)
    from get_any_asn1_element_complete [OF assms(1) eq tag that(3)] assms(2)
    show "el = der_element tag body (ys @ t)" "cbs' = cbs_view ys t" by auto
  qed (use tag that in auto)
  note v = get_element_view [OF assms(1) bs tag, of False t]
  show thesis
  proof (cases "unat b < 128")
    case True
    with assms(2) v have "unat b + (length (der_tag tag) + 1) \<le> length bs"
      by (simp add: CBS_get_any_asn1_element_def el_result_def split: if_splits)
    with bs have len: "unat b \<le> length r" by simp
    show thesis
      by (rule * [of "[]" "take (unat b) r" "drop (unat b) r"])
        (use True len in \<open>simp_all add: der_len_short\<close>)
  next
    case False
    let ?k = "unat b - 128" and ?n = "be_val (take (unat b - 128) r)"
    have k: "?k \<noteq> 0" "?k \<le> 4" "?k \<le> length r" "128 \<le> ?n" "256 ^ (?k - 1) \<le> ?n"
      and t: "?n + (length (der_tag tag) + 1) + ?k \<le> length bs"
      using assms(2) v False
      by (simp_all add: CBS_get_any_asn1_element_def el_result_def Let_def not_less
          split: if_splits)
    let ?r = "drop ?k r"
    from t bs k have len: "?n \<le> length ?r" by simp
    have n: "?n < 256 ^ 4"
      using be_val_less [of "take ?k r"] k power_increasing [of ?k 4 "256 :: nat"] by simp
    show thesis
    proof (rule * [of "take ?k r" "take ?n ?r" "drop ?n ?r"])
      show "r = take ?k r @ take ?n ?r @ drop ?n ?r"
        by (simp only: append_take_drop_id)
      show "der_len (length (take ?n ?r)) = b # take ?k r"
        using der_len_long [of b "take ?k r"] k len by simp
      show "length (take ?n ?r) < 256 ^ 4" using len n by simp
    qed
  qed
qed

text \<open>
  C3: DER elements. \<open>CBS_get_any_asn1_element\<close> accepts exactly the DER encodings: it
  succeeds if and only if the input starts with the encoding of some valid tag and a body
  shorter than 2^32 bytes, with the tag in its shortest form and the length in its shortest
  form; then the element is that encoding, the header length is that of tag and length, and
  the CBS continues right behind it. On failure the CBS is where it was.
\<close>

theorem CBS_get_any_asn1_element_der:
  assumes "fits bs"
  shows "CBS_get_any_asn1_element (cbs_view bs t) = (Some el, cbs') \<longleftrightarrow>
    (\<exists>tag body ys. bs = der_tlv tag body @ ys \<and> valid_tag tag \<and> length body < 256 ^ 4 \<and>
       el = der_element tag body (ys @ t) \<and> cbs' = cbs_view ys t)"
  using get_any_asn1_element_complete [OF assms] get_any_asn1_element_sound [OF assms]
  by (metis (no_types, lifting) fst_conv snd_conv)

theorem CBS_get_any_asn1_element_der_witness:
  "CBS_get_any_asn1_element (cbs_view [4, 2, 7, 8, 9] []) =
     (Some (der_element 4 [7, 8] [9]), cbs_view [9] [])"
proof -
  have "[4, 2, 7, 8, 9] = der_tlv 4 [7, 8] @ [9]"
    by (simp add: der_tlv_def der_tag_def der_len_def CBS_ASN1_TAG_NUMBER_MASK_def)
  moreover have "valid_tag 4" by (simp add: valid_tag_def CBS_ASN1_CONSTRUCTED_def)
  ultimately show ?thesis
    by (subst CBS_get_any_asn1_element_der)
      (simp, rule exI [of _ 4], rule exI [of _ "[7, 8]"], rule exI [of _ "[9]"], simp)
qed

end
