(* ===== verification/Cbb.thy ===== *)
theory Cbb
  imports Mem Asn1
begin

text \<open>
  The builder of crypto/bytestring/cbb.c. A top-level CBB owns the buffer; its open children
  form a chain, because a CBB has at most one pending child. The state is the buffer and
  that chain, outermost child first, and a \<open>CBB *\<close> is a depth in it: 0 is the top-level
  CBB, \<open>n + 1\<close> the child of CBB \<open>n\<close>. So \<open>cbb->child == NULL\<close> says that the chain
  ends at \<open>n\<close>, and a CBB whose \<open>base\<close> pointer the code has cleared is a depth beyond the
  end of the chain. The allocator is the parameter \<open>A\<close>: whether a request of that size is
  served.
\<close>

section \<open>State\<close>

record cbb_child =
  child_offset :: size_t
  pending_len_len :: u8
  pending_is_asn1 :: bool

record cbb =
  cbb_buf :: "u8 list"
  cbb_len :: size_t
  cbb_cap :: size_t
  can_resize :: bool
  cbb_error :: bool
  cbb_children :: "cbb_child list"

type_synonym alloc = "size_t \<Rightarrow> bool"

definition CBB_zero :: cbb where
  "CBB_zero = \<lparr>cbb_buf = [], cbb_len = 0, cbb_cap = 0, can_resize = False, cbb_error = False,
     cbb_children = []\<rparr>"

definition cbb_init :: "u8 list \<Rightarrow> size_t \<Rightarrow> bool \<Rightarrow> cbb" where
  "cbb_init buf cap resize = \<lparr>cbb_buf = buf, cbb_len = 0, cbb_cap = cap, can_resize = resize,
     cbb_error = False, cbb_children = []\<rparr>"

definition CBB_init :: "alloc \<Rightarrow> size_t \<Rightarrow> unit option \<times> cbb" where
  "CBB_init A initial_capacity =
     (if initial_capacity > 0 \<and> \<not> A initial_capacity then (None, CBB_zero)
      else (Some (), cbb_init (replicate (unat initial_capacity) 0) initial_capacity True))"

definition CBB_init_fixed :: "u8 list \<Rightarrow> size_t \<Rightarrow> unit option \<times> cbb" where
  "CBB_init_fixed buf len = (Some (), cbb_init buf len False)"

text \<open>Freed memory is memory of no bytes.\<close>

definition CBB_cleanup :: "nat \<Rightarrow> cbb \<Rightarrow> cbb" where
  "CBB_cleanup n s = (if n > 0 then s else if can_resize s then s\<lparr>cbb_buf := []\<rparr> else s)"

section \<open>The buffer\<close>

definition base_is_null :: "nat \<Rightarrow> cbb \<Rightarrow> bool" where
  "base_is_null n s = (n > length (cbb_children s))"

definition has_child :: "nat \<Rightarrow> cbb \<Rightarrow> bool" where
  "has_child n s = (n < length (cbb_children s))"

text \<open>The result of \<open>cbb_buffer_reserve\<close> is the index of \<open>*out\<close> in the buffer.\<close>

definition cbb_buffer_reserve :: "alloc \<Rightarrow> nat \<Rightarrow> size_t \<Rightarrow> (cbb, size_t) op" where
  "cbb_buffer_reserve A n len s =
     (if base_is_null n s then (None, s)
      else
        let newlen = cbb_len s + len; err = (None, s\<lparr>cbb_error := True\<rparr>) in
        if newlen < cbb_len s then err
        else if newlen > cbb_cap s then
          if \<not> can_resize s then err
          else
            let newcap = cbb_cap s * 2;
                newcap = (if newcap < cbb_cap s \<or> newcap < newlen then newlen else newcap)
            in case OPENSSL_realloc A (cbb_buf s) newcap of
                 None \<Rightarrow> err
               | Some newbuf \<Rightarrow> (Some (cbb_len s), s\<lparr>cbb_buf := newbuf, cbb_cap := newcap\<rparr>)
        else (Some (cbb_len s), s))"

definition cbb_buffer_add :: "alloc \<Rightarrow> nat \<Rightarrow> size_t \<Rightarrow> (cbb, size_t) op" where
  "cbb_buffer_add A n len s =
     (case cbb_buffer_reserve A n len s of
        (None, s') \<Rightarrow> (None, s')
      | (Some out, s') \<Rightarrow> (Some out, s'\<lparr>cbb_len := cbb_len s' + len\<rparr>))"

definition cbb_on_error :: "nat \<Rightarrow> cbb \<Rightarrow> cbb" where
  "cbb_on_error n s = s\<lparr>cbb_error := True, cbb_children := take n (cbb_children s)\<rparr>"

text \<open>\<open>memcpy\<close> and \<open>memset\<close> into the buffer, and the big-endian loop of
  \<open>CBB_flush\<close> and \<open>cbb_add_u\<close>, which returns what is left of the value.\<close>

definition write_at :: "u8 list \<Rightarrow> nat \<Rightarrow> u8 list \<Rightarrow> u8 list" where
  "write_at buf i bs = take i buf @ bs @ drop (i + length bs) buf"

fun put_be_loop :: "nat \<Rightarrow> nat \<Rightarrow> u64 \<Rightarrow> u8 list \<Rightarrow> u8 list \<times> u64" where
  "put_be_loop i 0 v buf = (buf, v)"
| "put_be_loop i (Suc k) v buf = put_be_loop i k (drop_bit 8 v) (buf[i + k := ucast v])"

section \<open>Flushing\<close>

text \<open>
  \<open>put_length\<close> is the end of \<open>CBB_flush\<close>, \<open>close_child\<close> what it does after the
  recursive call; a failure stands for \<open>goto err\<close>, whose code is in \<open>CBB_flush\<close>.
\<close>

definition put_length :: "nat \<Rightarrow> size_t \<Rightarrow> u8 \<Rightarrow> size_t \<Rightarrow> (cbb, unit) op" where
  "put_length n offset pll len s =
     (let (buf, len) = put_be_loop (unat offset) (unat pll) len (cbb_buf s);
          s = s\<lparr>cbb_buf := buf\<rparr>
      in if len \<noteq> 0 then (None, s)
         else (Some (), s\<lparr>cbb_children := take n (cbb_children s)\<rparr>))"

definition asn1_length :: "size_t \<Rightarrow> u8 \<times> u8 \<times> size_t" where
  \<comment> \<open>\<open>len_len\<close>, \<open>initial_length_byte\<close> and what is left of \<open>len\<close>\<close>
  "asn1_length len =
     (if len > 0xffffff then (5, 0x80 OR 4, len)
      else if len > 0xffff then (4, 0x80 OR 3, len)
      else if len > 0xff then (3, 0x80 OR 2, len)
      else if len > 0x7f then (2, 0x80 OR 1, len)
      else (1, ucast len, 0))"

definition move_contents :: "alloc \<Rightarrow> nat \<Rightarrow> size_t \<Rightarrow> u8 \<Rightarrow> size_t \<Rightarrow> (cbb, unit) op" where
  "move_contents A n child_start ll len =
     (if ll \<noteq> 1 then
        let extra_bytes = ucast ll - 1 in
        step (cbb_buffer_add A n extra_bytes) (\<lambda>_ s.
          (Some (), s\<lparr>cbb_buf := write_at (cbb_buf s) (unat (child_start + extra_bytes))
             (take (unat len) (drop (unat child_start) (cbb_buf s)))\<rparr>))
      else ret ())"

definition close_child :: "alloc \<Rightarrow> nat \<Rightarrow> cbb_child \<Rightarrow> (cbb, unit) op" where
  "close_child A n child s =
     (let child_start = child_offset child + ucast (pending_len_len child) in
      if child_start < child_offset child \<or> cbb_len s < child_start then (None, s)
      else
        let len = cbb_len s - child_start in
        if pending_is_asn1 child then
          if len > 0xfffffffe then (None, s)
          else
            let (ll, initial_length_byte, len) = asn1_length len in
            step (move_contents A n child_start ll len) (\<lambda>_ s.
              put_length n (child_offset child + 1) (ll - 1) len
                (s\<lparr>cbb_buf := (cbb_buf s)[unat (child_offset child) := initial_length_byte]\<rparr>)) s
        else put_length n (child_offset child) (pending_len_len child) len s)"

function CBB_flush :: "alloc \<Rightarrow> nat \<Rightarrow> (cbb, unit) op" where
  "CBB_flush A n s =
     (if base_is_null n s \<or> cbb_error s then (None, s)
      else if \<not> has_child n s then (Some (), s)
      else
        case (case CBB_flush A (Suc n) s of (None, s') \<Rightarrow> (None, s')
              | (Some _, s') \<Rightarrow> close_child A n (cbb_children s ! n) s')
        of (None, s') \<Rightarrow> (None, cbb_on_error n s') | (Some _, s') \<Rightarrow> (Some (), s'))"
  by pat_completeness auto
termination
  by (relation "measure (\<lambda>(A, n, s). length (cbb_children s) - n)")
    (auto simp: base_is_null_def has_child_def)

declare CBB_flush.simps [simp del]

text \<open>
  \<open>CBB_finish\<close> hands out the buffer and the length; the flags say whether the caller
  passed \<open>out_data\<close> and \<open>out_len\<close>.
\<close>

definition CBB_finish :: "alloc \<Rightarrow> nat \<Rightarrow> bool \<Rightarrow> bool \<Rightarrow> (cbb, u8 list \<times> size_t) op" where
  "CBB_finish A n out_data out_len =
     check (n = 0) (step (CBB_flush A n) (\<lambda>_ s.
       if can_resize s \<and> \<not> (out_data \<and> out_len) then (None, s)
       else (Some (cbb_buf s, cbb_len s), CBB_cleanup n (s\<lparr>cbb_buf := []\<rparr>))))"

section \<open>Children\<close>

definition CBB_data :: "nat \<Rightarrow> cbb \<Rightarrow> u8 list" where
  "CBB_data n s = (case n of 0 \<Rightarrow> cbb_buf s | Suc i \<Rightarrow>
     drop (unat (child_offset (cbb_children s ! i) + ucast (pending_len_len (cbb_children s ! i))))
       (cbb_buf s))"

definition CBB_len :: "nat \<Rightarrow> cbb \<Rightarrow> size_t" where
  "CBB_len n s = (case n of 0 \<Rightarrow> cbb_len s | Suc i \<Rightarrow>
     cbb_len s - child_offset (cbb_children s ! i) - ucast (pending_len_len (cbb_children s ! i)))"

text \<open>A successful \<open>cbb_add_child\<close> on CBB \<open>n\<close> makes CBB \<open>n + 1\<close>.\<close>

definition cbb_add_child :: "alloc \<Rightarrow> nat \<Rightarrow> u8 \<Rightarrow> bool \<Rightarrow> (cbb, unit) op" where
  "cbb_add_child A n pll is_asn1 s =
     (let offset = cbb_len s in
      case cbb_buffer_add A n (ucast pll) s of (None, s) \<Rightarrow> (None, s) | (Some p, s) \<Rightarrow>
        (Some (), s\<lparr>cbb_buf := write_at (cbb_buf s) (unat p) (replicate (unat pll) 0),
           cbb_children := take n (cbb_children s) @
             [\<lparr>child_offset = offset, pending_len_len = pll, pending_is_asn1 = is_asn1\<rparr>]\<rparr>))"

definition cbb_add_length_prefixed :: "alloc \<Rightarrow> nat \<Rightarrow> u8 \<Rightarrow> (cbb, unit) op" where
  "cbb_add_length_prefixed A n pll =
     step (CBB_flush A n) (\<lambda>_. cbb_add_child A n pll False)"

definition CBB_add_u8_length_prefixed :: "alloc \<Rightarrow> nat \<Rightarrow> (cbb, unit) op" where
  "CBB_add_u8_length_prefixed A n = cbb_add_length_prefixed A n 1"

definition CBB_add_u16_length_prefixed :: "alloc \<Rightarrow> nat \<Rightarrow> (cbb, unit) op" where
  "CBB_add_u16_length_prefixed A n = cbb_add_length_prefixed A n 2"

definition CBB_add_u24_length_prefixed :: "alloc \<Rightarrow> nat \<Rightarrow> (cbb, unit) op" where
  "CBB_add_u24_length_prefixed A n = cbb_add_length_prefixed A n 3"

definition CBB_add_space :: "alloc \<Rightarrow> nat \<Rightarrow> size_t \<Rightarrow> (cbb, size_t) op" where
  "CBB_add_space A n len = step (CBB_flush A n) (\<lambda>_. cbb_buffer_add A n len)"

definition CBB_reserve :: "alloc \<Rightarrow> nat \<Rightarrow> size_t \<Rightarrow> (cbb, size_t) op" where
  "CBB_reserve A n len = step (CBB_flush A n) (\<lambda>_. cbb_buffer_reserve A n len)"

definition CBB_did_write :: "nat \<Rightarrow> size_t \<Rightarrow> (cbb, unit) op" where
  "CBB_did_write n len s =
     (let newlen = cbb_len s + len in
      if has_child n s \<or> newlen < cbb_len s \<or> newlen > cbb_cap s then (None, s)
      else (Some (), s\<lparr>cbb_len := newlen\<rparr>))"

definition CBB_discard_child :: "nat \<Rightarrow> cbb \<Rightarrow> cbb" where
  "CBB_discard_child n s =
     (if \<not> has_child n s then s
      else s\<lparr>cbb_len := child_offset (cbb_children s ! n),
             cbb_children := take n (cbb_children s)\<rparr>)"

section \<open>Bytes and integers\<close>

definition CBB_add_bytes :: "alloc \<Rightarrow> nat \<Rightarrow> u8 list \<Rightarrow> size_t \<Rightarrow> (cbb, unit) op" where
  "CBB_add_bytes A n data len = step (CBB_add_space A n len) (\<lambda>out s.
     (Some (), s\<lparr>cbb_buf := write_at (cbb_buf s) (unat out) (take (unat len) data)\<rparr>))"

definition CBB_add_zeros :: "alloc \<Rightarrow> nat \<Rightarrow> size_t \<Rightarrow> (cbb, unit) op" where
  "CBB_add_zeros A n len = step (CBB_add_space A n len) (\<lambda>out s.
     (Some (), s\<lparr>cbb_buf := write_at (cbb_buf s) (unat out) (replicate (unat len) 0)\<rparr>))"

definition cbb_add_u :: "alloc \<Rightarrow> nat \<Rightarrow> u64 \<Rightarrow> size_t \<Rightarrow> (cbb, unit) op" where
  "cbb_add_u A n v k = step (CBB_add_space A n k) (\<lambda>out s.
     let (buf, v) = put_be_loop (unat out) (unat k) v (cbb_buf s);
         s = s\<lparr>cbb_buf := buf\<rparr>
     in if v \<noteq> 0 then (None, cbb_on_error n s) else (Some (), s))"

definition CBB_add_u8 :: "alloc \<Rightarrow> nat \<Rightarrow> u8 \<Rightarrow> (cbb, unit) op" where
  "CBB_add_u8 A n value = cbb_add_u A n (ucast value) 1"

definition CBB_add_u16 :: "alloc \<Rightarrow> nat \<Rightarrow> u16 \<Rightarrow> (cbb, unit) op" where
  "CBB_add_u16 A n value = cbb_add_u A n (ucast value) 2"

definition CBB_add_u16le :: "alloc \<Rightarrow> nat \<Rightarrow> u16 \<Rightarrow> (cbb, unit) op" where
  "CBB_add_u16le A n value = CBB_add_u16 A n (CRYPTO_bswap2 value)"

definition CBB_add_u24 :: "alloc \<Rightarrow> nat \<Rightarrow> u32 \<Rightarrow> (cbb, unit) op" where
  "CBB_add_u24 A n value = cbb_add_u A n (ucast value) 3"

definition CBB_add_u32 :: "alloc \<Rightarrow> nat \<Rightarrow> u32 \<Rightarrow> (cbb, unit) op" where
  "CBB_add_u32 A n value = cbb_add_u A n (ucast value) 4"

definition CBB_add_u32le :: "alloc \<Rightarrow> nat \<Rightarrow> u32 \<Rightarrow> (cbb, unit) op" where
  "CBB_add_u32le A n value = CBB_add_u32 A n (CRYPTO_bswap4 value)"

definition CBB_add_u64 :: "alloc \<Rightarrow> nat \<Rightarrow> u64 \<Rightarrow> (cbb, unit) op" where
  "CBB_add_u64 A n value = cbb_add_u A n value 8"

definition CBB_add_u64le :: "alloc \<Rightarrow> nat \<Rightarrow> u64 \<Rightarrow> (cbb, unit) op" where
  "CBB_add_u64le A n value = CBB_add_u64 A n (CRYPTO_bswap8 value)"

section \<open>ASN.1\<close>

function base128_len :: "u64 \<Rightarrow> nat" where
  "base128_len copy = (if copy > 0 then Suc (base128_len (drop_bit 7 copy)) else 0)"
  by pat_completeness auto
termination
proof (relation "measure unat", simp)
  fix copy :: u64
  assume "copy > 0"
  then have "unat copy > 0" by (simp add: word_less_nat_alt)
  then show "(drop_bit 7 copy, copy) \<in> measure unat"
    by (simp add: unat_drop_bit)
qed

declare base128_len.simps [simp del]

fun add_base128_loop :: "alloc \<Rightarrow> nat \<Rightarrow> u64 \<Rightarrow> nat \<Rightarrow> (cbb, unit) op" where
  "add_base128_loop A n v 0 = ret ()"
| "add_base128_loop A n v (Suc i) =
     (let byte = ucast (drop_bit (7 * i) v AND 0x7f);
          byte = (if i \<noteq> 0 then byte OR 0x80 else byte)
      in step (CBB_add_u8 A n byte) (\<lambda>_. add_base128_loop A n v i))"

definition add_base128_integer :: "alloc \<Rightarrow> nat \<Rightarrow> u64 \<Rightarrow> (cbb, unit) op" where
  "add_base128_integer A n v =
     (let len_len = base128_len v;
          len_len = (if len_len = 0 then 1 else len_len)
      in add_base128_loop A n v len_len)"

definition CBB_add_asn1 :: "alloc \<Rightarrow> nat \<Rightarrow> asn1_tag \<Rightarrow> (cbb, unit) op" where
  "CBB_add_asn1 A n tag = step (CBB_flush A n) (\<lambda>_.
     let tag_bits = (ucast (drop_bit 24 tag AND 0xe0) :: u8);
         tag_number = tag AND CBS_ASN1_TAG_NUMBER_MASK
     in step (if tag_number \<ge> 0x1f
              then step (CBB_add_u8 A n (tag_bits OR 0x1f)) (\<lambda>_.
                add_base128_integer A n (ucast tag_number))
              else CBB_add_u8 A n (ucast (ucast tag_bits OR tag_number)))
          (\<lambda>_. cbb_add_child A n 1 True))"

text \<open>The \<open>err:\<close> label of the ASN.1 writers.\<close>

definition on_error :: "nat \<Rightarrow> (cbb, unit) op \<Rightarrow> (cbb, unit) op" where
  "on_error n m s = (case m s of (None, s') \<Rightarrow> (None, cbb_on_error n s') | r \<Rightarrow> r)"

text \<open>The loop over the bytes of \<open>value\<close>, most significant first.\<close>

fun asn1_uint64_loop :: "alloc \<Rightarrow> nat \<Rightarrow> u64 \<Rightarrow> nat \<Rightarrow> bool \<Rightarrow> (cbb, bool) op" where
  "asn1_uint64_loop A c value 0 started = ret started"
| "asn1_uint64_loop A c value (Suc k) started =
     (let byte = (ucast (drop_bit (8 * k) value AND 0xff) :: u8) in
      if \<not> started \<and> byte = 0 then asn1_uint64_loop A c value k started
      else step (if \<not> started \<and> byte AND 0x80 \<noteq> 0 then CBB_add_u8 A c 0 else ret ())
        (\<lambda>_. step (CBB_add_u8 A c byte) (\<lambda>_. asn1_uint64_loop A c value k True)))"

definition CBB_add_asn1_uint64_with_tag :: "alloc \<Rightarrow> nat \<Rightarrow> u64 \<Rightarrow> asn1_tag \<Rightarrow> (cbb, unit) op" where
  "CBB_add_asn1_uint64_with_tag A n value tag =
     step (on_error n (step (CBB_add_asn1 A n tag) (\<lambda>_.
             step (asn1_uint64_loop A (Suc n) value 8 False) (\<lambda>started.
               if \<not> started then CBB_add_u8 A (Suc n) 0 else ret ()))))
       (\<lambda>_. CBB_flush A n)"

definition CBB_add_asn1_uint64 :: "alloc \<Rightarrow> nat \<Rightarrow> u64 \<Rightarrow> (cbb, unit) op" where
  "CBB_add_asn1_uint64 A n value = CBB_add_asn1_uint64_with_tag A n value CBS_ASN1_INTEGER"

definition int64_byte :: "u64 \<Rightarrow> nat \<Rightarrow> u8" where
  "int64_byte value i = ucast (drop_bit (8 * i) value)"

fun int64_start :: "u64 \<Rightarrow> nat \<Rightarrow> nat" where
  "int64_start value 0 = 0"
| "int64_start value (Suc start) =
     (if int64_byte value (Suc start) = 0xff \<and> int64_byte value start AND 0x80 \<noteq> 0
      then int64_start value start else Suc start)"

fun asn1_int64_loop :: "alloc \<Rightarrow> nat \<Rightarrow> u64 \<Rightarrow> nat \<Rightarrow> (cbb, unit) op" where
  "asn1_int64_loop A c value 0 = ret ()"
| "asn1_int64_loop A c value (Suc i) =
     step (CBB_add_u8 A c (int64_byte value i)) (\<lambda>_. asn1_int64_loop A c value i)"

definition CBB_add_asn1_int64_with_tag :: "alloc \<Rightarrow> nat \<Rightarrow> u64 \<Rightarrow> asn1_tag \<Rightarrow> (cbb, unit) op" where
  "CBB_add_asn1_int64_with_tag A n value tag =
     (if 0 \<le> sint value then CBB_add_asn1_uint64_with_tag A n value tag
      else step (on_error n (step (CBB_add_asn1 A n tag) (\<lambda>_.
             asn1_int64_loop A (Suc n) value (Suc (int64_start value 7)))))
           (\<lambda>_. CBB_flush A n))"

definition CBB_add_asn1_int64 :: "alloc \<Rightarrow> nat \<Rightarrow> u64 \<Rightarrow> (cbb, unit) op" where
  "CBB_add_asn1_int64 A n value = CBB_add_asn1_int64_with_tag A n value CBS_ASN1_INTEGER"

definition CBB_add_asn1_octet_string :: "alloc \<Rightarrow> nat \<Rightarrow> u8 list \<Rightarrow> size_t \<Rightarrow> (cbb, unit) op" where
  "CBB_add_asn1_octet_string A n data data_len =
     on_error n (step (CBB_add_asn1 A n CBS_ASN1_OCTETSTRING) (\<lambda>_.
       step (CBB_add_bytes A (Suc n) data data_len) (\<lambda>_. CBB_flush A n)))"

definition CBB_add_asn1_bool :: "alloc \<Rightarrow> nat \<Rightarrow> bool \<Rightarrow> (cbb, unit) op" where
  "CBB_add_asn1_bool A n value =
     on_error n (step (CBB_add_asn1 A n CBS_ASN1_BOOLEAN) (\<lambda>_.
       step (CBB_add_u8 A (Suc n) (if value then 0xff else 0)) (\<lambda>_. CBB_flush A n)))"

end
