(* ===== verification/CbbDoc.thy ===== *)
theory CbbDoc
  imports Cbb
begin

text \<open>
  What a builder means, and that cbb.c implements it. A \<open>doc\<close> is the bytes of the
  top-level CBB and, for every open child, its kind of length prefix and its contents so far.
  The buffer holds the same bytes with a gap of zeros for every pending prefix (\<open>repr\<close>).
  \<open>implements\<close> is the refinement relation: a call that succeeds does what the operation on
  documents does, and a call that fails leaves the error flag set and can only be due to a
  length that does not fit its prefix, to the allocator, or to 2^64 bytes of output.
\<close>

section \<open>Writing into the buffer\<close>

lemma length_write_at [simp]: "i + length bs \<le> length buf \<Longrightarrow> length (write_at buf i bs) = length buf"
  by (simp add: write_at_def)

lemma take_write_at: "i + length bs \<le> length buf \<Longrightarrow>
    take (i + length bs) (write_at buf i bs) = take i buf @ bs"
  by (simp add: write_at_def)

lemma put_be_loop: "i + k \<le> length buf \<Longrightarrow>
    put_be_loop i k v buf = (write_at buf i (be_bytes k (unat v)), drop_bit (8 * k) v)"
proof (induction k arbitrary: v buf)
  case 0
  then show ?case by (simp add: write_at_def)
next
  case (Suc k)
  have "write_at (buf[i + k := ucast v]) i (be_bytes k (unat v div 256)) =
      write_at buf i (be_bytes k (unat v div 256) @ [ucast v])"
  proof -
    have "drop (i + k) (buf[i + k := ucast v]) = ucast v # drop (Suc (i + k)) buf"
      using Suc.prems Cons_nth_drop_Suc [of "i + k" "buf[i + k := ucast v]"]
      by (simp add: drop_update_cancel)
    then show ?thesis using Suc.prems by (simp add: write_at_def)
  qed
  moreover have "be_bytes (Suc k) (unat v) = be_bytes k (unat v div 256) @ [ucast v]" by simp
  moreover have "put_be_loop i k (drop_bit 8 v) (buf[i + k := ucast v]) =
      (write_at (buf[i + k := ucast v]) i (be_bytes k (unat v div 256)),
       drop_bit (8 * k) (drop_bit 8 v))"
    using Suc by (simp add: unat_drop_bit)
  moreover have "drop_bit (8 * k) (drop_bit 8 v) = drop_bit (8 * Suc k) v"
    by (simp add: drop_bit_drop_bit add.commute)
  ultimately show ?case by (simp only: put_be_loop.simps)
qed

section \<open>Documents\<close>

datatype kind = Prefix nat | Asn1

datatype doc = Doc (doc_root: "u8 list") (doc_frames: "(kind \<times> u8 list) list")

fun kind_len :: "kind \<Rightarrow> nat" where
  "kind_len (Prefix k) = k"
| "kind_len Asn1 = 1"

fun enclose :: "kind \<Rightarrow> u8 list \<Rightarrow> u8 list option" where
  "enclose (Prefix k) bs =
     (if length bs < 256 ^ k then Some (be_bytes k (length bs) @ bs) else None)"
| "enclose Asn1 bs =
     (if length bs \<le> 0xfffffffe then Some (der_len (length bs) @ bs) else None)"

text \<open>The bytes of all open frames, innermost first, as they become part of their parent.\<close>

fun nest :: "(kind \<times> u8 list) list \<Rightarrow> u8 list option" where
  "nest [] = Some []"
| "nest ((k, bs) # fs) = Option.bind (nest fs) (\<lambda>t. enclose k (bs @ t))"

fun doc_append :: "u8 list \<Rightarrow> doc \<Rightarrow> doc" where
  "doc_append t (Doc root fs) =
     (if fs = [] then Doc (root @ t) []
      else Doc root (butlast fs @ [(fst (last fs), snd (last fs) @ t)]))"

fun doc_flush :: "nat \<Rightarrow> doc \<Rightarrow> doc option" where
  "doc_flush n (Doc root fs) =
     Option.bind (nest (drop n fs)) (\<lambda>t. Some (doc_append t (Doc root (take n fs))))"

fun doc_push :: "kind \<Rightarrow> doc \<Rightarrow> doc" where
  "doc_push k (Doc root fs) = Doc root (fs @ [(k, [])])"

fun doc_depth :: "doc \<Rightarrow> nat" where
  "doc_depth (Doc root fs) = length fs"

definition doc_write :: "nat \<Rightarrow> u8 list \<Rightarrow> doc \<Rightarrow> doc option" where
  "doc_write n bs d = Option.bind (doc_flush n d) (\<lambda>d. Some (doc_append bs d))"

definition doc_open :: "nat \<Rightarrow> kind \<Rightarrow> doc \<Rightarrow> doc option" where
  "doc_open n k d = Option.bind (doc_flush n d) (\<lambda>d. Some (doc_push k d))"

section \<open>Representation\<close>

fun flat :: "(kind \<times> u8 list) list \<Rightarrow> u8 list" where
  "flat [] = []"
| "flat ((k, bs) # fs) = replicate (kind_len k) 0 @ bs @ flat fs"

fun children_of :: "nat \<Rightarrow> (kind \<times> u8 list) list \<Rightarrow> cbb_child list" where
  "children_of i [] = []"
| "children_of i ((k, bs) # fs) =
     \<lparr>child_offset = of_nat i, pending_len_len = of_nat (kind_len k), pending_is_asn1 = (k = Asn1)\<rparr>
       # children_of (i + kind_len k + length bs) fs"

fun doc_bytes :: "doc \<Rightarrow> u8 list" where
  "doc_bytes (Doc root fs) = root @ flat fs"

abbreviation doc_size :: "doc \<Rightarrow> nat" where
  "doc_size d \<equiv> length (doc_bytes d)"

fun doc_ok :: "doc \<Rightarrow> bool" where
  "doc_ok (Doc root fs) \<longleftrightarrow> (\<forall>(k, bs) \<in> set fs. kind_len k \<le> 8)"

definition buf_holds :: "cbb \<Rightarrow> u8 list \<Rightarrow> bool" where
  "buf_holds s bs \<longleftrightarrow> \<not> cbb_error s \<and> unat (cbb_cap s) \<le> length (cbb_buf s) \<and>
     cbb_len s \<le> cbb_cap s \<and> take (unat (cbb_len s)) (cbb_buf s) = bs"

definition repr :: "cbb \<Rightarrow> doc \<Rightarrow> bool" where
  "repr s d \<longleftrightarrow> doc_ok d \<and> buf_holds s (doc_bytes d) \<and>
     cbb_children s = children_of (length (doc_root d)) (doc_frames d)"

lemma buf_holds_len:
  assumes "buf_holds s bs"
  shows "unat (cbb_len s) = length bs" and "fits bs" and "length bs \<le> length (cbb_buf s)"
proof -
  from assms have "unat (cbb_len s) \<le> unat (cbb_cap s)" "unat (cbb_cap s) \<le> length (cbb_buf s)"
    and b: "take (unat (cbb_len s)) (cbb_buf s) = bs"
    by (simp_all add: buf_holds_def word_le_nat_alt)
  then have l: "unat (cbb_len s) \<le> length (cbb_buf s)" by simp
  with b show e: "unat (cbb_len s) = length bs" by auto
  show "fits bs" using unsigned_less [of "cbb_len s"] unfolding e [symmetric] by simp
  show "length bs \<le> length (cbb_buf s)" using l e by simp
qed

lemma length_children_of [simp]: "length (children_of i fs) = length fs"
  by (induction i fs rule: children_of.induct) auto

lemma children_of_append: "children_of i (fs @ gs) = children_of i fs @ children_of (i + length (flat fs)) gs"
  by (induction i fs rule: children_of.induct) (auto simp: add.assoc)

lemma flat_append: "flat (fs @ gs) = flat fs @ flat gs"
  by (induction fs rule: flat.induct) auto

lemma doc_bytes_append: "doc_bytes (doc_append t d) = doc_bytes d @ t"
proof (cases d)
  case (Doc root fs)
  then show ?thesis
    by (cases fs rule: rev_cases) (auto simp: flat_append)
qed

lemma children_of_doc_append: "d' = doc_append t d \<Longrightarrow>
    children_of (length (doc_root d')) (doc_frames d') = children_of (length (doc_root d)) (doc_frames d)"
proof (cases d)
  case (Doc root fs)
  then show "d' = doc_append t d \<Longrightarrow> ?thesis"
    by (cases fs rule: rev_cases) (auto simp: children_of_append)
qed

lemma doc_ok_append: "doc_ok d \<Longrightarrow> doc_ok (doc_append t d)"
proof (cases d)
  case (Doc root fs)
  then show "doc_ok d \<Longrightarrow> ?thesis"
    by (cases fs rule: rev_cases) auto
qed

lemma repr_append:
  assumes "repr s d" and "buf_holds s' (doc_bytes d @ t)" and "cbb_children s' = cbb_children s"
  shows "repr s' (doc_append t d)"
  using assms by (simp add: repr_def doc_ok_append doc_bytes_append children_of_doc_append [OF refl])

lemma doc_bytes_push: "doc_bytes (doc_push k d) = doc_bytes d @ replicate (kind_len k) 0"
  by (cases d) (simp add: flat_append)

lemma repr_push:
  assumes "repr s d" and "buf_holds s' (doc_bytes d @ replicate (kind_len k) 0)" and "kind_len k \<le> 8"
    and "cbb_children s' = cbb_children s @ [\<lparr>child_offset = of_nat (doc_size d),
      pending_len_len = of_nat (kind_len k), pending_is_asn1 = (k = Asn1)\<rparr>]"
  shows "repr s' (doc_push k d)"
  using assms by (cases d) (simp add: repr_def doc_bytes_push children_of_append flat_append)

lemma repr_depth: "repr s d \<Longrightarrow> length (cbb_children s) = doc_depth d"
  by (cases d) (simp add: repr_def)

lemma repr_not_error: "repr s d \<Longrightarrow> \<not> cbb_error s"
  by (simp add: repr_def buf_holds_def)

section \<open>The buffer\<close>

definition room :: "cbb \<Rightarrow> nat \<Rightarrow> bool" where
  "room s n \<longleftrightarrow> unat (cbb_len s) + n \<le> unat (cbb_cap s)"

definition same_shape :: "cbb \<Rightarrow> cbb \<Rightarrow> bool" where
  "same_shape s s' \<longleftrightarrow> cbb_children s' = cbb_children s \<and> can_resize s' = can_resize s"

text \<open>A failure that is not the fault of the input: there is no memory, or too much output.\<close>

definition ample :: "alloc \<Rightarrow> cbb \<Rightarrow> bool" where
  "ample A s \<longleftrightarrow> can_resize s \<and> (\<forall>l. A l)"

lemma cbb_buffer_reserve_cases:
  assumes "buf_holds s bs" and "\<not> base_is_null n s"
  obtains (ok) s' where "cbb_buffer_reserve A n len s = (Some (cbb_len s), s')"
    "buf_holds s' bs" "same_shape s s'" "cbb_len s' = cbb_len s" "room s' (unat len)"
  | (err) "cbb_buffer_reserve A n len s = (None, s\<lparr>cbb_error := True\<rparr>)"
    "ample A s \<Longrightarrow> 2 ^ 64 \<le> length bs + unat len"
proof -
  note len = buf_holds_len [OF assms(1)]
  have ov: "cbb_len s + len < cbb_len s \<longleftrightarrow> 2 ^ 64 \<le> length bs + unat len"
    using len(1) by (simp only: u64_add_overflow)
  have sum: "unat (cbb_len s + len) = length bs + unat len" if "\<not> 2 ^ 64 \<le> length bs + unat len"
    using that len(1) unat_add_u64 [of "cbb_len s" len] by simp
  show thesis
  proof (cases "2 ^ 64 \<le> length bs + unat len")
    case True
    show thesis
      by (rule err) (use True assms(2) ov in \<open>simp_all add: cbb_buffer_reserve_def Let_def\<close>)
  next
    case False
    note ov = ov [THEN iffD1, THEN False [THEN notE]] and sum = sum [OF False]
    show thesis
    proof (cases "cbb_len s + len \<le> cbb_cap s")
      case True
      have "\<not> cbb_cap s < cbb_len s + len" "\<not> cbb_len s + len < cbb_len s"
        using True ov by auto
      then have "cbb_buffer_reserve A n len s = (Some (cbb_len s), s)"
        using assms(2) by (simp add: cbb_buffer_reserve_def)
      then show thesis
        by (rule ok) (use True assms(1) sum len in
            \<open>simp_all add: same_shape_def room_def word_le_nat_alt\<close>)
    next
      case more: False
      define newcap where "newcap = (if cbb_cap s * 2 < cbb_cap s \<or> cbb_cap s * 2 < cbb_len s + len
        then cbb_len s + len else cbb_cap s * 2)"
      have newcap: "cbb_len s + len \<le> newcap" "cbb_cap s \<le> newcap"
        using more by (auto simp: newcap_def)
      show thesis
      proof (cases "can_resize s \<and> A newcap")
        case True
        define s' where "s' = s\<lparr>cbb_buf := take (min (unat newcap) (length (cbb_buf s))) (cbb_buf s) @
          replicate (unat newcap - min (unat newcap) (length (cbb_buf s))) 0, cbb_cap := newcap\<rparr>"
        have "cbb_buffer_reserve A n len s = (Some (cbb_len s), s')"
          using True more assms(2) ov newcap_def
          by (auto simp: cbb_buffer_reserve_def Let_def OPENSSL_realloc_def s'_def not_le)
        moreover have "unat (cbb_len s) \<le> unat newcap"
          using newcap sum len(1) by (simp add: word_le_nat_alt)
        then have "buf_holds s' bs"
          using assms(1) newcap len(1,3)
          by (auto simp: buf_holds_def s'_def word_le_nat_alt min_def)
        ultimately show thesis
          using newcap sum len(1)
          by (intro ok [of s']) (simp_all add: s'_def same_shape_def room_def word_le_nat_alt)
      next
        case no: False
        show thesis
          by (rule err) (use no more assms(2) ov newcap_def in
              \<open>auto simp: cbb_buffer_reserve_def Let_def OPENSSL_realloc_def ample_def not_le\<close>)
      qed
    qed
  qed
qed

lemma cbb_buffer_add_cases:
  assumes "buf_holds s bs" and "\<not> base_is_null n s"
  obtains (ok) s' junk where "cbb_buffer_add A n len s = (Some (cbb_len s), s')"
    "buf_holds s' (bs @ junk)" "length junk = unat len" "same_shape s s'"
  | (err) s' where "cbb_buffer_add A n len s = (None, s')" "cbb_error s'" "same_shape s s'"
    "ample A s \<Longrightarrow> 2 ^ 64 \<le> length bs + unat len"
  using assms
proof (cases rule: cbb_buffer_reserve_cases [of s bs n A len])
  case (ok s')
  note len = buf_holds_len [OF ok(2)]
  have u: "unat (cbb_len s' + len) = length bs + unat len"
    using ok(5) len(1) unat_u64_less [of "cbb_cap s'"] unat_add_u64 [of "cbb_len s'" len]
    by (simp add: room_def)
  define junk where "junk = take (unat len) (drop (length bs) (cbb_buf s'))"
  have l: "length bs + unat len \<le> unat (cbb_cap s')" "unat (cbb_cap s') \<le> length (cbb_buf s')"
    using ok len(1) by (simp_all add: room_def buf_holds_def)
  have "take (length bs + unat len) (cbb_buf s') = bs @ junk"
    using ok(2) len(1) by (simp add: take_add junk_def buf_holds_def)
  with ok u l show thesis
    by (intro that(1) [of "s'\<lparr>cbb_len := cbb_len s' + len\<rparr>" junk])
      (simp_all add: cbb_buffer_add_def buf_holds_def junk_def same_shape_def word_le_nat_alt)
next
  case err
  then show thesis
    by (intro that(2) [of "s\<lparr>cbb_error := True\<rparr>"])
      (simp_all add: cbb_buffer_add_def same_shape_def)
qed

lemma buf_holds_write:
  assumes "buf_holds s (xs @ ys @ zs)" and "length bs = length ys"
  shows "buf_holds (s\<lparr>cbb_buf := write_at (cbb_buf s) (length xs) bs\<rparr>) (xs @ bs @ zs)"
proof -
  note len = buf_holds_len [OF assms(1)]
  let ?n = "length (xs @ ys @ zs)"
  have b: "cbb_buf s = (xs @ ys @ zs) @ drop ?n (cbb_buf s)"
    using assms(1) len(1) by (metis append_take_drop_id buf_holds_def)
  have "write_at (cbb_buf s) (length xs) bs = xs @ bs @ zs @ drop ?n (cbb_buf s)"
    by (subst b) (use assms(2) in \<open>simp add: write_at_def\<close>)
  with assms len(1) show ?thesis
    by (auto simp: buf_holds_def)
qed

section \<open>Closing a child\<close>

lemma repr_appendI:
  assumes "doc_ok d" and "buf_holds s (doc_bytes d @ t)"
    and "cbb_children s = children_of (length (doc_root d)) (doc_frames d)"
  shows "repr s (doc_append t d)"
  using assms by (simp add: repr_def doc_ok_append doc_bytes_append children_of_doc_append [OF refl])

lemma list_update_write_at: "i < length buf \<Longrightarrow> buf[i := x] = write_at buf i [x]"
  by (simp add: write_at_def upd_conv_take_nth_drop)

lemma write_at_Nil [simp]: "write_at buf i [] = buf"
  by (simp add: write_at_def)

lemma buf_holds_update:
  assumes "buf_holds s (xs @ y # zs)"
  shows "buf_holds (s\<lparr>cbb_buf := (cbb_buf s)[length xs := x]\<rparr>) (xs @ x # zs)"
  using buf_holds_write [of s xs "[y]" zs "[x]"] buf_holds_len(3) [OF assms] assms
  by (simp add: list_update_write_at)

lemma buf_holds_children [simp]: "buf_holds (s\<lparr>cbb_children := c\<rparr>) bs = buf_holds s bs"
  by (simp add: buf_holds_def)

lemma put_length_cases:
  assumes "buf_holds s (xs @ ys @ zs)" and "unat offset = length xs" and "unat pll = length ys"
  shows "put_length n offset pll len s =
    (let s' = s\<lparr>cbb_buf := write_at (cbb_buf s) (length xs) (be_bytes (length ys) (unat len))\<rparr>
     in if unat len < 256 ^ length ys
        then (Some (), s'\<lparr>cbb_children := take n (cbb_children s)\<rparr>) else (None, s'))"
    and "buf_holds (s\<lparr>cbb_buf := write_at (cbb_buf s) (length xs) (be_bytes (length ys) v)\<rparr>)
      (xs @ be_bytes (length ys) v @ zs)"
proof -
  have "drop_bit (8 * length ys) len = 0 \<longleftrightarrow> unat len < 256 ^ length ys"
    by (simp add: drop_bit_0_iff power_mult)
  then show "put_length n offset pll len s =
    (let s' = s\<lparr>cbb_buf := write_at (cbb_buf s) (length xs) (be_bytes (length ys) (unat len))\<rparr>
     in if unat len < 256 ^ length ys
        then (Some (), s'\<lparr>cbb_children := take n (cbb_children s)\<rparr>) else (None, s'))"
    using buf_holds_len(3) [OF assms(1)] assms(2,3)
    by (simp add: put_length_def put_be_loop Let_def)
  show "buf_holds (s\<lparr>cbb_buf := write_at (cbb_buf s) (length xs) (be_bytes (length ys) v)\<rparr>)
      (xs @ be_bytes (length ys) v @ zs)"
    by (rule buf_holds_write [OF assms(1)]) simp
qed

lemma asn1_length_short: "n < 128 \<Longrightarrow> asn1_length (of_nat n) = (1, of_nat n, 0)"
  by (simp add: asn1_length_def word_less_nat_alt unat_of_nat_size word_unat_eq_iff unsigned_ucast_eq take_bit_eq_mod)

lemma asn1_length_long: "128 \<le> n \<Longrightarrow> n \<le> 0xfffffffe \<Longrightarrow>
    asn1_length (of_nat n) = (of_nat (1 + len_len n), of_nat (0x80 + len_len n), of_nat n)"
  by (simp add: asn1_length_def word_less_nat_alt unat_of_nat_size len_len_def)

lemma length_der_len: "length (der_len n) = (if n < 128 then 1 else 1 + len_len n)"
  by (simp add: der_len_def)

lemma move_contents_long:
  assumes "buf_holds s (pre @ [0] @ b)" and "\<not> base_is_null n s"
    and "unat start = length pre + 1" and "unat ll = 1 + extra" and "0 < extra" and "unat len = length b"
  obtains (ok) s' mid where "move_contents A n start ll len s = (Some (), s')"
    "buf_holds s' (pre @ 0 # mid @ b)" "length mid = extra" "same_shape s s'"
  | (err) s' where "move_contents A n start ll len s = (None, s')"
    "ample A s \<Longrightarrow> 2 ^ 64 \<le> length (pre @ [0] @ b) + extra"
proof -
  note result = that
  have ll: "ll \<noteq> 1" "unat (ucast ll - 1 :: size_t) = extra"
  proof -
    show "ll \<noteq> 1" using assms(4,5) by auto
    have "unat (ucast ll :: size_t) = 1 + extra" using assms(4) by simp
    then show "unat (ucast ll - 1 :: size_t) = extra"
      by (metis add_diff_cancel_left' unat_minus_one unat_eq_zero add_is_0 one_neq_zero)
  qed
  show thesis
    using assms(1,2)
  proof (cases rule: cbb_buffer_add_cases [of s _ n A "ucast ll - 1"])
    case (ok s' junk)
    note len = buf_holds_len [OF ok(2)]
    have j: "length junk = extra" using ok(3) ll by simp
    have st: "unat (start + (ucast ll - 1)) = length pre + 1 + extra"
      using unat_add_u64 [of start "ucast ll - 1"] assms(3) ll(2) len(2) j by simp
    have "take (length b) (drop (length pre + 1) (cbb_buf s')) = b"
    proof -
      have "cbb_buf s' = ((pre @ [0] @ b) @ junk) @ drop (length ((pre @ [0] @ b) @ junk)) (cbb_buf s')"
        using ok(2) len(1) by (metis append_take_drop_id buf_holds_def)
      then obtain z where "cbb_buf s' = (pre @ [0]) @ b @ junk @ z" by simp
      then show ?thesis by simp
    qed
    note m = this
    obtain mid tl where mt: "b @ junk = mid @ tl" "length mid = extra" "length tl = length b"
      by (rule that [OF append_take_drop_id [symmetric], of extra]) (use j in simp_all)
    have "buf_holds s' ((pre @ [0] @ mid) @ tl @ [])"
      using ok(2) mt(1) by simp
    from buf_holds_write [OF this, of b] mt(2,3) have "buf_holds (s'\<lparr>cbb_buf :=
        write_at (cbb_buf s') (length pre + 1 + extra) b\<rparr>) (pre @ 0 # mid @ b)"
      by simp
    then show thesis
      using ok(1,4) ll m st mt assms(3,6)
      by (intro result(1) [of "s'\<lparr>cbb_buf := write_at (cbb_buf s') (length pre + 1 + extra) b\<rparr>" mid])
        (simp_all add: move_contents_def step_Some same_shape_def Let_def)
  next
    case (err s')
    then show thesis
      using ll by (intro result(2) [of s']) (simp_all add: move_contents_def step_None Let_def)
  qed
qed

lemma close_child_prefix:
  assumes "buf_holds s (pre @ replicate k 0 @ b)" and "k \<le> 8"
  shows "close_child A n \<lparr>child_offset = of_nat (length pre), pending_len_len = of_nat k,
      pending_is_asn1 = False\<rparr> s =
    put_length n (of_nat (length pre)) (of_nat k) (of_nat (length b)) s"
proof -
  note len = buf_holds_len [OF assms(1)]
  have c: "(ucast (of_nat k :: u8) :: size_t) = of_nat k"
    using assms(2) by (simp add: word_unat_eq_iff unat_of_nat)
  have "cbb_len s = of_nat (length pre + k + length b)"
    using len(1) by (metis of_nat_unat length_append length_replicate add.assoc)
  then have d: "cbb_len s - (of_nat (length pre) + of_nat k) = of_nat (length b)" by simp
  have "unat (of_nat (length pre) + of_nat k :: size_t) = length pre + k"
    using len(2) by (simp add: unat_of_nat_size flip: of_nat_add)
  then show ?thesis
    using len c d by (simp add: close_child_def Let_def word_less_nat_alt unat_of_nat_size)
qed

lemma close_child_asn1:
  assumes "buf_holds s (pre @ [0] @ b)"
  shows "close_child A n \<lparr>child_offset = of_nat (length pre), pending_len_len = 1,
      pending_is_asn1 = True\<rparr> s =
    (if 0xfffffffe < length b then (None, s)
     else let (ll, initial_length_byte, len) = asn1_length (of_nat (length b)) in
       step (move_contents A n (of_nat (length pre + 1)) ll len) (\<lambda>_ s.
         put_length n (of_nat (length pre + 1)) (ll - 1) len
           (s\<lparr>cbb_buf := (cbb_buf s)[length pre := initial_length_byte]\<rparr>)) s)"
proof -
  note len = buf_holds_len [OF assms]
  have "cbb_len s = of_nat (length pre + 1 + length b)"
    using len(1) by (metis of_nat_unat length_append list.size(3,4) add.assoc add_0 One_nat_def)
  then have d: "cbb_len s - (of_nat (length pre) + 1) = of_nat (length b)" by simp
  have "unat (of_nat (length pre) + 1 :: size_t) = length pre + 1"
    using len(2) unat_of_nat_size [of "length pre + 1"] by (simp add: add.commute)
  moreover have "of_nat (length pre + 1) = (of_nat (length pre) + 1 :: size_t)" by simp
  ultimately show ?thesis
    using len d by (simp add: close_child_def Let_def word_less_nat_alt unat_of_nat_size
        del: of_nat_add of_nat_Suc)
qed

lemma close_child_cases:
  assumes "buf_holds s (pre @ replicate (kind_len k) 0 @ b)" and "kind_len k \<le> 8"
    and "\<not> base_is_null n s"
  obtains (ok) s' t where "close_child A n \<lparr>child_offset = of_nat (length pre),
      pending_len_len = of_nat (kind_len k), pending_is_asn1 = (k = Asn1)\<rparr> s = (Some (), s')"
    "enclose k b = Some t" "buf_holds s' (pre @ t)" "can_resize s' = can_resize s"
    "cbb_children s' = take n (cbb_children s)"
  | (err) s' where "close_child A n \<lparr>child_offset = of_nat (length pre),
      pending_len_len = of_nat (kind_len k), pending_is_asn1 = (k = Asn1)\<rparr> s = (None, s')"
    "\<And>t. enclose k b = Some t \<Longrightarrow> ample A s \<Longrightarrow> 2 ^ 64 \<le> length (pre @ t)"
proof (cases k)
  case (Prefix j)
  note len = buf_holds_len [OF assms(1)]
  from assms Prefix have h: "buf_holds s (pre @ replicate j 0 @ b)" and j: "j \<le> 8" by simp_all
  have u: "unat (of_nat (length pre) :: size_t) = length pre" "unat (of_nat (length b) :: size_t) = length b"
    "unat (of_nat j :: u8) = length (replicate j (0 :: u8))"
    using len(2) j by (simp_all add: unat_of_nat_size)
  note p = put_length_cases(1) [OF h u(1,3), of n "of_nat (length b)"]
    put_length_cases(2) [OF h u(1,3), of "length b"]
  show thesis
  proof (cases "length b < 256 ^ j")
    case True
    show thesis
      by (rule ok [of "s\<lparr>cbb_buf := write_at (cbb_buf s) (length pre) (be_bytes j (length b)),
            cbb_children := take n (cbb_children s)\<rparr>" "be_bytes j (length b) @ b"]) (use True Prefix p u in
          \<open>simp_all add: close_child_prefix [OF h j] Let_def\<close>)
  next
    case False
    show thesis
      by (rule err [of "s\<lparr>cbb_buf := write_at (cbb_buf s) (length pre) (be_bytes j (length b))\<rparr>"])
        (use False Prefix p u in
          \<open>simp_all add: close_child_prefix [OF h j] Let_def\<close>)
  qed
next
  case k: Asn1
  from assms k have h: "buf_holds s (pre @ [0] @ b)" by simp
  note len = buf_holds_len [OF h]
  note c = close_child_asn1 [OF h, of A n]
  have u: "unat (of_nat (length pre + 1) :: size_t) = length pre + 1"
    "unat (of_nat (length b) :: size_t) = length b"
    using len(2) by (simp_all add: unat_of_nat_size del: of_nat_add of_nat_Suc)
  consider "length b < 128" | "128 \<le> length b" "length b \<le> 0xfffffffe" | "0xfffffffe < length b"
    by linarith
  then show thesis
  proof cases
    case 1
    let ?s = "s\<lparr>cbb_buf := (cbb_buf s)[length pre := of_nat (length b)]\<rparr>"
    have h': "buf_holds ?s (pre @ of_nat (length b) # b)"
      using buf_holds_update [of s pre 0 b "of_nat (length b)"] h by simp
    then have "buf_holds ?s ((pre @ [of_nat (length b)]) @ [] @ b)" by simp
    note p = put_length_cases(1) [OF this, of "of_nat (length pre + 1)" 0 n 0]
    show thesis
      by (rule ok [of "?s\<lparr>cbb_buf := write_at (cbb_buf ?s) (length pre + 1) [],
            cbb_children := take n (cbb_children s)\<rparr>"])
        (use 1 k c p u h' in \<open>simp_all add: asn1_length_short move_contents_def step_Some
            der_len_def Let_def\<close>)
  next
    case 2
    let ?e = "len_len (length b)"
    note ll = len_len_bounds [OF 2(1)]
    have b4: "length b < 256 ^ 4" using 2 by simp
    have e: "1 \<le> ?e" "?e \<le> 4" "length b < 256 ^ ?e" using ll b4 by simp_all
    have ue: "unat (of_nat (1 + ?e) :: u8) = 1 + ?e"
      "unat (of_nat (1 + ?e) - 1 :: u8) = ?e"
    proof -
      from e(1,2) have "?e = 1 \<or> ?e = 2 \<or> ?e = 3 \<or> ?e = 4" by linarith
      then show "unat (of_nat (1 + ?e) :: u8) = 1 + ?e" "unat (of_nat (1 + ?e) - 1 :: u8) = ?e"
        by (elim disjE; simp)+
    qed
    show thesis
      using h assms(3) u(1) ue(1) e(1) [unfolded One_nat_def Suc_le_eq] u(2)
    proof (cases rule: move_contents_long [of s pre b n _ _ _ _ A])
      case (ok s' mid)
      let ?x = "of_nat (0x80 + ?e) :: u8"
      let ?s = "s'\<lparr>cbb_buf := (cbb_buf s')[length pre := ?x]\<rparr>"
      have "buf_holds ?s (pre @ ?x # mid @ b)" by (rule buf_holds_update [OF ok(2)])
      then have h': "buf_holds ?s ((pre @ [?x]) @ mid @ b)" by simp
      have m: "unat (of_nat (1 + ?e) - 1 :: u8) = length mid" using ue ok(3) by simp
      have l: "unat (of_nat (length pre + 1) :: size_t) = length (pre @ [?x])" using u by simp
      note p = put_length_cases(1) [OF h' l m, of n "of_nat (length b)"]
        put_length_cases(2) [OF h' l m, of "length b"]
      have d: "enclose Asn1 b = Some ((?x # be_bytes ?e (length b)) @ b)"
        using 2 by (simp add: der_len_def)
      show thesis
        by (rule that(1) [of "?s\<lparr>cbb_buf := write_at (cbb_buf ?s) (length (pre @ [?x]))
              (be_bytes (length mid) (length b)), cbb_children := take n (cbb_children s)\<rparr>",
              OF _ d [folded k]])
          (use 2 k c p u e ok in \<open>simp_all add: asn1_length_long step_Some same_shape_def Let_def
              of_nat_Suc [of 0] del: of_nat_add of_nat_Suc\<close>)
    next
      case (err s')
      have "close_child A n \<lparr>child_offset = of_nat (length pre),
          pending_len_len = of_nat (kind_len k), pending_is_asn1 = (k = Asn1)\<rparr> s = (None, s')"
        using 2 k c e err by (simp add: asn1_length_long step_None Let_def of_nat_Suc [of 0]
            del: of_nat_add of_nat_Suc)
      moreover have "2 ^ 64 \<le> length (pre @ t)" if "enclose k b = Some t" "ample A s" for t
        using that 2 k err(2) by (auto simp: length_der_len)
      ultimately show thesis by (rule that(2))
    qed
  next
    case 3
    show thesis
      by (rule err [of s]) (use 3 k c in simp_all)
  qed
qed

section \<open>Flushing\<close>

lemma length_enclose: "enclose k b = Some t \<Longrightarrow> kind_len k + length b \<le> length t"
  by (cases k) (auto split: if_splits simp: length_der_len)

lemma doc_depth_append [simp]: "doc_depth (doc_append t d) = doc_depth d"
  by (cases d) (cases "doc_frames d" rule: rev_cases; simp)

lemma doc_flush_depth: "doc_flush n d = Some d' \<Longrightarrow> n \<le> doc_depth d \<Longrightarrow> doc_depth d' = n"
  by (cases d) (auto simp: bind_eq_Some_conv simp del: doc_append.simps)

lemma doc_flush_top: "doc_depth d = n \<Longrightarrow> doc_flush n d = Some d"
proof (cases d)
  case (Doc root fs)
  then show "doc_depth d = n \<Longrightarrow> ?thesis"
    by (cases fs rule: rev_cases) auto
qed

lemma doc_flush_step:
  assumes "fs = gs @ (k, b) # rest" and "length gs = n"
  shows "doc_flush (Suc n) (Doc root fs) =
      Option.bind (nest rest) (\<lambda>t. Some (Doc root (gs @ [(k, b @ t)])))"
    and "doc_flush n (Doc root fs) = Option.bind (nest rest) (\<lambda>t. Option.bind (enclose k (b @ t))
      (\<lambda>u. Some (doc_append u (Doc root gs))))"
  using assms by (auto simp: Option.bind_assoc)

lemma flush_cases:
  assumes "repr s d" and "n \<le> doc_depth d"
  obtains (ok) s' d' where "CBB_flush A n s = (Some (), s')" "doc_flush n d = Some d'" "repr s' d'"
    "doc_depth d' = n" "can_resize s' = can_resize s" "doc_size d \<le> doc_size d'"
  | (err) s' where "CBB_flush A n s = (None, s')" "cbb_error s'"
    "\<And>d'. doc_flush n d = Some d' \<Longrightarrow> ample A s \<Longrightarrow> 2 ^ 64 \<le> doc_size d'"
proof -
  have "(\<exists>s' d'. CBB_flush A n s = (Some (), s') \<and> doc_flush n d = Some d' \<and> repr s' d' \<and>
      can_resize s' = can_resize s \<and> doc_size d \<le> doc_size d') \<or>
    (\<exists>s'. CBB_flush A n s = (None, s') \<and> cbb_error s' \<and>
      (\<forall>d'. doc_flush n d = Some d' \<longrightarrow> ample A s \<longrightarrow> 2 ^ 64 \<le> doc_size d'))"
    using assms
  proof (induction "doc_depth d - n" arbitrary: n)
    case 0
    then have n: "n = doc_depth d" by simp
    have "CBB_flush A n s = (Some (), s)"
      using 0(2) n repr_depth [of s d] repr_not_error [of s d]
      by (subst CBB_flush.simps) (simp add: base_is_null_def has_child_def)
    with 0(2) n show ?case by (simp add: doc_flush_top)
  next
    case (Suc m)
    obtain root fs where d: "d = Doc root fs" by (cases d)
    have n: "n < length fs" using Suc.hyps(2) d by simp
    define gs where "gs = take n fs"
    obtain k b where kb: "fs ! n = (k, b)" by (cases "fs ! n")
    define rest where "rest = drop (Suc n) fs"
    have fs: "fs = gs @ (k, b) # rest" and gs: "length gs = n"
      using n kb id_take_nth_drop [OF n] by (simp_all add: gs_def rest_def)
    note step = doc_flush_step [OF fs gs, of root]
    have k8: "kind_len k \<le> 8" using Suc.prems(1) d fs by (auto simp: repr_def)
    let ?child = "\<lparr>child_offset = of_nat (length (root @ flat gs)),
      pending_len_len = of_nat (kind_len k), pending_is_asn1 = (k = Asn1)\<rparr>"
    have ch: "cbb_children s ! n = ?child"
      using Suc.prems(1) d fs gs by (simp add: repr_def children_of_append nth_append)
    have f: "CBB_flush A n s = (case (case CBB_flush A (Suc n) s of (None, s') \<Rightarrow> (None, s')
          | (Some _, s') \<Rightarrow> close_child A n ?child s')
        of (None, s') \<Rightarrow> (None, cbb_on_error n s') | (Some _, s') \<Rightarrow> (Some (), s'))"
      using n d repr_depth [OF Suc.prems(1)] repr_not_error [OF Suc.prems(1)]
      unfolding ch [symmetric] by (subst CBB_flush.simps) (simp add: base_is_null_def has_child_def)
    have "m = doc_depth d - Suc n" "Suc n \<le> doc_depth d" using Suc.hyps(2) n d by simp_all
    from Suc.hyps(1) [OF this(1) Suc.prems(1) this(2)]
    show ?case
    proof (elim disjE exE conjE)
      fix s' d'
      assume r: "CBB_flush A (Suc n) s = (Some (), s')" "doc_flush (Suc n) d = Some d'" "repr s' d'"
        "can_resize s' = can_resize s" "doc_size d \<le> doc_size d'"
      from r(2) obtain t where t: "nest rest = Some t" "d' = (Doc root (gs @ [(k, b @ t)]))"
        unfolding d step(1) by (auto simp: bind_eq_Some_conv)
      have h: "buf_holds s' ((root @ flat gs) @ replicate (kind_len k) 0 @ b @ t)"
        using r(3) t(2) by (simp add: repr_def flat_append)
      have nn: "\<not> base_is_null n s'"
        using repr_depth [OF r(3)] t(2) gs by (simp add: base_is_null_def)
      from h k8 nn show ?thesis
      proof (cases rule: close_child_cases [of s' "root @ flat gs" k "b @ t" n A])
        case (ok s'' u)
        have e: "doc_flush n d = Some (doc_append u (Doc root gs))"
          unfolding d step(2) t(1) using ok(2) by (simp del: doc_append.simps)
        have "repr s'' (doc_append u (Doc root gs))"
          using r(3) t(2) gs ok by (intro repr_appendI) (auto simp: repr_def children_of_append)
        moreover have "doc_size d \<le> doc_size (doc_append u (Doc root gs))"
          using r(5) t(2) length_enclose [OF ok(2)]
          by (simp add: doc_bytes_append flat_append del: doc_append.simps)
        ultimately show ?thesis using e f r(1,4) ok(1,4) by simp
      next
        case (err s'')
        have "2 ^ 64 \<le> doc_size d''" if "doc_flush n d = Some d''" "ample A s" for d''
        proof -
          from that(1) obtain u where u: "enclose k (b @ t) = Some u"
            "d'' = doc_append u (Doc root gs)" unfolding d step(2) t(1) bind_eq_Some_conv by blast
          have "ample A s'" using that(2) r(4) by (simp add: ample_def)
          from err(2) [OF u(1) this] u(2) show ?thesis
            by (simp add: doc_bytes_append del: doc_append.simps)
        qed
        moreover have "CBB_flush A n s = (None, cbb_on_error n s'')" using f r(1) err(1) by simp
        ultimately show ?thesis by (auto simp: cbb_on_error_def)
      qed
    next
      fix s'
      assume r: "CBB_flush A (Suc n) s = (None, s')" "cbb_error s'"
        "\<forall>d'. doc_flush (Suc n) d = Some d' \<longrightarrow> ample A s \<longrightarrow> 2 ^ 64 \<le> doc_size d'"
      have "2 ^ 64 \<le> doc_size d''" if d'': "doc_flush n d = Some d''" "ample A s" for d''
      proof -
        from d''(1) obtain t u where u: "nest rest = Some t" "enclose k (b @ t) = Some u"
            "d'' = doc_append u (Doc root gs)" unfolding d step(2) bind_eq_Some_conv by blast
        have "doc_flush (Suc n) d = Some (Doc root (gs @ [(k, b @ t)]))" unfolding d step(1) u(1) by simp
        with r(3) d''(2) have "2 ^ 64 \<le> doc_size (Doc root (gs @ [(k, b @ t)]))" by blast
        with length_enclose [OF u(2)] u(3) show ?thesis
          by (simp add: doc_bytes_append flat_append del: doc_append.simps)
      qed
      moreover have "CBB_flush A n s = (None, cbb_on_error n s')" using f r(1) by simp
      ultimately show ?thesis by (auto simp: cbb_on_error_def)
    qed
  qed
  then show thesis
  proof (elim disjE exE conjE)
    fix s' d'
    assume *: "CBB_flush A n s = (Some (), s')" "doc_flush n d = Some d'" "repr s' d'"
      "can_resize s' = can_resize s" "doc_size d \<le> doc_size d'"
    from *(2) assms(2) have "doc_depth d' = n" by (rule doc_flush_depth)
    with * show thesis by (intro ok)
  qed (use err in blast)
qed

end
