(* ===== verification/CbbImpl.thy ===== *)
theory CbbImpl
  imports CbbDoc
begin

text \<open>
  The refinement of documents by cbb.c: \<open>implements A P m f\<close> relates a call \<open>m\<close> to
  the operation \<open>f\<close> on documents that satisfy \<open>P\<close>; it composes along \<open>step\<close>, and one lemma
  per writer says which operation it implements.
\<close>

declare doc_append.simps [simp del]

section \<open>Refinement\<close>

abbreviation at_least :: "nat \<Rightarrow> doc \<Rightarrow> bool" where
  "at_least n d \<equiv> n \<le> doc_depth d"

abbreviation exactly :: "nat \<Rightarrow> doc \<Rightarrow> bool" where
  "exactly n d \<equiv> doc_depth d = n"

definition implements :: "alloc \<Rightarrow> (doc \<Rightarrow> bool) \<Rightarrow> (cbb, 'a) op \<Rightarrow> (doc \<Rightarrow> doc option) \<Rightarrow> bool" where
  "implements A P m f \<longleftrightarrow>
     (\<forall>d d'. P d \<longrightarrow> f d = Some d' \<longrightarrow> doc_size d \<le> doc_size d') \<and>
     (\<forall>s d. repr s d \<and> P d \<longrightarrow>
       (case m s of
          (Some x, s') \<Rightarrow> \<exists>d'. f d = Some d' \<and> repr s' d' \<and> can_resize s' = can_resize s
        | (None, s') \<Rightarrow> cbb_error s' \<and> (\<forall>d'. f d = Some d' \<and> ample A s \<longrightarrow> 2 ^ 64 \<le> doc_size d')))"

lemma implementsI:
  assumes "\<And>d d'. P d \<Longrightarrow> f d = Some d' \<Longrightarrow> doc_size d \<le> doc_size d'"
    and "\<And>s d. repr s d \<Longrightarrow> P d \<Longrightarrow>
      (\<exists>x s' d'. m s = (Some x, s') \<and> f d = Some d' \<and> repr s' d' \<and> can_resize s' = can_resize s) \<or>
      (\<exists>s'. m s = (None, s') \<and> cbb_error s' \<and>
         (\<forall>d'. f d = Some d' \<longrightarrow> ample A s \<longrightarrow> 2 ^ 64 \<le> doc_size d'))"
  shows "implements A P m f"
  unfolding implements_def
proof (intro conjI allI impI)
  fix s d
  assume "repr s d \<and> P d"
  from assms(2) [OF conjunct1 [OF this] conjunct2 [OF this]] show "case m s of
        (Some x, s') \<Rightarrow> \<exists>d'. f d = Some d' \<and> repr s' d' \<and> can_resize s' = can_resize s
      | (None, s') \<Rightarrow> cbb_error s' \<and> (\<forall>d'. f d = Some d' \<and> ample A s \<longrightarrow> 2 ^ 64 \<le> doc_size d')"
    by (elim disjE exE conjE) simp_all
qed (rule assms(1))

lemma implements_size: "implements A P m f \<Longrightarrow> P d \<Longrightarrow> f d = Some d' \<Longrightarrow> doc_size d \<le> doc_size d'"
  by (simp add: implements_def)

lemma implementsE:
  assumes "implements A P m f" and "repr s d" and "P d"
  obtains (ok) x s' d' where "m s = (Some x, s')" "f d = Some d'" "repr s' d'"
    "can_resize s' = can_resize s"
  | (err) s' where "m s = (None, s')" "cbb_error s'"
    "\<And>d'. f d = Some d' \<Longrightarrow> ample A s \<Longrightarrow> 2 ^ 64 \<le> doc_size d'"
proof (cases "m s")
  case (Pair r s')
  with assms have "case r of Some x \<Rightarrow> \<exists>d'. f d = Some d' \<and> repr s' d' \<and> can_resize s' = can_resize s
      | None \<Rightarrow> cbb_error s' \<and> (\<forall>d'. f d = Some d' \<and> ample A s \<longrightarrow> 2 ^ 64 \<le> doc_size d')"
    unfolding implements_def by fastforce
  with Pair ok err show thesis by (cases r) auto
qed

lemma nest_size: "nest fs = Some t \<Longrightarrow> length (flat fs) \<le> length t"
proof (induction fs arbitrary: t rule: nest.induct)
  case (2 k bs fs)
  then obtain u where u: "nest fs = Some u" "enclose k (bs @ u) = Some t"
    by (auto simp: bind_eq_Some_conv)
  with 2(1) [of u] length_enclose [OF u(2)] show ?case by simp
qed simp

lemma doc_flush_size: "doc_flush n d = Some d' \<Longrightarrow> doc_size d \<le> doc_size d'"
proof (cases d)
  case (Doc root fs)
  have "flat fs = flat (take n fs) @ flat (drop n fs)" by (simp flip: flat_append)
  with Doc show "doc_flush n d = Some d' \<Longrightarrow> ?thesis"
    by (auto simp: bind_eq_Some_conv doc_bytes_append dest: nest_size)
qed

lemma implements_flush: "implements A (at_least n) (CBB_flush A n) (doc_flush n)"
proof (rule implementsI)
  fix s d
  assume "repr s d" "n \<le> doc_depth d"
  then show "(\<exists>x s' d'. CBB_flush A n s = (Some x, s') \<and> doc_flush n d = Some d' \<and> repr s' d' \<and>
         can_resize s' = can_resize s) \<or>
      (\<exists>s'. CBB_flush A n s = (None, s') \<and> cbb_error s' \<and>
         (\<forall>d'. doc_flush n d = Some d' \<longrightarrow> ample A s \<longrightarrow> 2 ^ 64 \<le> doc_size d'))"
    by (cases rule: flush_cases [of s d n A]) blast+
qed (rule doc_flush_size)

lemma ample_cong: "can_resize s' = can_resize s \<Longrightarrow> ample A s' = ample A s"
  by (simp add: ample_def)

lemma implements_step:
  assumes m: "implements A P m f" and g: "\<And>x. implements A Q (g x) h"
    and q: "\<And>d d'. P d \<Longrightarrow> f d = Some d' \<Longrightarrow> Q d'"
  shows "implements A P (step m g) (\<lambda>d. Option.bind (f d) h)"
proof (rule implementsI)
  fix d d'
  assume "P d" "Option.bind (f d) h = Some d'"
  then show "doc_size d \<le> doc_size d'"
    using implements_size [OF m] implements_size [OF g] q
    by (fastforce simp: bind_eq_Some_conv intro: order_trans)
next
  fix s d
  assume d: "repr s d" "P d"
  from m d show "(\<exists>x s' d'. step m g s = (Some x, s') \<and> Option.bind (f d) h = Some d' \<and> repr s' d' \<and>
         can_resize s' = can_resize s) \<or>
      (\<exists>s'. step m g s = (None, s') \<and> cbb_error s' \<and>
         (\<forall>d'. Option.bind (f d) h = Some d' \<longrightarrow> ample A s \<longrightarrow> 2 ^ 64 \<le> doc_size d'))"
  proof (cases rule: implementsE)
    case (ok x s' d')
    note r = ok
    from g ok(3) q [OF d(2) ok(2)] show ?thesis
    proof (cases rule: implementsE [of A Q "g x"])
      case (ok y s'' d'')
      with r show ?thesis by (simp add: step_Some)
    next
      case (err s'')
      with r show ?thesis by (simp add: step_Some ample_cong [OF r(4)])
    qed
  next
    case (err s')
    have "2 ^ 64 \<le> doc_size d''" if "Option.bind (f d) h = Some d''" "ample A s" for d''
    proof -
      from that(1) obtain d' where d': "f d = Some d'" "h d' = Some d''"
        by (auto simp: bind_eq_Some_conv)
      from implements_size [OF g q [OF d(2) d'(1)] d'(2)] err(3) [OF d'(1) that(2)]
      show ?thesis by simp
    qed
    with err(1,2) show ?thesis by (simp add: step_None)
  qed
qed

lemma implements_ret: "implements A P (ret x) Some"
  by (rule implementsI) simp_all

lemma implements_cong:
  assumes "implements A P m f" and "\<And>d. P d \<Longrightarrow> f d = g d"
  shows "implements A P m g"
proof (rule implementsI)
  show "doc_size d \<le> doc_size d'" if "P d" "g d = Some d'" for d d'
    using implements_size [OF assms(1)] that assms(2) by metis
  fix s d
  assume d: "repr s d" "P d"
  from assms(1) d assms(2) [OF d(2)]
  show "(\<exists>x s' d'. m s = (Some x, s') \<and> g d = Some d' \<and> repr s' d' \<and> can_resize s' = can_resize s) \<or>
      (\<exists>s'. m s = (None, s') \<and> cbb_error s' \<and>
         (\<forall>d'. g d = Some d' \<longrightarrow> ample A s \<longrightarrow> 2 ^ 64 \<le> doc_size d'))"
    by (cases rule: implementsE) (metis, metis)
qed

lemma implements_weaken: "implements A P m f \<Longrightarrow> (\<And>d. Q d \<Longrightarrow> P d) \<Longrightarrow> implements A Q m f"
  by (simp add: implements_def)

section \<open>The writers\<close>

lemma CBB_add_space_cases:
  assumes "repr s d" and "n \<le> doc_depth d"
  obtains (ok) s' out d' junk where "CBB_add_space A n len s = (Some out, s')"
    "doc_flush n d = Some d'" "unat out = doc_size d'" "buf_holds s' (doc_bytes d' @ junk)"
    "length junk = unat len" "cbb_children s' = children_of (length (doc_root d')) (doc_frames d')"
    "doc_ok d'" "can_resize s' = can_resize s"
  | (err) s' where "CBB_add_space A n len s = (None, s')" "cbb_error s'"
    "\<And>d'. doc_flush n d = Some d' \<Longrightarrow> ample A s \<Longrightarrow> 2 ^ 64 \<le> doc_size d' + unat len"
  using assms
proof (cases rule: flush_cases [of s d n A])
  case (ok s' d')
  from ok(3) have h: "buf_holds s' (doc_bytes d')" by (simp add: repr_def)
  have n: "\<not> base_is_null n s'" using repr_depth [OF ok(3)] ok(4) by (simp add: base_is_null_def)
  note f = ok
  from h n show thesis
  proof (cases rule: cbb_buffer_add_cases [of s' _ n A len])
    case (ok s'' junk)
    with f show thesis
      using buf_holds_len(1) [OF h]
      by (intro that(1) [of "cbb_len s'" s'' d' junk])
        (simp_all add: CBB_add_space_def step_Some same_shape_def repr_def)
  next
    case (err s'')
    with f show thesis
      by (intro that(2) [of s'']) (simp_all add: CBB_add_space_def step_Some ample_cong [OF f(5)])
  qed
next
  case (err s')
  then show thesis
    by (intro that(2) [of s']) (auto simp: CBB_add_space_def step_None intro: trans_le_add1)
qed

lemma doc_write_size: "doc_write n bs d = Some d' \<Longrightarrow> doc_size d \<le> doc_size d'"
  unfolding doc_write_def
  by (auto simp: bind_eq_Some_conv doc_bytes_append dest: doc_flush_size)

lemma implements_write:
  assumes "length bs = unat len"
    and "\<And>out s. m out s = (Some (), s\<lparr>cbb_buf := write_at (cbb_buf s) (unat out) bs\<rparr>)"
  shows "implements A (at_least n) (step (CBB_add_space A n len) m) (doc_write n bs)"
proof (rule implementsI)
  fix s d
  assume "repr s d" "n \<le> doc_depth d"
  then show "(\<exists>x s' d'. step (CBB_add_space A n len) m s = (Some x, s') \<and> doc_write n bs d = Some d' \<and>
         repr s' d' \<and> can_resize s' = can_resize s) \<or>
      (\<exists>s'. step (CBB_add_space A n len) m s = (None, s') \<and> cbb_error s' \<and>
         (\<forall>d'. doc_write n bs d = Some d' \<longrightarrow> ample A s \<longrightarrow> 2 ^ 64 \<le> doc_size d'))"
  proof (cases rule: CBB_add_space_cases [of s d n A len])
    case (ok s' out d' junk)
    let ?s = "s'\<lparr>cbb_buf := write_at (cbb_buf s') (unat out) bs\<rparr>"
    have "buf_holds ?s (doc_bytes d' @ bs)"
      using buf_holds_write [of s' "doc_bytes d'" junk "[]" bs] ok(3-5) assms(1) by simp
    then have "repr ?s (doc_append bs d')" using ok(6,7) by (intro repr_appendI) simp_all
    moreover have "doc_write n bs d = Some (doc_append bs d')" using ok(2) by (simp add: doc_write_def)
    ultimately show ?thesis using ok(1,8) by (simp add: step_Some assms(2))
  next
    case (err s')
    then show ?thesis
      using assms(1) by (auto simp: step_None doc_write_def bind_eq_Some_conv doc_bytes_append)
  qed
qed (rule doc_write_size)

lemma implements_bytes:
  "unat len \<le> length data \<Longrightarrow>
   implements A (at_least n) (CBB_add_bytes A n data len) (doc_write n (take (unat len) data))"
  unfolding CBB_add_bytes_def by (rule implements_write) simp_all

lemma implements_zeros:
  "implements A (at_least n) (CBB_add_zeros A n len) (doc_write n (replicate (unat len) 0))"
  unfolding CBB_add_zeros_def by (rule implements_write) simp_all

lemma implements_u:
  assumes "unat k \<le> 8"
  shows "implements A (at_least n) (cbb_add_u A n v k)
    (\<lambda>d. if unat v < 256 ^ unat k then doc_write n (be_bytes (unat k) (unat v)) d else None)"
proof (rule implementsI)
  fix s d
  assume "repr s d" "n \<le> doc_depth d"
  then show "(\<exists>x s' d'. cbb_add_u A n v k s = (Some x, s') \<and>
         (if unat v < 256 ^ unat k then doc_write n (be_bytes (unat k) (unat v)) d else None) = Some d' \<and>
         repr s' d' \<and> can_resize s' = can_resize s) \<or>
      (\<exists>s'. cbb_add_u A n v k s = (None, s') \<and> cbb_error s' \<and>
         (\<forall>d'. (if unat v < 256 ^ unat k then doc_write n (be_bytes (unat k) (unat v)) d else None) =
           Some d' \<longrightarrow> ample A s \<longrightarrow> 2 ^ 64 \<le> doc_size d'))"
  proof (cases rule: CBB_add_space_cases [of s d n A k])
    case (ok s' out d' junk)
    let ?bs = "be_bytes (unat k) (unat v)"
    let ?s = "s'\<lparr>cbb_buf := write_at (cbb_buf s') (unat out) ?bs\<rparr>"
    have "unat out + unat k \<le> length (cbb_buf s')"
      using buf_holds_len(3) [OF ok(4)] ok(3,5) by simp
    note l = put_be_loop [OF this, of v]
    have z: "drop_bit (8 * unat k) v = 0 \<longleftrightarrow> unat v < 256 ^ unat k"
      by (simp add: drop_bit_0_iff power_mult)
    have "buf_holds ?s (doc_bytes d' @ ?bs)"
      using buf_holds_write [of s' "doc_bytes d'" junk "[]" ?bs] ok(3-5) by simp
    then have "repr ?s (doc_append ?bs d')" using ok(6,7) by (intro repr_appendI) simp_all
    moreover have "doc_write n ?bs d = Some (doc_append ?bs d')" using ok(2) by (simp add: doc_write_def)
    ultimately show ?thesis
      using ok(1,8) l z by (auto simp: cbb_add_u_def step_Some cbb_on_error_def)
  next
    case (err s')
    then show ?thesis
      by (auto simp: cbb_add_u_def step_None doc_write_def bind_eq_Some_conv doc_bytes_append)
  qed
qed (auto split: if_splits dest: doc_write_size)

lemma implements_u8: "implements A (at_least n) (CBB_add_u8 A n b) (doc_write n [b])"
  using implements_u [of 1 A n "ucast b"] unat_u8_less [of b] by (simp add: CBB_add_u8_def)

lemma implements_u16: "implements A (at_least n) (CBB_add_u16 A n v) (doc_write n (be_bytes 2 (unat v)))"
  using implements_u [of 2 A n "ucast v"] unsigned_less [of v, where ?'a = nat]
  by (simp add: CBB_add_u16_def unat_ucast_up)

lemma implements_u24: "implements A (at_least n) (CBB_add_u24 A n v)
    (\<lambda>d. if unat v < 256 ^ 3 then doc_write n (be_bytes 3 (unat v)) d else None)"
  using implements_u [of 3 A n "ucast v"] by (simp add: CBB_add_u24_def unat_ucast_up cong: if_cong)

lemma implements_u32: "implements A (at_least n) (CBB_add_u32 A n v) (doc_write n (be_bytes 4 (unat v)))"
  using implements_u [of 4 A n "ucast v"] unsigned_less [of v, where ?'a = nat]
  by (simp add: CBB_add_u32_def unat_ucast_up)

lemma implements_u64: "implements A (at_least n) (CBB_add_u64 A n v) (doc_write n (be_bytes 8 (unat v)))"
  using implements_u [of 8 A n v] unat_u64_less [of v] by (simp add: CBB_add_u64_def)

lemma doc_push_size: "doc_size d \<le> doc_size (doc_push k d)"
  by (simp add: doc_bytes_push)

lemma implements_child:
  assumes "kind_len k \<le> 8"
  shows "implements A (exactly n) (cbb_add_child A n (of_nat (kind_len k)) (k = Asn1))
    (\<lambda>d. Some (doc_push k d))"
proof (rule implementsI)
  fix s d
  assume d: "repr s d" "doc_depth d = n"
  then have h: "buf_holds s (doc_bytes d)" by (simp add: repr_def)
  from d have n: "\<not> base_is_null n s" using repr_depth [OF d(1)] by (simp add: base_is_null_def)
  have cl: "cbb_len s = of_nat (doc_size d)"
    using buf_holds_len(1) [OF h] by (metis of_nat_unat)
  have u: "unat (ucast (of_nat (kind_len k) :: u8) :: size_t) = kind_len k"
    "unat (of_nat (kind_len k) :: u8) = kind_len k"
    using assms by simp_all
  from h n show "(\<exists>x s' d'. cbb_add_child A n (of_nat (kind_len k)) (k = Asn1) s = (Some x, s') \<and>
         Some (doc_push k d) = Some d' \<and> repr s' d' \<and> can_resize s' = can_resize s) \<or>
      (\<exists>s'. cbb_add_child A n (of_nat (kind_len k)) (k = Asn1) s = (None, s') \<and> cbb_error s' \<and>
         (\<forall>d'. Some (doc_push k d) = Some d' \<longrightarrow> ample A s \<longrightarrow> 2 ^ 64 \<le> doc_size d'))"
  proof (cases rule: cbb_buffer_add_cases [of s _ n A "ucast (of_nat (kind_len k) :: u8)"])
    case (ok s' junk)
    let ?c = "\<lparr>child_offset = cbb_len s, pending_len_len = of_nat (kind_len k), pending_is_asn1 = (k = Asn1)\<rparr>"
    let ?s = "s'\<lparr>cbb_buf := write_at (cbb_buf s') (unat (cbb_len s)) (replicate (kind_len k) 0),
      cbb_children := take n (cbb_children s') @ [?c]\<rparr>"
    have "buf_holds ?s (doc_bytes d @ replicate (kind_len k) 0)"
      using buf_holds_write [of s' "doc_bytes d" junk "[]" "replicate (kind_len k) 0"] ok(2,3) u
        buf_holds_len(1) [OF h]
      by simp
    then have "repr ?s (doc_push k d)"
      using d ok(4) assms cl repr_depth [OF d(1)]
      by (intro repr_push [OF d(1)]) (simp_all add: same_shape_def)
    then show ?thesis
      using ok u by (simp add: cbb_add_child_def same_shape_def Let_def)
  next
    case (err s')
    then show ?thesis
      using u by (auto simp: cbb_add_child_def doc_bytes_push Let_def)
  qed
qed (use doc_push_size in auto)

lemma implements_open:
  assumes "kind_len k \<le> 8"
  shows "implements A (at_least n)
    (step (CBB_flush A n) (\<lambda>_. cbb_add_child A n (of_nat (kind_len k)) (k = Asn1))) (doc_open n k)"
  unfolding doc_open_def
  by (rule implements_step [OF implements_flush implements_child [OF assms]]) (rule doc_flush_depth)

lemma implements_length_prefixed:
  assumes "unat k \<le> 8"
  shows "implements A (at_least n) (cbb_add_length_prefixed A n k) (doc_open n (Prefix (unat k)))"
  using implements_open [of "Prefix (unat k)" A n] assms by (simp add: cbb_add_length_prefixed_def)

end
