(* ===== verification/Asn1Int.thy ===== *)
theory Asn1Int
  imports Asn1
begin

text \<open>
  The value readers of cbs.c: elements of a given tag, INTEGER, BOOLEAN and optional
  elements. The specification of an INTEGER is the shortest two's complement encoding
  \<open>der_int\<close>; the readers accept exactly it.
\<close>

section \<open>Elements of a given tag\<close>

lemma length_der_header: "length (der_tag tag) + length (der_len n) \<le> 11"
  using length_der_tag [of tag] by (simp add: der_len_def len_len_def)

lemma skip_header:
  assumes "fits (der_tlv tag body)"
  shows "CBS_skip (of_nat (length (der_tag tag @ der_len (length body)))) (cbs_view (der_tlv tag body) u)
    = (Some (), cbs_view body u)"
proof -
  have "unat (of_nat (length (der_tag tag @ der_len (length body))) :: size_t) =
      length (der_tag tag @ der_len (length body))"
    using length_der_header [of tag "length body"] by (intro unat_of_nat_size) simp
  then show ?thesis
    using assms by (simp add: CBS_skip_view del: length_append) (simp add: der_tlv_def)
qed

lemma fits_tlv_prefix: "fits (der_tlv tag body @ ys) \<Longrightarrow> fits (der_tlv tag body)"
  by simp

lemma der_element_simps [simp]:
  "el_tag (der_element tag body t) = tag"
  "el_out (der_element tag body t) = cbs_view (der_tlv tag body) t"
  "el_header_len (der_element tag body t) = of_nat (length (der_tag tag @ der_len (length body)))"
  by (simp_all add: der_element_def)

lemma CBS_get_asn1_complete:
  assumes "fits (der_tlv tag body @ ys)" and "valid_tag tag" and "length body < 256 ^ 4"
  shows "CBS_get_asn1 tag (cbs_view (der_tlv tag body @ ys) t) =
    (Some (cbs_view body (ys @ t)), cbs_view ys t)"
  using get_any_asn1_element_complete [OF assms(1) refl assms(2,3), of t]
    skip_header [OF fits_tlv_prefix [OF assms(1)], of "ys @ t"]
  by (simp add: CBS_get_asn1_def cbs_get_asn1_def step_def)

lemma CBS_get_asn1_sound:
  assumes "fits bs" and "CBS_get_asn1 tag (cbs_view bs t) = (Some out, cbs')"
  obtains body ys where "bs = der_tlv tag body @ ys" "valid_tag tag" "length body < 256 ^ 4"
    "out = cbs_view body (ys @ t)" "cbs' = cbs_view ys t"
proof -
  note result = that
  obtain res c where e: "CBS_get_any_asn1_element (cbs_view bs t) = (res, c)"
    by (cases "CBS_get_any_asn1_element (cbs_view bs t)")
  with assms(2) obtain el where el: "res = Some el" "el_tag el = tag"
    by (cases res) (simp_all add: CBS_get_asn1_def cbs_get_asn1_def step_def split: if_splits)
  obtain tag' body ys where
    *: "bs = der_tlv tag' body @ ys" "valid_tag tag'" "length body < 256 ^ 4"
    "el = der_element tag' body (ys @ t)"
    by (rule get_any_asn1_element_sound [OF assms(1) e [unfolded el(1)]])
  with el have "tag' = tag" by simp
  note * = * [unfolded this]
  have "CBS_get_asn1 tag (cbs_view bs t) = (Some (cbs_view body (ys @ t)), cbs_view ys t)"
    unfolding *(1) by (rule CBS_get_asn1_complete [OF assms(1) [unfolded *(1)] *(2,3)])
  with assms(2) have "out = cbs_view body (ys @ t)" "cbs' = cbs_view ys t" by simp_all
  then show thesis by (rule result [OF *(1-3)])
qed

text \<open>
  Elements of a given tag. \<open>CBS_get_asn1\<close> succeeds if and only if the input starts with
  a DER element of that tag, and its output is the element's body.
\<close>

theorem CBS_get_asn1_der:
  assumes "fits bs"
  shows "CBS_get_asn1 tag (cbs_view bs t) = (Some out, cbs') \<longleftrightarrow>
    (\<exists>body ys. bs = der_tlv tag body @ ys \<and> valid_tag tag \<and> length body < 256 ^ 4 \<and>
       out = cbs_view body (ys @ t) \<and> cbs' = cbs_view ys t)"
  using CBS_get_asn1_complete [of tag _ _ t] CBS_get_asn1_sound [OF assms, of tag t out cbs'] assms
  by metis

theorem CBS_get_asn1_der_witness:
  "CBS_get_asn1 CBS_ASN1_OCTETSTRING (cbs_view [4, 2, 7, 8, 9] []) =
     (Some (cbs_view [7, 8] [9]), cbs_view [9] [])"
proof -
  have "[4, 2, 7, 8, 9] = der_tlv CBS_ASN1_OCTETSTRING [7, 8] @ [9]"
    by (simp add: der_tlv_def der_tag_def der_len_def CBS_ASN1_TAG_NUMBER_MASK_def
        CBS_ASN1_OCTETSTRING_def)
  moreover have "valid_tag CBS_ASN1_OCTETSTRING"
    by (simp add: valid_tag_def CBS_ASN1_CONSTRUCTED_def CBS_ASN1_OCTETSTRING_def)
  ultimately show ?thesis
    by (subst CBS_get_asn1_der)
      (simp, rule exI [of _ "[7, 8]"], rule exI [of _ "[9]"], simp)
qed

section \<open>Shortest two's complement\<close>

function der_int :: "int \<Rightarrow> u8 list" where
  "der_int i = (if - 128 \<le> i \<and> i < 128 then [word_of_int i]
                else der_int (i div 256) @ [word_of_int i])"
  by pat_completeness auto
termination
  by (relation "measure (\<lambda>i. nat \<bar>i\<bar>)") (auto simp: abs_if) 

declare der_int.simps [simp del]

definition twos_val :: "u8 list \<Rightarrow> int" where
  "twos_val bs = int (be_val bs) - (if 128 \<le> unat (hd bs) then 256 ^ length bs else 0)"

definition minimal :: "u8 list \<Rightarrow> bool" where
  "minimal bs \<longleftrightarrow> (case bs of [] \<Rightarrow> False | [b] \<Rightarrow> True
     | b # c # _ \<Rightarrow> \<not> (b = 0 \<and> unat c < 128) \<and> \<not> (b = 0xff \<and> 128 \<le> unat c))"

lemma twos_val_single: "twos_val [b] = (if 128 \<le> unat b then int (unat b) - 256 else int (unat b))"
  by (simp add: twos_val_def be_val_Cons)

lemma twos_val_snoc: "xs \<noteq> [] \<Longrightarrow> twos_val (xs @ [b]) = twos_val xs * 256 + int (unat b)"
  by (simp add: twos_val_def algebra_simps)

lemma unat_word_of_int_u8: "int (unat (word_of_int i :: u8)) = i mod 256"
  by (simp add: unsigned_of_int take_bit_eq_mod)

lemma der_int_nonempty [simp]: "der_int i \<noteq> []"
  by (simp add: der_int.simps [of i])

text \<open>Facts on the digits of an integer to base 256, with the digit as a variable.\<close>

lemma digit_single:
  fixes n :: nat
  assumes "int n = i mod 256" and "- 128 \<le> i \<and> i < 128"
  shows "(if 128 \<le> n then int n - 256 else int n) = i"
proof (cases "i < 0")
  case True
  with assms(2) have "i mod 256 = i + 256"
    using mod_add_self2 [of i 256] mod_pos_pos_trivial [of "i + 256" 256] by simp
  with assms(1) have "int n = i + 256" by simp
  with True assms show ?thesis by simp
next
  case False
  with assms have "int n = i" by simp
  with assms show ?thesis by simp
qed

lemma digit_range:
  fixes n :: nat
  assumes "n < 256"
  shows "- 128 \<le> (if 128 \<le> n then int n - 256 else int n)"
    and "(if 128 \<le> n then int n - 256 else int n) < 128"
    and "(if 128 \<le> n then int n - 256 else int n) mod 256 = int n"
    and "(if 128 \<le> n then int n - 256 else int n) = 0 \<longleftrightarrow> n = 0"
    and "(if 128 \<le> n then int n - 256 else int n) = - 1 \<longleftrightarrow> n = 255"
  using assms by auto

lemma digit_second:
  fixes n :: nat
  assumes "int n = i mod 256" and "\<not> (- 128 \<le> i \<and> i < 128)"
  shows "i div 256 = 0 \<Longrightarrow> 128 \<le> n" and "i div 256 = - 1 \<Longrightarrow> n < 128"
  using assms div_mult_mod_eq [of i 256] by linarith+

lemma digit_snoc:
  fixes n :: nat
  assumes "i = v * 256 + int n" and "n < 256"
  shows "i div 256 = v" and "i mod 256 = int n"
    and "- 128 \<le> i \<and> i < 128 \<Longrightarrow> v = 0 \<and> n < 128 \<or> v = - 1 \<and> 128 \<le> n"
proof -
  show "i div 256 = v" "i mod 256 = int n" using assms by simp_all
  assume i: "- 128 \<le> i \<and> i < 128"
  with assms have "v = 0 \<or> v = - 1" by linarith
  with i assms show "v = 0 \<and> n < 128 \<or> v = - 1 \<and> 128 \<le> n" by auto
qed

lemma der_int_step: "\<not> (- 128 \<le> i \<and> i < 128) \<Longrightarrow> der_int i = der_int (i div 256) @ [word_of_int i]"
  by (subst der_int.simps) simp

lemma twos_val_der_int: "twos_val (der_int i) = i"
proof (induction i rule: der_int.induct)
  case (1 i)
  show ?case
  proof (cases "- 128 \<le> i \<and> i < 128")
    case True
    have "der_int i = [word_of_int i]" using True by (simp add: der_int.simps [of i])
    then show ?thesis
      unfolding twos_val_single by (simp only: digit_single [OF unat_word_of_int_u8 True] twos_val_single)
  next
    case False
    then have "twos_val (der_int i) = i div 256 * 256 + i mod 256"
      by (simp only: der_int_step twos_val_snoc der_int_nonempty 1 [OF False] unat_word_of_int_u8
          not_False_eq_True)
    then show ?thesis by simp
  qed
qed

lemma minimal_Cons2: "minimal (b # c # r) \<longleftrightarrow>
    \<not> (b = 0 \<and> unat c < 128) \<and> \<not> (b = 0xff \<and> 128 \<le> unat c)"
  by (simp add: minimal_def)

lemma minimal_single [simp]: "minimal [b]"
  by (simp add: minimal_def)

lemma minimal_Nil [simp]: "\<not> minimal []"
  by (simp add: minimal_def)

lemma minimal_append: "2 \<le> length xs \<Longrightarrow> minimal (xs @ ys) = minimal xs"
  by (cases xs rule: remdups_adj.cases) (simp_all add: minimal_Cons2)

lemma twos_val_0_iff: "twos_val [c] = 0 \<longleftrightarrow> c = 0" "twos_val [c] = - 1 \<longleftrightarrow> c = 0xff"
proof -
  have "c = 0xff \<longleftrightarrow> unat c = 255" by (simp add: word_unat_eq_iff)
  moreover have "c = 0 \<longleftrightarrow> unat c = 0" by (simp add: unat_eq_zero)
  ultimately show "twos_val [c] = 0 \<longleftrightarrow> c = 0" "twos_val [c] = - 1 \<longleftrightarrow> c = 0xff"
    by (simp_all only: twos_val_single digit_range(4,5) [OF unat_u8_less])
qed

lemma minimal_der_int: "minimal (der_int i)"
proof (induction i rule: der_int.induct)
  case (1 i)
  show ?case
  proof (cases "- 128 \<le> i \<and> i < 128")
    case True
    then show ?thesis by (simp add: der_int.simps [of i])
  next
    case False
    define b where "b = (word_of_int i :: u8)"
    have b: "int (unat b) = i mod 256" unfolding b_def by (rule unat_word_of_int_u8)
    let ?xs = "der_int (i div 256)"
    have i: "der_int i = ?xs @ [b]" using False by (simp add: der_int.simps [of i] b_def)
    show ?thesis
    proof (cases "2 \<le> length ?xs")
      case True
      with 1 False i show ?thesis by (simp add: minimal_append)
    next
      case l: False
      then obtain c where c: "?xs = [c]"
        using der_int_nonempty [of "i div 256"] by (cases ?xs rule: remdups_adj.cases) auto
      have v: "twos_val [c] = i div 256" using twos_val_der_int [of "i div 256"] c by simp
      then have "c = 0 \<Longrightarrow> 128 \<le> unat b" "c = 0xff \<Longrightarrow> unat b < 128"
        using digit_second [OF b False] twos_val_0_iff [of c] by simp_all
      then show ?thesis unfolding i c append.simps minimal_Cons2 by linarith
    qed
  qed
qed

lemma der_int_0: "der_int 0 = [0]" "der_int (- 1) = [0xff]"
  by (simp_all add: der_int.simps)

lemma der_int_single: "der_int (twos_val [b]) = [b]"
proof -
  have "- 128 \<le> twos_val [b] \<and> twos_val [b] < 128"
    unfolding twos_val_single using digit_range(1,2) [OF unat_u8_less [of b]] by blast
  moreover have "twos_val [b] mod 256 = int (unat b)"
    unfolding twos_val_single by (rule digit_range(3) [OF unat_u8_less])
  then have "word_of_int (twos_val [b]) = b"
    by (metis unat_word_of_int_u8 of_nat_eq_iff word_unat_eq_iff)
  ultimately show ?thesis by (subst der_int.simps) simp
qed

lemma der_int_twos_val: "minimal bs \<Longrightarrow> der_int (twos_val bs) = bs"
proof (induction bs rule: rev_induct)
  case Nil
  then show ?case by simp
next
  case (snoc b xs)
  show ?case
  proof (cases "xs = []")
    case True
    then show ?thesis by (simp add: der_int_single)
  next
    case False
    have "minimal xs"
    proof (cases "2 \<le> length xs")
      case True
      with snoc.prems show ?thesis by (simp add: minimal_append)
    next
      case l: False
      with False show ?thesis by (cases xs rule: remdups_adj.cases) auto
    qed
    with snoc.IH have IH: "der_int (twos_val xs) = xs" by simp
    define i where "i = twos_val (xs @ [b])"
    have i: "i = twos_val xs * 256 + int (unat b)" using False by (simp add: i_def twos_val_snoc)
    have u: "unat b < 256" by (rule unat_u8_less)
    note d = digit_snoc(1) [OF i u] and m = digit_snoc(2) [OF i u]
    from m have w: "word_of_int i = b"
      by (metis unat_word_of_int_u8 of_nat_eq_iff word_unat_eq_iff)
    have "\<not> (- 128 \<le> i \<and> i < 128)"
    proof
      assume "- 128 \<le> i \<and> i < 128"
      from digit_snoc(3) [OF i u this] consider "twos_val xs = 0" "unat b < 128" | "twos_val xs = - 1" "128 \<le> unat b"
        by blast
      then show False
      proof cases
        case 1
        with IH have "xs = [0]" by (simp only: der_int_0)
        with 1 snoc.prems show False by (simp add: minimal_Cons2)
      next
        case 2
        with IH have "xs = [0xff]" by (simp only: der_int_0)
        with 2 snoc.prems show False by (simp add: minimal_Cons2)
      qed
    qed
    then have "der_int i = der_int (i div 256) @ [word_of_int i]" by (rule der_int_step)
    then show ?thesis unfolding i_def [symmetric] by (simp only: d w IH)
  qed
qed

lemma twos_val_Cons: "twos_val (b # r) =
    (if 128 \<le> unat b then int (unat b) - 256 else int (unat b)) * 256 ^ length r + int (be_val r)"
  by (simp add: twos_val_def be_val_Cons algebra_simps)

lemma twos_val_bounds:
  assumes "bs \<noteq> []"
  shows "- (128 * 256 ^ (length bs - 1)) \<le> twos_val bs" and "twos_val bs < 128 * 256 ^ (length bs - 1)"
proof -
  obtain b r where bs: "bs = b # r" using assms by (cases bs) auto
  define h :: int where "h = (if 128 \<le> unat b then int (unat b) - 256 else int (unat b))"
  define p :: int where "p = 256 ^ length r"
  have "int (be_val r) < int (256 ^ length r)" using be_val_less [of r] by (simp only: of_nat_less_iff)
  then have r: "0 \<le> int (be_val r)" "int (be_val r) < p" by (simp_all add: p_def)
  have h: "- 128 \<le> h" "h \<le> 127"
    using digit_range(1,2) [OF unat_u8_less [of b]] unfolding h_def [symmetric] by linarith+
  have "- 128 * p \<le> h * p" "h * p \<le> 127 * p" using h r mult_right_mono [of "- 128" h p] mult_right_mono [of h 127 p] by linarith+
  then have "- (128 * p) \<le> h * p + int (be_val r)" "h * p + int (be_val r) < 128 * p"
    using r by linarith+
  moreover have "twos_val bs = h * p + int (be_val r)"
    unfolding bs twos_val_Cons h_def p_def ..
  ultimately show "- (128 * 256 ^ (length bs - 1)) \<le> twos_val bs"
    "twos_val bs < 128 * 256 ^ (length bs - 1)"
    by (simp_all add: bs p_def)
qed

lemma length_der_int: "- (128 * 256 ^ n) \<le> i \<Longrightarrow> i < 128 * 256 ^ n \<Longrightarrow> length (der_int i) \<le> n + 1"
proof (induction n arbitrary: i)
  case 0
  then show ?case by (simp add: der_int.simps [of i])
next
  case (Suc n)
  show ?case
  proof (cases "- 128 \<le> i \<and> i < 128")
    case True
    then show ?thesis by (simp add: der_int.simps [of i])
  next
    case False
    define p :: int where "p = 128 * 256 ^ n"
    have "- (p * 256) \<le> i" "i < p * 256" using Suc.prems by (simp_all add: p_def)
    then have "- p \<le> i div 256" "i div 256 < p"
      using div_mult_mod_eq [of i 256] pos_mod_bound [of 256 i] pos_mod_sign [of 256 i] by linarith+
    with Suc.IH [of "i div 256"] False show ?thesis by (simp add: der_int_step p_def)
  qed
qed

lemma twos_val_neg: "bs \<noteq> [] \<Longrightarrow> 128 \<le> unat (hd bs) \<longleftrightarrow> twos_val bs < 0"
proof -
  have "int (be_val bs) < 256 ^ length bs"
    using be_val_less [of bs] by (metis of_nat_less_iff of_nat_numeral of_nat_power)
  then show ?thesis by (simp add: twos_val_def)
qed

section \<open>INTEGER\<close>

lemma is_valid_asn1_integer_view:
  assumes "fits bs"
  shows "CBS_is_valid_asn1_integer (cbs_view bs t) =
    (if minimal bs then Some (twos_val bs < 0) else None)"
proof (cases bs rule: remdups_adj.cases)
  case 1
  then show ?thesis by (simp add: CBS_is_valid_asn1_integer_def)
next
  case (2 b)
  with assms twos_val_neg [of bs] show ?thesis
    by (simp add: CBS_is_valid_asn1_integer_def u8_and_80 not_less)
next
  case (3 b c r)
  with assms twos_val_neg [of bs] show ?thesis
    by (simp add: CBS_is_valid_asn1_integer_def u8_and_80 minimal_Cons2 not_less)
qed

lemma uint64_loop_val: "uint64_loop v bs =
    (if unat v * 256 ^ length bs + be_val bs < 2 ^ 64
     then Some (of_nat (unat v * 256 ^ length bs + be_val bs)) else None)"
proof (induction bs arbitrary: v)
  case Nil
  then show ?case using unsigned_less [of v] by simp
next
  case (Cons b bs)
  show ?case
  proof (cases "unat v < 2 ^ 56")
    case True
    have "unat (push_bit 8 v OR ucast b) = unat v * 256 + unat b"
      using True unat_push_bit_or [of v 8 "ucast b"] unat_u8_less [of b] by simp
    with True Cons show ?thesis
      by (simp add: drop_bit_0_iff be_val_Cons algebra_simps)
  next
    case False
    have "2 ^ 64 = 2 ^ 56 * (256 :: nat)" by simp
    also have "\<dots> \<le> unat v * 256" using False by simp
    also have "\<dots> * 1 \<le> unat v * 256 * 256 ^ length bs" by (rule mult_le_mono2) simp
    finally have "\<not> unat v * 256 ^ length (b # bs) + be_val (b # bs) < 2 ^ 64"
      by (simp only: list.size power_Suc add_0_right add_Suc_right power_add mult.assoc) simp
    with False show ?thesis by (simp add: drop_bit_0_iff)
  qed
qed

lemma be_val_twos_val: "bs \<noteq> [] \<Longrightarrow> 0 \<le> twos_val bs \<Longrightarrow> int (be_val bs) = twos_val bs"
  using twos_val_neg [of bs] by (auto simp: twos_val_def split: if_splits)

lemma minimal_nonempty: "minimal bs \<Longrightarrow> bs \<noteq> []"
  by auto

lemma valid_tag_integer [simp]: "valid_tag CBS_ASN1_INTEGER"
  by (simp add: valid_tag_def CBS_ASN1_CONSTRUCTED_def CBS_ASN1_INTEGER_def)

lemma get_asn1_uint64_body:
  assumes "fits body"
  shows "(if CBS_is_unsigned_asn1_integer (cbs_view body u)
      then uint64_loop 0 (take (unat (cbs_len (cbs_view body u))) (cbs_data (cbs_view body u)))
      else None) = Some v \<longleftrightarrow> body = der_int (uint v)"
proof -
  have "?thesis" if "minimal body" "0 \<le> twos_val body"
  proof -
    have v: "int (be_val body) = twos_val body"
      using that by (intro be_val_twos_val) (auto dest: minimal_nonempty)
    have "Some (of_nat (be_val body)) = Some v \<longleftrightarrow> body = der_int (uint v)"
      if "be_val body < 2 ^ 64"
    proof
      assume "Some (of_nat (be_val body)) = Some v"
      then have "unat v = be_val body" using that by (auto simp: unat_of_nat)
      then show "body = der_int (uint v)"
        using v der_int_twos_val [OF \<open>minimal body\<close>] by (metis uint_nat)
    next
      assume "body = der_int (uint v)"
      then have "int (be_val body) = uint v" using v twos_val_der_int by simp
      then show "Some (of_nat (be_val body)) = Some v" by (metis nat_int unat_eq_nat_uint of_nat_unat)
    qed
    moreover have "body \<noteq> der_int (uint v)" if "\<not> be_val body < 2 ^ 64"
    proof
      assume "body = der_int (uint v)"
      then have "int (be_val body) = int (unat v)" using v twos_val_der_int by simp
      then have "be_val body = unat v" by (simp only: of_nat_eq_iff)
      moreover have "unat v < 2 ^ 64" using unsigned_less [of v] by simp
      ultimately show False using that by simp
    qed
    ultimately show ?thesis
      using assms that
      by (simp add: CBS_is_unsigned_asn1_integer_def is_valid_asn1_integer_view uint64_loop_val
          unat_of_nat_size)
  qed
  moreover have "?thesis" if "\<not> (minimal body \<and> 0 \<le> twos_val body)"
  proof -
    have "body \<noteq> der_int (uint v)"
      using that minimal_der_int [of "uint v"] twos_val_der_int [of "uint v"] by auto
    with that assms show ?thesis
      by (auto simp add: CBS_is_unsigned_asn1_integer_def is_valid_asn1_integer_view)
  qed
  ultimately show ?thesis by blast
qed

lemma length_der_int_u64: "length (der_int (uint (v :: u64))) \<le> 9"
proof -
  have "- (128 * 256 ^ 8) \<le> uint v" by (rule order_trans [of _ 0]) simp_all
  moreover have "uint v < 128 * 256 ^ 8" using uint_bounded [of v] by simp
  ultimately show ?thesis using length_der_int [of 8 "uint v"] by simp
qed

lemma CBS_get_asn1_uint64_complete:
  assumes "fits (der_tlv CBS_ASN1_INTEGER (der_int (uint v)) @ ys)"
  shows "CBS_get_asn1_uint64 (cbs_view (der_tlv CBS_ASN1_INTEGER (der_int (uint v)) @ ys) t) =
    (Some v, cbs_view ys t)"
proof -
  let ?body = "der_int (uint v)"
  have "fits ?body" using length_der_int_u64 [of v] by simp
  note b = get_asn1_uint64_body [OF this, of "ys @ t" v, THEN iffD2, OF refl]
  have "CBS_get_asn1 CBS_ASN1_INTEGER (cbs_view (der_tlv CBS_ASN1_INTEGER ?body @ ys) t) =
      (Some (cbs_view ?body (ys @ t)), cbs_view ys t)"
    by (rule CBS_get_asn1_complete) (use assms length_der_int_u64 [of v] in simp_all)
  then show ?thesis
    using b by (simp only: CBS_get_asn1_uint64_def step_Some) (auto split: if_splits)
qed

lemma CBS_get_asn1_uint64_sound:
  assumes "fits bs" and "CBS_get_asn1_uint64 (cbs_view bs t) = (Some v, cbs')"
  obtains ys where "bs = der_tlv CBS_ASN1_INTEGER (der_int (uint v)) @ ys" "cbs' = cbs_view ys t"
proof -
  note result = that
  from assms(2) obtain bytes c where
    g: "CBS_get_asn1 CBS_ASN1_INTEGER (cbs_view bs t) = (Some bytes, c)"
    and r: "(if CBS_is_unsigned_asn1_integer bytes
      then uint64_loop 0 (take (unat (cbs_len bytes)) (cbs_data bytes)) else None) = Some v"
      "cbs' = c"
    unfolding CBS_get_asn1_uint64_def step_eq_Some
    by (force split: if_splits option.splits)
  obtain body ys where *: "bs = der_tlv CBS_ASN1_INTEGER body @ ys" "valid_tag CBS_ASN1_INTEGER"
    "length body < 256 ^ 4" "bytes = cbs_view body (ys @ t)" "c = cbs_view ys t"
    by (rule CBS_get_asn1_sound [OF assms(1) g])
  have "fits body" using *(3) by simp
  then have "body = der_int (uint v)"
    using r(1) get_asn1_uint64_body [of body "ys @ t" v] unfolding *(4) by blast
  with * r(2) result show thesis by simp
qed

text \<open>
  C4: unsigned INTEGERs. \<open>CBS_get_asn1_uint64\<close> returns \<open>v\<close> if and only if the input
  starts with the INTEGER whose body is the shortest two's complement encoding of \<open>v\<close>;
  negative, padded and over-long values are all rejected, and no accepted value wraps.
\<close>

theorem CBS_get_asn1_uint64_iff:
  assumes "fits bs"
  shows "CBS_get_asn1_uint64 (cbs_view bs t) = (Some v, cbs') \<longleftrightarrow>
    (\<exists>ys. bs = der_tlv CBS_ASN1_INTEGER (der_int (uint v)) @ ys \<and> cbs' = cbs_view ys t)"
  using CBS_get_asn1_uint64_sound [OF assms, of t v cbs'] CBS_get_asn1_uint64_complete [of v _ t] assms
  by metis

theorem CBS_get_asn1_uint64_iff_witness:
  "CBS_get_asn1_uint64 (cbs_view [2, 2, 0, 0x80, 9] []) = (Some 128, cbs_view [9] [])"
proof -
  have "[2, 2, 0, 0x80, 9] = der_tlv CBS_ASN1_INTEGER (der_int (uint (128 :: u64))) @ [9]"
    by (simp add: der_tlv_def der_tag_def der_len_def CBS_ASN1_TAG_NUMBER_MASK_def
        CBS_ASN1_INTEGER_def der_int.simps)
  then show ?thesis
    by (subst CBS_get_asn1_uint64_iff) (simp, rule exI [of _ "[9]"], simp)
qed

section \<open>Signed INTEGERs\<close>

lemma load_u64_be:
  assumes "length p = 8"
  shows "CRYPTO_load_u64_be p = of_nat (be_val p)"
  using assms bswap_loops(3) [of "rev p"] by (simp add: CRYPTO_load_u64_be_def get_u_loop_eq)

lemma be_val_replicate_0: "be_val (replicate k 0 @ bs) = be_val bs"
  by (induction k) (simp_all add: be_val_Cons)

lemma be_val_replicate_ff:
  "be_val (replicate k 0xff @ bs) + 256 ^ length bs = 256 ^ (k + length bs) + be_val bs"
proof (induction k)
  case (Suc k)
  then show ?case by (simp only: replicate_Suc append_Cons be_val_Cons) simp
qed simp

lemma sign_extend_val:
  assumes "bs \<noteq> []" and "length bs \<le> 8"
  shows "CRYPTO_load_u64_be (replicate (8 - length bs) (if twos_val bs < 0 then 0xff else 0) @ bs) =
    word_of_int (twos_val bs)"
proof (cases "twos_val bs < 0")
  case True
  let ?p = "replicate (8 - length bs) 0xff @ bs"
  have "(256 :: nat) ^ (8 - length bs + length bs) = 2 ^ 64" using assms(2) by simp
  with be_val_replicate_ff [of "8 - length bs" bs]
  have "be_val ?p + 256 ^ length bs = 2 ^ 64 + be_val bs" by (simp only:)
  then have "int (be_val ?p + 256 ^ length bs) = int (2 ^ 64 + be_val bs)" by (simp only:)
  then have "int (be_val ?p) + 256 ^ length bs = 2 ^ 64 + int (be_val bs)"
    by (simp only: of_nat_add of_nat_numeral of_nat_power)
  moreover have "128 \<le> unat (hd bs)" using True twos_val_neg [OF assms(1)] by blast
  then have "twos_val bs = int (be_val bs) - 256 ^ length bs"
    by (simp only: twos_val_def if_True)
  ultimately have e: "int (be_val ?p) = 2 ^ 64 + twos_val bs" by linarith
  have "(of_nat (be_val ?p) :: u64) = word_of_int (int (be_val ?p))" by simp
  also have "\<dots> = word_of_int (2 ^ 64 + twos_val bs)" unfolding e ..
  also have "\<dots> = word_of_int (twos_val bs)"
    by (simp only: word_of_int_eq_iff take_bit_eq_mod) simp
  finally show ?thesis using True assms(2) by (simp add: load_u64_be)
next
  case False
  then have e: "int (be_val bs) = twos_val bs" using be_val_twos_val [OF assms(1)] by simp
  have "(of_nat (be_val bs) :: u64) = word_of_int (int (be_val bs))" by simp
  then have "(of_nat (be_val bs) :: u64) = word_of_int (twos_val bs)" unfolding e .
  with False assms(2) show ?thesis by (simp add: load_u64_be be_val_replicate_0)
qed

definition int64_body :: "cbs \<Rightarrow> u64 option" where
  "int64_body bytes = (case CBS_is_valid_asn1_integer bytes of None \<Rightarrow> None
     | Some is_negative \<Rightarrow> if cbs_len bytes > 8 then None
         else Some (CRYPTO_load_u64_be
           (take (8 - unat (cbs_len bytes)) (replicate 8 (if is_negative then 0xff else 0)) @
            take (unat (cbs_len bytes)) (cbs_data bytes))))"

lemma CBS_get_asn1_int64_eq: "CBS_get_asn1_int64 = step (CBS_get_asn1 CBS_ASN1_INTEGER) (\<lambda>bytes.
    case int64_body bytes of None \<Rightarrow> fail | Some v \<Rightarrow> ret v)"
  unfolding CBS_get_asn1_int64_def int64_body_def
  by (rule arg_cong2 [where f = step, OF refl], rule ext) (simp add: Let_def split: option.splits)

lemma int64_range: "- (2 ^ 63) \<le> i \<Longrightarrow> i < 2 ^ 63 \<Longrightarrow> sint (word_of_int i :: u64) = i"
  by (simp add: signed_of_int signed_take_bit_int_eq_self)

lemma length_der_int_s64: "length (der_int (sint (v :: u64))) \<le> 8"
  using length_der_int [of 7 "sint v"] sint_range_size [of v] by (simp add: word_size)

lemma int64_body_view:
  assumes "fits body"
  shows "int64_body (cbs_view body u) = Some v \<longleftrightarrow> body = der_int (sint v)"
proof (cases "minimal body \<and> length body \<le> 8")
  case True
  then have ne: "body \<noteq> []" and l: "length body \<le> 8" by auto
  have "- (2 ^ 63) \<le> twos_val body \<and> twos_val body < 2 ^ 63"
  proof -
    have "(256 :: int) ^ (length body - 1) \<le> 256 ^ 7" using l by (intro power_increasing) auto
    then have "128 * (256 :: int) ^ (length body - 1) \<le> 2 ^ 63" by simp
    then show ?thesis using twos_val_bounds [OF ne] by linarith
  qed
  then have s: "sint (word_of_int (twos_val body) :: u64) = twos_val body"
    by (intro int64_range) simp_all
  have "\<not> cbs_len (cbs_view body u) > 8"
    using l by (simp add: word_less_nat_alt unat_of_nat_size)
  then have "int64_body (cbs_view body u) = Some (word_of_int (twos_val body))"
    using True assms sign_extend_val [OF ne l]
    by (simp add: int64_body_def is_valid_asn1_integer_view unat_of_nat_size)
  moreover have "v = word_of_int (twos_val body) \<longleftrightarrow> body = der_int (sint v)"
  proof
    assume "v = word_of_int (twos_val body)"
    with s have "sint v = twos_val body" by simp
    with True show "body = der_int (sint v)" by (simp add: der_int_twos_val)
  next
    assume "body = der_int (sint v)"
    then have "twos_val body = sint v" by (simp add: twos_val_der_int)
    then show "v = word_of_int (twos_val body)" by simp
  qed
  ultimately show ?thesis by auto
next
  case False
  have "int64_body (cbs_view body u) = None"
  proof (cases "minimal body")
    case True
    with False have "cbs_len (cbs_view body u) > 8"
      using assms by (simp add: word_less_nat_alt unat_of_nat_size)
    with True assms show ?thesis by (simp add: int64_body_def is_valid_asn1_integer_view)
  qed (use assms in \<open>simp add: int64_body_def is_valid_asn1_integer_view\<close>)
  moreover have "body \<noteq> der_int (sint v)"
    using False minimal_der_int [of "sint v"] length_der_int_s64 [of v] by auto
  ultimately show ?thesis by simp
qed

lemma CBS_get_asn1_int64_complete:
  assumes "fits (der_tlv CBS_ASN1_INTEGER (der_int (sint v)) @ ys)"
  shows "CBS_get_asn1_int64 (cbs_view (der_tlv CBS_ASN1_INTEGER (der_int (sint v)) @ ys) t) =
    (Some v, cbs_view ys t)"
proof -
  let ?body = "der_int (sint v)"
  have "fits ?body" using length_der_int_s64 [of v] by simp
  note b = int64_body_view [OF this, of "ys @ t" v, THEN iffD2, OF refl]
  have "CBS_get_asn1 CBS_ASN1_INTEGER (cbs_view (der_tlv CBS_ASN1_INTEGER ?body @ ys) t) =
      (Some (cbs_view ?body (ys @ t)), cbs_view ys t)"
    by (rule CBS_get_asn1_complete) (use assms length_der_int_s64 [of v] in simp_all)
  then show ?thesis by (simp add: CBS_get_asn1_int64_eq step_Some b)
qed

lemma CBS_get_asn1_int64_sound:
  assumes "fits bs" and "CBS_get_asn1_int64 (cbs_view bs t) = (Some v, cbs')"
  obtains ys where "bs = der_tlv CBS_ASN1_INTEGER (der_int (sint v)) @ ys" "cbs' = cbs_view ys t"
proof -
  note result = that
  from assms(2) obtain bytes c where
    g: "CBS_get_asn1 CBS_ASN1_INTEGER (cbs_view bs t) = (Some bytes, c)"
    and r: "int64_body bytes = Some v" "cbs' = c"
    unfolding CBS_get_asn1_int64_eq step_eq_Some by (force split: option.splits)
  obtain body ys where *: "bs = der_tlv CBS_ASN1_INTEGER body @ ys" "valid_tag CBS_ASN1_INTEGER"
    "length body < 256 ^ 4" "bytes = cbs_view body (ys @ t)" "c = cbs_view ys t"
    by (rule CBS_get_asn1_sound [OF assms(1) g])
  have "fits body" using *(3) by simp
  then have "body = der_int (sint v)" using r(1) int64_body_view [of body] unfolding *(4) by blast
  with * r(2) result show thesis by simp
qed

text \<open>
  C5: signed INTEGERs. \<open>CBS_get_asn1_int64\<close>, which sign-extends the body into an eight-byte
  buffer and loads it, returns the 64-bit word \<open>v\<close> if and only if the input starts with the
  INTEGER whose body is the shortest two's complement encoding of the signed value of \<open>v\<close>.
\<close>

theorem CBS_get_asn1_int64_iff:
  assumes "fits bs"
  shows "CBS_get_asn1_int64 (cbs_view bs t) = (Some v, cbs') \<longleftrightarrow>
    (\<exists>ys. bs = der_tlv CBS_ASN1_INTEGER (der_int (sint v)) @ ys \<and> cbs' = cbs_view ys t)"
  using CBS_get_asn1_int64_sound [OF assms, of t v cbs'] CBS_get_asn1_int64_complete [of v _ t] assms
  by metis

theorem CBS_get_asn1_int64_iff_witness:
  "CBS_get_asn1_int64 (cbs_view [2, 2, 0xff, 0x7f, 9] []) = (Some (- 129), cbs_view [9] [])"
proof -
  have "[2, 2, 0xff, 0x7f, 9] = der_tlv CBS_ASN1_INTEGER (der_int (sint (- 129 :: u64))) @ [9]"
    by (simp add: der_tlv_def der_tag_def der_len_def CBS_ASN1_TAG_NUMBER_MASK_def
        CBS_ASN1_INTEGER_def der_int.simps)
  then show ?thesis
    by (subst CBS_get_asn1_int64_iff) (simp, rule exI [of _ "[9]"], simp)
qed

end
