(* ===== verification/CbbAsn1.thy ===== *)
theory CbbAsn1
  imports CbbImpl Asn1Int
begin

text \<open>
  The ASN.1 writers of cbb.c write DER: tags, base-128 numbers and INTEGER bodies are those of
  the specification the readers of cbs.c are proved against.
\<close>

section \<open>Sequences of writes\<close>

lemma doc_write_depth: "doc_write n bs d = Some d' \<Longrightarrow> n \<le> doc_depth d \<Longrightarrow> doc_depth d' = n"
  by (auto simp: doc_write_def bind_eq_Some_conv dest: doc_flush_depth)

lemma doc_append_append: "doc_append b (doc_append a d) = doc_append (a @ b) d"
proof (cases d)
  case (Doc root fs)
  then show ?thesis by (cases fs rule: rev_cases) (simp_all add: doc_append.simps)
qed

lemma doc_write_write:
  assumes "n \<le> doc_depth d"
  shows "Option.bind (doc_write n a d) (doc_write n b) = doc_write n (a @ b) d"
proof (cases "doc_flush n d")
  case (Some d')
  have "doc_flush n (doc_append a d') = Some (doc_append a d')"
    using doc_flush_depth [OF Some assms] by (intro doc_flush_top) simp
  with Some show ?thesis by (simp add: doc_write_def doc_append_append)
qed (simp add: doc_write_def)

lemma implements_seq:
  assumes "\<And>x. implements A (at_least n) (g x) (doc_write n b)"
    and "implements A (at_least n) m (doc_write n a)"
  shows "implements A (at_least n) (step m g) (doc_write n (a @ b))"
  by (rule implements_cong [OF implements_step [OF assms(2,1)]])
    (simp_all add: doc_write_write doc_write_depth)

text \<open>Writing bytes one by one.\<close>

fun put_u8s :: "alloc \<Rightarrow> nat \<Rightarrow> u8 list \<Rightarrow> (cbb, unit) op" where
  "put_u8s A n [] = ret ()"
| "put_u8s A n (b # bs) = step (CBB_add_u8 A n b) (\<lambda>_. put_u8s A n bs)"

lemma doc_append_Nil: "doc_append [] d = d"
proof (cases d)
  case (Doc root fs)
  then show ?thesis by (cases fs rule: rev_cases) (simp_all add: doc_append.simps)
qed

lemma doc_write_Nil: "exactly n d \<Longrightarrow> doc_write n [] d = Some d"
  by (simp add: doc_write_def doc_flush_top doc_append_Nil)

lemma implements_put_u8s_exact: "implements A (exactly n) (put_u8s A n bs) (doc_write n bs)"
proof (induction bs)
  case Nil
  show ?case
    unfolding put_u8s.simps by (rule implements_cong [OF implements_ret]) (simp add: doc_write_Nil)
next
  case (Cons b bs)
  have "implements A (exactly n) (CBB_add_u8 A n b) (doc_write n [b])"
    by (rule implements_weaken [OF implements_u8]) simp
  from implements_step [OF this, of "exactly n" "\<lambda>_. put_u8s A n bs", OF Cons]
  have "implements A (exactly n) (put_u8s A n (b # bs)) (\<lambda>d. Option.bind (doc_write n [b] d) (doc_write n bs))"
    by (simp add: doc_write_depth)
  then show ?case by (rule implements_cong) (simp add: doc_write_write)
qed

lemma implements_put_u8s:
  "bs \<noteq> [] \<Longrightarrow> implements A (at_least n) (put_u8s A n bs) (doc_write n bs)"
proof (cases bs)
  case (Cons b bs')
  have "implements A (at_least n) (step (CBB_add_u8 A n b) (\<lambda>_. put_u8s A n bs'))
      (\<lambda>d. Option.bind (doc_write n [b] d) (doc_write n bs'))"
    by (rule implements_step [OF implements_u8 implements_put_u8s_exact]) (rule doc_write_depth)
  then show ?thesis
    unfolding Cons put_u8s.simps by (rule implements_cong) (simp add: doc_write_write)
qed simp

lemma step_assoc: "step (step m f) g = step m (\<lambda>x. step (f x) g)"
  by (auto simp: step_def fun_eq_iff split: prod.splits option.splits)

lemma step_ret: "step (ret x) f = f x"
  by (simp add: step_def ret_def)

lemma step_ret_unit: "step m (\<lambda>_. ret ()) = (m :: (cbb, unit) op)"
proof (rule ext)
  fix s
  obtain r s' where "m s = (r, s')" by (cases "m s")
  then show "step m (\<lambda>_. ret ()) s = m s" by (cases r) (simp_all add: step_def)
qed

lemma put_u8s_append: "put_u8s A n (xs @ ys) = step (put_u8s A n xs) (\<lambda>_. put_u8s A n ys)"
proof (induction xs)
  case Nil
  show ?case by (simp only: put_u8s.simps append_Nil step_ret)
qed (simp add: step_assoc)

section \<open>The tag\<close>

lemma unat_shift_mask: "unat (drop_bit (7 * i) v AND 0x7f :: u64) = unat v div 128 ^ i mod 128"
proof -
  have "drop_bit (7 * i) v AND 0x7f = drop_bit (7 * i) v mod 128"
    using take_bit_eq_mask [of 7 "drop_bit (7 * i) v"] by (simp add: take_bit_eq_mod mask_eq_exp_minus_1)
  then show ?thesis by (simp add: unat_mod_distrib unat_drop_bit power_mult)
qed

lemma base128_byte: "ucast (drop_bit (7 * i) v AND 0x7f :: u64) = (of_nat (unat v div 128 ^ i mod 128) :: u8)"
  unfolding unat_shift_mask [symmetric] by simp

lemma u8_or_80: "n < 128 \<Longrightarrow> of_nat n OR 0x80 = (of_nat (n + 128) :: u8)"
proof -
  assume n: "n < 128"
  have "push_bit 7 (1 :: u8) OR of_nat n = of_nat (128 + n)"
    unfolding word_unat_eq_iff using n by (subst unat_push_bit_or) (simp_all del: of_nat_add)
  then show ?thesis by (simp add: push_bit_eq_mult or.commute add.commute)
qed

definition base128_digits :: "nat \<Rightarrow> nat \<Rightarrow> u8 list" where
  "base128_digits v k = map (\<lambda>i. of_nat (v div 128 ^ i mod 128 + (if i \<noteq> 0 then 128 else 0))) (rev [0..<k])"

lemma add_base128_loop_eq: "add_base128_loop A n v k = put_u8s A n (base128_digits (unat v) k)"
proof (induction k)
  case (Suc k)
  have "(if k \<noteq> 0 then ucast (drop_bit (7 * k) v AND 0x7f) OR 0x80 else ucast (drop_bit (7 * k) v AND 0x7f)) =
      (of_nat (unat v div 128 ^ k mod 128 + (if k \<noteq> 0 then 128 else 0)) :: u8)"
    unfolding base128_byte by (simp add: u8_or_80 del: of_nat_add)
  with Suc show ?case by (simp only: add_base128_loop.simps Let_def) (simp add: base128_digits_def)
qed (simp add: base128_digits_def)

lemma rev_upt_Suc: "rev [0..<Suc k] = map Suc (rev [0..<k]) @ [0]"
  by (simp add: upt_conv_Cons map_Suc_upt [symmetric] rev_map del: upt_Suc)

lemma base128_digits_snoc:
  "base128_digits v (Suc k) =
     map (\<lambda>i. of_nat (v div 128 div 128 ^ i mod 128 + 128)) (rev [0..<k]) @ [of_nat (v mod 128)]"
  by (simp only: base128_digits_def rev_upt_Suc) (simp add: div_mult2_eq o_def)

lemma base128_len_hi: "base128_hi (unat v) =
    map (\<lambda>i. of_nat (unat v div 128 ^ i mod 128 + 128)) (rev [0..<base128_len v])"
proof (induction v rule: base128_len.induct)
  case (1 v)
  show ?case
  proof (cases "v > 0")
    case True
    then have "unat v \<noteq> 0" by (simp add: word_less_nat_alt)
    with 1 [OF True] True show ?thesis
      by (simp add: base128_len.simps [of v] base128_hi_step [of "unat v"] unat_drop_bit
          div_mult2_eq o_def rev_upt_Suc del: upt_Suc)
  next
    case False
    then have "unat v = 0" by (simp add: word_less_nat_alt)
    with False show ?thesis by (simp add: base128_len.simps [of v])
  qed
qed

lemma add_base128_integer_eq: "add_base128_integer A n v = put_u8s A n (base128 (unat v))"
proof (cases "v > 0")
  case True
  then have "base128_len v = Suc (base128_len (drop_bit 7 v))" by (simp add: base128_len.simps [of v])
  moreover have "base128_digits (unat v) (Suc (base128_len (drop_bit 7 v))) = base128 (unat v)"
    unfolding base128_digits_snoc base128_def
    using base128_len_hi [of "drop_bit 7 v"] by (simp add: unat_drop_bit)
  ultimately show ?thesis by (simp add: add_base128_integer_def add_base128_loop_eq)
next
  case False
  then have "v = 0" by (simp add: word_less_nat_alt unat_eq_zero)
  then show ?thesis
    by (simp add: add_base128_integer_def add_base128_loop_eq base128_len.simps base128_def
        base128_digits_def)
qed

lemma tag_bits: "ucast (drop_bit 24 (tag :: asn1_tag) AND 0xe0) = (ucast (drop_bit 24 tag) AND 0xe0 :: u8)"
  by (rule bit_words_eqI) (simp add: bitwise)

lemma tag_byte: "ucast (ucast (b :: u8) OR (t :: u32)) = b OR ucast t"
  by (rule bit_words_eqI) (simp add: bitwise)

lemma CBB_add_asn1_eq: "CBB_add_asn1 A n tag = step (CBB_flush A n) (\<lambda>_.
    step (put_u8s A n (der_tag tag)) (\<lambda>_. cbb_add_child A n 1 True))"
proof -
  have "unat (ucast (tag AND CBS_ASN1_TAG_NUMBER_MASK) :: u64) = unat (tag AND CBS_ASN1_TAG_NUMBER_MASK)"
    by (simp add: unat_ucast_up)
  then have "(if tag AND CBS_ASN1_TAG_NUMBER_MASK \<ge> 0x1f
      then step (CBB_add_u8 A n (ucast (drop_bit 24 tag AND 0xe0) OR 0x1f)) (\<lambda>_.
        add_base128_integer A n (ucast (tag AND CBS_ASN1_TAG_NUMBER_MASK)))
      else CBB_add_u8 A n (ucast (ucast (ucast (drop_bit 24 tag AND 0xe0) :: u8) OR
        (tag AND CBS_ASN1_TAG_NUMBER_MASK)))) = put_u8s A n (der_tag tag)"
    unfolding tag_byte tag_bits der_tag_def Let_def add_base128_integer_eq
    by (simp only: put_u8s.simps step_ret_unit split: if_split) simp
  then show ?thesis by (simp only: CBB_add_asn1_def Let_def)
qed

definition doc_asn1 :: "nat \<Rightarrow> asn1_tag \<Rightarrow> doc \<Rightarrow> doc option" where
  "doc_asn1 n tag d = Option.bind (doc_write n (der_tag tag) d) (\<lambda>d. Some (doc_push Asn1 d))"

lemma doc_asn1_depth: "doc_asn1 n tag d = Some d' \<Longrightarrow> n \<le> doc_depth d \<Longrightarrow> doc_depth d' = Suc n"
proof -
  assume "doc_asn1 n tag d = Some d'" "n \<le> doc_depth d"
  then obtain d1 where d1: "doc_write n (der_tag tag) d = Some d1" "d' = doc_push Asn1 d1"
    by (auto simp: doc_asn1_def bind_eq_Some_conv)
  from doc_write_depth [OF d1(1) \<open>n \<le> doc_depth d\<close>] d1(2) show ?thesis by (cases d1) simp
qed

lemma doc_flush_write: "n \<le> doc_depth d \<Longrightarrow> Option.bind (doc_flush n d) (doc_write n bs) = doc_write n bs d"
proof (cases "doc_flush n d")
  case (Some d')
  assume "n \<le> doc_depth d"
  with Some have "doc_flush n d' = Some d'" by (intro doc_flush_top doc_flush_depth)
  with Some show ?thesis by (simp add: doc_write_def)
qed (simp add: doc_write_def)

lemma implements_asn1: "implements A (at_least n) (CBB_add_asn1 A n tag) (doc_asn1 n tag)"
proof -
  have c: "implements A (exactly n) (cbb_add_child A n 1 True) (\<lambda>d. Some (doc_push Asn1 d))"
    using implements_child [of Asn1 A n] by simp
  have "implements A (exactly n) (step (put_u8s A n (der_tag tag)) (\<lambda>_. cbb_add_child A n 1 True))
      (\<lambda>d. Option.bind (doc_write n (der_tag tag) d) (\<lambda>d. Some (doc_push Asn1 d)))"
    by (rule implements_step [OF implements_put_u8s_exact c]) (simp add: doc_write_depth)
  from implements_step [OF implements_flush this] have "implements A (at_least n) (CBB_add_asn1 A n tag)
      (\<lambda>d. Option.bind (doc_flush n d)
        (\<lambda>d. Option.bind (doc_write n (der_tag tag) d) (\<lambda>d. Some (doc_push Asn1 d))))"
    unfolding CBB_add_asn1_eq by (simp add: doc_flush_depth)
  then show ?thesis
    by (rule implements_cong) (simp add: doc_asn1_def flip: Option.bind_assoc doc_flush_write)
qed

lemma implements_on_error: "implements A P m f \<Longrightarrow> implements A P (on_error n m) f"
proof (rule implementsI)
  fix s d
  assume "implements A P m f" "repr s d" "P d"
  then show "(\<exists>x s' d'. on_error n m s = (Some x, s') \<and> f d = Some d' \<and> repr s' d' \<and>
         can_resize s' = can_resize s) \<or>
      (\<exists>s'. on_error n m s = (None, s') \<and> cbb_error s' \<and>
         (\<forall>d'. f d = Some d' \<longrightarrow> ample A s \<longrightarrow> 2 ^ 64 \<le> doc_size d'))"
    by (cases rule: implementsE) (simp_all add: on_error_def cbb_on_error_def)
qed (rule implements_size)

lemma enclose_nested:
  assumes "n \<le> doc_depth d"
  shows "Option.bind (doc_open n k d) (\<lambda>d. Option.bind (doc_write (Suc n) bs d) (doc_flush n)) =
    Option.bind (enclose k bs) (\<lambda>t. doc_write n t d)"
proof (cases "doc_flush n d")
  case (Some d')
  obtain root fs where d': "d' = Doc root fs" by (cases d')
  have n: "length fs = n" using doc_flush_depth [OF Some assms] d' by simp
  have "doc_write (Suc n) bs (doc_push k d') = Some (Doc root (fs @ [(k, bs)]))"
    using n d' by (simp add: doc_write_def doc_append.simps)
  moreover have "doc_flush n (Doc root (fs @ [(k, bs)])) =
      Option.bind (enclose k bs) (\<lambda>t. Some (doc_append t d'))"
    using n d' by simp
  moreover have "doc_open n k d = Some (doc_push k d')" "\<And>t. doc_write n t d = Some (doc_append t d')"
    using Some by (simp_all add: doc_open_def doc_write_def)
  ultimately show ?thesis by (simp only: Option.bind.simps)
next
  case None
  then show ?thesis by (cases "enclose k bs") (simp_all add: doc_open_def doc_write_def)
qed

lemma tlv_nested:
  assumes "n \<le> doc_depth d"
  shows "Option.bind (doc_asn1 n tag d) (\<lambda>d. Option.bind (doc_write (Suc n) bs d) (doc_flush n)) =
    (if length bs \<le> 0xfffffffe then doc_write n (der_tlv tag bs) d else None)"
proof (cases "doc_write n (der_tag tag) d")
  case (Some d')
  have n: "doc_depth d' = n" by (rule doc_write_depth [OF Some assms])
  then have "doc_asn1 n tag d = doc_open n Asn1 d'"
    using Some by (simp add: doc_asn1_def doc_open_def doc_flush_top)
  moreover have "doc_write n t d' = doc_write n (der_tag tag @ t) d" for t
    using Some doc_write_write [OF assms, of "der_tag tag" t] by simp
  ultimately show ?thesis
    using enclose_nested [of n d' Asn1 bs] n by (simp add: der_tlv_def)
next
  case None
  then have "doc_write n (der_tlv tag bs) d = None" by (simp add: doc_write_def der_tlv_def split: bind_splits)
  with None show ?thesis by (simp add: doc_asn1_def)
qed

section \<open>INTEGER\<close>

lemma be_bytes_Cons: "be_bytes (Suc k) v = of_nat (v div 256 ^ k) # be_bytes k v"
proof (induction k arbitrary: v)
  case (Suc k)
  have "be_bytes (Suc (Suc k)) v = be_bytes (Suc k) (v div 256) @ [of_nat v]" by simp
  also have "\<dots> = of_nat (v div 256 div 256 ^ k) # be_bytes k (v div 256) @ [of_nat v]"
    by (simp only: Suc append_Cons)
  finally show ?case by (simp add: div_mult2_eq)
qed simp

definition asn1_unsigned :: "u8 list \<Rightarrow> u8 list" where
  "asn1_unsigned bs = (case dropWhile (\<lambda>b. b = 0) bs of [] \<Rightarrow> []
     | b # r \<Rightarrow> (if 128 \<le> unat b then [0] else []) @ b # r)"

lemma u64_byte: "ucast (drop_bit (8 * k) (v :: u64) AND 0xff) = (of_nat (unat v div 256 ^ k) :: u8)"
proof -
  have "ucast (drop_bit (8 * k) v AND 0xff) = (ucast (drop_bit (8 * k) v) :: u8)"
    by (rule bit_words_eqI) (simp add: bitwise)
  also have "\<dots> = of_nat (unat (drop_bit (8 * k) v))" by simp
  finally show ?thesis by (simp only: unat_drop_bit power_mult) simp
qed

lemma asn1_uint64_loop_started:
  "asn1_uint64_loop A c v k True = step (put_u8s A c (be_bytes k (unat v))) (\<lambda>_. ret True)"
proof (induction k)
  case 0
  show ?case by (simp only: asn1_uint64_loop.simps be_bytes.simps put_u8s.simps step_ret)
next
  case (Suc k)
  then show ?case
    by (simp only: asn1_uint64_loop.simps Let_def be_bytes_Cons put_u8s.simps u64_byte step_assoc
        step_ret not_True_eq_False HOL.simp_thms if_False)
qed

lemma asn1_uint64_loop_eq:
  "asn1_uint64_loop A c v k False = step (put_u8s A c (asn1_unsigned (be_bytes k (unat v))))
     (\<lambda>_. ret (asn1_unsigned (be_bytes k (unat v)) \<noteq> []))"
proof (induction k)
  case 0
  show ?case by (simp only: asn1_uint64_loop.simps be_bytes.simps asn1_unsigned_def dropWhile.simps
        list.case put_u8s.simps step_ret HOL.simp_thms)
next
  case (Suc k)
  define b :: u8 where "b = of_nat (unat v div 256 ^ k)"
  have l: "asn1_uint64_loop A c v (Suc k) False =
      (if b = 0 then asn1_uint64_loop A c v k False
       else step (if b AND 0x80 \<noteq> 0 then CBB_add_u8 A c 0 else ret ())
        (\<lambda>_. step (CBB_add_u8 A c b) (\<lambda>_. asn1_uint64_loop A c v k True)))"
    by (simp only: asn1_uint64_loop.simps Let_def u64_byte b_def not_False_eq_True HOL.simp_thms)
  have c: "be_bytes (Suc k) (unat v) = b # be_bytes k (unat v)" by (simp only: be_bytes_Cons b_def)
  show ?case
  proof (cases "b = 0")
    case True
    then have "asn1_unsigned (b # be_bytes k (unat v)) = asn1_unsigned (be_bytes k (unat v))"
      by (simp add: asn1_unsigned_def)
    with True Suc show ?thesis unfolding c l by (simp only: if_True HOL.simp_thms)
  next
    case False
    then have "asn1_unsigned (b # be_bytes k (unat v)) =
        (if 128 \<le> unat b then [0] else []) @ b # be_bytes k (unat v)"
      by (simp add: asn1_unsigned_def)
    with False show ?thesis unfolding c l asn1_uint64_loop_started
      by (cases "128 \<le> unat b")
        (simp_all only: if_False if_True u8_and_80 not_False_eq_True not_True_eq_False step_assoc
          step_ret append_Cons append_Nil put_u8s.simps list.distinct HOL.simp_thms not_less)
  qed
qed

lemma twos_val_nonneg: "bs \<noteq> [] \<Longrightarrow> unat (hd bs) < 128 \<Longrightarrow> twos_val bs = int (be_val bs)"
  by (simp add: twos_val_def)

lemma be_val_dropWhile: "be_val (dropWhile (\<lambda>b. b = 0) bs) = be_val bs"
  by (induction bs) (simp_all add: be_val_Cons)

lemma asn1_unsigned_der: "(if asn1_unsigned bs = [] then [0] else asn1_unsigned bs) = der_int (int (be_val bs))"
proof (cases "dropWhile (\<lambda>b. b = 0) bs")
  case Nil
  have "be_val bs = 0" using be_val_dropWhile [of bs] unfolding Nil by simp
  moreover have "asn1_unsigned bs = []" unfolding asn1_unsigned_def Nil by simp
  ultimately show ?thesis by (simp add: der_int_0)
next
  case (Cons b r)
  then have b: "b \<noteq> 0" using hd_dropWhile [of "\<lambda>b. b = 0" bs] by simp
  let ?x = "asn1_unsigned bs"
  have x: "?x = (if 128 \<le> unat b then [0] else []) @ b # r" using Cons by (simp add: asn1_unsigned_def)
  have "be_val ?x = be_val bs" using be_val_dropWhile [of bs] Cons x by (simp add: be_val_Cons)
  moreover have "unat (hd ?x) < 128" "?x \<noteq> []" using x by auto
  ultimately have t: "twos_val ?x = int (be_val bs)" using twos_val_nonneg by metis
  have "minimal ?x"
  proof (cases "128 \<le> unat b")
    case True
    with x show ?thesis by (simp add: minimal_Cons2)
  next
    case False
    then have "b \<noteq> 0xff" by auto
    with False x b show ?thesis by (cases r) (simp_all add: minimal_Cons2)
  qed
  from der_int_twos_val [OF this] t show ?thesis using \<open>?x \<noteq> []\<close> by simp
qed

lemma uint64_body_eq:
  "step (asn1_uint64_loop A c v 8 False) (\<lambda>started. if \<not> started then CBB_add_u8 A c 0 else ret ()) =
   put_u8s A c (der_int (uint v))"
proof -
  have "unat v < 256 ^ 8" using unat_u64_less [of v] by simp
  then have "be_val (be_bytes 8 (unat v)) = unat v" by (simp only: be_val_be_bytes mod_less)
  then have d: "der_int (uint v) = (if asn1_unsigned (be_bytes 8 (unat v)) = [] then [0]
      else asn1_unsigned (be_bytes 8 (unat v)))"
    by (simp only: asn1_unsigned_der) simp
  show ?thesis
  proof (cases "asn1_unsigned (be_bytes 8 (unat v)) = []")
    case True
    then show ?thesis
      unfolding asn1_uint64_loop_eq step_assoc step_ret d True
      by (simp only: put_u8s.simps step_ret step_ret_unit if_True HOL.simp_thms)
  next
    case False
    with False show ?thesis
      unfolding asn1_uint64_loop_eq step_assoc step_ret d by (simp only: step_ret_unit if_False HOL.simp_thms)
  qed
qed

lemma int64_loop_eq: "asn1_int64_loop A c v k = put_u8s A c (be_bytes k (unat v))"
proof (induction k)
  case (Suc k)
  have "int64_byte v k = of_nat (unat v div 256 ^ k)"
  proof -
    have "int64_byte v k = of_nat (unat (drop_bit (8 * k) v))" by (simp add: int64_byte_def)
    then show ?thesis by (simp only: unat_drop_bit power_mult) simp
  qed
  with Suc show ?case by (simp only: asn1_int64_loop.simps be_bytes_Cons put_u8s.simps)
qed simp

lemma twos_val_ff: "128 \<le> unat c \<Longrightarrow> twos_val (0xff # c # r) = twos_val (c # r)"
proof -
  have "unat (0xff :: u8) = 255" by simp
  then show "128 \<le> unat c \<Longrightarrow> ?thesis"
    unfolding twos_val_Cons be_val_Cons by (simp only: if_True) (simp add: algebra_simps)
qed

lemma int64_byte_val: "int64_byte v k = of_nat (unat v div 256 ^ k)"
proof -
  have "int64_byte v k = of_nat (unat (drop_bit (8 * k) v))" by (simp add: int64_byte_def)
  then show ?thesis by (simp only: unat_drop_bit power_mult) simp
qed

lemma int64_start_bytes:
  "twos_val (be_bytes (Suc (int64_start v k)) (unat v)) = twos_val (be_bytes (Suc k) (unat v)) \<and>
   ((\<exists>c. be_bytes (Suc k) (unat v) = c # be_bytes k (unat v) \<and> 128 \<le> unat c) \<longrightarrow>
     minimal (be_bytes (Suc (int64_start v k)) (unat v)))"
proof (induction k)
  case 0
  show ?case by (simp add: minimal_def)
next
  case (Suc k)
  define b where "b = int64_byte v (Suc k)"
  define c where "c = int64_byte v k"
  have bs: "be_bytes (Suc (Suc k)) (unat v) = b # c # be_bytes k (unat v)"
    "be_bytes (Suc k) (unat v) = c # be_bytes k (unat v)"
    by (simp_all only: be_bytes_Cons b_def c_def int64_byte_val)
  have st: "int64_start v (Suc k) = (if b = 0xff \<and> 128 \<le> unat c then int64_start v k else Suc k)"
    by (simp add: b_def c_def u8_and_80 not_less)
  show ?case
  proof (cases "b = 0xff \<and> 128 \<le> unat c")
    case True
    with Suc st bs twos_val_ff [of c "be_bytes k (unat v)"] show ?thesis by (simp del: be_bytes.simps)
  next
    case False
    have "minimal (b # c # be_bytes k (unat v))" if "128 \<le> unat b"
      using False that by (auto simp: minimal_Cons2)
    with False st bs show ?thesis by (auto simp del: be_bytes.simps)
  qed
qed

lemma int64_body:
  assumes "\<not> 0 \<le> sint v"
  shows "be_bytes (Suc (int64_start v 7)) (unat v) = der_int (sint v)"
proof -
  define bs where "bs = be_bytes (Suc 7) (unat v)"
  have l: "length bs = 8" unfolding bs_def length_be_bytes by simp
  then have ne: "bs \<noteq> []" by auto
  have h: "bs = hd bs # be_bytes 7 (unat v)" by (simp only: bs_def be_bytes_Cons list.sel)
  have "unat v < 256 ^ Suc 7" using unat_u64_less [of v] by simp
  then have bv: "be_val bs = unat v" by (simp only: bs_def be_val_be_bytes mod_less)
  have "word_of_int (twos_val bs) = v"
  proof (cases "twos_val bs < 0")
    case True
    then have "128 \<le> unat (hd bs)" using twos_val_neg [OF ne] by blast
    then have "twos_val bs = int (unat v) - 256 ^ 8"
      unfolding twos_val_def bv l by (simp only: if_True)
    moreover have "(word_of_int (int (unat v) - 256 ^ 8) :: u64) = v" by simp
    ultimately show ?thesis by (simp only:)
  next
    case False
    with be_val_twos_val [OF ne] bv have "twos_val bs = int (unat v)" by simp
    then show ?thesis by simp
  qed
  moreover have "sint (word_of_int (twos_val bs) :: u64) = twos_val bs"
    using twos_val_bounds [OF ne] by (intro int64_range) (simp_all add: l)
  ultimately have s: "twos_val bs = sint v" by simp
  with assms have "128 \<le> unat (hd bs)" using twos_val_neg [OF ne] by simp
  with h have "minimal (be_bytes (Suc (int64_start v 7)) (unat v))"
    using int64_start_bytes [of v 7] unfolding bs_def by blast
  from der_int_twos_val [OF this] int64_start_bytes [of v 7] s show ?thesis
    unfolding bs_def by (simp only:)
qed

section \<open>The writers\<close>

lemma doc_asn1_write:
  assumes "n \<le> doc_depth d"
  shows "Option.bind (Option.bind (doc_asn1 n tag d) (doc_write (Suc n) bs)) (doc_flush n) =
    (if length bs \<le> 0xfffffffe then doc_write n (der_tlv tag bs) d else None)"
  using tlv_nested [OF assms] by simp

lemma implements_tlv:
  assumes "implements A (at_least (Suc n)) body (doc_write (Suc n) bs)" and "length bs \<le> 0xfffffffe"
  shows "implements A (at_least n)
      (step (CBB_add_asn1 A n tag) (\<lambda>_. step body (\<lambda>_. CBB_flush A n)))
      (doc_write n (der_tlv tag bs))"
proof -
  have "implements A (at_least (Suc n)) (step body (\<lambda>_. CBB_flush A n))
      (\<lambda>d. Option.bind (doc_write (Suc n) bs d) (doc_flush n))"
    by (rule implements_step [OF assms(1) implements_flush]) (auto dest: doc_write_depth)
  from implements_step [OF implements_asn1 this] have "implements A (at_least n)
      (step (CBB_add_asn1 A n tag) (\<lambda>_. step body (\<lambda>_. CBB_flush A n)))
      (\<lambda>d. Option.bind (doc_asn1 n tag d) (\<lambda>d. Option.bind (doc_write (Suc n) bs d) (doc_flush n)))"
    by (simp add: doc_asn1_depth)
  then show ?thesis
    by (rule implements_cong) (simp add: tlv_nested assms(2))
qed

lemma on_error_step_flush:
  "step (on_error n m) (\<lambda>_. CBB_flush A n) s =
    (case step m (\<lambda>_. CBB_flush A n) s of (None, s') \<Rightarrow>
       (case m s of (None, _) \<Rightarrow> (None, cbb_on_error n s') | _ \<Rightarrow> (None, s')) | r \<Rightarrow> r)"
  by (simp add: on_error_def step_def split: prod.splits option.splits)

lemma implements_on_error_flush:
  assumes "implements A P (step m (\<lambda>_. CBB_flush A n)) f"
  shows "implements A P (step (on_error n m) (\<lambda>_. CBB_flush A n)) f"
proof (rule implementsI)
  fix s d
  assume "repr s d" "P d"
  with assms show "(\<exists>x s' d'. step (on_error n m) (\<lambda>_. CBB_flush A n) s = (Some x, s') \<and> f d = Some d' \<and>
         repr s' d' \<and> can_resize s' = can_resize s) \<or>
      (\<exists>s'. step (on_error n m) (\<lambda>_. CBB_flush A n) s = (None, s') \<and> cbb_error s' \<and>
         (\<forall>d'. f d = Some d' \<longrightarrow> ample A s \<longrightarrow> 2 ^ 64 \<le> doc_size d'))"
  proof (cases rule: implementsE)
    case (ok x s' d')
    then show ?thesis by (simp add: on_error_step_flush)
  next
    case (err s')
    obtain r t where "m s = (r, t)" by (cases "m s")
    with err show ?thesis
      by (cases r) (simp_all add: on_error_step_flush cbb_on_error_def)
  qed
qed (rule implements_size [OF assms])

lemma implements_uint64:
  "implements A (at_least n) (CBB_add_asn1_uint64_with_tag A n v tag)
     (doc_write n (der_tlv tag (der_int (uint v))))"
proof -
  have l: "length (der_int (uint v)) \<le> 0xfffffffe" using length_der_int_u64 [of v] by simp
  show ?thesis
    unfolding CBB_add_asn1_uint64_with_tag_def uint64_body_eq
    by (rule implements_on_error_flush, unfold step_assoc,
      rule implements_tlv [OF implements_put_u8s [OF der_int_nonempty] l])
qed

lemma implements_int64:
  "implements A (at_least n) (CBB_add_asn1_int64_with_tag A n v tag)
     (doc_write n (der_tlv tag (der_int (sint v))))"
proof (cases "0 \<le> sint v")
  case True
  moreover have "sint v < 2 ^ 64" using sint_range_size [of v] by (simp add: word_size)
  ultimately have "uint v = sint v" by (simp add: uint_sint take_bit_int_eq_self_iff)
  with True implements_uint64 [of A n v tag] show ?thesis
    by (simp add: CBB_add_asn1_int64_with_tag_def)
next
  case False
  have l: "length (der_int (sint v)) \<le> 0xfffffffe" using length_der_int_s64 [of v] by simp
  have "implements A (at_least n) (step (on_error n (step (CBB_add_asn1 A n tag) (\<lambda>_.
      asn1_int64_loop A (Suc n) v (Suc (int64_start v 7))))) (\<lambda>_. CBB_flush A n))
      (doc_write n (der_tlv tag (der_int (sint v))))"
    unfolding int64_loop_eq int64_body [OF False]
    by (rule implements_on_error_flush, unfold step_assoc,
      rule implements_tlv [OF implements_put_u8s [OF der_int_nonempty] l])
  with False show ?thesis by (simp only: CBB_add_asn1_int64_with_tag_def if_False)
qed

lemma implements_octet_string:
  assumes "unat len \<le> length data" and "unat len \<le> 0xfffffffe"
  shows "implements A (at_least n) (CBB_add_asn1_octet_string A n data len)
    (doc_write n (der_tlv CBS_ASN1_OCTETSTRING (take (unat len) data)))"
  unfolding CBB_add_asn1_octet_string_def
  by (rule implements_on_error, rule implements_tlv [OF implements_bytes [OF assms(1)]])
    (use assms in simp)

lemma implements_bool:
  "implements A (at_least n) (CBB_add_asn1_bool A n b)
    (doc_write n (der_tlv CBS_ASN1_BOOLEAN [if b then 0xff else 0]))"
  unfolding CBB_add_asn1_bool_def
  by (rule implements_on_error, rule implements_tlv [OF implements_u8]) simp

end
