(* ===== verification/CbbProps.thy ===== *)
theory CbbProps
  imports CbbAsn1
begin

text \<open>
  The properties of the builder: flushing and the writers implement the operations on
  documents, a failed builder stays failed, and what the builder writes the reader of cbs.c
  reads back.
\<close>

section \<open>Refinement\<close>

text \<open>
  C6: flushing. On a state that represents a document, \<open>CBB_flush\<close> of the CBB at depth \<open>n\<close>
  closes all its open descendants, innermost first, writing their length prefixes (moving the
  contents of an ASN.1 element when its length needs more than one byte), and the result
  represents the document with those frames closed. When it fails, the error flag is set, and
  with an allocator that serves every request it fails only if a length does not fit its
  prefix or the output would reach 2^64 bytes.
\<close>

theorem CBB_flush_refines:
  assumes "repr s d" and "n \<le> doc_depth d"
  shows "case CBB_flush A n s of
      (Some _, s') \<Rightarrow> \<exists>d'. doc_flush n d = Some d' \<and> repr s' d' \<and> doc_depth d' = n
    | (None, s') \<Rightarrow> cbb_error s' \<and> (\<forall>d'. doc_flush n d = Some d' \<and> ample A s \<longrightarrow> 2 ^ 64 \<le> doc_size d')"
  using assms by (cases rule: flush_cases [of s d n A]) auto

lemma repr_init: "repr (cbb_init (replicate (unat cap) 0) cap r) (Doc [] [])"
  by (simp add: repr_def buf_holds_def cbb_init_def)

theorem CBB_flush_refines_witness:
  "\<exists>s d'. CBB_flush (\<lambda>_. True) 0 (cbb_init [] 0 True) = (Some (), s) \<and>
     doc_flush 0 (Doc [] []) = Some d' \<and> repr s d'"
proof -
  have r: "repr (cbb_init [] 0 True) (Doc [] [])" using repr_init [of 0 True] by simp
  obtain x s where f: "CBB_flush (\<lambda>_. True) 0 (cbb_init [] 0 True) = (x, s)"
    by (cases "CBB_flush (\<lambda>_. True) 0 (cbb_init [] 0 True)")
  have "ample (\<lambda>_. True) (cbb_init [] 0 True)" by (simp add: ample_def cbb_init_def)
  with CBB_flush_refines [OF r, of 0 "\<lambda>_. True"] f show ?thesis
    by (cases x) (auto simp: doc_append.simps)
qed

lemma doc_write_root: "doc_write 0 bs (Doc root []) = Some (Doc (root @ bs) [])"
  by (simp add: doc_write_def doc_append.simps)

lemma be_bytes_eqI: "length bs = n \<Longrightarrow> be_val bs = v \<Longrightarrow> be_bytes n v = bs"
  using be_bytes_be_val by blast

lemma be_bytes_swap:
  assumes "n \<le> 8" "length xs = n" "unat w = be_val (rev xs)" "unat v = be_val xs"
  shows "be_bytes n (unat w) = rev (be_bytes n (unat v))"
  using assms be_bytes_eqI [of "rev xs" n "unat w"] be_bytes_eqI [of xs n "unat v"] by simp

lemma be_bytes_bswap:
  "be_bytes 2 (unat (CRYPTO_bswap2 v16)) = rev (be_bytes 2 (unat v16))"
  "be_bytes 4 (unat (CRYPTO_bswap4 v32)) = rev (be_bytes 4 (unat v32))"
  "be_bytes 8 (unat (CRYPTO_bswap8 v64)) = rev (be_bytes 8 (unat v64))"
proof -
  have l: "length (be_bytes 2 (unat v16)) = 2" "length (be_bytes 4 (unat v32)) = 4" "length (be_bytes 8 (unat v64)) = 8"
    by (simp_all only: length_be_bytes)
  have b: "unat v16 < 256 ^ 2" "unat v32 < 256 ^ 4" "unat v64 < 256 ^ 8"
    using unsigned_less [of v16] unsigned_less [of v32] unsigned_less [of v64] by simp_all
  have v: "be_val (be_bytes 2 (unat v16)) = unat v16" "be_val (be_bytes 4 (unat v32)) = unat v32"
    "be_val (be_bytes 8 (unat v64)) = unat v64"
    using b by (simp_all only: be_val_be_bytes mod_less)
  have r: "be_val (rev (be_bytes n w)) < 256 ^ n" for n w
    using be_val_less [of "rev (be_bytes n w)"] by (simp del: be_bytes_numeral)
  have w: "ucast (get_u_loop 0 (be_bytes 2 (unat v16))) = v16" "ucast (get_u_loop 0 (be_bytes 4 (unat v32))) = v32"
    "get_u_loop 0 (be_bytes 8 (unat v64)) = v64"
    using ucast_get_u_loop [of "be_bytes 2 (unat v16)", where 'a = 16] ucast_get_u_loop [of "be_bytes 4 (unat v32)", where 'a = 32]
      get_u_loop_eq [of "be_bytes 8 (unat v64)"] v by (simp_all del: be_bytes_numeral)
  have s: "unat (CRYPTO_bswap2 v16) = be_val (rev (be_bytes 2 (unat v16)))"
    "unat (CRYPTO_bswap4 v32) = be_val (rev (be_bytes 4 (unat v32)))"
    "unat (CRYPTO_bswap8 v64) = be_val (rev (be_bytes 8 (unat v64)))"
    using bswap_loops(1) [OF l(1)] bswap_loops(2) [OF l(2)] bswap_loops(3) [OF l(3)] w
      ucast_get_u_loop [of "rev (be_bytes 2 (unat v16))", where 'a = 16]
      ucast_get_u_loop [of "rev (be_bytes 4 (unat v32))", where 'a = 32]
      get_u_loop_eq [of "rev (be_bytes 8 (unat v64))"]
      r [of 2 "unat v16"] r [of 4 "unat v32"] r [of 8 "unat v64"]
    by (simp_all add: unat_of_nat del: be_bytes_numeral)
  show "be_bytes 2 (unat (CRYPTO_bswap2 v16)) = rev (be_bytes 2 (unat v16))"
    "be_bytes 4 (unat (CRYPTO_bswap4 v32)) = rev (be_bytes 4 (unat v32))"
    "be_bytes 8 (unat (CRYPTO_bswap8 v64)) = rev (be_bytes 8 (unat v64))"
    unfolding s by (rule be_bytes_eqI; simp only: length_rev length_be_bytes)+
qed

text \<open>
  C7: the writers. Each of them implements appending bytes to the document at the CBB it is
  called on, after closing that CBB's children: the integers in big-endian order, those with \<open>le\<close>
  in little-endian order, raw bytes and zeros as they are, and for the ASN.1 writers the DER
  encoding of the value under its tag, with the shortest two's complement body for an INTEGER. The
  child constructors open a frame. The caller's buffer has to hold the bytes that are read from
  it, and an OCTET STRING is at most \<open>0xfffffffe\<close> bytes long.
\<close>

theorem CBB_writers_refine:
  assumes "unat len \<le> length data"
  shows "implements A (at_least n) (CBB_add_u8 A n b) (doc_write n [b]) \<and>
   implements A (at_least n) (CBB_add_u16 A n v16) (doc_write n (be_bytes 2 (unat v16))) \<and>
   implements A (at_least n) (CBB_add_u24 A n v32)
     (\<lambda>d. if unat v32 < 256 ^ 3 then doc_write n (be_bytes 3 (unat v32)) d else None) \<and>
   implements A (at_least n) (CBB_add_u32 A n v32) (doc_write n (be_bytes 4 (unat v32))) \<and>
   implements A (at_least n) (CBB_add_u64 A n v64) (doc_write n (be_bytes 8 (unat v64))) \<and>
   implements A (at_least n) (CBB_add_u16le A n v16) (doc_write n (rev (be_bytes 2 (unat v16)))) \<and>
   implements A (at_least n) (CBB_add_u32le A n v32) (doc_write n (rev (be_bytes 4 (unat v32)))) \<and>
   implements A (at_least n) (CBB_add_u64le A n v64) (doc_write n (rev (be_bytes 8 (unat v64)))) \<and>
   implements A (at_least n) (CBB_add_bytes A n data len) (doc_write n (take (unat len) data)) \<and>
   implements A (at_least n) (CBB_add_zeros A n len) (doc_write n (replicate (unat len) 0)) \<and>
   implements A (at_least n) (CBB_add_u8_length_prefixed A n) (doc_open n (Prefix 1)) \<and>
   implements A (at_least n) (CBB_add_u16_length_prefixed A n) (doc_open n (Prefix 2)) \<and>
   implements A (at_least n) (CBB_add_u24_length_prefixed A n) (doc_open n (Prefix 3)) \<and>
   implements A (at_least n) (CBB_add_asn1 A n tag) (doc_asn1 n tag) \<and>
   implements A (at_least n) (CBB_add_asn1_uint64_with_tag A n v64 tag)
     (doc_write n (der_tlv tag (der_int (uint v64)))) \<and>
   implements A (at_least n) (CBB_add_asn1_int64_with_tag A n v64 tag)
     (doc_write n (der_tlv tag (der_int (sint v64)))) \<and>
   implements A (at_least n) (CBB_add_asn1_uint64 A n v64)
     (doc_write n (der_tlv CBS_ASN1_INTEGER (der_int (uint v64)))) \<and>
   implements A (at_least n) (CBB_add_asn1_int64 A n v64)
     (doc_write n (der_tlv CBS_ASN1_INTEGER (der_int (sint v64)))) \<and>
   (unat len \<le> 0xfffffffe \<longrightarrow> implements A (at_least n) (CBB_add_asn1_octet_string A n data len)
     (doc_write n (der_tlv CBS_ASN1_OCTETSTRING (take (unat len) data)))) \<and>
   implements A (at_least n) (CBB_add_asn1_bool A n x)
     (doc_write n (der_tlv CBS_ASN1_BOOLEAN [if x then 0xff else 0]))"
  using implements_length_prefixed [of 1 A n] implements_length_prefixed [of 2 A n]
    implements_length_prefixed [of 3 A n] implements_bytes [OF assms, of A n]
    implements_octet_string [OF assms, of A n]
  by (intro conjI impI; simp only: implements_u8 implements_u16 implements_u24 implements_u32 implements_u64
      implements_zeros implements_asn1 implements_bool implements_uint64 implements_int64
      CBB_add_u8_length_prefixed_def CBB_add_u16_length_prefixed_def CBB_add_u24_length_prefixed_def
      CBB_add_asn1_uint64_def CBB_add_asn1_int64_def
      CBB_add_u16le_def CBB_add_u32le_def CBB_add_u64le_def flip: be_bytes_bswap; simp)

text \<open>Two bytes and an OCTET STRING, written to a fresh builder.\<close>

theorem CBB_writers_refine_witness:
  "\<exists>s s'. CBB_add_bytes (\<lambda>_. True) 0 [7, 8] 2 (cbb_init [] 0 True) = (Some (), s) \<and> repr s (Doc [7, 8] []) \<and>
     CBB_add_asn1_octet_string (\<lambda>_. True) 0 [7, 8] 2 (cbb_init [] 0 True) = (Some (), s') \<and> repr s' (Doc [4, 2, 7, 8] [])"
proof -
  have r: "repr (cbb_init [] 0 True) (Doc [] [])" using repr_init [of 0 True] by simp
  have a: "ample (\<lambda>_. True) (cbb_init [] 0 True)" by (simp add: ample_def cbb_init_def)
  have len: "unat (2 :: size_t) \<le> length [7, 8 :: u8]" by simp
  note W = CBB_writers_refine [OF len, of "\<lambda>_. True" 0]
  have run: "\<exists>s. m (cbb_init [] 0 True) = (Some (), s) \<and> repr s (Doc bs [])"
    if "implements (\<lambda>_. True) (at_least 0) m (doc_write 0 bs)" "length bs < 2 ^ 64" for m :: "(cbb, unit) op" and bs
    using that(1) r
    by (cases rule: implementsE) (use that(2) a in \<open>auto simp: doc_write_root\<close>)
  have "der_tlv CBS_ASN1_OCTETSTRING [7, 8] = [4, 2, 7, 8]" by code_simp
  moreover have "implements (\<lambda>_. True) (at_least 0) (CBB_add_bytes (\<lambda>_. True) 0 [7, 8] 2) (doc_write 0 [7, 8])"
    using W by simp
  ultimately show ?thesis using run [of "CBB_add_bytes (\<lambda>_. True) 0 [7, 8] 2" "[7, 8]"]
      run [of "CBB_add_asn1_octet_string (\<lambda>_. True) 0 [7, 8] 2" "[4, 2, 7, 8]"] W by simp
qed

section \<open>Errors\<close>

definition stuck :: "cbb \<Rightarrow> (cbb, 'a) op \<Rightarrow> bool" where
  "stuck s m \<longleftrightarrow> m s = (None, s)"

lemma stuck_flush: "cbb_error s \<Longrightarrow> stuck s (CBB_flush A n)"
  by (simp add: stuck_def CBB_flush.simps)

lemma stuck_step: "stuck s m \<Longrightarrow> stuck s (step m f)"
  by (simp add: stuck_def step_None)

text \<open>
  The ASN.1 writers of a whole element discard the children of the CBB they are called on when they fail.
\<close>

definition fails_at :: "nat \<Rightarrow> cbb \<Rightarrow> (cbb, 'a) op \<Rightarrow> bool" where
  "fails_at n s m \<longleftrightarrow> m s = (None, s\<lparr>cbb_children := take n (cbb_children s)\<rparr>)"

lemma stuck_on_error: "cbb_error s \<Longrightarrow> stuck s m \<Longrightarrow> fails_at n s (on_error n m)"
  by (simp add: stuck_def fails_at_def on_error_def cbb_on_error_def)

lemma fails_at_step: "fails_at n s m \<Longrightarrow> fails_at n s (step m f)"
  by (simp add: fails_at_def step_None)

lemmas writer_defs = CBB_add_space_def CBB_reserve_def CBB_add_bytes_def CBB_add_zeros_def cbb_add_u_def
  CBB_add_u8_def CBB_add_u16_def CBB_add_u24_def CBB_add_u32_def CBB_add_u64_def
  CBB_add_u16le_def CBB_add_u32le_def CBB_add_u64le_def
  CBB_add_u8_length_prefixed_def CBB_add_u16_length_prefixed_def CBB_add_u24_length_prefixed_def
  cbb_add_length_prefixed_def

lemma stuck_finish: "cbb_error s \<Longrightarrow> stuck s (CBB_finish A n o1 o2)"
  by (simp add: CBB_finish_def check_def stuck_step stuck_flush) (simp add: stuck_def)

text \<open>
  C8: errors stick. Once the error flag of the buffer is set, \<open>CBB_flush\<close>, \<open>CBB_finish\<close>,
  \<open>CBB_add_space\<close>, \<open>CBB_reserve\<close>, the writers of bytes, zeros and integers and the child
  constructors, on whatever CBB of the chain, return 0 and leave the buffer, its length and the
  children as they are; the writers of an INTEGER, OCTET STRING or BOOLEAN element return 0 too and
  drop the children of their CBB. \<open>CBB_did_write\<close> and \<open>CBB_discard_child\<close>, which
  do not look at the flag, leave it set, so that nothing can be finished after an error.
\<close>

theorem CBB_error_sticks:
  assumes "cbb_error s"
  shows "stuck s (CBB_flush A n) \<and> stuck s (CBB_finish A n o1 o2) \<and>
    stuck s (CBB_add_space A n len) \<and> stuck s (CBB_reserve A n len) \<and>
    stuck s (CBB_add_bytes A n data len) \<and> stuck s (CBB_add_zeros A n len) \<and>
    stuck s (cbb_add_u A n v64 len) \<and> stuck s (CBB_add_u8 A n v8) \<and> stuck s (CBB_add_u16 A n v16) \<and>
    stuck s (CBB_add_u24 A n v32) \<and> stuck s (CBB_add_u32 A n v32) \<and> stuck s (CBB_add_u64 A n v64) \<and>
    stuck s (CBB_add_u16le A n v16) \<and> stuck s (CBB_add_u32le A n v32) \<and> stuck s (CBB_add_u64le A n v64) \<and>
    stuck s (CBB_add_u8_length_prefixed A n) \<and>
    stuck s (CBB_add_u16_length_prefixed A n) \<and> stuck s (CBB_add_u24_length_prefixed A n) \<and>
    stuck s (CBB_add_asn1 A n tag) \<and>
    fails_at n s (CBB_add_asn1_uint64_with_tag A n v64 tag) \<and> fails_at n s (CBB_add_asn1_uint64 A n v64) \<and>
    fails_at n s (CBB_add_asn1_int64_with_tag A n v64 tag) \<and> fails_at n s (CBB_add_asn1_int64 A n v64) \<and>
    fails_at n s (CBB_add_asn1_octet_string A n data len) \<and> fails_at n s (CBB_add_asn1_bool A n x) \<and>
    cbb_error (snd (CBB_did_write n len s)) \<and> cbb_error (CBB_discard_child n s)"
proof -
  have asn1: "stuck s (CBB_add_asn1 A n t)" for t
    unfolding CBB_add_asn1_def by (rule stuck_step [OF stuck_flush [OF assms]])
  have u: "fails_at n s (CBB_add_asn1_uint64_with_tag A n v64 t)" for t
    unfolding CBB_add_asn1_uint64_with_tag_def
    by (intro fails_at_step stuck_on_error [OF assms] stuck_step asn1)
  have i: "fails_at n s (CBB_add_asn1_int64_with_tag A n v64 t)" for t
    unfolding CBB_add_asn1_int64_with_tag_def
    by (simp add: u) (intro impI fails_at_step stuck_on_error [OF assms] stuck_step asn1)
  have "fails_at n s (CBB_add_asn1_octet_string A n data len)" "fails_at n s (CBB_add_asn1_bool A n x)"
    unfolding CBB_add_asn1_octet_string_def CBB_add_asn1_bool_def
    by (intro stuck_on_error [OF assms] stuck_step asn1)+
  moreover have "cbb_error (snd (CBB_did_write n len s))" "cbb_error (CBB_discard_child n s)"
    using assms by (simp_all add: CBB_did_write_def CBB_discard_child_def Let_def)
  ultimately show ?thesis
    using stuck_flush [OF assms] stuck_finish [OF assms] asn1 u i
    by (simp add: CBB_add_asn1_uint64_def CBB_add_asn1_int64_def writer_defs stuck_step)
qed

theorem CBB_error_sticks_witness:
  "stuck (cbb_init [] 0 False\<lparr>cbb_error := True\<rparr>) (CBB_add_bytes (\<lambda>_. True) 0 [1] 1) \<and>
   fails_at 0 (cbb_init [] 0 False\<lparr>cbb_error := True\<rparr>) (CBB_add_asn1_bool (\<lambda>_. True) 0 True)"
proof -
  have e: "cbb_error (cbb_init [] 0 False\<lparr>cbb_error := True\<rparr>)" by simp
  show ?thesis by (intro conjI) (use CBB_error_sticks [OF e] in blast)+
qed

section \<open>Round trips\<close>

lemma CBB_init_ok: "A cap \<Longrightarrow> CBB_init A cap = (Some (), cbb_init (replicate (unat cap) 0) cap True)"
  by (simp add: CBB_init_def)

text \<open>A writer that runs on a fresh builder, and the bytes \<open>CBB_finish\<close> hands out.\<close>

definition build :: "alloc \<Rightarrow> size_t \<Rightarrow> (cbb, unit) op \<Rightarrow> (u8 list \<times> size_t) option" where
  "build A cap m = (case CBB_init A cap of (None, _) \<Rightarrow> None
     | (Some _, s) \<Rightarrow> fst (step m (\<lambda>_. CBB_finish A 0 True True) s))"

lemma build_implements:
  assumes "implements A (at_least 0) m f" and "f (Doc [] []) = Some (Doc bs [])"
  shows "build A cap m = Some (data, len) \<Longrightarrow> \<exists>t. CBS_init data len = cbs_view bs t \<and> fits bs"
    and "(\<forall>l. A l) \<Longrightarrow> fits bs \<Longrightarrow> build A cap m \<noteq> None"
proof -
  let ?s = "cbb_init (replicate (unat cap) 0) cap True"
  have r: "repr ?s (Doc [] [])" by (rule repr_init)
  from assms(1) r have "(\<exists>s'. m ?s = (Some (), s') \<and> repr s' (Doc bs [])) \<or>
      (\<exists>s'. m ?s = (None, s') \<and> \<not> ((\<forall>l. A l) \<and> fits bs))"
    by (cases rule: implementsE) (auto simp: assms(2) ample_def cbb_init_def)
  moreover have "CBB_finish A 0 True True s' = (Some (cbb_buf s', cbb_len s'), CBB_cleanup 0 (s'\<lparr>cbb_buf := []\<rparr>))"
    and "\<exists>t. CBS_init (cbb_buf s') (cbb_len s') = cbs_view bs t" and "fits bs"
    if "repr s' (Doc bs [])" for s'
  proof -
    from that have h: "buf_holds s' bs" and c: "cbb_children s' = []" and e: "\<not> cbb_error s'"
      by (auto simp: repr_def buf_holds_def)
    show "CBB_finish A 0 True True s' = (Some (cbb_buf s', cbb_len s'), CBB_cleanup 0 (s'\<lparr>cbb_buf := []\<rparr>))"
      using c e by (simp add: CBB_finish_def step_def CBB_flush.simps base_is_null_def has_child_def)
    note len = buf_holds_len [OF h]
    have "cbb_buf s' = bs @ drop (length bs) (cbb_buf s')"
      using h len(1) by (metis append_take_drop_id buf_holds_def)
    moreover have "cbb_len s' = of_nat (length bs)" using len(1) by (metis of_nat_unat)
    ultimately have "CBS_init (cbb_buf s') (cbb_len s') = cbs_view bs (drop (length bs) (cbb_buf s'))"
      by (simp add: CBS_init_def cbs_view_def)
    then show "\<exists>t. CBS_init (cbb_buf s') (cbb_len s') = cbs_view bs t" by blast
    show "fits bs" by (rule len(2))
  qed
  ultimately show "build A cap m = Some (data, len) \<Longrightarrow> \<exists>t. CBS_init data len = cbs_view bs t \<and> fits bs"
    and "(\<forall>l. A l) \<Longrightarrow> fits bs \<Longrightarrow> build A cap m \<noteq> None"
    by (auto simp: build_def CBB_init_def step_Some step_None split: if_splits)
qed

text \<open>
  C9: INTEGER round trip. Whatever the initial capacity, if writing the number \<open>v\<close> with
  \<open>CBB_add_asn1_uint64\<close> (or \<open>CBB_add_asn1_int64\<close>) to a fresh builder and finishing it
  succeeds, then reading the result with \<open>CBS_get_asn1_uint64\<close> (\<open>CBS_get_asn1_int64\<close>)
  returns \<open>v\<close> and consumes everything; with an allocator that never fails it does succeed.
\<close>

theorem asn1_integer_roundtrip:
  "(\<forall>data len. build A cap (CBB_add_asn1_uint64 A 0 v) = Some (data, len) \<longrightarrow>
      (\<exists>t. CBS_get_asn1_uint64 (CBS_init data len) = (Some v, cbs_view [] t))) \<and>
   (\<forall>data len. build A cap (CBB_add_asn1_int64 A 0 v) = Some (data, len) \<longrightarrow>
      (\<exists>t. CBS_get_asn1_int64 (CBS_init data len) = (Some v, cbs_view [] t))) \<and>
   ((\<forall>l. A l) \<longrightarrow> build A cap (CBB_add_asn1_uint64 A 0 v) \<noteq> None \<and>
      build A cap (CBB_add_asn1_int64 A 0 v) \<noteq> None)"
proof -
  note u = implements_uint64 [of A 0 v CBS_ASN1_INTEGER, folded CBB_add_asn1_uint64_def]
  note i = implements_int64 [of A 0 v CBS_ASN1_INTEGER, folded CBB_add_asn1_int64_def]
  have "fits (der_tlv CBS_ASN1_INTEGER (der_int (uint v)))" "fits (der_tlv CBS_ASN1_INTEGER (der_int (sint v)))"
    using length_der_header [of CBS_ASN1_INTEGER "length (der_int (uint v))"] length_der_int_u64 [of v]
      length_der_header [of CBS_ASN1_INTEGER "length (der_int (sint v))"] length_der_int_s64 [of v]
    by (simp_all add: der_tlv_def)
  then show ?thesis
    using build_implements [OF u doc_write_root, of cap] build_implements [OF i doc_write_root, of cap]
      CBS_get_asn1_uint64_complete [of v "[]"] CBS_get_asn1_int64_complete [of v "[]"]
    by (metis append_Nil append_Nil2)
qed

theorem asn1_integer_roundtrip_witness:
  "\<exists>data len t. build (\<lambda>_. True) 2 (CBB_add_asn1_int64 (\<lambda>_. True) 0 (- 129)) = Some (data, len) \<and>
     CBS_get_asn1_int64 (CBS_init data len) = (Some (- 129), cbs_view [] t)"
  using asn1_integer_roundtrip [of "\<lambda>_. True" 2 "- 129"] by auto

lemma build_implements_None:
  assumes "implements A (at_least 0) m f" and "f (Doc [] []) = None"
  shows "build A cap m = None"
proof -
  from assms(1) repr_init [of cap True]
  obtain s' where "m (cbb_init (replicate (unat cap) 0) cap True) = (None, s')"
    by (cases rule: implementsE) (auto simp: assms(2))
  then show ?thesis by (simp add: build_def CBB_init_def step_None)
qed

lemma implements_nested:
  assumes "implements A (at_least (Suc n)) body (doc_write (Suc n) bs)"
    and "implements A (at_least n) m (doc_open n k)"
  shows "implements A (at_least n) (step m (\<lambda>_. step body (\<lambda>_. CBB_flush A n)))
    (\<lambda>d. Option.bind (enclose k bs) (\<lambda>t. doc_write n t d))"
proof -
  have dep: "doc_depth d' = Suc n" if "doc_open n k d = Some d'" "n \<le> doc_depth d" for d d'
  proof -
    from that obtain d1 where d1: "doc_flush n d = Some d1" "d' = doc_push k d1"
      by (auto simp: doc_open_def bind_eq_Some_conv)
    with doc_flush_depth [OF d1(1) that(2)] show ?thesis by (cases d1) simp
  qed
  have b: "implements A (at_least (Suc n)) (step body (\<lambda>_. CBB_flush A n))
      (\<lambda>d. Option.bind (doc_write (Suc n) bs d) (doc_flush n))"
    by (rule implements_step [OF assms(1) implements_flush]) (auto dest: doc_write_depth)
  have "implements A (at_least n) (step m (\<lambda>_. step body (\<lambda>_. CBB_flush A n)))
      (\<lambda>d. Option.bind (doc_open n k d) (\<lambda>d. Option.bind (doc_write (Suc n) bs d) (doc_flush n)))"
    by (rule implements_step [OF assms(2) b]) (simp add: dep)
  then show ?thesis by (rule implements_cong) (rule enclose_nested)
qed

text \<open>The usual way to write a length-prefixed field: open a child, fill it, flush the parent.\<close>

definition u16_prefixed :: "alloc \<Rightarrow> u8 list \<Rightarrow> (cbb, unit) op" where
  "u16_prefixed A bs = step (CBB_add_u16_length_prefixed A 0) (\<lambda>_.
     step (CBB_add_bytes A 1 bs (of_nat (length bs))) (\<lambda>_. CBB_flush A 0))"

text \<open>
  Length-prefix round trip. Bytes written through a child made by
  \<open>CBB_add_u16_length_prefixed\<close> come back from \<open>CBS_get_u16_length_prefixed\<close>, with
  nothing left over; a body of 2^16 bytes or more is always refused, and with an allocator
  that never fails a shorter one never is.
\<close>

theorem u16_prefixed_roundtrip:
  assumes "fits bs"
  shows "(\<forall>data len. build A cap (u16_prefixed A bs) = Some (data, len) \<longrightarrow>
      (\<exists>t. CBS_get_u16_length_prefixed (CBS_init data len) = (Some (cbs_view bs t), cbs_view [] t))) \<and>
    (2 ^ 16 \<le> length bs \<longrightarrow> build A cap (u16_prefixed A bs) = None) \<and>
    ((\<forall>l. A l) \<and> length bs < 2 ^ 16 \<longrightarrow> build A cap (u16_prefixed A bs) \<noteq> None)"
proof -
  have b: "implements A (at_least (Suc 0)) (CBB_add_bytes A (Suc 0) bs (of_nat (length bs))) (doc_write (Suc 0) bs)"
    using implements_bytes [of "of_nat (length bs)" bs A "Suc 0"] assms by (simp add: unat_of_nat_size)
  have o: "implements A (at_least 0) (CBB_add_u16_length_prefixed A 0) (doc_open 0 (Prefix 2))"
    using implements_length_prefixed [of 2 A 0] by (simp add: CBB_add_u16_length_prefixed_def)
  note w = implements_nested [OF b o, folded u16_prefixed_def [unfolded One_nat_def]]
  show ?thesis
  proof (cases "length bs < 2 ^ 16")
    case True
    let ?out = "be_bytes 2 (length bs) @ bs"
    have f: "Option.bind (enclose (Prefix 2) bs) (\<lambda>t. doc_write 0 t (Doc [] [])) = Some (Doc ?out [])"
      using True by (simp add: doc_write_root del: be_bytes_numeral)
    have "CBS_get_u16_length_prefixed (cbs_view ?out t) = (Some (cbs_view bs t), cbs_view [] t)" for t
      using True cbs_get_length_prefixed_view [of ?out 2 t] be_val_be_bytes [of 2 "length bs"]
      by (simp add: CBS_get_u16_length_prefixed_def Let_def del: be_bytes_numeral)
    then show ?thesis
      using build_implements [OF w f, of cap] True by fastforce
  next
    case False
    then have "build A cap (u16_prefixed A bs) = None" by (intro build_implements_None [OF w]) simp
    with False show ?thesis by simp
  qed
qed

theorem u16_prefixed_roundtrip_witness:
  "\<exists>data len t. build (\<lambda>_. True) 0 (u16_prefixed (\<lambda>_. True) [7, 8]) = Some (data, len) \<and>
     CBS_get_u16_length_prefixed (CBS_init data len) = (Some (cbs_view [7, 8] t), cbs_view [] t)"
  using u16_prefixed_roundtrip [of "[7, 8]" "\<lambda>_. True" 0] by auto

end
