(* ===== verification/PosixTime.thy ===== *)
theory PosixTime
  imports Prelude "HOL-Library.Signed_Division"
begin

text \<open>
  crypto/asn1/posix_time.c: conversion between POSIX times and broken-down UTC times. The
  code computes in \<open>int64_t\<close> and its \<open>static_assert\<close>s argue that nothing overflows; the
  model computes in \<open>int\<close>, with C's truncating division (\<open>sdiv\<close>, \<open>smod\<close>), and
  the lemmas give the bounds. \<open>time_t\<close> has 64 bits.
\<close>

section \<open>The code\<close>

definition SECS_PER_HOUR :: int where "SECS_PER_HOUR = 60 * 60"

definition SECS_PER_DAY :: int where "SECS_PER_DAY = 24 * SECS_PER_HOUR"

definition MIN_POSIX_TIME :: int where "MIN_POSIX_TIME = - 62167219200"

definition MAX_POSIX_TIME :: int where "MAX_POSIX_TIME = 253402300799"

definition INT64_MAX :: int where "INT64_MAX = 2 ^ 63 - 1"

definition INT64_MIN :: int where "INT64_MIN = - (2 ^ 63)"

record tm =
  tm_year :: int
  tm_mon :: int
  tm_mday :: int
  tm_hour :: int
  tm_min :: int
  tm_sec :: int

definition is_valid_date :: "int \<Rightarrow> int \<Rightarrow> int \<Rightarrow> bool" where
  "is_valid_date year month day =
     (if day < 1 \<or> month < 1 \<or> year < 0 \<or> year > 9999 then False
      else if month \<in> {1, 3, 5, 7, 8, 10, 12} then day > 0 \<and> day \<le> 31
      else if month \<in> {4, 6, 9, 11} then day > 0 \<and> day \<le> 30
      else if month = 2 then
        if (year smod 4 = 0 \<and> year smod 100 \<noteq> 0) \<or> year smod 400 = 0
        then day > 0 \<and> day \<le> 29
        else day > 0 \<and> day \<le> 28
      else False)"

definition is_valid_time :: "int \<Rightarrow> int \<Rightarrow> int \<Rightarrow> bool" where
  "is_valid_time hours minutes seconds =
     (if hours < 0 \<or> minutes < 0 \<or> seconds < 0 \<or> hours > 23 \<or> minutes > 59 \<or> seconds > 59
      then False else True)"

definition is_valid_posix_time :: "int \<Rightarrow> bool" where
  "is_valid_posix_time t \<longleftrightarrow> MIN_POSIX_TIME \<le> t \<and> t \<le> MAX_POSIX_TIME"

definition posix_time_from_utc :: "int \<Rightarrow> int \<Rightarrow> int \<Rightarrow> int \<Rightarrow> int \<Rightarrow> int \<Rightarrow> int option" where
  "posix_time_from_utc year month day hours minutes seconds =
     (if \<not> is_valid_date year month day \<or> \<not> is_valid_time hours minutes seconds then None
      else
        let year = (if month \<le> 2 then year - 1 else year);
            era = (if year \<ge> 0 then year else year - 399) sdiv 400;
            year_of_era = year - era * 400;
            day_of_year = (153 * (if month > 2 then month - 3 else month + 9) + 2) sdiv 5 + day - 1;
            day_of_era = year_of_era * 365 + year_of_era sdiv 4 - year_of_era sdiv 100 + day_of_year;
            posix_days = era * 146097 + day_of_era - 719468
        in Some (posix_days * SECS_PER_DAY + hours * SECS_PER_HOUR + minutes * 60 + seconds))"

definition utc_from_posix_time :: "int \<Rightarrow> (int \<times> int \<times> int \<times> int \<times> int \<times> int) option" where
  "utc_from_posix_time t =
     (if \<not> is_valid_posix_time t then None
      else
        let days = t sdiv SECS_PER_DAY;
            leftover_seconds = t smod SECS_PER_DAY;
            (days, leftover_seconds) =
              (if leftover_seconds < 0 then (days - 1, leftover_seconds + SECS_PER_DAY)
               else (days, leftover_seconds));
            days = days + 719468;
            era = (if days > 0 then days else days - 146096) sdiv 146097;
            day_of_era = days - era * 146097;
            year_of_era = (day_of_era - day_of_era sdiv 1460 + day_of_era sdiv 36524 -
              day_of_era sdiv 146096) sdiv 365;
            out_year = year_of_era + era * 400;
            day_of_year = day_of_era - (365 * year_of_era + year_of_era sdiv 4 - year_of_era sdiv 100);
            month_of_year = (5 * day_of_year + 2) sdiv 153;
            out_month = (if month_of_year < 10 then month_of_year + 3 else month_of_year - 9);
            out_year = (if out_month \<le> 2 then out_year + 1 else out_year);
            out_day = day_of_year - (153 * month_of_year + 2) sdiv 5 + 1;
            out_hours = leftover_seconds sdiv SECS_PER_HOUR;
            leftover_seconds = leftover_seconds smod SECS_PER_HOUR;
            out_minutes = leftover_seconds sdiv 60;
            out_seconds = leftover_seconds smod 60
        in Some (out_year, out_month, out_day, out_hours, out_minutes, out_seconds))"

definition OPENSSL_tm_to_posix :: "tm \<Rightarrow> int option" where
  "OPENSSL_tm_to_posix tm =
     posix_time_from_utc (tm_year tm + 1900) (tm_mon tm + 1) (tm_mday tm) (tm_hour tm) (tm_min tm)
       (tm_sec tm)"

definition OPENSSL_posix_to_tm :: "int \<Rightarrow> tm option" where
  "OPENSSL_posix_to_tm t = (case utc_from_posix_time t of None \<Rightarrow> None
     | Some (y, mo, d, h, mi, s) \<Rightarrow> Some \<lparr>tm_year = y - 1900, tm_mon = mo - 1, tm_mday = d,
         tm_hour = h, tm_min = mi, tm_sec = s\<rparr>)"

definition OPENSSL_timegm :: "tm \<Rightarrow> int option" where
  "OPENSSL_timegm tm = OPENSSL_tm_to_posix tm"

definition OPENSSL_gmtime :: "int \<Rightarrow> tm option" where
  "OPENSSL_gmtime t = OPENSSL_posix_to_tm t"

definition OPENSSL_gmtime_adj :: "tm \<Rightarrow> int \<Rightarrow> int \<Rightarrow> tm option" where
  "OPENSSL_gmtime_adj tm offset_day offset_sec =
     (case OPENSSL_tm_to_posix tm of None \<Rightarrow> None | Some posix_time \<Rightarrow>
       let posix_time = posix_time + offset_day * SECS_PER_DAY in
       if posix_time > 0 \<and> offset_sec > INT64_MAX - posix_time then None
       else if posix_time < 0 \<and> offset_sec < INT64_MIN - posix_time then None
       else OPENSSL_posix_to_tm (posix_time + offset_sec))"

definition OPENSSL_gmtime_diff :: "tm \<Rightarrow> tm \<Rightarrow> (int \<times> int) option" where
  \<comment> \<open>\<open>(out_days, out_secs)\<close>\<close>
  "OPENSSL_gmtime_diff from_tm to_tm =
     (case OPENSSL_tm_to_posix to_tm of None \<Rightarrow> None | Some time_to \<Rightarrow>
       (case OPENSSL_tm_to_posix from_tm of None \<Rightarrow> None | Some time_from \<Rightarrow>
         let timediff = time_to - time_from;
             daydiff = timediff sdiv SECS_PER_DAY;
             timediff = timediff smod SECS_PER_DAY
         in Some (daydiff, timediff)))"

section \<open>Truncating division\<close>

lemma sdiv_nonneg: "0 \<le> a \<Longrightarrow> 0 < b \<Longrightarrow> a sdiv b = (a :: int) div b"
  by (cases "a = 0") (simp_all add: signed_divide_int_def)

lemma smod_nonneg: "0 \<le> a \<Longrightarrow> 0 < b \<Longrightarrow> a smod b = (a :: int) mod b"
  by (cases "a = 0") (simp_all add: signed_modulo_int_def)

text \<open>The code's two ways to get floor division out of truncating division.\<close>

lemma sdiv_floor:
  assumes "0 < b"
  shows "(if a \<ge> 0 then a else a - (b - 1)) sdiv b = (a :: int) div b"
proof (cases "a \<ge> 0")
  case True
  with assms show ?thesis by (simp add: sdiv_nonneg)
next
  case False
  define q where "q = a div b"
  define r where "r = a mod b"
  have a: "a = b * q + r" by (simp add: q_def r_def)
  have r: "0 \<le> r" "r < b" using assms by (simp_all add: r_def)
  have "(- (a - (b - 1))) div b = - q"
    by (rule int_div_pos_eq [of _ b _ "b - 1 - r"]) (use a r in simp_all)
  moreover have "(a - (b - 1)) sdiv b = - ((- (a - (b - 1))) div b)"
    using False assms by (simp add: signed_divide_int_def sgn_if)
  ultimately show ?thesis using False by (simp add: q_def)
qed

lemma sdiv_floor': "0 < b \<Longrightarrow> (if a > 0 then a else a - (b - 1)) sdiv b = (a :: int) div b"
  using sdiv_floor [of b a] by (cases "a = 0") (auto simp: signed_divide_int_def sgn_if)

lemma days_floor:
  assumes "0 < b"
  shows "(if a smod b < 0 then (a sdiv b - 1, a smod b + b) else (a sdiv b, a smod b)) =
    ((a :: int) div b, a mod b)"
proof (cases "a \<ge> 0")
  case True
  with assms show ?thesis by (simp add: sdiv_nonneg smod_nonneg not_less)
next
  case False
  then have "sgn a = - 1" "sgn b = 1" using assms by simp_all
  then have s: "a sdiv b = (if a mod b = 0 then a div b else a div b + 1)"
    "a smod b = (if a mod b = 0 then a mod b else a mod b - b)"
    using assms by (simp_all add: signed_divide_int_eq_divide_int signed_modulo_int_eq_modulo_int
        dvd_eq_mod_eq_0)
  moreover have "a mod b < b" using assms by simp
  ultimately show ?thesis by simp
qed

section \<open>Days and years of an era\<close>

definition is_leap :: "int \<Rightarrow> bool" where
  "is_leap y \<longleftrightarrow> (y mod 4 = 0 \<and> y mod 100 \<noteq> 0) \<or> y mod 400 = 0"

text \<open>
  A year of the era counted from March is century \<open>c\<close>, group of four \<open>q\<close> and year \<open>r\<close>; the
  last year of a group has a leap day at its end, except for the first three centuries.
\<close>

definition era_ok :: "int \<Rightarrow> int \<Rightarrow> int \<Rightarrow> int \<Rightarrow> bool" where
  "era_ok c q r doy \<longleftrightarrow> 0 \<le> c \<and> c \<le> 3 \<and> 0 \<le> q \<and> q \<le> 24 \<and> 0 \<le> r \<and> r \<le> 3 \<and> 0 \<le> doy \<and>
     (doy \<le> 364 \<or> (doy = 365 \<and> r = 3 \<and> (q \<noteq> 24 \<or> c = 3)))"

definition era_day :: "int \<Rightarrow> int \<Rightarrow> int \<Rightarrow> int \<Rightarrow> int" where
  "era_day c q r doy = 36524 * c + 1461 * q + 365 * r + doy"

lemma year_parts:
  assumes "era_ok c q r doy" and "yoe = 100 * c + 4 * q + r"
  shows "yoe div 4 = 25 * c + q" and "yoe div 100 = c"
  by (rule int_div_pos_eq [of _ _ _ r], use assms in \<open>simp_all add: era_ok_def\<close>)
    (rule int_div_pos_eq [of _ _ _ "4 * q + r"], use assms in \<open>simp_all add: era_ok_def\<close>)

lemma era_day_range: "era_ok c q r doy \<Longrightarrow> 0 \<le> era_day c q r doy \<and> era_day c q r doy \<le> 146096"
  unfolding era_ok_def era_day_def by auto

lemma year_of_era:
  assumes "era_ok c q r doy" and d: "d = era_day c q r doy"
  shows "(d - d div 1460 + d div 36524 - d div 146096) div 365 = 100 * c + 4 * q + r"
proof -
  define s where "s = 365 * r + doy"
  define \<delta> :: int where "\<delta> = (if 1460 \<le> 24 * c + q + s then 1 else 0)"
  have s: "0 \<le> s" "s \<le> 1460" using assms(1) by (auto simp: era_ok_def s_def)
  have b: "0 \<le> c" "c \<le> 3" "0 \<le> q" "q \<le> 24" using assms(1) by (auto simp: era_ok_def)
  have d': "d = 36524 * c + 1461 * q + s" using d by (simp add: era_day_def s_def)
  have d1: "d div 1460 = 25 * c + q + \<delta>"
    by (rule int_div_pos_eq [of _ _ _ "24 * c + q + s - 1460 * \<delta>"])
      (use d' s b in \<open>auto simp: \<delta>_def\<close>)
  have d2: "d div 36524 - d div 146096 = c"
  proof (cases "d = 146096")
    case True
    with d' s b show ?thesis by simp
  next
    case False
    have "1461 * q + s < 36524"
      using assms(1) False d' by (auto simp: era_ok_def s_def)
    then have "d div 36524 = c" by (intro int_div_pos_eq [of _ _ _ "1461 * q + s"]) (use d' s b in simp_all)
    moreover have "d div 146096 = 0"
      using False era_day_range [OF assms(1)] d by (intro div_pos_pos_trivial) simp_all
    ultimately show ?thesis by simp
  qed
  have "d - d div 1460 + d div 36524 - d div 146096 = 365 * (100 * c + 4 * q) + (s - \<delta>)"
    using d1 d2 d' by simp
  moreover have "365 * r \<le> s - \<delta>" "s - \<delta> < 365 * r + 365"
    using assms(1) by (auto simp: era_ok_def s_def \<delta>_def)
  ultimately show ?thesis
    by (intro int_div_pos_eq [of _ _ _ "s - \<delta> - 365 * r"]) simp_all
qed

lemma era_day_cases:
  assumes "0 \<le> d" and "d \<le> 146096"
  obtains c q r doy where "era_ok c q r doy" and "d = era_day c q r doy"
proof -
  define c where "c = min 3 (d div 36524)"
  define e where "e = d - 36524 * c"
  have c: "0 \<le> c" "c \<le> 3" "0 \<le> e" "e \<le> 36524" "c < 3 \<Longrightarrow> e < 36524"
    using assms by (auto simp: c_def e_def min_def minus_div_mult_eq_mod [symmetric])
  define q where "q = e div 1461"
  define f where "f = e mod 1461"
  have q: "0 \<le> q" "q \<le> 24" "0 \<le> f" "f \<le> 1460" "e = 1461 * q + f"
    using c by (auto simp: q_def f_def)
  define r where "r = min 3 (f div 365)"
  have r: "0 \<le> r" "r \<le> 3" "0 \<le> f - 365 * r" "f - 365 * r \<le> 365" "r < 3 \<Longrightarrow> f - 365 * r < 365"
    using q(3,4) by (auto simp: r_def min_def minus_div_mult_eq_mod [symmetric])
  have "era_ok c q r (f - 365 * r)"
  proof -
    have "c = 3 \<or> e < 36524" "r = 3 \<or> f - 365 * r < 365" using c(2,5) r(2,5) by linarith+
    then show ?thesis unfolding era_ok_def using c q r by (elim disjE) auto
  qed
  moreover have "d = era_day c q r (f - 365 * r)" using q by (simp add: era_day_def e_def)
  ultimately show thesis by (rule that)
qed

section \<open>Months\<close>

text \<open>Months counted from March, and the days before them in the year that starts in March.\<close>

definition month_start :: "int \<Rightarrow> int" where
  "month_start m = (153 * m + 2) div 5"

definition march_month :: "int \<Rightarrow> int" where
  "march_month month = (if month > 2 then month - 3 else month + 9)"

lemma month_cases:
  assumes "(0 :: int) \<le> m" and "m \<le> 11"
  obtains "m = 0" | "m = 1" | "m = 2" | "m = 3" | "m = 4" | "m = 5" | "m = 6" | "m = 7" | "m = 8"
    | "m = 9" | "m = 10" | "m = 11"
proof -
  from assms have "m = 0 \<or> m = 1 \<or> m = 2 \<or> m = 3 \<or> m = 4 \<or> m = 5 \<or> m = 6 \<or> m = 7 \<or> m = 8 \<or>
      m = 9 \<or> m = 10 \<or> m = 11" by presburger
  then show thesis using that by blast
qed

lemma month_of_day:
  assumes "0 \<le> m" and "m \<le> 11" and "1 \<le> d" and "d \<le> (if m = 11 then 29 else month_start (m + 1) - month_start m)"
  shows "(5 * (month_start m + d - 1) + 2) div 153 = m"
  using assms(1,2)
  by (cases rule: month_cases) (use assms(3,4) in \<open>simp_all add: month_start_def\<close>)

lemma day_of_month:
  assumes "0 \<le> doy" and "doy \<le> 365" and "m = (5 * doy + 2) div 153"
  shows "0 \<le> m" and "m \<le> 11" and "month_start m \<le> doy"
    and "doy - month_start m + 1 \<le> (if m = 11 then 29 else month_start (m + 1) - month_start m)"
proof -
  have b: "153 * m \<le> 5 * doy + 2" "5 * doy + 2 < 153 * m + 153"
    using assms(3) by (auto simp: minus_mod_eq_mult_div [symmetric])
  show m: "0 \<le> m" "m \<le> 11" using b assms(1,2) by linarith+
  show "month_start m \<le> doy"
    and "doy - month_start m + 1 \<le> (if m = 11 then 29 else month_start (m + 1) - month_start m)"
    using m b assms(1,2) by (cases rule: month_cases; simp add: month_start_def)+
qed

definition month_days :: "int \<Rightarrow> int \<Rightarrow> int" where
  "month_days y m = (if m \<in> {4, 6, 9, 11} then 30 else if m = 2 then (if is_leap y then 29 else 28) else 31)"

lemma is_valid_date_iff: "is_valid_date y m d \<longleftrightarrow>
    0 \<le> y \<and> y \<le> 9999 \<and> 1 \<le> m \<and> m \<le> 12 \<and> 1 \<le> d \<and> d \<le> month_days y m"
proof (cases "0 \<le> y \<and> 1 \<le> m \<and> m \<le> 12")
  case True
  then have y: "y smod 4 = y mod 4" "y smod 100 = y mod 100" "y smod 400 = y mod 400"
    by (simp_all add: smod_nonneg)
  from True have "m = 1 \<or> m = 2 \<or> m = 3 \<or> m = 4 \<or> m = 5 \<or> m = 6 \<or> m = 7 \<or> m = 8 \<or> m = 9 \<or> m = 10
      \<or> m = 11 \<or> m = 12" by presburger
  with True show ?thesis
    unfolding is_valid_date_def month_days_def is_leap_def y by (elim disjE) auto
next
  case False
  then show ?thesis unfolding is_valid_date_def by auto
qed

section \<open>Dates and day numbers\<close>

text \<open>The two conversions of the code between dates and days since 0000-03-01, with floor division.\<close>

definition date_to_days :: "int \<Rightarrow> int \<Rightarrow> int \<Rightarrow> int" where
  "date_to_days y month d =
     (let y = (if month \<le> 2 then y - 1 else y); yoe = y mod 400
      in y div 400 * 146097 + (yoe * 365 + yoe div 4 - yoe div 100 + (month_start (march_month month) + d - 1)))"

definition days_to_date :: "int \<Rightarrow> int \<times> int \<times> int" where
  "days_to_date days =
     (let era = days div 146097; doe = days mod 146097;
          yoe = (doe - doe div 1460 + doe div 36524 - doe div 146096) div 365;
          doy = doe - (365 * yoe + yoe div 4 - yoe div 100);
          m = (5 * doy + 2) div 153;
          month = (if m < 10 then m + 3 else m - 9);
          y = yoe + era * 400
      in (if month \<le> 2 then y + 1 else y, month, doy - month_start m + 1))"

lemma march_month_inverse:
  "1 \<le> month \<Longrightarrow> month \<le> 12 \<Longrightarrow> 0 \<le> march_month month \<and> march_month month \<le> 11 \<and>
     (if march_month month < 10 then march_month month + 3 else march_month month - 9) = month"
  "0 \<le> m \<Longrightarrow> m \<le> 11 \<Longrightarrow> march_month (if m < 10 then m + 3 else m - 9) = m"
  by (auto simp: march_month_def)

text \<open>A date of a valid month and day in the terms of the era.\<close>

lemma date_in_era:
  assumes "1 \<le> month" and "month \<le> 12" and "1 \<le> d" and "d \<le> month_days y month"
    and y': "y' = (if month \<le> 2 then y - 1 else y)" and m: "m = march_month month"
  obtains c q r where "era_ok c q r (month_start m + d - 1)" and "y' mod 400 = 100 * c + 4 * q + r"
    and "date_to_days y month d = y' div 400 * 146097 + era_day c q r (month_start m + d - 1)"
    and "d \<le> (if m = 11 then 29 else month_start (m + 1) - month_start m)"
proof -
  define yoe where "yoe = y' mod 400"
  have yoe: "0 \<le> yoe" "yoe < 400" by (simp_all add: yoe_def)
  define c where "c = yoe div 100"
  define q where "q = yoe mod 100 div 4"
  define r where "r = yoe mod 4"
  have b: "0 \<le> c" "c \<le> 3" "0 \<le> q" "q \<le> 24" "0 \<le> r" "r \<le> 3"
    using yoe by (auto simp: c_def q_def r_def)
  have p: "yoe = 100 * c + 4 * q + r"
  proof -
    have "yoe mod 100 mod 4 = yoe mod 4" by (rule mod_mod_cancel) simp
    then have "yoe mod 100 = 4 * q + r"
      using div_mult_mod_eq [of "yoe mod 100" 4] unfolding q_def r_def by linarith
    then show ?thesis using div_mult_mod_eq [of yoe 100] unfolding c_def by linarith
  qed
  let ?doy = "month_start m + d - 1"
  have mm: "0 \<le> m" "m \<le> 11" using march_month_inverse(1) [OF assms(1,2)] m by simp_all
  have leap: "r = 3 \<and> (q \<noteq> 24 \<or> c = 3)" if "month = 2" "is_leap y"
  proof -
    have y: "y = y' + 1" using y' that(1) by simp
    have "y mod 4 = 0"
      using that(2) mod_mod_cancel [of 4 400 y] unfolding is_leap_def by auto
    then have "(y - 1) mod 4 = 3" using mod_diff_left_eq [of y 4 1] by simp
    then have y4: "yoe mod 4 = 3" using y mod_mod_cancel [of 4 400 y'] by (simp add: yoe_def)
    moreover have "c = 3" if "q = 24"
    proof -
      have "yoe = 100 * c + 99" using p that y4 by (simp add: r_def)
      then have "yoe mod 100 = 99" by simp
      then have "y' mod 100 = 99" using mod_mod_cancel [of 100 400 y'] by (simp add: yoe_def)
      then have "y mod 100 = 0" using y mod_add_left_eq [of y' 100 1] by simp
      with \<open>is_leap y\<close> have "y mod 400 = 0" unfolding is_leap_def by blast
      then have "y' mod 400 = 399" using y mod_diff_left_eq [of y 400 1] by simp
      with \<open>yoe = 100 * c + 99\<close> show ?thesis by (simp add: yoe_def)
    qed
    ultimately show ?thesis by (auto simp: r_def)
  qed
  have d: "d \<le> (if m = 11 then if is_leap y then 29 else 28 else month_start (m + 1) - month_start m)"
    and m2: "m = 11 \<longleftrightarrow> month = 2"
    using mm assms(4) march_month_inverse(1) [OF assms(1,2)] m
    by (cases rule: month_cases; auto simp: month_days_def month_start_def)+
  have doy: "0 \<le> ?doy \<and> (?doy \<le> 364 \<or> (?doy = 365 \<and> m = 11 \<and> is_leap y))"
    using mm d assms(3) by (cases rule: month_cases) (auto simp: month_start_def split: if_splits)
  then have ok: "era_ok c q r ?doy" using b leap m2 by (auto simp: era_ok_def)
  moreover have "y' mod 400 = 100 * c + 4 * q + r" using p by (simp add: yoe_def)
  moreover have "date_to_days y month d = y' div 400 * 146097 + era_day c q r ?doy"
    using year_parts [OF ok p] p y' m by (simp add: date_to_days_def era_day_def Let_def yoe_def)
  moreover have "d \<le> (if m = 11 then 29 else month_start (m + 1) - month_start m)"
    using d by (auto split: if_splits)
  ultimately show thesis by (rule that)
qed

lemma days_to_date_to_days:
  assumes "1 \<le> month" and "month \<le> 12" and "1 \<le> d" and "d \<le> month_days y month"
  shows "days_to_date (date_to_days y month d) = (y, month, d)"
proof -
  define y' where "y' = (if month \<le> 2 then y - 1 else y)"
  define m where "m = march_month month"
  obtain c q r where e: "era_ok c q r (month_start m + d - 1)" "y' mod 400 = 100 * c + 4 * q + r"
    "date_to_days y month d = y' div 400 * 146097 + era_day c q r (month_start m + d - 1)"
    "d \<le> (if m = 11 then 29 else month_start (m + 1) - month_start m)"
    by (rule date_in_era [OF assms y'_def m_def])
  let ?e = "era_day c q r (month_start m + d - 1)"
  have mm: "0 \<le> m" "m \<le> 11" "(if m < 10 then m + 3 else m - 9) = month"
    using march_month_inverse(1) [OF assms(1,2)] unfolding m_def by blast+
  have n: "date_to_days y month d div 146097 = y' div 400" "date_to_days y month d mod 146097 = ?e"
    using era_day_range [OF e(1)] unfolding e(3) by simp_all
  define Y where "Y = 100 * c + 4 * q + r"
  have Y: "Y + y' div 400 * 400 = y'" using e(2) by (simp add: Y_def flip: e(2))
  have doy: "?e - (365 * Y + Y div 4 - Y div 100) = month_start m + d - 1"
    using year_parts [OF e(1) Y_def] by (simp add: era_day_def Y_def)
  note yo = year_of_era [OF e(1) refl, folded Y_def]
  note mo = month_of_day [OF mm(1,2) assms(3) e(4)]
  have "days_to_date (date_to_days y month d) =
      (if month \<le> 2 then y' + 1 else y', month, month_start m + d - 1 - month_start m + 1)"
    unfolding days_to_date_def Let_def n yo doy mo mm(3) Y ..
  then show ?thesis by (simp add: y'_def)
qed

lemma days_in_era:
  obtains c q r doy where "era_ok c q r doy" and "D mod 146097 = era_day c q r doy"
proof -
  have "0 \<le> D mod 146097" "D mod 146097 \<le> 146096"
    using pos_mod_sign [of 146097 D] pos_mod_bound [of 146097 D] by simp_all
  then show thesis by (rule era_day_cases) (rule that)
qed

lemma leap_of_era:
  assumes "era_ok c q 3 365" and "y = 100 * c + 4 * q + 3 + e * 400"
  shows "is_leap (y + 1)"
proof -
  from assms(1) consider "c = 3" "q = 24" | "0 \<le> q" "q < 24"
    by (cases "q = 24") (auto simp: era_ok_def)
  then show ?thesis
  proof cases
    case 1
    then have "y + 1 = (e + 1) * 400" using assms(2) by simp
    then show ?thesis unfolding is_leap_def by (simp only: mod_mult_self2_is_0) simp
  next
    case 2
    have "y + 1 = (25 * c + q + 1 + e * 100) * 4" using assms(2) by simp
    then have "(y + 1) mod 4 = 0" by (simp only: mod_mult_self2_is_0)
    moreover have "y + 1 = (4 * q + 4) + (c + e * 4) * 100" using assms(2) by simp
    then have "(y + 1) mod 100 = (4 * q + 4) mod 100" by (simp only: mod_mult_self1)
    then have "(y + 1) mod 100 \<noteq> 0" using 2 by simp
    ultimately show ?thesis by (simp add: is_leap_def)
  qed
qed

lemma date_to_days_to_date:
  assumes "days_to_date D = (y, month, d)"
  shows "1 \<le> month \<and> month \<le> 12 \<and> 1 \<le> d \<and> d \<le> month_days y month \<and> date_to_days y month d = D"
proof -
  obtain c q r doy where e: "era_ok c q r doy" "D mod 146097 = era_day c q r doy"
    by (rule days_in_era)
  define Y where "Y = 100 * c + 4 * q + r"
  define m where "m = (5 * doy + 2) div 153"
  define y' where "y' = Y + D div 146097 * 400"
  have l: "era_day c q r doy - (365 * Y + Y div 4 - Y div 100) = doy"
    using year_parts [OF e(1) Y_def] by (simp add: era_day_def Y_def)
  note yo = year_of_era [OF e(1) refl, folded Y_def]
  have "days_to_date D = (if (if m < 10 then m + 3 else m - 9) \<le> 2 then y' + 1 else y',
      if m < 10 then m + 3 else m - 9, doy - month_start m + 1)"
    unfolding days_to_date_def Let_def e(2) yo l m_def [symmetric] y'_def [symmetric] ..
  with assms have mo: "month = (if m < 10 then m + 3 else m - 9)"
    and y: "y = (if month \<le> 2 then y' + 1 else y')" and d: "d = doy - month_start m + 1" by auto
  have doy: "0 \<le> doy" "doy \<le> 365" using e(1) by (auto simp: era_ok_def)
  note dm = day_of_month [OF doy m_def]
  have month: "1 \<le> month" "month \<le> 12" using dm(1,2) mo by (auto split: if_splits)
  have mm: "march_month month = m" using march_month_inverse(2) [OF dm(1,2)] mo by simp
  have d1: "1 \<le> d" using dm(3) d by simp
  have leap: "is_leap y" if "m = 11" "d = 29"
  proof -
    have "doy = 365" using that d by (simp add: month_start_def)
    with e(1) have "r = 3" by (auto simp: era_ok_def)
    with leap_of_era [of c q y' "D div 146097"] e(1) \<open>doy = 365\<close> have "is_leap (y' + 1)"
      by (simp add: y'_def Y_def)
    with that(1) mo y show ?thesis by simp
  qed
  have "d \<le> month_days y month"
  proof (cases "m = 11")
    case True
    with dm(4) d have "d \<le> 29" by simp
    with True mo leap show ?thesis by (cases "d = 29") (auto simp: month_days_def)
  next
    case False
    then have "d \<le> month_start (m + 1) - month_start m" using dm(4) d by simp
    with dm(1,2) False mo show ?thesis
      by (cases rule: month_cases) (auto simp: month_days_def month_start_def)
  qed
  moreover have "date_to_days y month d = D"
  proof -
    have b: "0 \<le> Y" "Y < 400" using e(1) by (auto simp: Y_def era_ok_def)
    have y'': "(if month \<le> 2 then y - 1 else y) = y'" using y by simp
    have "y' mod 400 = Y" "y' div 400 = D div 146097" using b by (simp_all add: y'_def)
    moreover have "365 * Y + Y div 4 - Y div 100 + doy = D mod 146097" using l e(2) by simp
    moreover have "D div 146097 * 146097 + D mod 146097 = D" by (rule div_mult_mod_eq)
    ultimately show ?thesis
      unfolding date_to_days_def Let_def y'' mm d by (simp add: mult.commute)
  qed
  ultimately show ?thesis using month d1 by simp
qed

lemma days_year_range:
  assumes "days_to_date D = (y, month, d)"
  shows "0 \<le> y \<and> y \<le> 9999 \<longleftrightarrow> - 60 \<le> D \<and> D \<le> 3652364"
proof -
  obtain c q r doy where e: "era_ok c q r doy" "D mod 146097 = era_day c q r doy"
    by (rule days_in_era)
  define Y where "Y = 100 * c + 4 * q + r"
  define m where "m = (5 * doy + 2) div 153"
  define e' where "e' = D div 146097"
  have D: "D = e' * 146097 + era_day c q r doy" using e(2) by (simp add: e'_def flip: e(2))
  have l: "era_day c q r doy - (365 * Y + Y div 4 - Y div 100) = doy"
    using year_parts [OF e(1) Y_def] by (simp add: era_day_def Y_def)
  note yo = year_of_era [OF e(1) refl, folded Y_def]
  have "days_to_date D = (if (if m < 10 then m + 3 else m - 9) \<le> 2 then Y + e' * 400 + 1 else Y + e' * 400,
      if m < 10 then m + 3 else m - 9, doy - month_start m + 1)"
    unfolding days_to_date_def Let_def e(2) yo l m_def [symmetric] e'_def [symmetric] ..
  with assms have "y = Y + e' * 400 + (if m < 10 then 0 else 1)"
    using day_of_month(1,2) [OF _ _ m_def] e(1) by (auto simp: era_ok_def split: if_splits)
  moreover have "m < 10 \<longleftrightarrow> doy \<le> 305" unfolding m_def by auto
  ultimately have y: "y = Y + e' * 400 + (if doy \<le> 305 then 0 else 1)" by simp
  have k: "era_day c q r doy \<le> 146036 \<longleftrightarrow> \<not> (Y = 399 \<and> 305 < doy)"
    using e(1) by (auto simp: era_ok_def era_day_def Y_def)
  note r = era_day_range [OF e(1)]
  have Y: "0 \<le> Y" "Y \<le> 399" using e(1) by (auto simp: Y_def era_ok_def)
  show ?thesis
  proof (cases "Y = 399 \<and> 305 < doy")
    case True
    then have "y = (e' + 1) * 400" "146037 \<le> era_day c q r doy" using y k by auto
    with D r show ?thesis by (cases "e' \<le> - 2"; cases "e' \<le> 23") auto
  next
    case False
    then have "e' * 400 \<le> y" "y \<le> e' * 400 + 399" "era_day c q r doy \<le> 146036" using y Y k by auto
    with D r show ?thesis by (cases "e' \<le> - 1"; cases "e' \<le> 24") auto
  qed
qed

section \<open>Times\<close>

lemma secs: "SECS_PER_HOUR = 3600" "SECS_PER_DAY = 86400"
  by (simp_all add: SECS_PER_HOUR_def SECS_PER_DAY_def)

lemma posix_time_from_utc_eq:
  "posix_time_from_utc y month d h mi s =
     (if is_valid_date y month d \<and> is_valid_time h mi s
      then Some ((date_to_days y month d - 719468) * 86400 + (h * 3600 + mi * 60 + s)) else None)"
proof (cases "is_valid_date y month d \<and> is_valid_time h mi s")
  case True
  then have v: "1 \<le> month" "month \<le> 12" by (simp_all add: is_valid_date_iff)
  define y' where "y' = (if month \<le> 2 then y - 1 else y)"
  have e: "(if y' \<ge> 0 then y' else y' - 399) sdiv 400 = y' div 400" using sdiv_floor [of 400 y']
    by (cases "y' \<ge> 0") simp_all
  have yoe: "y' - y' div 400 * 400 = y' mod 400" by (rule minus_div_mult_eq_mod)
  have n: "0 \<le> y' mod 400" by simp
  have m: "(153 * (if month > 2 then month - 3 else month + 9) + 2) sdiv 5 = month_start (march_month month)"
    using v by (simp add: month_start_def march_month_def sdiv_nonneg)
  have "posix_time_from_utc y month d h mi s = Some ((date_to_days y month d - 719468) * 86400
      + h * 3600 + mi * 60 + s)"
    unfolding posix_time_from_utc_def Let_def y'_def [symmetric] e yoe m secs
      sdiv_nonneg [OF n zero_less_numeral] date_to_days_def
    using True by (simp only: HOL.simp_thms if_False)
  with True show ?thesis by simp
next
  case False
  then show ?thesis by (auto simp: posix_time_from_utc_def)
qed

lemma utc_from_posix_time_eq:
  "utc_from_posix_time t =
     (if is_valid_posix_time t
      then case days_to_date (t div 86400 + 719468) of (y, month, d) \<Rightarrow>
        Some (y, month, d, t mod 86400 div 3600, t mod 86400 mod 3600 div 60, t mod 86400 mod 3600 mod 60)
      else None)"
proof (cases "is_valid_posix_time t")
  case True
  define D where "D = t div 86400 + 719468"
  define L where "L = t mod 86400"
  have L: "0 \<le> L" by (simp add: L_def)
  have dl: "(if t smod 86400 < 0 then (t sdiv 86400 - 1, t smod 86400 + 86400)
      else (t sdiv 86400, t smod 86400)) = (t div 86400, t mod 86400)" by (rule days_floor) simp
  have e: "(if D > 0 then D else D - 146096) sdiv 146097 = D div 146097" using sdiv_floor' [of 146097 D]
    by (cases "D > 0") simp_all
  have doe: "D - D div 146097 * 146097 = D mod 146097" by (rule minus_div_mult_eq_mod)
  obtain c q r doy where ok: "era_ok c q r doy" "D mod 146097 = era_day c q r doy"
    by (rule days_in_era)
  define E where "E = D mod 146097"
  have E: "0 \<le> E" by (simp add: E_def)
  define Y where "Y = 100 * c + 4 * q + r"
  have Y: "0 \<le> Y" using ok(1) by (auto simp: Y_def era_ok_def)
  have yo: "(E - E div 1460 + E div 36524 - E div 146096) div 365 = Y"
    using year_of_era [OF ok(1) ok(2) [folded E_def]] by (simp add: Y_def)
  have n: "0 \<le> E - E div 1460 + E div 36524 - E div 146096"
  proof (rule ccontr)
    assume "\<not> ?thesis"
    then have "(E - E div 1460 + E div 36524 - E div 146096) div 365 < 0"
      by (simp add: pos_imp_zdiv_neg_iff)
    with yo Y show False by simp
  qed
  have doy: "E - (365 * Y + Y div 4 - Y div 100) = doy"
    using year_parts [OF ok(1) Y_def] ok(2) by (simp add: era_day_def Y_def E_def)
  have dy: "0 \<le> doy" "doy \<le> 365" using ok(1) by (auto simp: era_ok_def)
  note dm = day_of_month(1,2) [OF dy refl]
  have s1: "E sdiv 1460 = E div 1460" "E sdiv 36524 = E div 36524" "E sdiv 146096 = E div 146096"
    "Y sdiv 4 = Y div 4" "Y sdiv 100 = Y div 100" using E Y by (simp_all add: sdiv_nonneg)
  have s2: "(E - E div 1460 + E div 36524 - E div 146096) sdiv 365 = Y" using n yo by (simp add: sdiv_nonneg)
  have s3: "(5 * doy + 2) sdiv 153 = (5 * doy + 2) div 153" using dy by (simp add: sdiv_nonneg)
  have s4: "(153 * ((5 * doy + 2) div 153) + 2) sdiv 5 = month_start ((5 * doy + 2) div 153)"
    using dm by (simp add: month_start_def sdiv_nonneg)
  have s5: "L sdiv 3600 = L div 3600" "L smod 3600 = L mod 3600" "L mod 3600 sdiv 60 = L mod 3600 div 60"
    "L mod 3600 smod 60 = L mod 3600 mod 60" using L by (simp_all add: sdiv_nonneg smod_nonneg)
  show ?thesis
    unfolding utc_from_posix_time_def secs Let_def dl prod.case D_def [symmetric] L_def [symmetric]
      e doe E_def [symmetric] s1 s2 doy s3 s4 s5 days_to_date_def yo
    using True by (simp only: if_True not_True_eq_False if_False)
next
  case False
  then show ?thesis by (simp add: utc_from_posix_time_def)
qed

lemma time_of_day:
  assumes "0 \<le> h" "h \<le> 23" "0 \<le> mi" "mi \<le> 59" "0 \<le> s" "s \<le> (59 :: int)"
    and l: "l = h * 3600 + mi * 60 + s"
  shows "0 \<le> l \<and> l < 86400 \<and> l div 3600 = h \<and> l mod 3600 div 60 = mi \<and> l mod 3600 mod 60 = s"
proof -
  have "l div 3600 = h" "l mod 3600 = mi * 60 + s"
    by (rule int_div_pos_eq [of _ _ _ "mi * 60 + s"], use assms in simp_all)
      (rule int_mod_pos_eq [of _ _ h], use assms in simp_all)
  moreover have "(mi * 60 + s) div 60 = mi" "(mi * 60 + s) mod 60 = s" using assms by simp_all
  ultimately show ?thesis using assms by simp
qed

lemma time_of_day':
  fixes l :: int
  assumes "0 \<le> l" and "l < 86400"
  shows "is_valid_time (l div 3600) (l mod 3600 div 60) (l mod 3600 mod 60) \<and>
    l div 3600 * 3600 + l mod 3600 div 60 * 60 + l mod 3600 mod 60 = l"
proof -
  have "0 \<le> l mod 3600" "l mod 3600 < 3600" by simp_all
  then have "0 \<le> l mod 3600 div 60" "l mod 3600 div 60 \<le> 59" by auto
  moreover have "l div 3600 \<le> 23" "0 \<le> l div 3600" using assms by auto
  moreover have "0 \<le> l mod 3600 mod 60" "l mod 3600 mod 60 \<le> 59"
    using pos_mod_bound [of 60 "l mod 3600"] by simp_all
  moreover have "l div 3600 * 3600 + l mod 3600 = l" "l mod 3600 div 60 * 60 + l mod 3600 mod 60 = l mod 3600"
    by (rule div_mult_mod_eq)+
  ultimately show ?thesis unfolding is_valid_time_def
    by (simp add: not_less del: Euclidean_Rings.pos_mod_bound)
qed

lemma posix_range: "is_valid_posix_time t \<longleftrightarrow> - 60 \<le> t div 86400 + 719468 \<and> t div 86400 + 719468 \<le> 3652364"
  unfolding is_valid_posix_time_def MIN_POSIX_TIME_def MAX_POSIX_TIME_def
  using div_mult_mod_eq [of t 86400] pos_mod_bound [of 86400 t] pos_mod_sign [of 86400 t] by linarith

lemma utc_roundtrip:
  "posix_time_from_utc y month d h mi s = Some t \<longleftrightarrow> utc_from_posix_time t = Some (y, month, d, h, mi, s)"
proof
  assume "posix_time_from_utc y month d h mi s = Some t"
  then have v: "is_valid_date y month d" "is_valid_time h mi s"
    and t: "t = (date_to_days y month d - 719468) * 86400 + (h * 3600 + mi * 60 + s)"
    by (auto simp: posix_time_from_utc_eq split: if_splits)
  define l where "l = h * 3600 + mi * 60 + s"
  have hms: "0 \<le> h" "h \<le> 23" "0 \<le> mi" "mi \<le> 59" "0 \<le> s" "s \<le> 59"
    using v(2) by (auto simp: is_valid_time_def split: if_splits)
  note td = time_of_day [OF hms l_def]
  have dv: "t div 86400 = date_to_days y month d - 719468" and md: "t mod 86400 = l"
    by (rule int_div_pos_eq [of _ _ _ l], use td in \<open>simp_all add: t l_def\<close>)
      (rule int_mod_pos_eq [of _ _ "date_to_days y month d - 719468"], use td in \<open>simp_all add: t l_def\<close>)
  have dt: "days_to_date (t div 86400 + 719468) = (y, month, d)"
    using v(1) dv days_to_date_to_days [of month d y] by (simp add: is_valid_date_iff)
  have "is_valid_posix_time t"
    using days_year_range [OF dt] v(1) by (simp add: posix_range is_valid_date_iff)
  then show "utc_from_posix_time t = Some (y, month, d, h, mi, s)"
    using dt td by (simp add: utc_from_posix_time_eq md)
next
  assume u: "utc_from_posix_time t = Some (y, month, d, h, mi, s)"
  define l where "l = t mod 86400"
  from u obtain v: "is_valid_posix_time t" and dt: "days_to_date (t div 86400 + 719468) = (y, month, d)"
    and l: "h = l div 3600" "mi = l mod 3600 div 60" "s = l mod 3600 mod 60"
    by (auto simp: utc_from_posix_time_eq l_def split: if_splits prod.splits)
  have "0 \<le> l" "l < 86400" by (simp_all add: l_def)
  note td = time_of_day' [OF this, folded l]
  have "is_valid_date y month d"
    using date_to_days_to_date [OF dt] days_year_range [OF dt] v by (simp add: is_valid_date_iff posix_range)
  moreover have "date_to_days y month d - 719468 = t div 86400" using date_to_days_to_date [OF dt] by simp
  moreover have "t div 86400 * 86400 + l = t" unfolding l_def by (rule div_mult_mod_eq)
  ultimately show "posix_time_from_utc y month d h mi s = Some t"
    using td by (simp add: posix_time_from_utc_eq)
qed

text \<open>
  C10: POSIX times and broken-down times. \<open>OPENSSL_tm_to_posix\<close> and
  \<open>OPENSSL_posix_to_tm\<close> are inverse to each other: a broken-down time is converted to \<open>t\<close>
  if and only if \<open>t\<close> is converted back to exactly it. So each is defined on exactly the range
  of the other: the valid dates and times of the years 0 to 9999 in the proleptic Gregorian
  calendar, and the seconds from \<open>MIN_POSIX_TIME\<close> to \<open>MAX_POSIX_TIME\<close>.
\<close>

theorem posix_tm_inverse:
  "(OPENSSL_tm_to_posix tm = Some t \<longleftrightarrow> OPENSSL_posix_to_tm t = Some tm) \<and>
   (OPENSSL_posix_to_tm t \<noteq> None \<longleftrightarrow> MIN_POSIX_TIME \<le> t \<and> t \<le> MAX_POSIX_TIME) \<and>
   (OPENSSL_tm_to_posix tm \<noteq> None \<longleftrightarrow>
      0 \<le> tm_year tm + 1900 \<and> tm_year tm + 1900 \<le> 9999 \<and> 0 \<le> tm_mon tm \<and> tm_mon tm \<le> 11 \<and>
      1 \<le> tm_mday tm \<and> tm_mday tm \<le> month_days (tm_year tm + 1900) (tm_mon tm + 1) \<and>
      0 \<le> tm_hour tm \<and> tm_hour tm \<le> 23 \<and> 0 \<le> tm_min tm \<and> tm_min tm \<le> 59 \<and>
      0 \<le> tm_sec tm \<and> tm_sec tm \<le> 59)"
proof (intro conjI)
  show "OPENSSL_tm_to_posix tm = Some t \<longleftrightarrow> OPENSSL_posix_to_tm t = Some tm"
    unfolding OPENSSL_tm_to_posix_def utc_roundtrip OPENSSL_posix_to_tm_def
    by (cases tm) (auto split: option.splits)
  show "OPENSSL_posix_to_tm t \<noteq> None \<longleftrightarrow> MIN_POSIX_TIME \<le> t \<and> t \<le> MAX_POSIX_TIME"
    by (auto simp: OPENSSL_posix_to_tm_def utc_from_posix_time_eq is_valid_posix_time_def
        split: prod.splits)
qed (auto simp: OPENSSL_tm_to_posix_def posix_time_from_utc_eq is_valid_date_iff is_valid_time_def)

lemma tm_to_posix_range: "OPENSSL_tm_to_posix tm = Some t \<Longrightarrow> MIN_POSIX_TIME \<le> t \<and> t \<le> MAX_POSIX_TIME"
  by (auto simp: OPENSSL_tm_to_posix_def utc_roundtrip utc_from_posix_time_eq is_valid_posix_time_def
      split: if_splits)

lemma posix_to_tm_None: "\<not> is_valid_posix_time t \<Longrightarrow> OPENSSL_posix_to_tm t = None"
  by (simp add: OPENSSL_posix_to_tm_def utc_from_posix_time_eq)

lemma gmtime_adj_eq:
  "OPENSSL_gmtime_adj tm od os =
     Option.bind (OPENSSL_tm_to_posix tm) (\<lambda>t. OPENSSL_posix_to_tm (t + od * SECS_PER_DAY + os))"
proof (cases "OPENSSL_tm_to_posix tm")
  case (Some t)
  define p where "p = t + od * SECS_PER_DAY"
  have "\<not> is_valid_posix_time (p + os)" if "os > INT64_MAX - p \<or> os < INT64_MIN - p"
    using that by (auto simp: is_valid_posix_time_def INT64_MAX_def INT64_MIN_def
        MAX_POSIX_TIME_def MIN_POSIX_TIME_def)
  with Some show ?thesis
    by (auto simp: OPENSSL_gmtime_adj_def Let_def posix_to_tm_None simp flip: p_def)
qed (simp add: OPENSSL_gmtime_adj_def)

text \<open>
  C11: adjusting a time. \<open>OPENSSL_gmtime_adj\<close> adds the days and seconds to the POSIX time of
  a valid \<open>tm\<close> and succeeds exactly when the sum is again a valid POSIX time. For arguments
  of the C types, every intermediate sum the code computes fits in 64 bits.
\<close>

theorem gmtime_adj_adds:
  "OPENSSL_gmtime_adj tm od os =
     Option.bind (OPENSSL_tm_to_posix tm) (\<lambda>t. OPENSSL_posix_to_tm (t + od * SECS_PER_DAY + os)) \<and>
   (OPENSSL_tm_to_posix tm = Some t \<and> - (2 ^ 31) \<le> od \<and> od < 2 ^ 31 \<and> INT64_MIN \<le> os \<and> os \<le> INT64_MAX \<longrightarrow>
     (let p = t + od * SECS_PER_DAY in INT64_MIN \<le> p \<and> p \<le> INT64_MAX \<and>
       (p > 0 \<longrightarrow> INT64_MIN \<le> INT64_MAX - p \<and> INT64_MAX - p \<le> INT64_MAX) \<and>
       (p < 0 \<longrightarrow> INT64_MIN \<le> INT64_MIN - p \<and> INT64_MIN - p \<le> INT64_MAX) \<and>
       (\<not> (p > 0 \<and> os > INT64_MAX - p) \<and> \<not> (p < 0 \<and> os < INT64_MIN - p) \<longrightarrow>
          INT64_MIN \<le> p + os \<and> p + os \<le> INT64_MAX)))"
  using gmtime_adj_eq [of tm od os] tm_to_posix_range [of tm t]
  by (auto simp: Let_def INT64_MAX_def INT64_MIN_def MAX_POSIX_TIME_def MIN_POSIX_TIME_def secs)

theorem gmtime_adj_adds_witness:
  "OPENSSL_gmtime_adj \<lparr>tm_year = 100, tm_mon = 1, tm_mday = 28, tm_hour = 23, tm_min = 0, tm_sec = 0\<rparr> 1 3600 =
     Some \<lparr>tm_year = 100, tm_mon = 2, tm_mday = 1, tm_hour = 0, tm_min = 0, tm_sec = 0\<rparr>"
  by (subst conjunct1 [OF gmtime_adj_adds]) code_simp

text \<open>
  Differences. \<open>OPENSSL_gmtime_diff\<close> of two valid times returns days and seconds of
  the same sign, less than a day of seconds, whose sum is the difference of the POSIX times;
  adjusting the first time by them gives the second.
\<close>

theorem gmtime_diff_adj:
  assumes "OPENSSL_gmtime_diff from_tm to_tm = Some (days, secs)"
  shows "(\<exists>a b. OPENSSL_tm_to_posix from_tm = Some a \<and> OPENSSL_tm_to_posix to_tm = Some b \<and>
      b - a = days * SECS_PER_DAY + secs) \<and>
    \<bar>secs\<bar> < SECS_PER_DAY \<and> 0 \<le> days * secs \<and> OPENSSL_gmtime_adj from_tm days secs = Some to_tm"
proof -
  from assms obtain a b where ab: "OPENSSL_tm_to_posix from_tm = Some a" "OPENSSL_tm_to_posix to_tm = Some b"
    and d: "days = (b - a) sdiv SECS_PER_DAY" and s: "secs = (b - a) smod SECS_PER_DAY"
    by (auto simp: OPENSSL_gmtime_diff_def Let_def split: option.splits)
  have sum: "b - a = days * SECS_PER_DAY + secs"
    unfolding d s by (simp only: mult_sdiv_smod_eq smod_sdiv_mult_eq sdiv_mult_smod_eq)
  have "OPENSSL_posix_to_tm b = Some to_tm"
    using ab(2) unfolding OPENSSL_tm_to_posix_def utc_roundtrip OPENSSL_posix_to_tm_def
    by (cases to_tm) simp
  moreover have "a + days * SECS_PER_DAY + secs = b" using sum by simp
  ultimately have adj: "OPENSSL_gmtime_adj from_tm days secs = Some to_tm"
    using ab(1) by (simp add: gmtime_adj_eq)
  have "\<bar>secs\<bar> < SECS_PER_DAY"
    unfolding s SECS_PER_DAY_def SECS_PER_HOUR_def
    by (simp add: signed_modulo_int_def abs_mult)
  moreover have "0 \<le> days * secs"
  proof -
    have "days * secs = (sgn (b - a) * sgn (b - a)) * (\<bar>b - a\<bar> div 86400 * (\<bar>b - a\<bar> mod 86400))"
      unfolding d s secs by (simp add: signed_modulo_int_def signed_divide_int_def)
    then show ?thesis by simp
  qed
  ultimately show ?thesis using ab sum adj by blast
qed

theorem gmtime_diff_adj_witness:
  "OPENSSL_gmtime_adj \<lparr>tm_year = 100, tm_mon = 0, tm_mday = 1, tm_hour = 1, tm_min = 0, tm_sec = 0\<rparr> (- 365) (- 3600) =
     Some \<lparr>tm_year = 99, tm_mon = 0, tm_mday = 1, tm_hour = 0, tm_min = 0, tm_sec = 0\<rparr>"
proof -
  have "OPENSSL_gmtime_diff
      \<lparr>tm_year = 100, tm_mon = 0, tm_mday = 1, tm_hour = 1, tm_min = 0, tm_sec = 0\<rparr>
      \<lparr>tm_year = 99, tm_mon = 0, tm_mday = 1, tm_hour = 0, tm_min = 0, tm_sec = 0\<rparr> = Some (- 365, - 3600)"
    by code_simp
  from gmtime_diff_adj [OF this] show ?thesis by blast
qed

end
