(* ===== verification/CbsText.thy ===== *)
theory CbsText
  imports CbbAsn1 PosixTime
begin

text \<open>
  The textual forms in cbs.c and cbb.c: dotted-decimal object identifiers and the times of
  RFC 5280. \<open>snprintf\<close> of an unsigned number is its shortest decimal numeral.
\<close>

section \<open>Object identifiers\<close>

fun decimal :: "nat \<Rightarrow> u8 list" where
  "decimal n = (if n < 10 then [of_nat (48 + n)] else decimal (n div 10) @ [of_nat (48 + n mod 10)])"

declare decimal.simps [simp del]

definition add_decimal :: "alloc \<Rightarrow> nat \<Rightarrow> u64 \<Rightarrow> (cbb, unit) op" where
  "add_decimal A n v = (let buf = decimal (unat v) in CBB_add_bytes A n buf (of_nat (length buf)))"

lemma base128_loop_less:
  "base128_loop v cbs = (Some w, cbs') \<Longrightarrow> unat (cbs_len cbs') < unat (cbs_len cbs)"
proof (induction v cbs rule: base128_loop.induct)
  case (1 v cbs)
  obtain r c where g: "CBS_get_u8 cbs = (r, c)" by (cases "CBS_get_u8 cbs")
  with 1(2) obtain b where b: "r = Some b"
    by (cases r) (simp_all add: base128_loop.simps [of v cbs])
  note l = CBS_get_u8_less [of cbs b c]
  let ?v = "push_bit 7 v OR ucast (b AND 0x7f) :: u64"
  from 1(2) g b have nb: "\<not> drop_bit (64 - 7) v \<noteq> 0" "\<not> (v = 0 \<and> b = 0x80)"
    and r: "(if b AND 0x80 \<noteq> 0 then base128_loop ?v c else (Some ?v, c)) = (Some w, cbs')"
    by (auto simp: base128_loop.simps [of v cbs] Let_def split: if_splits)
  show ?case
  proof (cases "b AND 0x80 \<noteq> 0")
    case True
    from 1(1) [OF g [symmetric] b nb refl True] r True have "unat (cbs_len cbs') < unat (cbs_len c)"
      by simp
    with l g b show ?thesis by simp
  next
    case False
    with r l g b show ?thesis by simp
  qed
qed

text \<open>The state of the loop of \<open>CBS_asn1_oid_to_text\<close> is the rest of the OID and the CBB.\<close>

function oid_text_loop :: "alloc \<Rightarrow> cbs \<Rightarrow> (cbb, unit) op" where
  "oid_text_loop A copy s =
     (if cbs_len copy = 0 then (Some (), s)
      else case parse_base128_integer copy of
        (None, _) \<Rightarrow> (None, s)
      | (Some v, copy') \<Rightarrow>
          (case step (CBB_add_u8 A 0 46) (\<lambda>_. add_decimal A 0 v) s of
             (None, s') \<Rightarrow> (None, s')
           | (Some _, s') \<Rightarrow> oid_text_loop A copy' s'))"
  by pat_completeness auto
termination
  by (relation "measure (\<lambda>(A, copy, s). unat (cbs_len copy))")
    (auto simp: parse_base128_integer_def dest: base128_loop_less [OF sym])

declare oid_text_loop.simps [simp del]

definition CBS_asn1_oid_to_text :: "alloc \<Rightarrow> cbs \<Rightarrow> u8 list option" where
  "CBS_asn1_oid_to_text A cbs =
     (case CBB_init A 32 of (None, _) \<Rightarrow> None | (Some _, s) \<Rightarrow>
       (case parse_base128_integer cbs of (None, _) \<Rightarrow> None | (Some v, copy) \<Rightarrow>
         fst (step (if v \<ge> 80
                    then step (CBB_add_bytes A 0 [50, 46] 2) (\<lambda>_. add_decimal A 0 (v - 80))
                    else step (add_decimal A 0 (v div 40)) (\<lambda>_.
                         step (CBB_add_u8 A 0 46) (\<lambda>_. add_decimal A 0 (v mod 40)))) (\<lambda>_.
              step (oid_text_loop A copy) (\<lambda>_.
              step (CBB_add_u8 A 0 0) (\<lambda>_.
              step (CBB_finish A 0 True True) (\<lambda>(txt, txt_len). ret (take (unat txt_len) txt))))) s)))"

definition parse_dotted_decimal :: "(cbs, u64) op" where
  "parse_dotted_decimal cbs =
     (case CBS_get_u64_decimal cbs of (None, cbs) \<Rightarrow> (None, cbs) | (Some v, cbs) \<Rightarrow>
       (case CBS_get_u8 cbs of (None, cbs) \<Rightarrow> (Some v, cbs)
        | (Some dot, cbs) \<Rightarrow> if dot = 46 \<and> cbs_len cbs > 0 then (Some v, cbs) else (None, cbs)))"

lemma u64_decimal_loop_le:
  "u64_decimal_loop v seen cbs = (r, cbs') \<Longrightarrow> unat (cbs_len cbs') \<le> unat (cbs_len cbs)"
proof (induction v seen cbs arbitrary: r cbs' rule: u64_decimal_loop.induct)
  case (1 v seen cbs)
  show ?case
  proof (cases "cbs_len cbs \<noteq> 0 \<and> OPENSSL_isdigit (uint (hd (cbs_data cbs)))")
    case True
    obtain r1 c where s: "CBS_skip 1 cbs = (r1, c)" by (cases "CBS_skip 1 cbs")
    show ?thesis
    proof (cases r1)
      case None
      with s have "c = cbs" by (auto simp: CBS_skip_def step_def cbs_get_def split: if_splits)
      with 1(2) True s None show ?thesis by (simp add: u64_decimal_loop.simps [of v seen cbs] Let_def)
    next
      case (Some u)
      let ?d = "ucast (hd (cbs_data cbs) - 48) :: u64"
      let ?bad = "(v = 0 \<and> seen) \<or> v > 0xffffffffffffffff div 10 \<or> v * 10 > 0xffffffffffffffff - ?d"
      have l: "unat (cbs_len c) < unat (cbs_len cbs)" using s Some True by (intro cbs_skip_1_less) simp_all
      have e: "u64_decimal_loop v seen cbs = (if ?bad then (None, c) else u64_decimal_loop (v * 10 + ?d) True c)"
        using True s Some by (subst u64_decimal_loop.simps) (simp add: Let_def)
      show ?thesis
      proof (cases ?bad)
        case True
        with e 1(2) l show ?thesis by (simp only: if_True prod.inject)
      next
        case False
        from True have nz: "cbs_len cbs \<noteq> 0" and dg: "\<not> \<not> OPENSSL_isdigit (uint (hd (cbs_data cbs)))"
          by simp_all
        have "u64_decimal_loop (v * 10 + ?d) True c = (r, cbs')" using e False 1(2) by (simp only: if_False)
        from 1(1) [OF nz refl dg s [symmetric] Some False this] l show ?thesis by simp
      qed
    qed
  next
    case False
    with 1(2) show ?thesis
      by (auto simp: u64_decimal_loop.simps [of v seen cbs] Let_def split: if_splits)
  qed
qed

lemma u64_decimal_loop_progress:
  assumes "u64_decimal_loop v False cbs = (Some w, cbs')" and "cbs_len cbs \<noteq> 0"
  shows "unat (cbs_len cbs') < unat (cbs_len cbs)"
proof -
  from assms have dig: "OPENSSL_isdigit (uint (hd (cbs_data cbs)))"
    by (auto simp: u64_decimal_loop.simps [of v False cbs] Let_def split: if_splits)
  obtain r c where s: "CBS_skip 1 cbs = (r, c)" by (cases "CBS_skip 1 cbs")
  with assms dig obtain u where r: "r = Some u"
    by (cases r) (simp_all add: u64_decimal_loop.simps [of v False cbs] Let_def)
  let ?d = "ucast (hd (cbs_data cbs) - 48) :: u64"
  have "u64_decimal_loop (v * 10 + ?d) True c = (Some w, cbs')"
    using assms dig s r by (auto simp: u64_decimal_loop.simps [of v False cbs] Let_def split: if_splits)
  from u64_decimal_loop_le [OF this] cbs_skip_1_less [OF s [unfolded r]] show ?thesis by simp
qed

lemma parse_dotted_decimal_less:
  assumes "parse_dotted_decimal cbs = (Some v, cbs')" and "cbs_len cbs \<noteq> 0"
  shows "unat (cbs_len cbs') < unat (cbs_len cbs)"
proof -
  obtain r c where d: "CBS_get_u64_decimal cbs = (r, c)" by (cases "CBS_get_u64_decimal cbs")
  with assms(1) obtain w where r: "r = Some w" by (cases r) (simp_all add: parse_dotted_decimal_def)
  have c: "unat (cbs_len c) < unat (cbs_len cbs)"
    using u64_decimal_loop_progress [OF d [unfolded CBS_get_u64_decimal_def r] assms(2)] by simp
  obtain r2 c2 where g: "CBS_get_u8 c = (r2, c2)" by (cases "CBS_get_u8 c")
  show ?thesis
  proof (cases r2)
    case None
    with g have "c2 = c" by (auto simp: CBS_get_u8_def step_def cbs_get_def split: if_splits)
    with assms(1) d r g None c show ?thesis by (simp add: parse_dotted_decimal_def)
  next
    case (Some dot)
    with assms(1) d r g have "cbs' = c2" by (auto simp: parse_dotted_decimal_def split: if_splits)
    with CBS_get_u8_less [OF g [unfolded Some]] c show ?thesis by simp
  qed
qed

function oid_from_text_loop :: "alloc \<Rightarrow> nat \<Rightarrow> cbs \<Rightarrow> (cbb, unit) op" where
  "oid_from_text_loop A n cbs s =
     (if cbs_len cbs > 0 then
        case parse_dotted_decimal cbs of (None, _) \<Rightarrow> (None, s)
        | (Some a, cbs') \<Rightarrow>
            (case add_base128_integer A n a s of (None, s') \<Rightarrow> (None, s')
             | (Some _, s') \<Rightarrow> oid_from_text_loop A n cbs' s')
      else (Some (), s))"
  by pat_completeness auto
termination
  by (relation "measure (\<lambda>(A, n, cbs, s). unat (cbs_len cbs))")
    (auto dest: parse_dotted_decimal_less [OF sym])

declare oid_from_text_loop.simps [simp del]

definition CBB_add_asn1_oid_from_text :: "alloc \<Rightarrow> nat \<Rightarrow> u8 list \<Rightarrow> size_t \<Rightarrow> (cbb, unit) op" where
  "CBB_add_asn1_oid_from_text A n txt len = step (CBB_flush A n) (\<lambda>_ s.
     case parse_dotted_decimal (CBS_init txt len) of (None, _) \<Rightarrow> (None, s) | (Some a, cbs) \<Rightarrow>
       (case parse_dotted_decimal cbs of (None, _) \<Rightarrow> (None, s) | (Some b, cbs) \<Rightarrow>
         if a > 2 \<or> (a < 2 \<and> b > 39) \<or> b > 0xffffffffffffffff - 80 then (None, s)
         else step (add_base128_integer A n (40 * a + b)) (\<lambda>_. oid_from_text_loop A n cbs) s))"

section \<open>Times\<close>

definition cbs_get_two_digits :: "(cbs, int) op" where
  "cbs_get_two_digits = step CBS_get_u8 (\<lambda>first_digit.
     if \<not> OPENSSL_isdigit (uint first_digit) then fail
     else step CBS_get_u8 (\<lambda>second_digit.
       if \<not> OPENSSL_isdigit (uint second_digit) then fail
       else ret ((uint first_digit - 48) * 10 + (uint second_digit - 48))))"

definition is_valid_day :: "int \<Rightarrow> int \<Rightarrow> int \<Rightarrow> bool" where
  "is_valid_day year month day =
     (if day < 1 then False
      else if month \<in> {1, 3, 5, 7, 8, 10, 12} then day \<le> 31
      else if month \<in> {4, 6, 9, 11} then day \<le> 30
      else if month = 2 then
        (if (year smod 4 = 0 \<and> year smod 100 \<noteq> 0) \<or> year smod 400 = 0 then day \<le> 29 else day \<le> 28)
      else False)"

text \<open>\<open>year\<close>, the fields behind it and the time zone, the three parts of the parser.\<close>

definition parse_time_year :: "bool \<Rightarrow> (cbs, int) op" where
  "parse_time_year is_gentime =
     (if is_gentime then
        step cbs_get_two_digits (\<lambda>tmp. let year = tmp * 100 in
          step cbs_get_two_digits (\<lambda>tmp. ret (year + tmp)))
      else
        step cbs_get_two_digits (\<lambda>tmp.
          let year = 1900 + tmp; year = (if year < 1950 then year + 100 else year)
          in if year \<ge> 2050 then fail else ret year))"

definition parse_time_fields :: "int \<Rightarrow> (cbs, tm) op" where
  "parse_time_fields year =
     step cbs_get_two_digits (\<lambda>month. if month < 1 \<or> month > 12 then fail
     else step cbs_get_two_digits (\<lambda>day. if \<not> is_valid_day year month day then fail
     else step cbs_get_two_digits (\<lambda>hour. if hour > 23 then fail
     else step cbs_get_two_digits (\<lambda>min. if min > 59 then fail
     else step cbs_get_two_digits (\<lambda>sec. if sec > 59 then fail
     else ret \<lparr>tm_year = year - 1900, tm_mon = month - 1, tm_mday = day, tm_hour = hour,
            tm_min = min, tm_sec = sec\<rparr>)))))"

definition parse_time_offset :: "bool \<Rightarrow> (cbs, int) op" where
  "parse_time_offset allow_timezone_offset = step CBS_get_u8 (\<lambda>tz.
     if tz \<noteq> 90 \<and> tz \<noteq> 43 \<and> tz \<noteq> 45 then fail
     else
       let offset_sign = (if tz = 43 then 1 else if tz = 45 then - 1 else 0 :: int) in
       if offset_sign \<noteq> 0 then
         if \<not> allow_timezone_offset then fail
         else step cbs_get_two_digits (\<lambda>offset_hours. if offset_hours > 23 then fail
           else step cbs_get_two_digits (\<lambda>offset_minutes. if offset_minutes > 59 then fail
           else ret (offset_sign * (offset_hours * 3600 + offset_minutes * 60))))
       else ret 0)"

text \<open>The caller's CBS is a copy, so only the result matters; \<open>out_tm\<close> is not NULL.\<close>

definition CBS_parse_rfc5280_time_internal :: "cbs \<Rightarrow> bool \<Rightarrow> bool \<Rightarrow> tm option" where
  "CBS_parse_rfc5280_time_internal cbs is_gentime allow_timezone_offset =
     fst (step (parse_time_year is_gentime) (\<lambda>year.
          step (parse_time_fields year) (\<lambda>out_tm.
          step (parse_time_offset allow_timezone_offset) (\<lambda>offset_seconds copy.
            if cbs_len copy \<noteq> 0 then (None, copy)
            else if offset_seconds \<noteq> 0 then (OPENSSL_gmtime_adj out_tm 0 offset_seconds, copy)
            else (Some out_tm, copy)))) cbs)"

definition CBS_parse_generalized_time :: "cbs \<Rightarrow> bool \<Rightarrow> tm option" where
  "CBS_parse_generalized_time cbs allow_timezone_offset =
     CBS_parse_rfc5280_time_internal cbs True allow_timezone_offset"

definition CBS_parse_utc_time :: "cbs \<Rightarrow> bool \<Rightarrow> tm option" where
  "CBS_parse_utc_time cbs allow_timezone_offset =
     CBS_parse_rfc5280_time_internal cbs False allow_timezone_offset"

end
