(* ===== verification/Unicode.thy ===== *)
theory Unicode
  imports CbbProps
begin

text \<open>
  crypto/bytestring/unicode.c: reading and writing one code point in UTF-8, Latin-1, UCS-2
  and UTF-32. The encodings are specified on numbers (\<open>utf8\<close>, and \<open>be_bytes\<close> of the
  prelude), the code works on words.
\<close>

section \<open>The code\<close>

definition is_valid_code_point :: "u32 \<Rightarrow> bool" where
  "is_valid_code_point v =
     (if v > 0x10ffff \<or> v AND 0xfffe = 0xfffe \<or> (v \<ge> 0xfdd0 \<and> v \<le> 0xfdef) \<or>
         (v \<ge> 0xd800 \<and> v \<le> 0xdfff)
      then False else True)"

definition BOTTOM_BITS :: "nat \<Rightarrow> u8" where
  "BOTTOM_BITS n = ucast (push_bit n (1 :: u32) - 1)"

definition TOP_BITS :: "nat \<Rightarrow> u8" where
  "TOP_BITS n = NOT (BOTTOM_BITS (8 - n))"

fun utf8_loop :: "nat \<Rightarrow> u32 \<Rightarrow> (cbs, u32) op" where
  "utf8_loop 0 v = ret v"
| "utf8_loop (Suc len) v = step CBS_get_u8 (\<lambda>c.
     if c AND TOP_BITS 2 \<noteq> TOP_BITS 1 then fail
     else utf8_loop len (push_bit 6 v OR ucast (c AND BOTTOM_BITS 6)))"

text \<open>The loop over the continuation bytes and the final test.\<close>

definition utf8_rest :: "nat \<Rightarrow> u32 \<Rightarrow> u8 \<Rightarrow> (cbs, u32) op" where
  "utf8_rest len lower_bound c = step (utf8_loop len (ucast c)) (\<lambda>v.
     if \<not> is_valid_code_point v \<or> v < lower_bound then fail else ret v)"

definition CBS_get_utf8 :: "(cbs, u32) op" where
  "CBS_get_utf8 = step CBS_get_u8 (\<lambda>c.
     if c \<le> 0x7f then ret (ucast c)
     else if c AND TOP_BITS 3 = TOP_BITS 2 then utf8_rest 1 0x80 (c AND BOTTOM_BITS 5)
     else if c AND TOP_BITS 4 = TOP_BITS 3 then utf8_rest 2 0x800 (c AND BOTTOM_BITS 4)
     else if c AND TOP_BITS 5 = TOP_BITS 4 then utf8_rest 3 0x10000 (c AND BOTTOM_BITS 3)
     else fail)"

definition CBS_get_latin1 :: "(cbs, u32) op" where
  "CBS_get_latin1 = step CBS_get_u8 (\<lambda>c. ret (ucast c))"

definition CBS_get_ucs2_be :: "(cbs, u32) op" where
  "CBS_get_ucs2_be = step CBS_get_u16 (\<lambda>c.
     if \<not> is_valid_code_point (ucast c) then fail else ret (ucast c))"

definition CBS_get_utf32_be :: "(cbs, u32) op" where
  "CBS_get_utf32_be = step CBS_get_u32 (\<lambda>v. if is_valid_code_point v then ret v else fail)"

definition CBB_get_utf8_len :: "u32 \<Rightarrow> size_t" where
  "CBB_get_utf8_len u = (if u \<le> 0x7f then 1 else if u \<le> 0x7ff then 2 else if u \<le> 0xffff then 3 else 4)"

definition CBB_add_utf8 :: "alloc \<Rightarrow> nat \<Rightarrow> u32 \<Rightarrow> (cbb, unit) op" where
  "CBB_add_utf8 A n u =
     (let lead = (\<lambda>k x. CBB_add_u8 A n (ucast (ucast (TOP_BITS k) OR x)));
          low = (\<lambda>x. x AND ucast (BOTTOM_BITS 6))
      in if \<not> is_valid_code_point u then fail
      else if u \<le> 0x7f then CBB_add_u8 A n (ucast u)
      else if u \<le> 0x7ff then
        step (lead 2 (drop_bit 6 u)) (\<lambda>_. lead 1 (low u))
      else if u \<le> 0xffff then
        step (lead 3 (drop_bit 12 u)) (\<lambda>_. step (lead 1 (low (drop_bit 6 u))) (\<lambda>_. lead 1 (low u)))
      else if u \<le> 0x10ffff then
        step (lead 4 (drop_bit 18 u)) (\<lambda>_. step (lead 1 (low (drop_bit 12 u))) (\<lambda>_.
          step (lead 1 (low (drop_bit 6 u))) (\<lambda>_. lead 1 (low u))))
      else fail)"

definition CBB_add_latin1 :: "alloc \<Rightarrow> nat \<Rightarrow> u32 \<Rightarrow> (cbb, unit) op" where
  "CBB_add_latin1 A n u = (if u \<le> 0xff then CBB_add_u8 A n (ucast u) else fail)"

definition CBB_add_ucs2_be :: "alloc \<Rightarrow> nat \<Rightarrow> u32 \<Rightarrow> (cbb, unit) op" where
  "CBB_add_ucs2_be A n u =
     (if u \<le> 0xffff \<and> is_valid_code_point u then CBB_add_u16 A n (ucast u) else fail)"

definition CBB_add_utf32_be :: "alloc \<Rightarrow> nat \<Rightarrow> u32 \<Rightarrow> (cbb, unit) op" where
  "CBB_add_utf32_be A n u = (if is_valid_code_point u then CBB_add_u32 A n u else fail)"

section \<open>Bits of a byte\<close>

lemma BOTTOM_BITS_mask: "n \<le> 8 \<Longrightarrow> BOTTOM_BITS n = mask n"
proof -
  have "push_bit n (1 :: u32) - 1 = mask n" by (simp add: mask_eq_exp_minus_1 push_bit_eq_mult)
  then show ?thesis
    unfolding BOTTOM_BITS_def by (simp only:) (rule bit_word_eqI, auto simp: bit_simps)
qed

lemma div_eq_iff_nat: "0 < d \<Longrightarrow> x div d * d = q * d \<longleftrightarrow> q * d \<le> x \<and> x < (q + 1) * (d::nat)"
  using dividend_less_div_times [of d x] by (auto intro!: div_nat_eqI simp: algebra_simps)

lemma unat_bottom: "n \<le> 8 \<Longrightarrow> unat (b AND BOTTOM_BITS n) = unat b mod 2 ^ n"
proof -
  assume n: "n \<le> 8"
  have "unat (take_bit n b) = take_bit n (unat b)" by (rule unsigned_take_bit_eq)
  then show ?thesis
    by (simp only: BOTTOM_BITS_mask [OF n] take_bit_eq_mask [symmetric]) (simp only: take_bit_eq_mod)
qed

lemma unat_top: "n \<le> 8 \<Longrightarrow> unat (b AND TOP_BITS n) = unat b div 2 ^ (8 - n) * 2 ^ (8 - n)"
proof -
  assume n: "n \<le> 8"
  define k where "k = 8 - n"
  have "b AND TOP_BITS n = push_bit k (drop_bit k b)"
    unfolding TOP_BITS_def k_def [symmetric]
    by (subst BOTTOM_BITS_mask) (simp add: k_def, rule bit_word_eqI, auto simp: bit_simps)
  then have "unat (b AND TOP_BITS n) = take_bit 8 (push_bit k (unat b div 2 ^ k))"
    by (simp only: unsigned_push_bit_eq unat_drop_bit) simp
  also have "\<dots> = unat b div 2 ^ k * 2 ^ k"
    using order_le_less_trans [OF div_times_less_eq_dividend unat_u8_less, of b "2 ^ k"]
    by (simp only: push_bit_eq_mult) (simp add: take_bit_nat_eq_self)
  finally show ?thesis by (simp only: k_def)
qed

lemma unat_TOP: "unat (TOP_BITS 1) = 2 * 64" "unat (TOP_BITS 2) = 6 * 32" "unat (TOP_BITS 3) = 14 * 16" "unat (TOP_BITS 4) = 30 * 8"
  by code_simp+
lemma lead_bits:
  "b AND TOP_BITS 2 = TOP_BITS 1 \<longleftrightarrow> 128 \<le> unat b \<and> unat b < 192"
  "b AND TOP_BITS 3 = TOP_BITS 2 \<longleftrightarrow> 192 \<le> unat b \<and> unat b < 224"
  "b AND TOP_BITS 4 = TOP_BITS 3 \<longleftrightarrow> 224 \<le> unat b \<and> unat b < 240"
  "b AND TOP_BITS 5 = TOP_BITS 4 \<longleftrightarrow> 240 \<le> unat b \<and> unat b < 248"
  using div_eq_iff_nat [of 64 "unat b" 2] div_eq_iff_nat [of 32 "unat b" 6]
    div_eq_iff_nat [of 16 "unat b" 14] div_eq_iff_nat [of 8 "unat b" 30]
  by (simp_all only: word_unat_eq_iff [of _ "TOP_BITS _"] unat_TOP)
    (simp_all add: unat_top)

lemma low_bits:
  "unat (b AND BOTTOM_BITS 3) = unat b mod 8" "unat (b AND BOTTOM_BITS 4) = unat b mod 16"
  "unat (b AND BOTTOM_BITS 5) = unat b mod 32" "unat (b AND BOTTOM_BITS 6) = unat b mod 64"
  by (simp_all add: unat_bottom)

lemma unsigned_ucast_u16: "unat (ucast (w :: u16) :: u32) = unat w"
  by (simp add: unat_ucast_up)

section \<open>Reading UTF-8\<close>

text \<open>The encoding of RFC 3629, section 3.\<close>

definition utf8 :: "nat \<Rightarrow> u8 list" where
  "utf8 n =
     (if n < 0x80 then [of_nat n]
      else if n < 0x800 then [of_nat (192 + n div 64), of_nat (128 + n mod 64)]
      else if n < 0x10000 then
        [of_nat (224 + n div 64 div 64), of_nat (128 + n div 64 mod 64), of_nat (128 + n mod 64)]
      else [of_nat (240 + n div 64 div 64 div 64), of_nat (128 + n div 64 div 64 mod 64),
            of_nat (128 + n div 64 mod 64), of_nat (128 + n mod 64)])"

definition cont :: "u8 \<Rightarrow> bool" where
  "cont b \<longleftrightarrow> 128 \<le> unat b \<and> unat b < 192"

lemma utf8_loop_Cons:
  assumes "fits (b # bs)"
  shows "utf8_loop (Suc k) v (cbs_view (b # bs) t) =
    (if cont b then utf8_loop k (push_bit 6 v OR ucast (b AND BOTTOM_BITS 6)) (cbs_view bs t)
     else (None, cbs_view bs t))"
  using assms lead_bits(1) [of b] by (simp add: step_def cont_def)

lemma utf8_loop_Nil: "utf8_loop (Suc k) v (cbs_view [] t) = (None, cbs_view [] t)"
  by (simp add: step_def)

lemma utf8_step_val:
  assumes "unat v < 2 ^ 26"
  shows "unat (push_bit 6 v OR ucast (b AND BOTTOM_BITS 6) :: u32) = unat v * 64 + unat b mod 64"
  using unat_push_bit_or [of v 6 "ucast (b AND BOTTOM_BITS 6)"] assms by (simp add: low_bits)

fun utf8_val :: "nat \<Rightarrow> u8 list \<Rightarrow> nat" where
  "utf8_val v [] = v"
| "utf8_val v (b # bs) = utf8_val (v * 64 + unat b mod 64) bs"

lemma ex_prefix_Cons:
  "(\<exists>cs ys. b # bs = cs @ ys \<and> length cs = Suc k \<and> P cs ys) \<longleftrightarrow>
   (\<exists>cs ys. bs = cs @ ys \<and> length cs = k \<and> P (b # cs) ys)"
proof
  assume "\<exists>cs ys. b # bs = cs @ ys \<and> length cs = Suc k \<and> P cs ys"
  then obtain cs ys where "b # bs = cs @ ys" "length cs = Suc k" "P cs ys" by blast
  then show "\<exists>cs ys. bs = cs @ ys \<and> length cs = k \<and> P (b # cs) ys" by (cases cs) auto
next
  assume "\<exists>cs ys. bs = cs @ ys \<and> length cs = k \<and> P (b # cs) ys"
  then obtain cs ys where "bs = cs @ ys" "length cs = k" "P (b # cs) ys" by blast
  then have "b # bs = (b # cs) @ ys \<and> length (b # cs) = Suc k \<and> P (b # cs) ys" by simp
  then show "\<exists>cs ys. b # bs = cs @ ys \<and> length cs = Suc k \<and> P cs ys" by blast
qed

lemma utf8_loop_iff:
  assumes "fits bs" and "unat v < 8 * 64 ^ (4 - k)" and "k \<le> 3"
  shows "utf8_loop k v (cbs_view bs t) = (Some w, cbs') \<longleftrightarrow>
    (\<exists>cs ys. bs = cs @ ys \<and> length cs = k \<and> (\<forall>c \<in> set cs. cont c) \<and>
       unat w = utf8_val (unat v) cs \<and> cbs' = cbs_view ys t)"
  using assms
proof (induction k arbitrary: v bs)
  case 0
  then show ?case by (auto simp: word_unat_eq_iff)
next
  case (Suc k)
  show ?case
  proof (cases bs)
    case Nil
    then show ?thesis by (simp only: utf8_loop_Nil) auto
  next
    case (Cons b bs')
    let ?v = "push_bit 6 v OR ucast (b AND BOTTOM_BITS 6) :: u32"
    have "(64::nat) ^ (4 - Suc k) \<le> 64 ^ 3" by (intro power_increasing) auto
    with Suc.prems have "unat v < 2 ^ 26" by simp
    then have v: "unat ?v = unat v * 64 + unat b mod 64" by (rule utf8_step_val)
    have "unat v + 1 \<le> 8 * 64 ^ (4 - Suc k)" using Suc.prems by simp
    then have "(unat v + 1) * 64 \<le> 8 * 64 ^ (4 - Suc k) * 64" by (rule mult_le_mono1)
    also have "\<dots> = 8 * 64 ^ (4 - k)"
      proof -
      have "4 - k = Suc (4 - Suc k)" using Suc.prems(3) by simp
      then show ?thesis by simp
    qed
    finally have "unat ?v < 8 * 64 ^ (4 - k)"
      unfolding v using mod_less_divisor [of 64 "unat b"] by (simp add: less_le_trans)
    with Suc.prems Cons have "utf8_loop k ?v (cbs_view bs' t) = (Some w, cbs') \<longleftrightarrow>
      (\<exists>cs ys. bs' = cs @ ys \<and> length cs = k \<and> (\<forall>c \<in> set cs. cont c) \<and>
       unat w = utf8_val (unat v * 64 + unat b mod 64) cs \<and> cbs' = cbs_view ys t)"
      by (subst Suc.IH) (simp_all add: v)
    with Suc.prems(1) show ?thesis
      unfolding Cons ex_prefix_Cons by (subst utf8_loop_Cons) simp_all
  qed
qed


lemma digits_64: "(y::nat) < 64 \<Longrightarrow> (x * 64 + y) div 64 = x" "(y::nat) < 64 \<Longrightarrow> (x * 64 + y) mod 64 = y"
  by simp_all

text \<open>The sequences of bytes with a leading byte of the class of \<open>k\<close> continuation bytes.\<close>

definition lead :: "nat \<Rightarrow> u8 \<Rightarrow> nat \<Rightarrow> bool" where
  "lead k c x \<longleftrightarrow>
     (if k = 1 then unat c = 192 + x \<and> x < 32
      else if k = 2 then unat c = 224 + x \<and> x < 16
      else unat c = 240 + x \<and> x < 8)"

definition lower_bound :: "nat \<Rightarrow> nat" where
  "lower_bound k = (if k = 1 then 0x80 else if k = 2 then 0x800 else 0x10000)"

lemma contE:
  assumes "cont c" obtains y where "unat c = 128 + y" "y < 64" "unat c mod 64 = y"
  using assms that [of "unat c - 128"] by (auto simp: cont_def le_mod_geq)

lemma u8_eqI: "unat c = n \<Longrightarrow> of_nat n = (c :: u8)"
  by auto

lemma utf8_sound:
  assumes "lead k c x" and "k \<in> {1, 2, 3}" and "length cs = k" and "\<forall>c \<in> set cs. cont c"
    and "lower_bound k \<le> utf8_val x cs"
  shows "utf8 (utf8_val x cs) = c # cs"
proof -
  consider (one) d where "k = 1" "cs = [d]" "cont d" | (two) d e where "k = 2" "cs = [d, e]" "cont d" "cont e"
    | (three) d e f where "k = 3" "cs = [d, e, f]" "cont d" "cont e" "cont f"
    using assms(2,3,4) by (auto simp: numeral_eq_Suc length_Suc_conv)
  then show ?thesis
  proof cases
    case one
    then obtain y where "unat d = 128 + y" "y < 64" "unat d mod 64 = y" by (elim contE)
    with one assms(1,5) show ?thesis
      by (auto simp: lead_def lower_bound_def utf8_def digits_64 simp del: of_nat_add intro!: u8_eqI)
  next
    case two
    then obtain y z where b: "unat d = 128 + y" "y < 64" "unat d mod 64 = y"
      "unat e = 128 + z" "z < 64" "unat e mod 64 = z" by (elim contE)
    define p where "p = x * 64 + y"
    have "p div 64 = x" "p mod 64 = y" using b by (simp_all add: p_def)
    moreover have "utf8_val x cs = p * 64 + z" using two b by (simp add: p_def)
    moreover have "p < 16 * 64" using two b assms(1) by (simp add: p_def lead_def)
    ultimately show ?thesis using two assms(1,5) b
      by (auto simp: lead_def lower_bound_def utf8_def digits_64 simp del: of_nat_add intro!: u8_eqI)
  next
    case three
    then obtain y z a where b: "unat d = 128 + y" "y < 64" "unat d mod 64 = y"
      "unat e = 128 + z" "z < 64" "unat e mod 64 = z" "unat f = 128 + a" "a < 64" "unat f mod 64 = a"
      by (elim contE)
    define p where "p = x * 64 + y" define q where "q = p * 64 + z"
    have "p div 64 = x" "p mod 64 = y" "q div 64 = p" "q mod 64 = z"
      using b by (simp_all only: p_def q_def digits_64)
    moreover have "utf8_val x cs = q * 64 + a" using three b by (simp add: p_def q_def)
    ultimately show ?thesis using three assms(1,5) b
      by (auto simp: lead_def lower_bound_def utf8_def digits_64 simp del: of_nat_add intro!: u8_eqI)
  qed
qed

lemma unat_of_nat_small: "n < 256 \<Longrightarrow> unat (of_nat n :: u8) = n"
  by simp

lemma cont_of_nat: "y < 64 \<Longrightarrow> cont (of_nat (128 + y)) \<and> unat (of_nat (128 + y) :: u8) mod 64 = y"
  unfolding cont_def by (subst unat_of_nat_small, simp)+ (simp add: mod_if)

lemma utf8_complete:
  assumes "0x80 \<le> n" and "n \<le> 0x10ffff"
  obtains k c x cs where "k \<in> {1, 2, 3}" "utf8 n = c # cs" "lead k c x" "length cs = k"
    "\<forall>c \<in> set cs. cont c" "utf8_val x cs = n" "lower_bound k \<le> n"
proof -
  note result = that
  define y where "y = n mod 64" define p where "p = n div 64"
  have n: "n = p * 64 + y" and y: "y < 64" by (simp_all add: p_def y_def)
  define z where "z = p mod 64" define q where "q = p div 64"
  have p: "p = q * 64 + z" and z: "z < 64" by (simp_all add: q_def z_def)
  define a where "a = q mod 64" define r where "r = q div 64"
  have q: "q = r * 64 + a" and a: "a < 64" by (simp_all add: r_def a_def)
  note c = cont_of_nat [OF y] cont_of_nat [OF z] cont_of_nat [OF a]
  note val = c [THEN conjunct2]
  note defs = y_def p_def z_def q_def a_def r_def
  consider "n < 0x800" | "0x800 \<le> n" "n < 0x10000" | "0x10000 \<le> n" by linarith
  then show thesis
  proof cases
    case 1
    have l: "p < 32" "unat (of_nat (192 + p) :: u8) = 192 + p"
      using 1 n by (linarith, intro unat_of_nat_small, linarith)
    have "utf8 n = [of_nat (192 + p), of_nat (128 + y)]" using 1 assms(1) by (simp add: utf8_def defs)
    moreover have "utf8_val p [of_nat (128 + y)] = n" using val n by (simp only: utf8_val.simps)
    ultimately show thesis
      by (intro result [of 1 _ "[of_nat (128 + y)]" p]) (use l c assms in \<open>simp_all add: lead_def lower_bound_def\<close>)
  next
    case 2
    have l: "q < 16" "unat (of_nat (224 + q) :: u8) = 224 + q"
      using 2 n p by (linarith, intro unat_of_nat_small, linarith)
    have "utf8 n = [of_nat (224 + q), of_nat (128 + z), of_nat (128 + y)]" using 2 by (simp add: utf8_def defs)
    moreover have "utf8_val q [of_nat (128 + z), of_nat (128 + y)] = n" using val n p by (simp only: utf8_val.simps)
    ultimately show thesis
      by (intro result [of 2 _ "[of_nat (128 + z), of_nat (128 + y)]" q])
        (use l c 2 in \<open>simp_all add: lead_def lower_bound_def\<close>)
  next
    case 3
    have l: "r < 8" "unat (of_nat (240 + r) :: u8) = 240 + r"
      using assms n p q by (linarith, intro unat_of_nat_small, linarith)
    have "utf8 n = [of_nat (240 + r), of_nat (128 + a), of_nat (128 + z), of_nat (128 + y)]"
      using 3 by (simp add: utf8_def defs)
    moreover have "utf8_val r [of_nat (128 + a), of_nat (128 + z), of_nat (128 + y)] = n"
      using val n p q by (simp only: utf8_val.simps)
    ultimately show thesis
      by (intro result [of 3 _ "[of_nat (128 + a), of_nat (128 + z), of_nat (128 + y)]" r])
        (use l c 3 in \<open>simp_all add: lead_def lower_bound_def\<close>)
  qed
qed

lemma utf8_rest_iff:
  assumes "fits bs" and "unat c < 8 * 64 ^ (4 - k)" and "k \<le> 3"
  shows "utf8_rest k lb c (cbs_view bs t) = (Some w, cbs') \<longleftrightarrow>
    is_valid_code_point w \<and> lb \<le> w \<and>
    (\<exists>cs ys. bs = cs @ ys \<and> length cs = k \<and> (\<forall>c \<in> set cs. cont c) \<and>
       unat w = utf8_val (unat c) cs \<and> cbs' = cbs_view ys t)"
proof -
  have "utf8_rest k lb c (cbs_view bs t) = (Some w, cbs') \<longleftrightarrow>
      is_valid_code_point w \<and> lb \<le> w \<and> utf8_loop k (ucast c) (cbs_view bs t) = (Some w, cbs')"
    by (auto simp: utf8_rest_def step_eq_Some split: if_splits)
  with assms show ?thesis by (simp add: utf8_loop_iff)
qed

lemma is_valid_ascii: "v \<le> 0x7f \<Longrightarrow> is_valid_code_point v"
proof -
  assume v: "v \<le> 0x7f"
  have "v AND 0xfffe \<le> v" by (rule word_and_le2)
  with v have "v AND 0xfffe \<noteq> 0xfffe" by (auto dest: order_trans)
  with v show ?thesis by (auto simp: is_valid_code_point_def word_le_nat_alt word_less_nat_alt)
qed


lemma leadI:
  "192 \<le> unat c \<Longrightarrow> unat c < 224 \<Longrightarrow> lead 1 c (unat c mod 32)"
  "224 \<le> unat c \<Longrightarrow> unat c < 240 \<Longrightarrow> lead 2 c (unat c mod 16)"
  "240 \<le> unat c \<Longrightarrow> unat c < 248 \<Longrightarrow> lead 3 c (unat c mod 8)"
proof -
  have *: "unat c = m * q + unat c mod m" if "unat c div m = q" for m q
    using that mult_div_mod_eq [of m "unat c"] by simp
  show "192 \<le> unat c \<Longrightarrow> unat c < 224 \<Longrightarrow> lead 1 c (unat c mod 32)"
    using * [of 32 6] by (simp add: lead_def div_nat_eqI)
  show "224 \<le> unat c \<Longrightarrow> unat c < 240 \<Longrightarrow> lead 2 c (unat c mod 16)"
    using * [of 16 14] by (simp add: lead_def div_nat_eqI)
  show "240 \<le> unat c \<Longrightarrow> unat c < 248 \<Longrightarrow> lead 3 c (unat c mod 8)"
    using * [of 8 30] by (simp add: lead_def div_nat_eqI)
qed

text \<open>What \<open>CBS_get_utf8\<close> does after the first byte, by its class.\<close>

lemma CBS_get_utf8_Cons:
  assumes "fits (c # bs)"
  shows "CBS_get_utf8 (cbs_view (c # bs) t) =
    (if unat c < 128 then (Some (ucast c), cbs_view bs t)
     else if 192 \<le> unat c \<and> unat c < 224 then utf8_rest 1 0x80 (c AND BOTTOM_BITS 5) (cbs_view bs t)
     else if 224 \<le> unat c \<and> unat c < 240 then utf8_rest 2 0x800 (c AND BOTTOM_BITS 4) (cbs_view bs t)
     else if 240 \<le> unat c \<and> unat c < 248 then utf8_rest 3 0x10000 (c AND BOTTOM_BITS 3) (cbs_view bs t)
     else (None, cbs_view bs t))"
proof -
  have "c \<le> 0x7f \<longleftrightarrow> unat c < 128" by (auto simp: word_le_nat_alt)
  with assms show ?thesis
    by (simp add: CBS_get_utf8_def step_def lead_bits if_distrib [of "\<lambda>f. f (cbs_view bs t)"] cong: if_cong)
qed


lemma get_utf8_sound:
  assumes "fits bs" and "CBS_get_utf8 (cbs_view bs t) = (Some v, cbs')"
  shows "is_valid_code_point v \<and> (\<exists>ys. bs = utf8 (unat v) @ ys \<and> cbs' = cbs_view ys t)"
proof (cases bs)
  case Nil
  with assms(2) show ?thesis by (simp add: CBS_get_utf8_def step_def)
next
  case (Cons c r)
  have *: ?thesis
    if h: "utf8_rest k lb d (cbs_view r t) = (Some v, cbs')" and x: "lead k c x" "unat d = x"
      and k: "k \<in> {1, 2, 3}" "unat lb = lower_bound k" for k lb d x
  proof -
    have "unat d < 8 * 64 ^ (4 - k)" using x k(1) by (auto simp: lead_def)
    moreover have "k \<le> 3" "fits r" using k assms(1) Cons by auto
    ultimately obtain cs ys where "is_valid_code_point v" "lb \<le> v" "r = cs @ ys" "length cs = k"
      "\<forall>c \<in> set cs. cont c" "unat v = utf8_val x cs" "cbs' = cbs_view ys t"
      using h by (auto simp: utf8_rest_iff x(2))
    with utf8_sound [OF x(1) k(1), of cs] k(2) Cons show ?thesis by (auto simp: word_le_nat_alt)
  qed
  note g = assms(2) [unfolded Cons CBS_get_utf8_Cons [OF assms(1) [unfolded Cons]]]
  consider "unat c < 128" | "192 \<le> unat c" "unat c < 224" | "224 \<le> unat c" "unat c < 240"
    | "240 \<le> unat c" "unat c < 248"
    using g by (auto split: if_splits)
  then show ?thesis
  proof cases
    case 1
    with g have v: "v = ucast c" "cbs' = cbs_view r t" by auto
    with 1 have "is_valid_code_point v" by (intro is_valid_ascii) (simp add: word_le_nat_alt)
    with v 1 Cons show ?thesis by (simp add: utf8_def)
  next
    case 2
    with g have "utf8_rest 1 0x80 (c AND BOTTOM_BITS 5) (cbs_view r t) = (Some v, cbs')" by simp
    then show ?thesis by (rule * [OF _ leadI(1) [OF 2]]) (simp_all add: low_bits lower_bound_def)
  next
    case 3
    with g have "utf8_rest 2 0x800 (c AND BOTTOM_BITS 4) (cbs_view r t) = (Some v, cbs')" by simp
    then show ?thesis by (rule * [OF _ leadI(2) [OF 3]]) (simp_all add: low_bits lower_bound_def)
  next
    case 4
    with g have "utf8_rest 3 0x10000 (c AND BOTTOM_BITS 3) (cbs_view r t) = (Some v, cbs')" by simp
    then show ?thesis by (rule * [OF _ leadI(3) [OF 4]]) (simp_all add: low_bits lower_bound_def)
  qed
qed

lemma get_utf8_complete:
  assumes "fits (utf8 (unat v) @ ys)" and "is_valid_code_point v"
  shows "CBS_get_utf8 (cbs_view (utf8 (unat v) @ ys) t) = (Some v, cbs_view ys t)"
proof (cases "unat v < 128")
  case True
  then have u: "utf8 (unat v) = [of_nat (unat v)]" by (simp add: utf8_def)
  have c: "unat (of_nat (unat v) :: u8) = unat v" using True by (intro unat_of_nat_small) simp
  then have "ucast (of_nat (unat v) :: u8) = v"
    unfolding word_unat_eq_iff unat_ucast_u8 by simp
  with True c assms(1) show ?thesis unfolding u append_Cons append_Nil
    by (subst CBS_get_utf8_Cons) (simp_all del: unat_of_nat unat_of_nat_u8)
next
  case False
  from assms(2) have "unat v \<le> 0x10ffff"
    by (auto simp: is_valid_code_point_def word_less_nat_alt split: if_splits)
  with False obtain k c x cs where k: "k \<in> {1, 2, 3}" and u: "utf8 (unat v) = c # cs" "lead k c x"
    "length cs = k" "\<forall>c \<in> set cs. cont c" "utf8_val x cs = unat v" "lower_bound k \<le> unat v"
    by - (rule utf8_complete [of "unat v"], simp_all)
  have *: "utf8_rest k lb d (cbs_view (cs @ ys) t) = (Some v, cbs_view ys t)"
    if "unat d = x" "unat lb = lower_bound k" for lb d
  proof -
    have "unat d < 8 * 64 ^ (4 - k)" "k \<le> 3" using that u(2) k by (auto simp: lead_def)
    moreover have "fits (cs @ ys)" using assms(1) u(1) by simp
    moreover have "\<exists>cs' ys'. cs @ ys = cs' @ ys' \<and> length cs' = k \<and> (\<forall>c \<in> set cs'. cont c) \<and>
        unat v = utf8_val (unat d) cs' \<and> cbs_view ys t = cbs_view ys' t"
      using u that by - (rule exI [of _ cs], rule exI [of _ ys], simp)
    ultimately show ?thesis
      using assms(2) u that by (simp add: utf8_rest_iff word_le_nat_alt)
  qed
  have x: "k = 1 \<Longrightarrow> unat c mod 32 = x" "k = 2 \<Longrightarrow> unat c mod 16 = x" "k = 3 \<Longrightarrow> unat c mod 8 = x"
    using u(2) by (auto simp: lead_def mod_if)
  have "CBS_get_utf8 (cbs_view (c # (cs @ ys)) t) = (Some v, cbs_view ys t)"
    using assms(1) u(1,2) k x * [where d = "c AND BOTTOM_BITS 5" and lb = "0x80"]
      * [where d = "c AND BOTTOM_BITS 4" and lb = "0x800"]
      * [where d = "c AND BOTTOM_BITS 3" and lb = "0x10000"]
    by (subst CBS_get_utf8_Cons) (auto simp: low_bits lower_bound_def lead_def)
  then show ?thesis by (simp add: u(1))
qed

text \<open>
  C13: UTF-8 reading. \<open>CBS_get_utf8\<close> returns \<open>v\<close> exactly when \<open>v\<close> is a code point the code
  accepts and the input starts with the UTF-8 encoding of \<open>v\<close>, which it consumes: overlong
  forms, stray continuation bytes, surrogates and truncated sequences are all refused.
\<close>

theorem CBS_get_utf8_iff:
  assumes "fits bs"
  shows "CBS_get_utf8 (cbs_view bs t) = (Some v, cbs') \<longleftrightarrow>
    is_valid_code_point v \<and> (\<exists>ys. bs = utf8 (unat v) @ ys \<and> cbs' = cbs_view ys t)"
  using get_utf8_sound [OF assms, of t v cbs'] get_utf8_complete [of v _ t] assms by auto

theorem CBS_get_utf8_iff_witness:
  "CBS_get_utf8 (cbs_view [0xe2, 0x82, 0xac, 0x41] []) = (Some 0x20ac, cbs_view [0x41] [])"
proof -
  have "is_valid_code_point 0x20ac" by code_simp
  then show ?thesis
    by (subst CBS_get_utf8_iff) (simp_all add: utf8_def)
qed

section \<open>Writing\<close>

lemma add_utf8_byte:
  assumes "unat x < 2 ^ m" and "TOP_BITS k = push_bit m w" and "unat w * 2 ^ m < 256"
  shows "ucast (ucast (TOP_BITS k) OR x :: u32) = (of_nat (unat (TOP_BITS k) + unat x) :: u8)"
proof -
  have x: "unat (ucast x :: u8) \<le> unat x"
    by (simp add: unsigned_ucast_eq take_bit_nat_less_eq_self)
  have "ucast (ucast (TOP_BITS k) OR x :: u32) = push_bit m w OR (ucast x :: u8)"
    unfolding assms(2) by (rule bit_word_eqI) (auto simp: bit_simps)
  also have "unat \<dots> = unat w * 2 ^ m + unat (ucast x :: u8)"
    using assms x by (intro unat_push_bit_or) auto
  also have "unat w * 2 ^ m = unat (TOP_BITS k)"
    using unat_push_bit_or [of w m 0] assms by simp
  finally have "ucast (ucast (TOP_BITS k) OR x :: u32) = (of_nat (unat (TOP_BITS k) + unat (ucast x :: u8)) :: u8)"
    by (metis of_nat_unat)
  then show ?thesis by simp
qed


lemma unat_low: "unat (x AND ucast (BOTTOM_BITS 6) :: u32) = unat x mod 64"
proof -
  have "x AND ucast (BOTTOM_BITS 6) = take_bit 6 x"
    unfolding take_bit_eq_mask by (simp add: BOTTOM_BITS_mask mask_eq_exp_minus_1)
  then show ?thesis by (simp only: unsigned_take_bit_eq) (simp add: take_bit_eq_mod)
qed

lemma TOP_BITS_push:
  "TOP_BITS 1 = push_bit 7 1" "TOP_BITS 2 = push_bit 6 3" "TOP_BITS 3 = push_bit 5 7"
  "TOP_BITS 4 = push_bit 4 15"
  by code_simp+

lemma add_utf8_bytes:
  "unat x < 64 \<Longrightarrow> ucast (ucast (TOP_BITS 1) OR x :: u32) = (of_nat (128 + unat x) :: u8)"
  "unat x < 64 \<Longrightarrow> ucast (ucast (TOP_BITS 2) OR x :: u32) = (of_nat (192 + unat x) :: u8)"
  "unat x < 32 \<Longrightarrow> ucast (ucast (TOP_BITS 3) OR x :: u32) = (of_nat (224 + unat x) :: u8)"
  "unat x < 16 \<Longrightarrow> ucast (ucast (TOP_BITS 4) OR x :: u32) = (of_nat (240 + unat x) :: u8)"
  using add_utf8_byte [OF _ TOP_BITS_push(1), of x] add_utf8_byte [OF _ TOP_BITS_push(2), of x]
    add_utf8_byte [OF _ TOP_BITS_push(3), of x] add_utf8_byte [OF _ TOP_BITS_push(4), of x]
  by (simp_all add: unat_TOP del: of_nat_add One_nat_def)

lemma put_u8s_simps:
  "put_u8s A n [b] = CBB_add_u8 A n b"
  "put_u8s A n (b # c # bs) = step (CBB_add_u8 A n b) (\<lambda>_. put_u8s A n (c # bs))"
  by (simp_all only: put_u8s.simps step_ret_unit)

lemma CBB_add_utf8_bytes:
  assumes "is_valid_code_point u"
  shows "CBB_add_utf8 A n u = put_u8s A n (utf8 (unat u))"
proof -
  have le: "unat u \<le> 0x10ffff"
    using assms by (auto simp: is_valid_code_point_def word_less_nat_alt split: if_splits)
  note v = unat_low unat_drop_bit div_mult2_eq
  note [simp del] = put_u8s.simps of_nat_add unat_of_nat One_nat_def
  note d = CBB_add_utf8_def utf8_def put_u8s_simps word_le_nat_alt
  consider "unat u < 0x80" | "0x80 \<le> unat u" "unat u < 0x800" | "0x800 \<le> unat u" "unat u < 0x10000"
    | "0x10000 \<le> unat u" by linarith
  then show ?thesis
  proof cases
    case 1
    have "ucast u = (of_nat (unat u) :: u8)" by simp
    then show ?thesis using assms 1 by (simp add: d)
  next
    case 2
    then have "unat u div 64 < 32" by (simp add: less_mult_imp_div_less)
    then show ?thesis using assms 2 by (simp add: d v add_utf8_bytes)
  next
    case 3
    then have "unat u div 4096 < 16" by (simp add: less_mult_imp_div_less)
    then show ?thesis using assms 3 by (simp add: d v add_utf8_bytes div_mult2_eq [symmetric])
  next
    case 4
    then have "unat u div 262144 < 8" using le by (simp add: less_mult_imp_div_less)
    then show ?thesis using assms 4 le by (simp add: d v add_utf8_bytes div_mult2_eq [symmetric])
  qed
qed


text \<open>The other encodings: what the readers accept and the writers write.\<close>

lemma length_utf8: "1 \<le> length (utf8 n)" "length (utf8 n) \<le> 4"
  by (simp_all add: utf8_def)

lemma CBB_get_utf8_len_eq: "CBB_get_utf8_len u = of_nat (length (utf8 (unat u)))"
  by (simp add: CBB_get_utf8_len_def utf8_def word_le_nat_alt)

lemma implements_utf8:
  "is_valid_code_point u \<Longrightarrow> implements A (at_least n) (CBB_add_utf8 A n u) (doc_write n (utf8 (unat u)))"
  unfolding CBB_add_utf8_bytes using length_utf8(1) [of "unat u"] by (intro implements_put_u8s) auto

lemma implements_latin1:
  "u \<le> 0xff \<Longrightarrow> implements A (at_least n) (CBB_add_latin1 A n u) (doc_write n [ucast u])"
  by (simp add: CBB_add_latin1_def implements_u8)

lemma implements_ucs2:
  assumes "u \<le> 0xffff" and "is_valid_code_point u"
  shows "implements A (at_least n) (CBB_add_ucs2_be A n u) (doc_write n (be_bytes 2 (unat u)))"
proof -
  have "unat (ucast u :: u16) = unat u"
    using assms(1) by (simp add: unsigned_ucast_eq take_bit_nat_eq_self word_le_nat_alt)
  with implements_u16 [of A n "ucast u"] assms show ?thesis
    by (simp add: CBB_add_ucs2_be_def del: be_bytes_numeral)
qed

lemma implements_utf32:
  "is_valid_code_point u \<Longrightarrow> implements A (at_least n) (CBB_add_utf32_be A n u) (doc_write n (be_bytes 4 (unat u)))"
  using implements_u32 [of A n u] by (simp add: CBB_add_utf32_be_def)

lemma build_read:
  assumes "implements A (at_least 0) m (doc_write 0 bs)"
    and "\<And>t. fits bs \<Longrightarrow> get (cbs_view bs t) = (Some v, cbs_view [] t)"
    and "build A cap m = Some (data, len)"
  shows "\<exists>t. get (CBS_init data len) = (Some v, cbs_view [] t)"
  using build_implements(1) [OF assms(1) doc_write_root, of cap data len] assms(2,3)
  by (metis append_Nil)

lemma build_fail:
  "build A cap m = Some r \<Longrightarrow> (\<not> is_valid_code_point u \<Longrightarrow> m = fail) \<Longrightarrow> is_valid_code_point u"
  by (cases "is_valid_code_point u") (auto simp: build_def step_def split: prod.splits option.splits)

lemma utf8_roundtrip:
  assumes "build A cap (CBB_add_utf8 A 0 u) = Some (data, len)"
  shows "len = CBB_get_utf8_len u" "\<exists>t. CBS_get_utf8 (CBS_init data len) = (Some u, cbs_view [] t)"
proof -
  have v: "is_valid_code_point u" by (rule build_fail [OF assms]) (simp add: CBB_add_utf8_def)
  from build_implements(1) [OF implements_utf8 [OF this] doc_write_root assms]
  show "len = CBB_get_utf8_len u" by (auto simp: CBB_get_utf8_len_eq CBS_init_def cbs_view_def)
  show "\<exists>t. CBS_get_utf8 (CBS_init data len) = (Some u, cbs_view [] t)"
    using build_read [OF implements_utf8 [OF v] _ assms, of CBS_get_utf8 u] get_utf8_complete [of u "[]"] v by simp
qed

lemma latin1_roundtrip:
  assumes "build A cap (CBB_add_latin1 A 0 u) = Some (data, len)"
  shows "\<exists>t. CBS_get_latin1 (CBS_init data len) = (Some u, cbs_view [] t)"
proof (cases "u \<le> 0xff")
  case True
  then have "unat (ucast u :: u8) = unat u"
    by (simp add: unsigned_ucast_eq take_bit_nat_eq_self word_le_nat_alt)
  then have "ucast (ucast u :: u8) = u" unfolding word_unat_eq_iff unat_ucast_u8 .
  then show ?thesis
    by (intro build_read [OF implements_latin1 [OF True] _ assms])
      (simp add: CBS_get_latin1_def step_def)
qed (use assms in \<open>simp add: CBB_add_latin1_def build_def step_def split: prod.splits option.splits\<close>)

lemma ucs2_roundtrip:
  assumes "build A cap (CBB_add_ucs2_be A 0 u) = Some (data, len)"
  shows "\<exists>t. CBS_get_ucs2_be (CBS_init data len) = (Some u, cbs_view [] t)"
proof (cases "u \<le> 0xffff \<and> is_valid_code_point u")
  case True
  then have "unat u < 2 ^ 16" by (simp add: word_le_nat_alt)
  then have "unat (of_nat (be_val (be_bytes 2 (unat u))) :: u16) = unat u"
    by (simp only: be_val_be_bytes unat_of_nat) simp
  then have "ucast (of_nat (be_val (be_bytes 2 (unat u))) :: u16) = u"
    by (metis of_nat_unat unsigned_ucast_u16)
  with True show ?thesis
    by (intro build_read [OF implements_ucs2 _ assms])
      (simp_all add: CBS_get_ucs2_be_def step_def CBS_get_u16_view ucast_get_u_loop del: be_bytes_numeral)
qed (use assms in \<open>auto simp add: CBB_add_ucs2_be_def build_def step_def split: prod.splits option.splits\<close>)

lemma utf32_roundtrip:
  assumes "build A cap (CBB_add_utf32_be A 0 u) = Some (data, len)"
  shows "\<exists>t. CBS_get_utf32_be (CBS_init data len) = (Some u, cbs_view [] t)"
proof -
  have v: "is_valid_code_point u" by (rule build_fail [OF assms]) (simp add: CBB_add_utf32_be_def)
  have "of_nat (be_val (be_bytes 4 (unat u))) = u"
    using unsigned_less [of u, where ?'a = nat] by (simp add: be_val_be_bytes del: be_bytes_numeral)
  with v show ?thesis
    by (intro build_read [OF implements_utf32 [OF v] _ assms])
      (simp add: CBS_get_utf32_be_def step_def CBS_get_u32_view ucast_get_u_loop del: be_bytes_numeral)
qed

text \<open>
  C14: round trip of the four encodings. Writing a code point to a fresh builder and reading the
  finished bytes back with the matching reader gives that code point and leaves nothing, for
  UTF-8, Latin-1, UCS-2 and UTF-32; \<open>CBB_get_utf8_len\<close> is the number of bytes UTF-8 takes;
  and the writers of UTF-8, UCS-2 and UTF-32 refuse what is not a code point.
\<close>

theorem unicode_roundtrip:
  "(\<forall>data len. build A cap (CBB_add_utf8 A 0 u) = Some (data, len) \<longrightarrow>
      len = CBB_get_utf8_len u \<and> (\<exists>t. CBS_get_utf8 (CBS_init data len) = (Some u, cbs_view [] t))) \<and>
   (\<forall>data len. build A cap (CBB_add_latin1 A 0 u) = Some (data, len) \<longrightarrow>
      (\<exists>t. CBS_get_latin1 (CBS_init data len) = (Some u, cbs_view [] t))) \<and>
   (\<forall>data len. build A cap (CBB_add_ucs2_be A 0 u) = Some (data, len) \<longrightarrow>
      (\<exists>t. CBS_get_ucs2_be (CBS_init data len) = (Some u, cbs_view [] t))) \<and>
   (\<forall>data len. build A cap (CBB_add_utf32_be A 0 u) = Some (data, len) \<longrightarrow>
      (\<exists>t. CBS_get_utf32_be (CBS_init data len) = (Some u, cbs_view [] t))) \<and>
   (\<not> is_valid_code_point u \<longrightarrow> CBB_add_utf8 A n u s = (None, s) \<and>
      CBB_add_ucs2_be A n u s = (None, s) \<and> CBB_add_utf32_be A n u s = (None, s))"
  using utf8_roundtrip latin1_roundtrip ucs2_roundtrip utf32_roundtrip
  by (simp add: CBB_add_utf8_def CBB_add_ucs2_be_def CBB_add_utf32_be_def)

theorem unicode_roundtrip_witness:
  "\<exists>data len t. build (\<lambda>_. True) 0 (CBB_add_utf8 (\<lambda>_. True) 0 0x20ac) = Some (data, len) \<and>
     CBS_get_utf8 (CBS_init data len) = (Some 0x20ac, cbs_view [] t)"
proof -
  have "is_valid_code_point 0x20ac" by code_simp
  from build_implements(2) [OF implements_utf8 [OF this] doc_write_root, of "\<lambda>_. True" 0]
  have "build (\<lambda>_. True) 0 (CBB_add_utf8 (\<lambda>_. True) 0 0x20ac) \<noteq> None"
    using length_utf8(2) [of "unat (0x20ac :: u32)"] by simp
  then obtain data len where b: "build (\<lambda>_. True) 0 (CBB_add_utf8 (\<lambda>_. True) 0 0x20ac) = Some (data, len)"
    by auto
  with unicode_roundtrip [of "\<lambda>_. True" 0 "0x20ac" 0, THEN conjunct1] show ?thesis by blast
qed

end
