(* ===== verification/Stack.thy ===== *)
theory Stack
  imports Prelude "HOL-Library.Multiset"
begin

text \<open>
  crypto/stack/stack.c: the growable array of pointers behind every \<open>STACK_OF\<close>. A pointer
  is an option, \<open>None\<close> for NULL; a stack pointer is an option of the record too, since every
  function accepts NULL. A comparison function pointer is a value of the type \<open>'c\<close>, and
  \<open>call_cmp_func\<close> is the parameter \<open>cmp\<close> that says how to call it; callbacks with
  effects thread the state \<open>'w\<close> of the caller. \<open>A\<close> is the allocator, as in Cbb.
\<close>

section \<open>State\<close>

record ('p, 'c) stack_st =
  st_num :: size_t
  st_data :: "'p option list"
  st_sorted :: bool
  st_num_alloc :: size_t
  st_comp :: "'c option"

type_synonym ('p, 'c) stack = "('p, 'c) stack_st option"
type_synonym ('p, 'c) cmp_func = "'c \<Rightarrow> 'p option \<Rightarrow> 'p option \<Rightarrow> int"

definition kMinSize :: size_t where
  "kMinSize = 4"

definition OPENSSL_sk_new :: "(size_t \<Rightarrow> bool) \<Rightarrow> size_t \<Rightarrow> 'c option \<Rightarrow> ('p, 'c) stack" where
  \<comment> \<open>\<open>sz\<close> is \<open>sizeof(OPENSSL_STACK)\<close>\<close>
  "OPENSSL_sk_new A sz comp_func =
     (if \<not> A sz then None
      else if \<not> A (kMinSize * 8) then None
      else Some \<lparr>st_num = 0, st_data = replicate (unat kMinSize) None, st_sorted = False,
             st_num_alloc = kMinSize, st_comp = comp_func\<rparr>)"

definition OPENSSL_sk_new_null :: "(size_t \<Rightarrow> bool) \<Rightarrow> size_t \<Rightarrow> ('p, 'c) stack" where
  "OPENSSL_sk_new_null A sz = OPENSSL_sk_new A sz None"

fun OPENSSL_sk_num :: "('p, 'c) stack \<Rightarrow> size_t" where
  "OPENSSL_sk_num None = 0"
| "OPENSSL_sk_num (Some sk) = st_num sk"

fun OPENSSL_sk_zero :: "('p, 'c) stack \<Rightarrow> ('p, 'c) stack" where
  "OPENSSL_sk_zero None = None"
| "OPENSSL_sk_zero (Some sk) =
     (if st_num sk = 0 then Some sk
      else Some (sk\<lparr>st_data := replicate (unat (st_num sk)) None @ drop (unat (st_num sk)) (st_data sk),
                  st_num := 0, st_sorted := False\<rparr>))"

fun OPENSSL_sk_value :: "('p, 'c) stack \<Rightarrow> size_t \<Rightarrow> 'p option" where
  "OPENSSL_sk_value None i = None"
| "OPENSSL_sk_value (Some sk) i = (if i \<ge> st_num sk then None else st_data sk ! unat i)"

fun OPENSSL_sk_set :: "('p, 'c) stack \<Rightarrow> size_t \<Rightarrow> 'p option \<Rightarrow> 'p option \<times> ('p, 'c) stack" where
  "OPENSSL_sk_set None i value = (None, None)"
| "OPENSSL_sk_set (Some sk) i value =
     (if i \<ge> st_num sk then (None, Some sk)
      else (value, Some (sk\<lparr>st_data := (st_data sk)[unat i := value]\<rparr>)))"

fun pop_free_loop :: "('p \<Rightarrow> 'w \<Rightarrow> 'w) \<Rightarrow> 'p option list \<Rightarrow> 'w \<Rightarrow> 'w" where
  "pop_free_loop free_func [] w = w"
| "pop_free_loop free_func (p # ps) w =
     pop_free_loop free_func ps (case p of None \<Rightarrow> w | Some p \<Rightarrow> free_func p w)"

text \<open>The stack itself is gone afterwards.\<close>

fun OPENSSL_sk_pop_free_ex :: "('p \<Rightarrow> 'w \<Rightarrow> 'w) \<Rightarrow> ('p, 'c) stack \<Rightarrow> 'w \<Rightarrow> 'w" where
  "OPENSSL_sk_pop_free_ex free_func None w = w"
| "OPENSSL_sk_pop_free_ex free_func (Some sk) w =
     pop_free_loop free_func (take (unat (st_num sk)) (st_data sk)) w"

section \<open>Insertion and deletion\<close>

definition INT_MAX :: int where
  "INT_MAX = 2 ^ 31 - 1"

text \<open>The growth step of \<open>OPENSSL_sk_insert\<close>; \<open>sizeof(void *)\<close> is 8.\<close>

definition sk_grow :: "(size_t \<Rightarrow> bool) \<Rightarrow> ('p, 'c) stack_st \<Rightarrow> ('p, 'c) stack_st option" where
  "sk_grow A sk =
     (if st_num_alloc sk \<le> st_num sk + 1 then
        let new_alloc = push_bit 1 (st_num_alloc sk); alloc_size = new_alloc * 8;
            bad = (\<lambda>n sz. n < st_num_alloc sk \<or> sz div 8 \<noteq> n);
            (new_alloc, alloc_size) =
              (if bad new_alloc alloc_size then (st_num_alloc sk + 1, (st_num_alloc sk + 1) * 8)
               else (new_alloc, alloc_size))
        in if bad new_alloc alloc_size then None
           else if \<not> A alloc_size then None
           else Some (sk\<lparr>st_data := take (unat new_alloc)
                  (st_data sk @ replicate (unat new_alloc - length (st_data sk)) None),
                st_num_alloc := new_alloc\<rparr>)
      else Some sk)"

fun OPENSSL_sk_insert :: "(size_t \<Rightarrow> bool) \<Rightarrow> ('p, 'c) stack \<Rightarrow> 'p option \<Rightarrow> size_t \<Rightarrow> size_t \<times> ('p, 'c) stack" where
  "OPENSSL_sk_insert A None p where = (0, None)"
| "OPENSSL_sk_insert A (Some sk) p where =
     (if st_num sk \<ge> of_int INT_MAX then (0, Some sk)
      else case sk_grow A sk of None \<Rightarrow> (0, Some sk) | Some sk \<Rightarrow>
        let n = unat (st_num sk); w = unat where; data = st_data sk;
            data = (if where \<ge> st_num sk then data[n := p]
                    else (take w data @ [p] @ take (n - w) (drop w data) @ drop (n + 1) data));
            num = st_num sk + 1
        in (num, Some (sk\<lparr>st_data := data, st_num := num, st_sorted := False\<rparr>)))"

fun OPENSSL_sk_delete :: "('p, 'c) stack \<Rightarrow> size_t \<Rightarrow> 'p option \<times> ('p, 'c) stack" where
  "OPENSSL_sk_delete None where = (None, None)"
| "OPENSSL_sk_delete (Some sk) where =
     (if where \<ge> st_num sk then (None, Some sk)
      else
        let n = unat (st_num sk); w = unat where; data = st_data sk;
            data' = (if where \<noteq> st_num sk - 1
                     then take w data @ take (n - w - 1) (drop (w + 1) data) @ drop (n - 1) data
                     else data)
        in (data ! w, Some (sk\<lparr>st_data := data', st_num := st_num sk - 1\<rparr>)))"

text \<open>The index of the first element equal to \<open>p\<close>: the loops of \<open>delete_ptr\<close> and \<open>find\<close>.\<close>

fun index_loop :: "('p option \<Rightarrow> bool) \<Rightarrow> nat \<Rightarrow> 'p option list \<Rightarrow> nat option" where
  "index_loop P i [] = None"
| "index_loop P i (x # xs) = (if P x then Some i else index_loop P (Suc i) xs)"

fun OPENSSL_sk_delete_ptr :: "('p, 'c) stack \<Rightarrow> 'p option \<Rightarrow> 'p option \<times> ('p, 'c) stack" where
  "OPENSSL_sk_delete_ptr None p = (None, None)"
| "OPENSSL_sk_delete_ptr (Some sk) p =
     (case index_loop (\<lambda>q. q = p) 0 (take (unat (st_num sk)) (st_data sk)) of
        None \<Rightarrow> (None, Some sk)
      | Some i \<Rightarrow> OPENSSL_sk_delete (Some sk) (of_nat i))"

fun delete_if_loop :: "('p option \<Rightarrow> 'w \<Rightarrow> bool \<times> 'w) \<Rightarrow> nat \<Rightarrow> nat \<Rightarrow> nat \<Rightarrow> 'p option list \<Rightarrow> 'w \<Rightarrow>
    (nat \<times> 'p option list) \<times> 'w" where
  "delete_if_loop func i new_num 0 data w = ((new_num, data), w)"
| "delete_if_loop func i new_num (Suc k) data w =
     (let (drop_it, w) = func (data ! i) w in
      if drop_it then delete_if_loop func (Suc i) new_num k data w
      else delete_if_loop func (Suc i) (Suc new_num) k (data[new_num := data ! i]) w)"

fun OPENSSL_sk_delete_if :: "('p option \<Rightarrow> 'w \<Rightarrow> bool \<times> 'w) \<Rightarrow> ('p, 'c) stack \<Rightarrow> 'w \<Rightarrow> ('p, 'c) stack \<times> 'w" where
  "OPENSSL_sk_delete_if func None w = (None, w)"
| "OPENSSL_sk_delete_if func (Some sk) w =
     (let ((new_num, data), w) = delete_if_loop func 0 0 (unat (st_num sk)) (st_data sk) w
      in (Some (sk\<lparr>st_data := data, st_num := of_nat new_num\<rparr>), w))"

definition OPENSSL_sk_shift :: "('p, 'c) stack \<Rightarrow> 'p option \<times> ('p, 'c) stack" where
  "OPENSSL_sk_shift sk = (case sk of None \<Rightarrow> (None, None)
     | Some s \<Rightarrow> if st_num s = 0 then (None, sk) else OPENSSL_sk_delete sk 0)"

definition OPENSSL_sk_push :: "(size_t \<Rightarrow> bool) \<Rightarrow> ('p, 'c) stack \<Rightarrow> 'p option \<Rightarrow> size_t \<times> ('p, 'c) stack" where
  "OPENSSL_sk_push A sk p = OPENSSL_sk_insert A sk p (case sk of None \<Rightarrow> 0 | Some s \<Rightarrow> st_num s)"

definition OPENSSL_sk_pop :: "('p, 'c) stack \<Rightarrow> 'p option \<times> ('p, 'c) stack" where
  "OPENSSL_sk_pop sk = (case sk of None \<Rightarrow> (None, None)
     | Some s \<Rightarrow> if st_num s = 0 then (None, sk) else OPENSSL_sk_delete sk (st_num s - 1))"

section \<open>Searching\<close>

fun OPENSSL_sk_is_sorted :: "('p, 'c) stack \<Rightarrow> bool" where
  "OPENSSL_sk_is_sorted None = True"
| "OPENSSL_sk_is_sorted (Some sk) = (st_sorted sk \<or> (st_comp sk \<noteq> None \<and> st_num sk < 2))"

text \<open>The binary search; \<open>f i\<close> compares the key with the element at \<open>i\<close>.\<close>

function bsearch_loop :: "(nat \<Rightarrow> int) \<Rightarrow> nat \<Rightarrow> nat \<Rightarrow> nat option" where
  "bsearch_loop f lo hi =
     (if \<not> lo < hi then None
      else
        let mid = lo + (hi - lo - 1) div 2; r = f mid in
        if r > 0 then bsearch_loop f (mid + 1) hi
        else if r < 0 then bsearch_loop f lo mid
        else if hi - lo = 1 then Some mid
        else bsearch_loop f lo (mid + 1))"
  by pat_completeness auto
termination
  by (relation "measure (\<lambda>(f, lo, hi). hi - lo)") auto

declare bsearch_loop.simps [simp del]

fun OPENSSL_sk_find :: "('p, 'c) cmp_func \<Rightarrow> ('p, 'c) stack \<Rightarrow> 'p option \<Rightarrow> size_t option" where
  "OPENSSL_sk_find call_cmp None p = None"
| "OPENSSL_sk_find call_cmp (Some sk) p =
     (let elems = take (unat (st_num sk)) (st_data sk) in
      case st_comp sk of
        None \<Rightarrow> map_option of_nat (index_loop (\<lambda>q. q = p) 0 elems)
      | Some comp_func \<Rightarrow>
          if p = None then None
          else if \<not> OPENSSL_sk_is_sorted (Some sk)
            then map_option of_nat (index_loop (\<lambda>q. call_cmp comp_func p q = 0) 0 elems)
          else map_option of_nat
            (bsearch_loop (\<lambda>i. call_cmp comp_func p (st_data sk ! i)) 0 (unat (st_num sk))))"

section \<open>Heap sort\<close>

definition parent_idx :: "nat \<Rightarrow> nat" where
  "parent_idx idx = (idx - 1) div 2"

definition left_idx :: "nat \<Rightarrow> nat" where
  "left_idx idx = 2 * idx + 1"

text \<open>The child \<open>down_heap\<close> swaps with, or \<open>i\<close> itself.\<close>

definition heap_next :: "('a \<Rightarrow> 'a \<Rightarrow> int) \<Rightarrow> nat \<Rightarrow> nat \<Rightarrow> 'a list \<Rightarrow> nat" where
  "heap_next cmp i num xs =
     (let left = left_idx i;
          nxt = (if cmp (xs ! i) (xs ! left) < 0 then left else i);
          right = left + 1
      in if right < num \<and> cmp (xs ! nxt) (xs ! right) < 0 then right else nxt)"

function down_heap :: "('a \<Rightarrow> 'a \<Rightarrow> int) \<Rightarrow> nat \<Rightarrow> nat \<Rightarrow> 'a list \<Rightarrow> 'a list" where
  "down_heap cmp i num xs =
     (if left_idx i \<ge> num then xs
      else let nxt = heap_next cmp i num xs in
        if i = nxt then xs else down_heap cmp nxt num (xs[i := xs ! nxt, nxt := xs ! i]))"
  by pat_completeness auto
termination
  by (relation "measure (\<lambda>(cmp, i, num, xs). num - i)")
    (auto simp: heap_next_def left_idx_def Let_def split: if_splits)

declare down_heap.simps [simp del]

fun build_loop :: "('a \<Rightarrow> 'a \<Rightarrow> int) \<Rightarrow> nat \<Rightarrow> nat \<Rightarrow> 'a list \<Rightarrow> 'a list" where
  "build_loop cmp num 0 xs = down_heap cmp 0 num xs"
| "build_loop cmp num (Suc i) xs = build_loop cmp num i (down_heap cmp (Suc i) num xs)"

fun extract_loop :: "('a \<Rightarrow> 'a \<Rightarrow> int) \<Rightarrow> nat \<Rightarrow> 'a list \<Rightarrow> 'a list" where
  "extract_loop cmp 0 xs = xs"
| "extract_loop cmp (Suc i) xs =
     extract_loop cmp i (down_heap cmp 0 (Suc i) (xs[0 := xs ! Suc i, Suc i := xs ! 0]))"

fun OPENSSL_sk_sort :: "('p, 'c) cmp_func \<Rightarrow> ('p, 'c) stack \<Rightarrow> ('p, 'c) stack" where
  "OPENSSL_sk_sort call_cmp None = None"
| "OPENSSL_sk_sort call_cmp (Some sk) =
     (case st_comp sk of None \<Rightarrow> Some sk | Some comp_func \<Rightarrow>
        if st_sorted sk then Some sk
        else
          let cmp = call_cmp comp_func; n = unat (st_num sk);
              data = (if st_num sk \<ge> 2
                      then extract_loop cmp (n - 1) (build_loop cmp n (parent_idx (n - 1)) (st_data sk))
                      else st_data sk)
          in Some (sk\<lparr>st_data := data, st_sorted := True\<rparr>))"

section \<open>Copies\<close>

fun OPENSSL_sk_set_cmp_func :: "('p, 'c) stack_st \<Rightarrow> 'c option \<Rightarrow> 'c option \<times> ('p, 'c) stack_st" where
  "OPENSSL_sk_set_cmp_func sk comp_func =
     (st_comp sk, sk\<lparr>st_sorted := (if st_comp sk \<noteq> comp_func then False else st_sorted sk), st_comp := comp_func\<rparr>)"

fun OPENSSL_sk_dup :: "(size_t \<Rightarrow> bool) \<Rightarrow> size_t \<Rightarrow> ('p, 'c) stack \<Rightarrow> ('p, 'c) stack" where
  "OPENSSL_sk_dup A sz None = None"
| "OPENSSL_sk_dup A sz (Some sk) =
     (if \<not> A sz then None
      else if 8 * st_num_alloc sk = 0 \<or> \<not> A (8 * st_num_alloc sk) then None
      else Some \<lparr>st_num = st_num sk, st_data = take (unat (st_num_alloc sk)) (st_data sk),
             st_sorted = st_sorted sk, st_num_alloc = st_num_alloc sk, st_comp = st_comp sk\<rparr>)"

text \<open>The loop of \<open>OPENSSL_sk_deep_copy\<close>: \<open>copied\<close> are the elements before \<open>i\<close>, \<open>todo\<close> the
  others; on failure the copies made so far are freed.\<close>

fun deep_copy_loop :: "('p \<Rightarrow> 'w \<Rightarrow> 'p option \<times> 'w) \<Rightarrow> ('p \<Rightarrow> 'w \<Rightarrow> 'w) \<Rightarrow>
    'p option list \<Rightarrow> 'p option list \<Rightarrow> 'w \<Rightarrow> 'p option list option \<times> 'w" where
  "deep_copy_loop copy_func free_func copied [] w = (Some copied, w)"
| "deep_copy_loop copy_func free_func copied (None # todo) w =
     deep_copy_loop copy_func free_func (copied @ [None]) todo w"
| "deep_copy_loop copy_func free_func copied (Some p # todo) w =
     (case copy_func p w of
        (None, w) \<Rightarrow> (None, pop_free_loop free_func copied w)
      | (Some q, w) \<Rightarrow> deep_copy_loop copy_func free_func (copied @ [Some q]) todo w)"

definition OPENSSL_sk_deep_copy :: "(size_t \<Rightarrow> bool) \<Rightarrow> size_t \<Rightarrow> ('p, 'c) stack \<Rightarrow>
    ('p \<Rightarrow> 'w \<Rightarrow> 'p option \<times> 'w) \<Rightarrow> ('p \<Rightarrow> 'w \<Rightarrow> 'w) \<Rightarrow> 'w \<Rightarrow> ('p, 'c) stack \<times> 'w" where
  "OPENSSL_sk_deep_copy A sz sk copy_func free_func w =
     (case OPENSSL_sk_dup A sz sk of None \<Rightarrow> (None, w)
      | Some r \<Rightarrow>
          let n = unat (st_num r) in
          case deep_copy_loop copy_func free_func [] (take n (st_data r)) w of
            (None, w) \<Rightarrow> (None, w)
          | (Some data, w) \<Rightarrow> (Some (r\<lparr>st_data := data @ drop n (st_data r)\<rparr>), w))"

end
