(* ===== verification/StackSort.thy ===== *)
theory StackSort
  imports Stack
begin

text \<open>
  What the stack needs of a comparison function, as the locale \<open>comparator\<close>, and the two
  algorithms that rest on it: under any comparator, binary search finds the first match of a
  sorted array and the heap sort sorts.
\<close>

section \<open>Comparison functions\<close>

locale comparator =
  fixes cmp :: "'a \<Rightarrow> 'a \<Rightarrow> int"
  assumes neg: "cmp x y < 0 \<longleftrightarrow> 0 < cmp y x"
    and trans: "cmp x y \<le> 0 \<Longrightarrow> cmp y z \<le> 0 \<Longrightarrow> cmp x z \<le> 0"
begin

lemma le_total: "cmp x y \<le> 0 \<or> cmp y x \<le> 0"
  using neg [of x y] by linarith

lemma not_less: "\<not> cmp x y < 0 \<longleftrightarrow> cmp y x \<le> 0"
  using neg [of x y] by linarith

lemma less_le: "cmp x y < 0 \<Longrightarrow> cmp x y \<le> 0"
  by linarith

lemma cmp_refl: "cmp x x = 0"
  using neg [of x x] by linarith

lemma le_gt: "cmp x y \<le> 0 \<longleftrightarrow> 0 \<le> cmp y x"
  using neg [of y x] by linarith

lemma antitone_le: "cmp p x \<le> 0 \<Longrightarrow> cmp x y \<le> 0 \<Longrightarrow> cmp p y \<le> 0"
  by (rule trans)

lemma antitone_less: "cmp p x < 0 \<Longrightarrow> cmp x y \<le> 0 \<Longrightarrow> cmp p y < 0"
  using trans [of x y p] neg [of p y] neg [of p x] by linarith

end

abbreviation ordered :: "('a \<Rightarrow> 'a \<Rightarrow> int) \<Rightarrow> 'a list \<Rightarrow> bool" where
  "ordered cmp \<equiv> sorted_wrt (\<lambda>x y. cmp x y \<le> 0)"

section \<open>Searching\<close>

lemma index_loop_iff:
  "index_loop P i xs = Some m \<longleftrightarrow>
     i \<le> m \<and> m < i + length xs \<and> P (xs ! (m - i)) \<and> (\<forall>a. i \<le> a \<and> a < m \<longrightarrow> \<not> P (xs ! (a - i)))"
proof (induction xs arbitrary: i)
  case (Cons x xs)
  have nth: "(x # xs) ! (a - i) = xs ! (a - Suc i)" if "Suc i \<le> a" for a
    using that by (simp add: nth_Cons')
  show ?case
  proof (cases "P x")
    case True
    have "m = i" if "i \<le> m" "\<forall>a. i \<le> a \<and> a < m \<longrightarrow> \<not> P ((x # xs) ! (a - i))"
      using that(1) that(2) [rule_format, of i] True by fastforce
    with True show ?thesis by auto
  next
    case False
    have split: "i \<le> a \<longleftrightarrow> a = i \<or> Suc i \<le> a" for a by auto
    have "i \<le> m \<and> P ((x # xs) ! (m - i)) \<longleftrightarrow> Suc i \<le> m \<and> P (xs ! (m - Suc i))"
      using False nth [of m] split [of m] by auto
    moreover have "(\<forall>a. i \<le> a \<and> a < m \<longrightarrow> \<not> P ((x # xs) ! (a - i))) \<longleftrightarrow>
        (\<forall>a. Suc i \<le> a \<and> a < m \<longrightarrow> \<not> P (xs ! (a - Suc i)))"
      using False nth split by (metis diff_self_eq_0 nth_Cons_0)
    ultimately show ?thesis using False Cons by auto
  qed
qed simp

text \<open>The first index of \<open>[lo, hi)\<close> at which \<open>f\<close> is 0, when the sign of \<open>f\<close> never rises.\<close>

lemma bsearch_loop_iff:
  assumes "\<And>a b. lo \<le> a \<Longrightarrow> a \<le> b \<Longrightarrow> b < hi \<Longrightarrow> (f a \<le> 0 \<longrightarrow> f b \<le> 0) \<and> (f a < 0 \<longrightarrow> f b < 0)"
  shows "bsearch_loop f lo hi = Some m \<longleftrightarrow>
    lo \<le> m \<and> m < hi \<and> f m = 0 \<and> (\<forall>a. lo \<le> a \<and> a < m \<longrightarrow> f a \<noteq> 0)"
  using assms
proof (induction f lo hi rule: bsearch_loop.induct)
  case (1 f lo hi)
  note mono = "1.prems"
  show ?case
  proof (cases "lo < hi")
    case False
    then show ?thesis by (simp add: bsearch_loop.simps [of f lo hi])
  next
    case True
    define mid where "mid = lo + (hi - lo - 1) div 2"
    have mid: "lo \<le> mid" "mid < hi" using True by (auto simp: mid_def)
    note IH = "1.IH" [OF _ mid_def refl]
    note eq = bsearch_loop.simps [of f lo hi, folded mid_def, unfolded Let_def]
    consider "f mid > 0" | "f mid < 0" | "f mid = 0" "hi - lo = 1" | "f mid = 0" "hi - lo \<noteq> 1"
      by linarith
    then show ?thesis
    proof cases
      case 1
      have pos: "f a > 0" if "lo \<le> a" "a \<le> mid" for a
        using mono [OF that mid(2)] 1 by linarith
      have m1: "(f a \<le> 0 \<longrightarrow> f b \<le> 0) \<and> (f a < 0 \<longrightarrow> f b < 0)" if "mid + 1 \<le> a" "a \<le> b" "b < hi" for a b
        by (rule mono) (use that mid in simp_all)
      have "bsearch_loop f lo hi = bsearch_loop f (mid + 1) hi" using 1 True by (simp add: eq)
      moreover have "bsearch_loop f (mid + 1) hi = Some m \<longleftrightarrow> mid + 1 \<le> m \<and> m < hi \<and> f m = 0 \<and>
          (\<forall>a. mid + 1 \<le> a \<and> a < m \<longrightarrow> f a \<noteq> 0)"
        by (rule IH(1)) (use True 1 m1 in simp_all)
      moreover have "mid + 1 \<le> m" if "lo \<le> m" "f m = 0" using pos [of m] that by force
      moreover have "f a \<noteq> 0" if "\<forall>a. mid + 1 \<le> a \<and> a < m \<longrightarrow> f a \<noteq> 0" "lo \<le> a" "a < m" for a
        using that pos [of a] by (cases "a \<le> mid") auto
      ultimately show ?thesis using mid by auto
    next
      case 2
      have negv: "f b < 0" if "mid \<le> b" "b < hi" for b
        using mono [OF mid(1) that] 2 by linarith
      have m1: "(f a \<le> 0 \<longrightarrow> f b \<le> 0) \<and> (f a < 0 \<longrightarrow> f b < 0)" if "lo \<le> a" "a \<le> b" "b < mid" for a b
        by (rule mono) (use that mid in simp_all)
      have "bsearch_loop f lo hi = bsearch_loop f lo mid" using 2 True by (simp add: eq)
      moreover have "bsearch_loop f lo mid = Some m \<longleftrightarrow> lo \<le> m \<and> m < mid \<and> f m = 0 \<and>
          (\<forall>a. lo \<le> a \<and> a < m \<longrightarrow> f a \<noteq> 0)"
        by (rule IH(2)) (use True 2 m1 in simp_all)
      moreover have "m < mid" if "m < hi" "f m = 0" using negv [of m] that by force
      ultimately show ?thesis using mid by auto
    next
      case 3
      then have "bsearch_loop f lo hi = Some mid" "mid = lo" "hi = Suc lo"
        using True by (simp_all add: eq mid_def)
      with 3 show ?thesis by (auto simp: less_Suc_eq_le)
    next
      case 4
      have m1: "(f a \<le> 0 \<longrightarrow> f b \<le> 0) \<and> (f a < 0 \<longrightarrow> f b < 0)" if "lo \<le> a" "a \<le> b" "b < mid + 1" for a b
        by (rule mono) (use that mid in simp_all)
      have "bsearch_loop f lo hi = bsearch_loop f lo (mid + 1)" using 4 True by (simp add: eq)
      moreover have "bsearch_loop f lo (mid + 1) = Some m \<longleftrightarrow> lo \<le> m \<and> m < mid + 1 \<and> f m = 0 \<and>
          (\<forall>a. lo \<le> a \<and> a < m \<longrightarrow> f a \<noteq> 0)"
        by (rule IH(3)) (use True 4 m1 in simp_all)
      moreover have "m < mid + 1" if "\<forall>a. lo \<le> a \<and> a < m \<longrightarrow> f a \<noteq> 0"
        using that 4 mid by (intro notI [THEN not_le_imp_less]) auto
      ultimately show ?thesis using mid by auto
    qed
  qed
qed


section \<open>Heaps\<close>

definition heap_child :: "nat \<Rightarrow> nat \<Rightarrow> bool" where
  "heap_child j c \<longleftrightarrow> c = 2 * j + 1 \<or> c = 2 * j + 2"

lemma child_less: "heap_child j c \<Longrightarrow> j < c"
  by (auto simp: heap_child_def)

lemma child_parent: "0 < c \<Longrightarrow> heap_child (parent_idx c) c"
  unfolding heap_child_def parent_idx_def by presburger

lemma child_inj: "heap_child i c \<Longrightarrow> heap_child j c \<Longrightarrow> i = j"
  unfolding heap_child_def by presburger

text \<open>The heap property of the nodes from \<open>k\<close> on, everywhere or except at the hole \<open>i\<close>.\<close>

definition heap_ok :: "('a \<Rightarrow> 'a \<Rightarrow> int) \<Rightarrow> nat \<Rightarrow> nat \<Rightarrow> 'a list \<Rightarrow> bool" where
  "heap_ok cmp k n xs \<longleftrightarrow> (\<forall>j c. k \<le> j \<and> heap_child j c \<and> c < n \<longrightarrow> cmp (xs ! c) (xs ! j) \<le> 0)"

definition heap_hole :: "('a \<Rightarrow> 'a \<Rightarrow> int) \<Rightarrow> nat \<Rightarrow> nat \<Rightarrow> nat \<Rightarrow> 'a list \<Rightarrow> bool" where
  "heap_hole cmp k i n xs \<longleftrightarrow>
     (\<forall>j c. k \<le> j \<and> j \<noteq> i \<and> heap_child j c \<and> c < n \<longrightarrow> cmp (xs ! c) (xs ! j) \<le> 0) \<and>
     (\<forall>j c. k \<le> j \<and> heap_child j i \<and> heap_child i c \<and> c < n \<longrightarrow> cmp (xs ! c) (xs ! j) \<le> 0)"

lemma heap_hole_Suc: "heap_ok cmp (Suc i) n xs \<Longrightarrow> heap_hole cmp i i n xs"
  by (auto simp: heap_ok_def heap_hole_def dest: child_less)

lemma down_heap_perm:
  "i < n \<Longrightarrow> n \<le> length xs \<Longrightarrow>
     length (down_heap cmp i n xs) = length xs \<and>
     mset (take n (down_heap cmp i n xs)) = mset (take n xs) \<and>
     drop n (down_heap cmp i n xs) = drop n xs"
proof (induction cmp i n xs rule: down_heap.induct)
  case (1 cmp i n xs)
  define c where "c = heap_next cmp i n xs"
  show ?case
  proof (cases "left_idx i \<ge> n \<or> i = c")
    case True
    then show ?thesis by (auto simp: down_heap.simps [of cmp i n xs] c_def Let_def)
  next
    case False
    let ?ys = "xs[i := xs ! c, c := xs ! i]"
    have c: "c < n" using False by (auto simp: c_def heap_next_def left_idx_def Let_def split: if_splits)
    have "mset (take n ?ys) = mset (take n xs)"
      using mset_swap [of c "take n xs" i] c 1(2,3) by (simp add: take_update_swap)
    moreover have "drop n ?ys = drop n xs" using c 1(2) by simp
    moreover have "down_heap cmp i n xs = down_heap cmp c n ?ys"
      using False by (simp add: down_heap.simps [of cmp i n xs] c_def Let_def)
    ultimately show ?thesis using 1(1) [OF _ c_def] False c 1(3) by simp
  qed
qed

context comparator
begin

lemma heap_next_max:
  assumes "left_idx i < n" and "c = heap_next cmp i n xs"
  shows "cmp (xs ! i) (xs ! c) \<le> 0" and "heap_child i d \<Longrightarrow> d < n \<Longrightarrow> cmp (xs ! d) (xs ! c) \<le> 0"
    and "c = i \<or> heap_child i c" and "c < n \<or> c = i"
proof -
  let ?l = "left_idx i" and ?r = "left_idx i + 1"
  define m where "m = (if cmp (xs ! i) (xs ! ?l) < 0 then ?l else i)"
  have c: "c = (if ?r < n \<and> cmp (xs ! m) (xs ! ?r) < 0 then ?r else m)"
    by (simp add: assms(2) heap_next_def m_def Let_def)
  have m: "cmp (xs ! i) (xs ! m) \<le> 0" "cmp (xs ! ?l) (xs ! m) \<le> 0"
    using cmp_refl by (auto simp: m_def not_less)
  have mc: "cmp (xs ! m) (xs ! c) \<le> 0" using cmp_refl by (auto simp: c)
  have r: "?r < n \<Longrightarrow> cmp (xs ! ?r) (xs ! c) \<le> 0" using cmp_refl not_less by (auto simp: c)
  show "cmp (xs ! i) (xs ! c) \<le> 0" by (rule trans [OF m(1) mc])
  show "heap_child i d \<Longrightarrow> d < n \<Longrightarrow> cmp (xs ! d) (xs ! c) \<le> 0"
    using trans [OF m(2) mc] r by (auto simp: heap_child_def left_idx_def)
  show "c = i \<or> heap_child i c" "c < n \<or> c = i" using assms(1) by (auto simp: c m_def heap_child_def left_idx_def)
qed

lemma down_heap_ok:
  "heap_hole cmp k i n xs \<Longrightarrow> k \<le> i \<Longrightarrow> i < n \<Longrightarrow> n \<le> length xs \<Longrightarrow> heap_ok cmp k n (down_heap cmp i n xs)"
proof (induction "n - i" arbitrary: i xs rule: less_induct)
  case less
  define c where "c = heap_next cmp i n xs"
  show ?case
  proof (cases "left_idx i < n")
    case False
    then have "\<not> (heap_child i d \<and> d < n)" for d by (auto simp: heap_child_def left_idx_def)
    then show ?thesis
      using less.prems(1) False by (auto simp: down_heap.simps [of cmp i n xs] heap_hole_def heap_ok_def)
  next
    case left: True
    note nx = heap_next_max [OF left c_def]
    show ?thesis
    proof (cases "i = c")
      case True
      then have e: "down_heap cmp i n xs = xs" by (simp add: down_heap.simps [of cmp i n xs] c_def)
      show ?thesis
        unfolding heap_ok_def e
      proof (intro allI impI)
        fix j d
        assume "k \<le> j \<and> heap_child j d \<and> d < n"
        then show "cmp (xs ! d) (xs ! j) \<le> 0"
          using nx(2) [of d] less.prems(1) True by (cases "j = i") (auto simp: heap_hole_def)
      qed
    next
      case False
      let ?ys = "xs[i := xs ! c, c := xs ! i]"
      from False nx(3,4) have c: "heap_child i c" "c < n" by auto
      have ic: "i < c" using c(1) by (rule child_less)
      have ys: "?ys ! i = xs ! c" "?ys ! c = xs ! i" "\<And>j. j \<noteq> i \<Longrightarrow> j \<noteq> c \<Longrightarrow> ?ys ! j = xs ! j"
        using ic c(2) less.prems(4) by (simp_all add: nth_list_update)
      have "cmp (?ys ! d) (?ys ! j) \<le> 0" if j: "k \<le> j" "j \<noteq> c" "heap_child j d" "d < n" for j d
      proof (cases "j = i")
        case True
        then show ?thesis
          using nx(1) nx(2) [of d] that child_less [OF j(3)] ys by (cases "d = c") auto
      next
        case ji: False
        then have "d \<noteq> c" using child_inj [OF c(1)] j(3) by blast
        then show ?thesis
          using less.prems(1) that ji c ys by (cases "d = i") (auto simp: heap_hole_def)
      qed
      moreover have "cmp (?ys ! d) (?ys ! j) \<le> 0" if j: "k \<le> j" "heap_child j c" "heap_child c d" "d < n" for j d
      proof -
        have "j = i" using child_inj [OF c(1) j(2)] by simp
        then show ?thesis
          using less.prems(1,2) that ic child_less [OF j(3)] ys by (auto simp: heap_hole_def)
      qed
      ultimately have "heap_hole cmp k c n ?ys" by (simp add: heap_hole_def)
      moreover have "down_heap cmp i n xs = down_heap cmp c n ?ys"
        using left False by (simp add: down_heap.simps [of cmp i n xs] c_def Let_def)
      ultimately show ?thesis using less.hyps [of c ?ys] less.prems c(2) ic by simp
    qed
  qed
qed

lemma build_loop_ok:
  "heap_ok cmp (Suc i) n xs \<Longrightarrow> i < n \<Longrightarrow> n \<le> length xs \<Longrightarrow>
     heap_ok cmp 0 n (build_loop cmp n i xs) \<and> length (build_loop cmp n i xs) = length xs \<and>
     mset (take n (build_loop cmp n i xs)) = mset (take n xs) \<and> drop n (build_loop cmp n i xs) = drop n xs"
proof (induction i arbitrary: xs)
  case 0
  then show ?case
    using down_heap_ok [OF heap_hole_Suc, of 0 n xs] down_heap_perm [of 0 n xs cmp] by simp
next
  case (Suc i)
  then show ?case
    using down_heap_ok [OF heap_hole_Suc, of "Suc i" n xs] down_heap_perm [of "Suc i" n xs cmp] by simp
qed

lemma heap_root:
  assumes "heap_ok cmp 0 n xs" and "a < n"
  shows "cmp (xs ! a) (xs ! 0) \<le> 0"
  using assms(2)
proof (induction a rule: less_induct)
  case (less a)
  show ?case
  proof (cases "a = 0")
    case False
    then have c: "heap_child (parent_idx a) a" by (simp add: child_parent)
    then have "cmp (xs ! a) (xs ! parent_idx a) \<le> 0" using assms(1) less.prems by (simp add: heap_ok_def)
    moreover have "cmp (xs ! parent_idx a) (xs ! 0) \<le> 0"
      using less.IH child_less [OF c] less.prems by simp
    ultimately show ?thesis by (rule trans)
  qed (simp add: cmp_refl)
qed

text \<open>The loop that takes the maximum off the heap: the elements behind \<open>i\<close> are in place.\<close>

definition tail_ok :: "nat \<Rightarrow> nat \<Rightarrow> 'a list \<Rightarrow> bool" where
  "tail_ok i n xs \<longleftrightarrow> (\<forall>a b. a < b \<and> i < b \<and> b < n \<longrightarrow> cmp (xs ! a) (xs ! b) \<le> 0)"

lemma tail_ok_swap:
  assumes "heap_ok cmp 0 (Suc (Suc i)) xs" and "tail_ok (Suc i) n xs" and "Suc i < n" and "n \<le> length xs"
    and ys: "ys = xs[0 := xs ! Suc i, Suc i := xs ! 0]"
  shows "tail_ok i n ys" and "heap_hole cmp 0 0 (Suc i) ys"
proof -
  have nth: "ys ! a = (if a = 0 then xs ! Suc i else if a = Suc i then xs ! 0 else xs ! a)" if "a < n" for a
  proof -
    have "xs \<noteq> []" using assms(3,4) by auto
    then show ?thesis using that assms(3,4) by (simp add: ys nth_list_update)
  qed
  show "tail_ok i n ys"
    unfolding tail_ok_def
  proof (intro allI impI)
    fix a b
    assume ab: "a < b \<and> i < b \<and> b < n"
    show "cmp (ys ! a) (ys ! b) \<le> 0"
    proof (cases "b = Suc i")
      case True
      then show ?thesis
        using ab assms(3) nth heap_root [OF assms(1), of "Suc i"] heap_root [OF assms(1), of a]
        by (cases "a = 0") auto
    next
      case False
      then show ?thesis using ab assms(2,3) nth by (auto simp: tail_ok_def)
    qed
  qed
  show "heap_hole cmp 0 0 (Suc i) ys"
    using assms(1,3) nth by (auto simp: heap_hole_def heap_ok_def heap_child_def)
qed

lemma tail_ok_prefix:
  assumes "tail_ok i n ys" and "i < n" and "length zs = length ys" and "n \<le> length ys"
    and "mset (take (Suc i) zs) = mset (take (Suc i) ys)" and "drop (Suc i) zs = drop (Suc i) ys"
  shows "tail_ok i n zs"
  unfolding tail_ok_def
proof (intro allI impI)
  fix a b
  assume ab: "a < b \<and> i < b \<and> b < n"
  have eq: "zs ! d = ys ! d" if "i < d" "d < n" for d
  proof -
    have "drop (Suc i) zs ! (d - Suc i) = drop (Suc i) ys ! (d - Suc i)" by (simp only: assms(6))
    with that assms(3,4) show ?thesis by simp
  qed
  show "cmp (zs ! a) (zs ! b) \<le> 0"
  proof (cases "i < a")
    case True
    with ab eq assms(1) show ?thesis by (auto simp: tail_ok_def)
  next
    case False
    then have "zs ! a \<in> set (take (Suc i) zs)"
      using assms(2,3,4) by (auto simp: in_set_conv_nth intro!: exI [of _ a])
    then have "zs ! a \<in> set (take (Suc i) ys)" using assms(5) by (metis set_mset_mset)
    then obtain a' where "a' < Suc i" "zs ! a = ys ! a'" by (auto simp: in_set_conv_nth)
    with ab eq assms(1) show ?thesis by (auto simp: tail_ok_def)
  qed
qed

lemma mset_take_mono:
  assumes "mset (take m zs) = mset (take m ys)" and "drop m zs = drop m ys" and "m \<le> n"
  shows "mset (take n zs) = mset (take n ys) \<and> drop n zs = drop n ys"
proof -
  have "take n xs = take m xs @ take (n - m) (drop m xs)" "drop n xs = drop (n - m) (drop m xs)" for xs :: "'b list"
    using assms(3) by (simp_all add: take_add [symmetric])
  then show ?thesis using assms(1,2) by (metis mset_append)
qed

lemma extract_loop_ok:
  "heap_ok cmp 0 (Suc i) xs \<Longrightarrow> tail_ok i n xs \<Longrightarrow> i < n \<Longrightarrow> n \<le> length xs \<Longrightarrow>
     tail_ok 0 n (extract_loop cmp i xs) \<and> length (extract_loop cmp i xs) = length xs \<and>
     mset (take n (extract_loop cmp i xs)) = mset (take n xs) \<and> drop n (extract_loop cmp i xs) = drop n xs"
proof (induction i arbitrary: xs)
  case 0
  then show ?case by simp
next
  case (Suc i)
  define ys where "ys = xs[0 := xs ! Suc i, Suc i := xs ! 0]"
  define zs where "zs = down_heap cmp 0 (Suc i) ys"
  note sw = tail_ok_swap [OF Suc.prems ys_def]
  have ly: "length ys = length xs" by (simp add: ys_def)
  have p: "length zs = length ys" "mset (take (Suc i) zs) = mset (take (Suc i) ys)"
    "drop (Suc i) zs = drop (Suc i) ys"
    using down_heap_perm [of 0 "Suc i" ys cmp] Suc.prems ly by (simp_all add: zs_def)
  have h: "heap_ok cmp 0 (Suc i) zs"
    unfolding zs_def by (rule down_heap_ok [OF sw(2)]) (use Suc.prems ly in simp_all)
  have t: "tail_ok i n zs"
    by (rule tail_ok_prefix [OF sw(1) _ p(1) _ p(2,3)]) (use Suc.prems ly in simp_all)
  have "mset (take n ys) = mset (take n xs)"
    using mset_swap [of "Suc i" "take n xs" 0] Suc.prems by (simp add: ys_def take_update_swap)
  moreover have "drop n ys = drop n xs" using Suc.prems by (simp add: ys_def)
  moreover have "extract_loop cmp (Suc i) xs = extract_loop cmp i zs" by (simp add: zs_def ys_def)
  ultimately show ?case
    using Suc.IH [OF h t] Suc.prems p ly mset_take_mono [OF p(2,3), of n] by simp
qed

text \<open>Both loops together.\<close>

lemma heap_sort_ok:
  assumes "2 \<le> n" and "n \<le> length xs"
    and "ys = extract_loop cmp (n - 1) (build_loop cmp n (parent_idx (n - 1)) xs)"
  shows "ordered cmp (take n ys)" and "length ys = length xs"
    and "mset (take n ys) = mset (take n xs)" and "drop n ys = drop n xs"
proof -
  let ?p = "parent_idx (n - 1)" and ?b = "build_loop cmp n (parent_idx (n - 1)) xs"
  have "heap_ok cmp (Suc ?p) n xs"
    by (auto simp: heap_ok_def heap_child_def parent_idx_def)
  moreover have "?p < n" using assms(1) by (auto simp: parent_idx_def)
  ultimately have b: "heap_ok cmp 0 n ?b" "length ?b = length xs" "mset (take n ?b) = mset (take n xs)"
      "drop n ?b = drop n xs"
    using build_loop_ok [of ?p n xs] assms(2) by simp_all
  have t: "tail_ok (n - 1) n ?b" by (auto simp: tail_ok_def)
  have e: "tail_ok 0 n ys" "length ys = length ?b" "mset (take n ys) = mset (take n ?b)" "drop n ys = drop n ?b"
    using extract_loop_ok [OF _ t] b assms by simp_all
  show "ordered cmp (take n ys)"
    using e(1) by (auto simp: tail_ok_def sorted_wrt_iff_nth_less)
  show "length ys = length xs" "mset (take n ys) = mset (take n xs)" "drop n ys = drop n xs"
    using b e by simp_all
qed

end

end
