(* ===== verification/StackProps.thy ===== *)
theory StackProps
  imports StackSort
begin

text \<open>
  The stack as a list: the invariant of the record, what each operation does to the list of
  elements, and the meaning of the \<open>sorted\<close> flag in every stack_reachable state.
\<close>

definition elems :: "('p, 'c) stack_st \<Rightarrow> 'p option list" where
  "elems sk = take (unat (st_num sk)) (st_data sk)"

definition stack_ok :: "('p, 'c) stack_st \<Rightarrow> bool" where
  "stack_ok sk \<longleftrightarrow> length (st_data sk) = unat (st_num_alloc sk) \<and>
     unat (st_num sk) < unat (st_num_alloc sk) \<and> unat (st_num sk) < 2 ^ 31 \<and>
     unat (st_num_alloc sk) \<le> 2 ^ 32"

definition flag_ok :: "('p, 'c) cmp_func \<Rightarrow> ('p, 'c) stack_st \<Rightarrow> bool" where
  "flag_ok cmp sk \<longleftrightarrow> (st_sorted sk \<longrightarrow> (\<exists>c. st_comp sk = Some c \<and> ordered (cmp c) (elems sk)))"

lemma length_elems: "stack_ok sk \<Longrightarrow> length (elems sk) = unat (st_num sk)"
  by (simp add: elems_def stack_ok_def)

lemma OPENSSL_sk_new_ok:
  "OPENSSL_sk_new A sz cf = Some sk \<Longrightarrow> stack_ok sk \<and> flag_ok cmp sk \<and> elems sk = [] \<and> st_comp sk = cf"
  by (auto simp: OPENSSL_sk_new_def stack_ok_def flag_ok_def elems_def kMinSize_def split: if_splits)

section \<open>Insertion\<close>

lemma size_arith:
  assumes "unat (x :: u64) \<le> 2 ^ 60"
  shows "unat (push_bit 1 x) = 2 * unat x" and "unat (x * 8) = 8 * unat x" and "unat (x + 1) = unat x + 1"
    and "x * 8 div 8 = x" and "unat (8 * x) = 8 * unat x"
proof -
  have "unat (push_bit 1 x OR 0) = unat x * 2 ^ 1 + unat (0 :: u64)"
    using assms by (intro unat_push_bit_or) simp_all
  then show "unat (push_bit 1 x) = 2 * unat x" by simp
  show m: "unat (x * 8) = 8 * unat x"
    using assms unat_mult_lem [of x 8] by simp
  show "unat (8 * x) = 8 * unat x" using m by (simp add: mult.commute)
  show "unat (x + 1) = unat x + 1" using assms unat_add_u64 [of x 1] by simp
  have "unat (x * 8 div 8) = unat x" by (simp add: unat_div m)
  then show "x * 8 div 8 = x" by (simp add: word_unat_eq_iff)
qed

lemma sk_grow_cases:
  assumes "stack_ok sk" and "unat (st_num sk) < 2 ^ 31 - 1"
  obtains (fail) "sk_grow A sk = None" "\<not> (\<forall>l. A l)"
  | (ok) sk1 where "sk_grow A sk = Some sk1" "st_num sk1 = st_num sk" "st_comp sk1 = st_comp sk"
      "take (unat (st_num sk)) (st_data sk1) = elems sk" "unat (st_num sk) + 1 < unat (st_num_alloc sk1)"
      "length (st_data sk1) = unat (st_num_alloc sk1)" "unat (st_num_alloc sk1) \<le> 2 ^ 32"
proof -
  let ?na = "st_num_alloc sk"
  have na: "unat ?na \<le> 2 ^ 60" and n: "unat (st_num sk) \<le> 2 ^ 60"
    using assms by (auto simp: stack_ok_def)
  note a = size_arith [OF na]
  have n1: "unat (st_num sk + 1) = unat (st_num sk) + 1" by (rule size_arith [OF n])
  show thesis
  proof (cases "?na \<le> st_num sk + 1")
    case False
    then show thesis
      using ok [of sk] assms n1
      by (simp add: sk_grow_def stack_ok_def elems_def word_le_nat_alt)
  next
    case True
    then have le: "unat ?na \<le> unat (st_num sk) + 1" by (simp add: word_le_nat_alt n1)
    then have "unat (push_bit 1 ?na) \<le> 2 ^ 60" using assms by (subst a(1)) simp
    note b = size_arith(4) [OF this]
    have "\<not> push_bit 1 ?na < ?na" unfolding word_less_nat_alt a(1) by simp
    with b True have g: "sk_grow A sk = (if \<not> A (push_bit 1 ?na * 8) then None
        else Some (sk\<lparr>st_data := take (unat (push_bit 1 ?na))
                  (st_data sk @ replicate (unat (push_bit 1 ?na) - length (st_data sk)) None),
                st_num_alloc := push_bit 1 ?na\<rparr>))"
      by (simp add: sk_grow_def Let_def)
    show thesis
    proof (cases "A (push_bit 1 ?na * 8)")
      case False
      with g fail show thesis by auto
    next
      case A: True
      show thesis
        by (rule ok, simp only: g A not_True_eq_False if_False)
          (use assms le a(1) in \<open>simp_all add: stack_ok_def elems_def\<close>)
    qed
  qed
qed

text \<open>
  Insertion either fails, leaving the stack alone, because the stack is full or memory is short,
  or puts the pointer at the position asked for, or at the end.
\<close>

lemma OPENSSL_sk_insert_cases:
  assumes "stack_ok sk"
  obtains (fail) "OPENSSL_sk_insert A (Some sk) p w = (0, Some sk)"
      "unat (st_num sk) = 2 ^ 31 - 1 \<or> \<not> (\<forall>l. A l)"
  | (ok) sk' where "OPENSSL_sk_insert A (Some sk) p w = (st_num sk + 1, Some sk')" "stack_ok sk'"
      "elems sk' = take (unat w) (elems sk) @ p # drop (unat w) (elems sk)"
      "\<not> st_sorted sk'" "st_comp sk' = st_comp sk" "st_num sk' = st_num sk + 1"
proof (cases "unat (st_num sk) < 2 ^ 31 - 1")
  case False
  then have "st_num sk \<ge> of_int INT_MAX" by (simp add: INT_MAX_def word_le_nat_alt)
  moreover have "unat (st_num sk) = 2 ^ 31 - 1" using False assms by (simp add: stack_ok_def)
  ultimately show thesis using fail by simp
next
  case True
  then have lt: "\<not> st_num sk \<ge> of_int INT_MAX" by (simp add: INT_MAX_def word_le_nat_alt)
  have n: "unat (st_num sk) \<le> 2 ^ 60" using assms by (simp add: stack_ok_def)
  note n1 = size_arith(3) [OF n]
  from assms True show thesis
  proof (cases rule: sk_grow_cases [where A = A])
    case fail
    with lt that(1) show thesis by simp
  next
    case (ok sk1)
    let ?n = "unat (st_num sk)" and ?w = "unat w"
    have l: "?n + 1 \<le> length (st_data sk1)" using ok by simp
    define data where "data = (if w \<ge> st_num sk then (st_data sk1)[?n := p]
        else take ?w (st_data sk1) @ [p] @ take (?n - ?w) (drop ?w (st_data sk1)) @ drop (?n + 1) (st_data sk1))"
    have d: "length data = length (st_data sk1) \<and>
        take (?n + 1) data = take ?w (elems sk) @ p # drop ?w (elems sk)"
    proof (cases "w \<ge> st_num sk")
      case True
      then have "?n \<le> ?w" by (simp add: word_le_nat_alt)
      moreover have "take (?n + 1) ((st_data sk1)[?n := p]) = take ?n (st_data sk1) @ [p]"
        using l by (simp add: take_Suc_conv_app_nth)
      ultimately show ?thesis using True ok length_elems [OF assms] by (simp add: data_def)
    next
      case False
      then have "?w < ?n" by (simp add: word_le_nat_alt)
      then show ?thesis
        using False ok l length_elems [OF assms]
        by (simp add: data_def ok(4) [symmetric] min_absorb1 min_absorb2 drop_take Suc_diff_le)
    qed
    have "OPENSSL_sk_insert A (Some sk) p w = (st_num sk + 1,
        Some (sk1\<lparr>st_data := data, st_num := st_num sk + 1, st_sorted := False\<rparr>))"
      using lt ok by (simp add: data_def Let_def)
    moreover have "stack_ok (sk1\<lparr>st_data := data, st_num := st_num sk + 1, st_sorted := False\<rparr>)"
      using ok d True n1 by (simp add: stack_ok_def)
    moreover have "elems (sk1\<lparr>st_data := data, st_num := st_num sk + 1, st_sorted := False\<rparr>) =
        take ?w (elems sk) @ p # drop ?w (elems sk)"
      using d n1 by (simp add: elems_def)
    ultimately show thesis using that(2) ok by simp
  qed
qed

section \<open>Deletion and the rest\<close>

lemma unat_pred: "x \<noteq> 0 \<Longrightarrow> unat (x - 1 :: u64) = unat x - 1"
  by (simp add: unat_minus_one)

lemma OPENSSL_sk_delete_eq:
  assumes "stack_ok sk" and "unat w < unat (st_num sk)"
  obtains sk' where "OPENSSL_sk_delete (Some sk) w = (elems sk ! unat w, Some sk')" "stack_ok sk'"
    "elems sk' = take (unat w) (elems sk) @ drop (Suc (unat w)) (elems sk)"
    "st_sorted sk' = st_sorted sk" "st_comp sk' = st_comp sk" "st_num sk' = st_num sk - 1"
proof -
  let ?n = "unat (st_num sk)" and ?w = "unat w"
  define data where "data = (if w \<noteq> st_num sk - 1
     then take ?w (st_data sk) @ take (?n - ?w - 1) (drop (?w + 1) (st_data sk)) @ drop (?n - 1) (st_data sk)
     else st_data sk)"
  from assms(2) have "st_num sk \<noteq> 0" by auto
  then have n1: "unat (st_num sk - 1) = ?n - 1" by (rule unat_pred)
  have last: "w \<noteq> st_num sk - 1 \<longleftrightarrow> ?w < ?n - 1"
    using assms(2) by (auto simp: word_unat_eq_iff n1)
  have l: "?n \<le> length (st_data sk)" using assms(1) by (simp add: stack_ok_def)
  have "\<not> w \<ge> st_num sk" using assms(2) by (simp add: word_le_nat_alt)
  then have del: "OPENSSL_sk_delete (Some sk) w =
      (elems sk ! ?w, Some (sk\<lparr>st_data := data, st_num := st_num sk - 1\<rparr>))"
    using assms(2) by (simp add: data_def elems_def Let_def)
  have "length data = length (st_data sk)"
    using l assms(2) by (auto simp: data_def last)
  then have "stack_ok (sk\<lparr>st_data := data, st_num := st_num sk - 1\<rparr>)"
    using assms(1) by (simp add: stack_ok_def n1 less_imp_diff_less)
  moreover have "take (?n - 1) data = take ?w (elems sk) @ drop (Suc ?w) (elems sk)"
  proof (cases "?w < ?n - 1")
    case True
    then show ?thesis using l by (simp add: data_def last elems_def drop_take min_absorb1)
  next
    case False
    with assms(2) have "?w = ?n - 1" by simp
    then show ?thesis using l assms(2) by (simp add: data_def last elems_def)
  qed
  ultimately show thesis using del that by (simp add: elems_def n1)
qed

lemma ordered_delete:
  "ordered cmp xs \<Longrightarrow> ordered cmp (take w xs @ drop (Suc w) xs)"
proof (cases "drop w xs")
  case (Cons y ys)
  then have "drop (Suc w) xs = ys" by (metis drop_Suc list.sel(3) tl_drop)
  moreover assume "ordered cmp xs"
  then have "ordered cmp (take w xs @ y # ys)" by (simp flip: Cons)
  ultimately show ?thesis by (simp add: sorted_wrt_append)
qed simp

lemma delete_if_loop_eq:
  assumes "delete_if_loop func i new_num k data w = ((m, data'), w')" and "new_num \<le> i" and "i + k \<le> length data"
  shows "length data' = length data \<and> m \<le> new_num + k \<and> new_num \<le> m \<and>
    (\<exists>keep. take m data' = take new_num data @ nths (take k (drop i data)) keep)"
  using assms
proof (induction k arbitrary: i new_num data w)
  case 0
  then show ?case by (auto intro!: exI [of _ "{}"])
next
  case (Suc k)
  obtain b w1 where f: "func (data ! i) w = (b, w1)" by (cases "func (data ! i) w")
  have i: "i < length data" using Suc.prems(3) by simp
  have t: "take (Suc k) (drop i data) = data ! i # take k (drop (Suc i) data)"
    using i by (simp add: Cons_nth_drop_Suc [symmetric])
  show ?case
  proof (cases b)
    case True
    with Suc.prems f have "length data' = length data \<and> m \<le> new_num + k \<and> new_num \<le> m \<and>
        (\<exists>keep. take m data' = take new_num data @ nths (take k (drop (Suc i) data)) keep)"
      by (intro Suc.IH) auto
    moreover have "nths (x # ys) (Suc ` keep) = nths ys keep" for x :: "'a option" and ys keep
      by (simp add: nths_Cons) (auto intro: arg_cong [of _ _ "nths ys"])
    ultimately show ?thesis unfolding t by (metis add_Suc_right le_SucI)
  next
    case False
    let ?d = "data[new_num := data ! i]"
    from Suc.prems f False have "length data' = length ?d \<and> m \<le> Suc new_num + k \<and> Suc new_num \<le> m \<and>
        (\<exists>keep. take m data' = take (Suc new_num) ?d @ nths (take k (drop (Suc i) ?d)) keep)"
      by (intro Suc.IH [of "Suc i" "Suc new_num" ?d w1]) auto
    moreover have "take (Suc new_num) ?d = take new_num data @ [data ! i]"
      using i Suc.prems(2) by (simp add: take_Suc_conv_app_nth)
    moreover have "drop (Suc i) ?d = drop (Suc i) data" using Suc.prems(2) by simp
    moreover have "nths (x # ys) (insert 0 (Suc ` keep)) = x # nths ys keep" for x :: "'a option" and ys keep
      by (simp add: nths_Cons) (auto intro: arg_cong [of _ _ "nths ys"])
    ultimately show ?thesis unfolding t by (metis Suc_leD add_Suc_shift append_Cons append_assoc append_Nil length_list_update)
  qed
qed


lemma delete_if_loop_filter:
  assumes "\<And>p w. fst (func p w) = P p" and "new_num \<le> i" and "i + k \<le> length data"
    and "delete_if_loop func i new_num k data w = ((m, data'), w')"
  shows "take m data' = take new_num data @ filter (\<lambda>p. \<not> P p) (take k (drop i data))"
  using assms(2-)
proof (induction k arbitrary: i new_num data w)
  case 0
  then show ?case by auto
next
  case (Suc k)
  obtain b w1 where f: "func (data ! i) w = (b, w1)" by (cases "func (data ! i) w")
  then have b: "b = P (data ! i)" using assms(1) [of "data ! i" w] by simp
  have i: "i < length data" using Suc.prems(2) by simp
  have t: "take (Suc k) (drop i data) = data ! i # take k (drop (Suc i) data)"
    using i by (simp add: Cons_nth_drop_Suc [symmetric])
  show ?case
  proof (cases b)
    case True
    with Suc.prems f have "take m data' = take new_num data @ filter (\<lambda>p. \<not> P p) (take k (drop (Suc i) data))"
      by (intro Suc.IH) auto
    with True b show ?thesis by (simp add: t)
  next
    case False
    let ?d = "data[new_num := data ! i]"
    from Suc.prems f False have "take m data' = take (Suc new_num) ?d @ filter (\<lambda>p. \<not> P p) (take k (drop (Suc i) ?d))"
      by (intro Suc.IH [of "Suc new_num" "Suc i" ?d w1]) auto
    with False b i Suc.prems(1) show ?thesis by (simp add: t take_Suc_conv_app_nth)
  qed
qed

lemma OPENSSL_sk_delete_if_ok:
  assumes "stack_ok sk" and "OPENSSL_sk_delete_if func (Some sk) w = (Some sk', w')"
  shows "stack_ok sk' \<and> st_comp sk' = st_comp sk \<and> st_sorted sk' = st_sorted sk \<and>
    (\<exists>keep. elems sk' = nths (elems sk) keep)"
    and "(\<And>p w. fst (func p w) = P p) \<Longrightarrow> elems sk' = filter (\<lambda>p. \<not> P p) (elems sk)"
proof -
  let ?n = "unat (st_num sk)"
  obtain m data where l: "delete_if_loop func 0 0 ?n (st_data sk) w = ((m, data), w')"
    and sk': "sk' = sk\<lparr>st_data := data, st_num := of_nat m\<rparr>"
    using assms(2) by (cases "delete_if_loop func 0 0 ?n (st_data sk) w") auto
  have len: "0 + ?n \<le> length (st_data sk)" using assms(1) by (simp add: stack_ok_def)
  from delete_if_loop_eq [OF l order.refl len] have m: "length data = length (st_data sk)" "m \<le> ?n"
    and keep: "\<exists>keep. take m data = nths (take ?n (st_data sk)) keep" by auto
  from m(2) assms(1) have um: "unat (of_nat m :: size_t) = m"
    by (simp add: stack_ok_def unat_of_nat)
  have "stack_ok sk'" using assms(1) m um by (auto simp: stack_ok_def sk')
  then show "stack_ok sk' \<and> st_comp sk' = st_comp sk \<and> st_sorted sk' = st_sorted sk \<and>
    (\<exists>keep. elems sk' = nths (elems sk) keep)"
    using keep by (simp add: sk' elems_def um)
  show "(\<And>p w. fst (func p w) = P p) \<Longrightarrow> elems sk' = filter (\<lambda>p. \<not> P p) (elems sk)"
    using delete_if_loop_filter [of func P, OF _ order.refl len l] by (simp add: sk' elems_def um)
qed

lemma OPENSSL_sk_zero_ok:
  "stack_ok sk \<Longrightarrow> OPENSSL_sk_zero (Some sk) = Some sk' \<Longrightarrow>
     stack_ok sk' \<and> elems sk' = [] \<and> st_comp sk' = st_comp sk \<and> (st_sorted sk' \<longrightarrow> sk' = sk)"
  by (auto simp: stack_ok_def elems_def split: if_splits)

lemma OPENSSL_sk_dup_ok:
  assumes "stack_ok sk" and "OPENSSL_sk_dup A sz (Some sk) = Some sk'"
  shows "sk' = sk"
  using assms by (auto simp: stack_ok_def split: if_splits)

lemma OPENSSL_sk_sort_ok:
  assumes "stack_ok sk" and "flag_ok cmp sk" and "comparator (cmp c)" and "st_comp sk = Some c"
    and "OPENSSL_sk_sort cmp (Some sk) = Some sk'"
  shows "stack_ok sk' \<and> st_comp sk' = Some c \<and> st_sorted sk' \<and> ordered (cmp c) (elems sk') \<and>
    mset (elems sk') = mset (elems sk)"
proof (cases "st_sorted sk")
  case True
  with assms show ?thesis by (auto simp: flag_ok_def)
next
  case False
  let ?n = "unat (st_num sk)"
  have n: "?n \<le> length (st_data sk)" using assms(1) by (simp add: stack_ok_def)
  show ?thesis
  proof (cases "st_num sk \<ge> 2")
    case True
    then have n2: "2 \<le> ?n" by (simp add: word_le_nat_alt)
    note h = comparator.heap_sort_ok [OF assms(3) n2 n refl]
    from True False assms(4,5) h show ?thesis
      using assms(1) by (auto simp: stack_ok_def elems_def Let_def)
  next
    case F: False
    then have "?n < 2" by (simp add: word_le_nat_alt)
    then have "ordered (cmp c) (elems sk)"
      using length_elems [OF assms(1)] by (auto simp: sorted_wrt_iff_nth_less)
    with F False assms show ?thesis by (auto simp: stack_ok_def elems_def Let_def)
  qed
qed


lemma ordered_nths: "ordered cmp xs \<Longrightarrow> ordered cmp (nths xs keep)"
  by (induction xs arbitrary: keep) (auto simp: nths_Cons dest: in_set_nthsD)

section \<open>Reachable stacks\<close>

text \<open>The stacks a program gets from the operations that keep the flag's promise; \<open>OPENSSL_sk_set\<close>
  and \<open>OPENSSL_sk_deep_copy\<close>, which replace elements under the flag, are not among them. The callback of \<open>delete_if\<close> may keep a
  count in its state, so it can answer in any way.\<close>

inductive stack_reachable :: "(size_t \<Rightarrow> bool) \<Rightarrow> ('p, 'c) cmp_func \<Rightarrow> ('p, 'c) stack_st \<Rightarrow> bool"
  for A :: "size_t \<Rightarrow> bool" and cmp :: "('p, 'c) cmp_func" where
  new: "OPENSSL_sk_new A sz cf = Some sk \<Longrightarrow> stack_reachable A cmp sk"
| insert: "stack_reachable A cmp sk \<Longrightarrow> OPENSSL_sk_insert A (Some sk) p w = (r, Some sk') \<Longrightarrow> stack_reachable A cmp sk'"
| delete: "stack_reachable A cmp sk \<Longrightarrow> OPENSSL_sk_delete (Some sk) w = (r, Some sk') \<Longrightarrow> stack_reachable A cmp sk'"
| delete_if: "stack_reachable A cmp sk \<Longrightarrow> OPENSSL_sk_delete_if func (Some sk) (w :: nat) = (Some sk', w') \<Longrightarrow> stack_reachable A cmp sk'"
| zero: "stack_reachable A cmp sk \<Longrightarrow> OPENSSL_sk_zero (Some sk) = Some sk' \<Longrightarrow> stack_reachable A cmp sk'"
| sort: "stack_reachable A cmp sk \<Longrightarrow> OPENSSL_sk_sort cmp (Some sk) = Some sk' \<Longrightarrow> stack_reachable A cmp sk'"
| set_cmp_func: "stack_reachable A cmp sk \<Longrightarrow> OPENSSL_sk_set_cmp_func sk cf = (old, sk') \<Longrightarrow> stack_reachable A cmp sk'"
| dup: "stack_reachable A cmp sk \<Longrightarrow> OPENSSL_sk_dup A sz (Some sk) = Some sk' \<Longrightarrow> stack_reachable A cmp sk'"

lemma stack_reachable_inv:
  assumes "stack_reachable A cmp sk" and "\<And>c. comparator (cmp c)"
  shows "stack_ok sk \<and> flag_ok cmp sk"
  using assms(1)
proof induction
  case (new sz cf sk)
  then show ?case by (simp add: OPENSSL_sk_new_ok)
next
  case (insert sk p w r sk')
  show ?case
    by (rule OPENSSL_sk_insert_cases [of sk A p w]) (use insert in \<open>auto simp: flag_ok_def\<close>)
next
  case (delete sk w r sk')
  show ?case
  proof (cases "unat w < unat (st_num sk)")
    case True
    with delete obtain sk1 where "OPENSSL_sk_delete (Some sk) w = (elems sk ! unat w, Some sk1)" "stack_ok sk1"
      "elems sk1 = take (unat w) (elems sk) @ drop (Suc (unat w)) (elems sk)"
      "st_sorted sk1 = st_sorted sk" "st_comp sk1 = st_comp sk"
      by (blast elim: OPENSSL_sk_delete_eq)
    with delete show ?thesis by (auto simp: flag_ok_def intro: ordered_delete)
  next
    case False
    then have "w \<ge> st_num sk" by (simp add: word_le_nat_alt)
    with delete show ?thesis by simp
  qed
next
  case (delete_if sk func w sk' w')
  then have "stack_ok sk" "flag_ok cmp sk" by auto
  from OPENSSL_sk_delete_if_ok(1) [OF this(1) delete_if.hyps(2)] obtain keep where "stack_ok sk'"
    and f: "st_comp sk' = st_comp sk" "st_sorted sk' = st_sorted sk" "elems sk' = nths (elems sk) keep"
    by (elim conjE exE)
  have "flag_ok cmp sk'"
    unfolding flag_ok_def f
  proof
    assume "st_sorted sk"
    with \<open>flag_ok cmp sk\<close> obtain c where "st_comp sk = Some c" "ordered (cmp c) (elems sk)"
      unfolding flag_ok_def by (elim impE exE conjE)
    then show "\<exists>c. st_comp sk = Some c \<and> ordered (cmp c) (nths (elems sk) keep)"
      using ordered_nths by blast
  qed
  with \<open>stack_ok sk'\<close> show ?case by (rule conjI)
next
  case (zero sk sk')
  then have ok: "stack_ok sk" "flag_ok cmp sk" by auto
  have z: "stack_ok sk'" "st_sorted sk' \<Longrightarrow> sk' = sk"
    using OPENSSL_sk_zero_ok [OF ok(1) zero.hyps(2)] by simp_all
  have "flag_ok cmp sk'"
  proof (cases "st_sorted sk'")
    case True
    with z(2) ok(2) show ?thesis by simp
  qed (simp add: flag_ok_def)
  with z(1) show ?case by (rule conjI)
next
  case (sort sk sk')
  then have ok: "stack_ok sk" "flag_ok cmp sk" by auto
  show ?case
  proof (cases "st_comp sk")
    case None
    with sort ok show ?thesis by simp
  next
    case (Some c)
    from OPENSSL_sk_sort_ok [OF ok assms(2) Some sort.hyps(2)] show ?thesis
      by (auto simp: flag_ok_def)
  qed
next
  case (set_cmp_func sk cf old sk')
  then show ?case by (auto simp: flag_ok_def stack_ok_def elems_def split: if_splits)
next
  case (dup sk sz sk')
  then show ?case using OPENSSL_sk_dup_ok by blast
qed


section \<open>Properties\<close>

text \<open>A comparator for examples: integers by value, NULL as 0.\<close>

definition int_cmp :: "unit \<Rightarrow> int option \<Rightarrow> int option \<Rightarrow> int" where
  "int_cmp c x y = (case x of None \<Rightarrow> 0 | Some a \<Rightarrow> a) - (case y of None \<Rightarrow> 0 | Some b \<Rightarrow> b)"

lemma int_cmp_comparator: "comparator (int_cmp c)"
  by unfold_locales (auto simp: int_cmp_def)

text \<open>
  C15: the invariant of the stack. In every state reachable by creation, insertion, deletion,
  zeroing, sorting, duplicating and changing the comparison function, the array has
  \<open>num_alloc\<close> slots with one to spare, fewer than \<open>INT_MAX + 1\<close> of them used, and when
  the \<open>sorted\<close> flag is set there is a comparison function and the elements are in its order.
\<close>

theorem stack_invariant:
  assumes "stack_reachable A cmp sk" and "\<And>c. comparator (cmp c)"
  shows "length (st_data sk) = unat (st_num_alloc sk) \<and> unat (st_num sk) < unat (st_num_alloc sk) \<and>
    unat (st_num sk) \<le> nat INT_MAX \<and>
    (st_sorted sk \<longrightarrow> (\<exists>c. st_comp sk = Some c \<and> ordered (cmp c) (take (unat (st_num sk)) (st_data sk))))"
  using stack_reachable_inv [OF assms] by (auto simp: stack_ok_def flag_ok_def elems_def INT_MAX_def)

theorem stack_invariant_witness:
  "\<exists>sk :: (int, unit) stack_st. OPENSSL_sk_new (\<lambda>_. True) 40 (Some ()) = Some sk \<and>
     length (st_data sk) = unat (st_num_alloc sk)"
proof -
  obtain sk :: "(int, unit) stack_st" where n: "OPENSSL_sk_new (\<lambda>_. True) 40 (Some ()) = Some sk"
    by (auto simp: OPENSSL_sk_new_def)
  with stack_invariant [OF stack_reachable.new [OF n] int_cmp_comparator] show ?thesis by blast
qed

text \<open>The two searches of \<open>OPENSSL_sk_find\<close>.\<close>

lemma found_index:
  assumes "stack_ok sk" "\<And>m. r = Some m \<Longrightarrow> m < unat (st_num sk)"
  shows "map_option of_nat r = Some i \<longleftrightarrow> r = Some (unat (i :: size_t))"
proof (cases r)
  case (Some m)
  with assms have "m < 2 ^ 64" by (auto simp: stack_ok_def dest: less_trans)
  then show ?thesis unfolding Some by (auto simp: unat_of_nat)
qed simp

lemma linear_search:
  assumes "stack_ok sk"
  shows "map_option of_nat (index_loop P 0 (elems sk)) = Some i \<longleftrightarrow>
    unat (i :: size_t) < length (elems sk) \<and> P (elems sk ! unat i) \<and> (\<forall>j < unat i. \<not> P (elems sk ! j))"
  by (subst found_index [OF assms]) (auto simp: index_loop_iff length_elems [OF assms])

lemma binary_search:
  assumes "stack_ok sk" "comparator le" "ordered le (elems sk)"
  shows "map_option of_nat (bsearch_loop (\<lambda>a. le p (st_data sk ! a)) 0 (unat (st_num sk))) = Some i \<longleftrightarrow>
    unat (i :: size_t) < length (elems sk) \<and> le p (elems sk ! unat i) = 0 \<and>
    (\<forall>j < unat i. le p (elems sk ! j) \<noteq> 0)"
proof -
  let ?n = "unat (st_num sk)" and ?f = "\<lambda>a. le p (st_data sk ! a)"
  note l = length_elems [OF assms(1)]
  note anti = comparator.antitone_le [OF assms(2)] comparator.antitone_less [OF assms(2)]
  have le: "a < b \<Longrightarrow> b < ?n \<Longrightarrow> le (elems sk ! a) (elems sk ! b) \<le> 0" for a b
    using assms(3) l by (simp add: sorted_wrt_iff_nth_less)
  have f: "?f a = le p (elems sk ! a)" if "a < ?n" for a
    using that by (simp add: elems_def)
  have b: "bsearch_loop ?f 0 ?n = Some m \<longleftrightarrow>
      0 \<le> m \<and> m < ?n \<and> ?f m = 0 \<and> (\<forall>a. 0 \<le> a \<and> a < m \<longrightarrow> ?f a \<noteq> 0)" for m
  proof (rule bsearch_loop_iff)
    fix a b
    assume "a \<le> b" "b < ?n"
    then show "(?f a \<le> 0 \<longrightarrow> ?f b \<le> 0) \<and> (?f a < 0 \<longrightarrow> ?f b < 0)"
      using f [of a] f [of b] le [of a b] anti by (cases "a = b") auto
  qed
  have "map_option of_nat (bsearch_loop ?f 0 ?n) = Some i \<longleftrightarrow> bsearch_loop ?f 0 ?n = Some (unat i)"
    by (rule found_index [OF assms(1)]) (simp add: b)
  with l f show ?thesis by (auto simp: b)
qed

text \<open>
  C17: searching. On a well-formed stack whose \<open>sorted\<close> flag tells the truth, \<open>OPENSSL_sk_find\<close>
  returns \<open>i\<close> exactly when element \<open>i\<close> is the first that compares equal to the key, whether it
  searches linearly or by bisection; without a comparison function, the first equal pointer.
\<close>

theorem OPENSSL_sk_find_first:
  assumes "stack_ok sk" and "flag_ok cmp sk" and "\<And>c. comparator (cmp c)"
  shows "OPENSSL_sk_find cmp (Some sk) p = Some i \<longleftrightarrow>
    (let same = (\<lambda>q. case st_comp sk of None \<Rightarrow> q = p | Some c \<Rightarrow> p \<noteq> None \<and> cmp c p q = 0) in
     unat i < length (elems sk) \<and> same (elems sk ! unat i) \<and>
     (\<forall>j < unat i. \<not> same (elems sk ! j)))"
proof (cases "st_comp sk")
  case None
  then show ?thesis using linear_search [OF assms(1)] by (simp add: Let_def flip: elems_def)
next
  case (Some c)
  show ?thesis
  proof (cases "p = None \<or> \<not> OPENSSL_sk_is_sorted (Some sk)")
    case True
    then show ?thesis
      using Some linear_search [OF assms(1), of "\<lambda>q. cmp c p q = 0"] by (auto simp: Let_def simp flip: elems_def)
  next
    case False
    have "ordered (cmp c) (elems sk)"
      using False Some assms(2) length_elems [OF assms(1)]
      by (auto simp: flag_ok_def sorted_wrt_iff_nth_less word_less_nat_alt)
    from binary_search [OF assms(1,3) this, of p i] False Some show ?thesis by (auto simp: Let_def)
  qed
qed

text \<open>Three integers pushed and sorted, as an example stack.\<close>

definition example_stack :: "(int, unit) stack_st" where
  "example_stack = \<lparr>st_num = 3, st_data = [Some 1, Some 3, Some 5, None], st_sorted = True,
     st_num_alloc = 4, st_comp = Some ()\<rparr>"

lemma example_elems: "elems example_stack = [Some 1, Some 3, Some 5]"
  by code_simp

lemma example_ok: "stack_ok example_stack" "flag_ok int_cmp example_stack"
  by (simp add: stack_ok_def example_stack_def)
    (simp add: flag_ok_def example_elems int_cmp_def, simp add: example_stack_def)

theorem OPENSSL_sk_find_first_witness:
  "OPENSSL_sk_find int_cmp (Some example_stack) (Some 3) = Some 1"
  by (subst OPENSSL_sk_find_first [OF example_ok int_cmp_comparator])
    (simp add: example_elems, simp add: int_cmp_def example_stack_def)


text \<open>The operations on the stack are operations on the list of its elements.\<close>

lemma sk_insert_list:
  assumes "stack_ok sk"
  shows "case OPENSSL_sk_insert A (Some sk) p w of
      (r, Some sk') \<Rightarrow>
        (if r = 0 then sk' = sk \<and> (length (elems sk) = nat INT_MAX \<or> \<not> (\<forall>l. A l))
         else unat r = length (elems sk') \<and> stack_ok sk' \<and>
           elems sk' = take (unat w) (elems sk) @ p # drop (unat w) (elems sk))
    | _ \<Rightarrow> False"
proof (rule OPENSSL_sk_insert_cases [OF assms, of A p w])
  fix sk'
  assume i: "OPENSSL_sk_insert A (Some sk) p w = (st_num sk + 1, Some sk')" "stack_ok sk'"
    "elems sk' = take (unat w) (elems sk) @ p # drop (unat w) (elems sk)" "st_num sk' = st_num sk + 1"
  have "unat (st_num sk) < 2 ^ 31" using assms by (simp add: stack_ok_def)
  then have "unat (st_num sk + 1) = unat (st_num sk) + 1" by (intro size_arith) simp
  then have "st_num sk + 1 \<noteq> 0" by auto
  with i length_elems [OF i(2)] show ?thesis by simp
next
  assume "OPENSSL_sk_insert A (Some sk) p w = (0, Some sk)" "unat (st_num sk) = 2 ^ 31 - 1 \<or> \<not> (\<forall>l. A l)"
  then show ?thesis using length_elems [OF assms] by (simp add: INT_MAX_def)
qed

lemma sk_delete_list:
  assumes "stack_ok sk"
  shows "case OPENSSL_sk_delete (Some sk) w of
      (r, Some sk') \<Rightarrow>
        (if unat w < length (elems sk)
         then r = elems sk ! unat w \<and> stack_ok sk' \<and>
           elems sk' = take (unat w) (elems sk) @ drop (Suc (unat w)) (elems sk)
         else r = None \<and> sk' = sk)
    | _ \<Rightarrow> False"
proof (cases "unat w < unat (st_num sk)")
  case True
  then obtain sk' where "OPENSSL_sk_delete (Some sk) w = (elems sk ! unat w, Some sk')" "stack_ok sk'"
    "elems sk' = take (unat w) (elems sk) @ drop (Suc (unat w)) (elems sk)"
    by (rule OPENSSL_sk_delete_eq [OF assms])
  with True length_elems [OF assms] show ?thesis by simp
next
  case False
  then have "w \<ge> st_num sk" by (simp add: word_le_nat_alt)
  with False length_elems [OF assms] show ?thesis by simp
qed

lemma sk_push_list:
  assumes "stack_ok sk"
  shows "case OPENSSL_sk_push A (Some sk) p of
    (r, Some sk') \<Rightarrow> (if r = 0 then sk' = sk else stack_ok sk' \<and> elems sk' = elems sk @ [p]) | _ \<Rightarrow> False"
proof -
  obtain r s where "OPENSSL_sk_insert A (Some sk) p (st_num sk) = (r, s)"
    by (cases "OPENSSL_sk_insert A (Some sk) p (st_num sk)")
  with sk_insert_list [OF assms, where A = A and p = p and w = "st_num sk"] show ?thesis
    by (cases s) (simp_all add: OPENSSL_sk_push_def length_elems [OF assms] split: if_splits)
qed

lemma elems_empty: "stack_ok sk \<Longrightarrow> elems sk = [] \<longleftrightarrow> st_num sk = 0"
  by (metis length_elems length_0_conv unat_eq_0)

lemma sk_pop_list:
  assumes "stack_ok sk"
  shows "case OPENSSL_sk_pop (Some sk) of
    (r, Some sk') \<Rightarrow> (if elems sk = [] then r = None \<and> sk' = sk
      else r = last (elems sk) \<and> stack_ok sk' \<and> elems sk' = butlast (elems sk)) | _ \<Rightarrow> False"
proof (cases "st_num sk = 0")
  case False
  let ?w = "st_num sk - 1"
  obtain r s where d: "OPENSSL_sk_delete (Some sk) ?w = (r, s)" by (cases "OPENSSL_sk_delete (Some sk) ?w")
  have "unat ?w = length (elems sk) - 1" using length_elems [OF assms] by (simp only: unat_pred [OF False])
  moreover have "elems sk \<noteq> []" using False elems_empty [OF assms] by simp
  moreover have "OPENSSL_sk_pop (Some sk) = (r, s)"
    using False d by (simp add: OPENSSL_sk_pop_def del: OPENSSL_sk_delete.simps)
  ultimately show ?thesis
    using sk_delete_list [OF assms, of ?w] unfolding d
    by (cases s) (simp_all add: last_conv_nth butlast_conv_take)
qed (simp add: OPENSSL_sk_pop_def elems_empty [OF assms])

lemma sk_shift_list:
  assumes "stack_ok sk"
  shows "case OPENSSL_sk_shift (Some sk) of
    (r, Some sk') \<Rightarrow> (if elems sk = [] then r = None \<and> sk' = sk
      else r = hd (elems sk) \<and> stack_ok sk' \<and> elems sk' = tl (elems sk)) | _ \<Rightarrow> False"
proof (cases "st_num sk = 0")
  case False
  obtain r s where d: "OPENSSL_sk_delete (Some sk) 0 = (r, s)" by (cases "OPENSSL_sk_delete (Some sk) 0")
  have "elems sk \<noteq> []" using False elems_empty [OF assms] by simp
  moreover have "OPENSSL_sk_shift (Some sk) = (r, s)"
    using False d by (simp add: OPENSSL_sk_shift_def del: OPENSSL_sk_delete.simps)
  ultimately show ?thesis
    using sk_delete_list [OF assms, of 0] unfolding d
    by (cases s) (simp_all add: hd_conv_nth drop_Suc)
qed (simp add: OPENSSL_sk_shift_def elems_empty [OF assms])

lemma sk_value_list:
  assumes "stack_ok sk"
  shows "unat (OPENSSL_sk_num (Some sk)) = length (elems sk)"
    and "OPENSSL_sk_value (Some sk) w = (if unat w < length (elems sk) then elems sk ! unat w else None)"
  using length_elems [OF assms] by (simp_all add: elems_def word_le_nat_alt)

text \<open>
  C18: the stack refines a list. On a well-formed stack, \<open>OPENSSL_sk_insert\<close> either fails and
  changes nothing (the stack has \<open>INT_MAX\<close> elements or the allocator fails) or returns the new
  length and has inserted the pointer before position \<open>w\<close> (at the end when \<open>w\<close> is too large);
  \<open>OPENSSL_sk_delete\<close> returns the element at \<open>w\<close> and removes it, or returns NULL and changes
  nothing; push, pop and shift are the list operations at the ends; the results are well formed.
  \<open>OPENSSL_sk_num\<close> is the length, and \<open>OPENSSL_sk_value\<close> the element at \<open>w\<close>, or NULL past the end.
\<close>

theorem OPENSSL_sk_list_ops:
  assumes "stack_ok sk"
  shows "(case OPENSSL_sk_insert A (Some sk) p w of
      (r, Some sk') \<Rightarrow>
        (if r = 0 then sk' = sk \<and> (length (elems sk) = nat INT_MAX \<or> \<not> (\<forall>l. A l))
         else unat r = length (elems sk') \<and> stack_ok sk' \<and>
           elems sk' = take (unat w) (elems sk) @ p # drop (unat w) (elems sk))
    | _ \<Rightarrow> False) \<and>
    (case OPENSSL_sk_delete (Some sk) w of
      (r, Some sk') \<Rightarrow>
        (if unat w < length (elems sk)
         then r = elems sk ! unat w \<and> stack_ok sk' \<and>
           elems sk' = take (unat w) (elems sk) @ drop (Suc (unat w)) (elems sk)
         else r = None \<and> sk' = sk)
    | _ \<Rightarrow> False) \<and>
    (case OPENSSL_sk_push A (Some sk) p of
      (r, Some sk') \<Rightarrow> (if r = 0 then sk' = sk else stack_ok sk' \<and> elems sk' = elems sk @ [p]) | _ \<Rightarrow> False) \<and>
    (case OPENSSL_sk_pop (Some sk) of
      (r, Some sk') \<Rightarrow> (if elems sk = [] then r = None \<and> sk' = sk
        else r = last (elems sk) \<and> stack_ok sk' \<and> elems sk' = butlast (elems sk)) | _ \<Rightarrow> False) \<and>
    (case OPENSSL_sk_shift (Some sk) of
      (r, Some sk') \<Rightarrow> (if elems sk = [] then r = None \<and> sk' = sk
        else r = hd (elems sk) \<and> stack_ok sk' \<and> elems sk' = tl (elems sk)) | _ \<Rightarrow> False) \<and>
    unat (OPENSSL_sk_num (Some sk)) = length (elems sk) \<and>
    OPENSSL_sk_value (Some sk) w = (if unat w < length (elems sk) then elems sk ! unat w else None)"
  using sk_insert_list [OF assms, where A = A and p = p and w = w] sk_delete_list [OF assms, of w] sk_push_list [OF assms, where A = A and p = p]
    sk_pop_list [OF assms] sk_shift_list [OF assms] sk_value_list(1) [OF assms] sk_value_list(2) [OF assms, of w]
  by (intro conjI)

theorem OPENSSL_sk_list_ops_witness:
  "case OPENSSL_sk_delete (Some example_stack) 1 of
     (r, Some sk') \<Rightarrow> r = Some 3 \<and> elems sk' = [Some 1, Some 5] | _ \<Rightarrow> False"
  using OPENSSL_sk_list_ops [OF example_ok(1), where w = 1, THEN conjunct2, THEN conjunct1]
  by (cases "OPENSSL_sk_delete (Some example_stack) 1" rule: prod.exhaust)
    (simp add: example_elems del: OPENSSL_sk_delete.simps split: option.splits)


text \<open>
  C16: sorting. On a well-formed stack with a comparison function that is a comparator,
  \<open>OPENSSL_sk_sort\<close> leaves a permutation of the elements in ascending order and the stack
  known to be sorted; with the flag already set, or no comparison function, it does nothing.
\<close>

theorem OPENSSL_sk_sort_sorts:
  assumes "stack_ok sk" and "flag_ok cmp sk" and "\<And>c. comparator (cmp c)"
  shows "case OPENSSL_sk_sort cmp (Some sk) of None \<Rightarrow> False
    | Some sk' \<Rightarrow> (if st_comp sk = None \<or> st_sorted sk then sk' = sk
        else \<exists>c. st_comp sk = Some c \<and> ordered (cmp c) (elems sk') \<and> mset (elems sk') = mset (elems sk) \<and>
          OPENSSL_sk_is_sorted (Some sk') \<and> stack_ok sk')"
proof (cases "OPENSSL_sk_sort cmp (Some sk)")
  case None
  then show ?thesis by (simp add: Let_def split: option.splits if_splits)
next
  case (Some sk')
  show ?thesis
  proof (cases "st_comp sk")
    case None
    with Some show ?thesis by auto
  next
    case c: (Some c)
    from Some c have e: "st_sorted sk \<Longrightarrow> sk' = sk" by simp
    from OPENSSL_sk_sort_ok [OF assms(1,2,3) c Some] c e show ?thesis unfolding Some by simp
  qed
qed

theorem OPENSSL_sk_sort_sorts_witness:
  "\<exists>sk'. OPENSSL_sk_sort int_cmp (Some (example_stack\<lparr>st_sorted := False,
      st_data := [Some 3, Some 5, Some 1, None]\<rparr>)) = Some sk' \<and> ordered (int_cmp ()) (elems sk')"
proof -
  let ?s = "example_stack\<lparr>st_sorted := False, st_data := [Some 3, Some 5, Some 1, None]\<rparr>"
  have "stack_ok ?s" "flag_ok int_cmp ?s" by (simp_all add: stack_ok_def flag_ok_def example_stack_def)
  from OPENSSL_sk_sort_sorts [OF this int_cmp_comparator]
  have "case OPENSSL_sk_sort int_cmp (Some ?s) of None \<Rightarrow> False | Some sk' \<Rightarrow> ordered (int_cmp ()) (elems sk')"
    by (simp add: example_stack_def del: OPENSSL_sk_sort.simps split: option.splits)
  then show ?thesis by (cases "OPENSSL_sk_sort int_cmp (Some ?s)") (simp_all del: OPENSSL_sk_sort.simps)
qed

text \<open>
  The flag after \<open>OPENSSL_sk_set\<close>. Replacing an element leaves the flag alone, so a stack
  can be known as sorted and not be: here \<open>OPENSSL_sk_find\<close> misses an element that is in it.
\<close>

theorem OPENSSL_sk_set_keeps_flag:
  "case OPENSSL_sk_set (Some example_stack) 0 (Some 9) of
     (r, Some sk') \<Rightarrow> r = Some 9 \<and> Some 9 \<in> set (elems sk') \<and> OPENSSL_sk_is_sorted (Some sk') \<and>
       \<not> ordered (int_cmp ()) (elems sk') \<and> OPENSSL_sk_find int_cmp (Some sk') (Some 9) = None
   | _ \<Rightarrow> False"
proof -
  define sk' where "sk' = example_stack\<lparr>st_data := [Some 9, Some 3, Some 5, None]\<rparr>"
  have "OPENSSL_sk_set (Some example_stack) 0 (Some 9) = (Some 9, Some sk')"
    by (simp add: example_stack_def sk'_def)
  moreover have "elems sk' = [Some 9, Some 3, Some 5]" unfolding sk'_def by code_simp
  moreover have "OPENSSL_sk_find int_cmp (Some sk') (Some 9) = None" unfolding sk'_def by code_simp
  moreover have "OPENSSL_sk_is_sorted (Some sk')" by (simp add: sk'_def example_stack_def)
  ultimately show ?thesis by (simp add: int_cmp_def del: OPENSSL_sk_find.simps OPENSSL_sk_is_sorted.simps)
qed

end
