(* ===== verification/CbbSetOf.thy ===== *)
theory CbbSetOf
  imports CbbProps StackSort "HOL-Library.List_Lexorder"
begin

text \<open>
  \<open>CBB_flush_asn1_set_of\<close> of cbb.c, which sorts the elements of a SET OF in place. \<open>memcmp\<close>
  is specified by its sign; a read past the end of an object, which C leaves undefined,
  compares as a shorter string. \<open>qsort\<close> is an insertion sort, as any sort may stand for it:
  elements that compare equal are equal byte strings.
\<close>

section \<open>The code\<close>

fun memcmp :: "u8 list \<Rightarrow> u8 list \<Rightarrow> int" where
  "memcmp [] [] = 0"
| "memcmp [] (b # bs) = - 1"
| "memcmp (a # as) [] = 1"
| "memcmp (a # as) (b # bs) = (if a < b then - 1 else if b < a then 1 else memcmp as bs)"

definition OPENSSL_memcmp :: "u8 list \<Rightarrow> u8 list \<Rightarrow> size_t \<Rightarrow> int" where
  "OPENSSL_memcmp s1 s2 n = (if n = 0 then 0 else memcmp (take (unat n) s1) (take (unat n) s2))"

definition compare_set_of_element :: "cbs \<Rightarrow> cbs \<Rightarrow> int" where
  "compare_set_of_element a b =
     (let min_len = (if cbs_len a < cbs_len b then cbs_len a else cbs_len b);
          r = OPENSSL_memcmp (cbs_data a) (cbs_data b) min_len
      in if r \<noteq> 0 then r
         else if cbs_len a = cbs_len b then 0
         else if cbs_len a < cbs_len b then - 1 else 1)"

fun insert_by :: "('a \<Rightarrow> 'a \<Rightarrow> int) \<Rightarrow> 'a \<Rightarrow> 'a list \<Rightarrow> 'a list" where
  "insert_by cmp x [] = [x]"
| "insert_by cmp x (y # ys) = (if cmp x y \<le> 0 then x # y # ys else y # insert_by cmp x ys)"

definition qsort :: "('a \<Rightarrow> 'a \<Rightarrow> int) \<Rightarrow> 'a list \<Rightarrow> 'a list" where
  "qsort cmp xs = foldr (insert_by cmp) xs []"

text \<open>Both passes over the elements. Every element takes a byte or more, so the length of the
  input is fuel enough; running out of it would count as a failure.\<close>

fun parse_elements :: "nat \<Rightarrow> cbs \<Rightarrow> cbs list option" where
  "parse_elements fuel cbs =
     (if cbs_len cbs = 0 then Some []
      else case fuel of 0 \<Rightarrow> None | Suc fuel \<Rightarrow>
        (case CBS_get_any_asn1_element cbs of (None, _) \<Rightarrow> None
         | (Some el, cbs) \<Rightarrow> map_option (Cons (el_out el)) (parse_elements fuel cbs)))"

declare parse_elements.simps [simp del]

fun write_children :: "u8 list \<Rightarrow> nat \<Rightarrow> cbs list \<Rightarrow> u8 list" where
  "write_children buf offset [] = buf"
| "write_children buf offset (c # cs) =
     write_children (write_at buf offset (take (unat (cbs_len c)) (cbs_data c)))
       (offset + unat (cbs_len c)) cs"

text \<open>Where the bytes of CBB \<open>n\<close> start in the buffer.\<close>

definition data_start :: "nat \<Rightarrow> cbb \<Rightarrow> nat" where
  "data_start n s = length (cbb_buf s) - length (CBB_data n s)"

definition CBB_flush_asn1_set_of :: "alloc \<Rightarrow> nat \<Rightarrow> (cbb, unit) op" where
  "CBB_flush_asn1_set_of A n = step (CBB_flush A n) (\<lambda>_ s.
     let len = CBB_len n s in
     case parse_elements (unat len) (CBS_init (CBB_data n s) len) of None \<Rightarrow> (None, s)
     | Some els \<Rightarrow>
         if length els < 2 then (Some (), s)
         else case OPENSSL_memdup A (CBB_data n s) len of None \<Rightarrow> (None, s)
         | Some buf \<Rightarrow>
             if \<not> A (of_nat (length els) * 16) then (None, s)
             else case parse_elements (unat len) (CBS_init buf len) of None \<Rightarrow> (None, s)
             | Some children \<Rightarrow>
                 (Some (), s\<lparr>cbb_buf :=
                    write_children (cbb_buf s) (data_start n s) (qsort compare_set_of_element children)\<rparr>))"

section \<open>The order\<close>

lemma memcmp_eq: "memcmp xs ys = (if xs = ys then 0 else if xs < ys then - 1 else 1)"
  by (induction xs ys rule: memcmp.induct) (auto simp: not_less)

text \<open>A truncated comparison followed by the lengths is a comparison followed by the lengths.\<close>

lemma memcmp_take:
  assumes "length xs \<le> p" and "length ys \<le> q"
  shows "(let r = memcmp (take (min p q) xs) (take (min p q) ys) in
      if r \<noteq> 0 then r else if p = q then 0 else if p < q then - 1 else 1) =
    (let r = memcmp xs ys in if r \<noteq> 0 then r else if p = q then 0 else if p < q then - 1 else (1 :: int))"
  using assms
proof (induction xs ys arbitrary: p q rule: memcmp.induct)
  case (2 b bs)
  then obtain q' where "q = Suc q'" by (cases q) auto
  then show ?case by (cases p) (auto simp: Let_def)
next
  case (3 a as)
  then obtain p' where "p = Suc p'" by (cases p) auto
  then show ?case by (cases q) (auto simp: Let_def)
next
  case (4 a as b bs)
  then obtain p' q' where pq: "p = Suc p'" "q = Suc q'" by (cases p; cases q) auto
  define r where "r = memcmp (take (min p' q') as) (take (min p' q') bs)"
  have "(if r \<noteq> 0 then r else if p' = q' then 0 else if p' < q' then - 1 else 1) =
      (let r = memcmp as bs in if r \<noteq> 0 then r else if p' = q' then 0 else if p' < q' then - 1 else 1)"
    if "a = b"
  proof -
    have n: "\<not> a < b" "\<not> b < a" and l: "length as \<le> p'" "length bs \<le> q'"
      using that 4(2,3) pq by simp_all
    from 4(1) [OF n l] show ?thesis unfolding r_def Let_def .
  qed
  then show ?case
    unfolding pq min_Suc_Suc take_Suc_Cons memcmp.simps r_def [symmetric]
    by (auto simp: Let_def split: if_splits)
qed simp

lemma compare_set_of_element_eq:
  "compare_set_of_element a b =
    (let x = cbs_bytes a; y = cbs_bytes b in
     if x = y then (if cbs_len a = cbs_len b then 0 else if cbs_len a < cbs_len b then - 1 else 1)
     else if x < y then - 1 else 1)"
proof -
  let ?p = "unat (cbs_len a)" and ?q = "unat (cbs_len b)"
  have m: "unat (if cbs_len a < cbs_len b then cbs_len a else cbs_len b) = min ?p ?q"
    by (simp add: word_less_nat_alt min_def)
  have r: "OPENSSL_memcmp (cbs_data a) (cbs_data b) (if cbs_len a < cbs_len b then cbs_len a else cbs_len b) =
      memcmp (take (min ?p ?q) (cbs_bytes a)) (take (min ?p ?q) (cbs_bytes b))"
    using m unfolding OPENSSL_memcmp_def cbs_bytes_def
    by (cases "min ?p ?q = 0") (auto simp: min_def split: if_splits)
  define m where "m = memcmp (take (min ?p ?q) (cbs_bytes a)) (take (min ?p ?q) (cbs_bytes b))"
  have "length (cbs_bytes a) \<le> ?p" "length (cbs_bytes b) \<le> ?q" by (simp_all add: cbs_bytes_def)
  from memcmp_take [OF this, folded m_def] show ?thesis
    unfolding compare_set_of_element_def Let_def r m_def [symmetric]
    by (simp add: memcmp_eq word_less_nat_alt word_unat_eq_iff split: if_splits)
qed

interpretation set_of: comparator compare_set_of_element
proof
  fix a b c
  show "compare_set_of_element a b < 0 \<longleftrightarrow> 0 < compare_set_of_element b a"
    by (auto simp: compare_set_of_element_eq Let_def)
  show "compare_set_of_element a b \<le> 0 \<Longrightarrow> compare_set_of_element b c \<le> 0 \<Longrightarrow> compare_set_of_element a c \<le> 0"
    by (auto simp: compare_set_of_element_eq Let_def split: if_splits)
qed

context comparator
begin

lemma insert_by_ok: "ordered cmp ys \<Longrightarrow> ordered cmp (insert_by cmp x ys) \<and> mset (insert_by cmp x ys) = add_mset x (mset ys)"
proof (induction ys)
  case (Cons y ys)
  show ?case
  proof (cases "cmp x y \<le> 0")
    case True
    with Cons show ?thesis by (auto intro: trans)
  next
    case False
    then have "cmp y x \<le> 0" using le_total by blast
    moreover have "set (insert_by cmp x ys) = insert x (set ys)"
      using Cons by (metis set_mset_add_mset_insert set_mset_mset sorted_wrt.simps(2))
    ultimately show ?thesis using Cons False by auto
  qed
qed simp

lemma qsort_ok: "ordered cmp (qsort cmp xs) \<and> mset (qsort cmp xs) = mset xs"
  unfolding qsort_def by (induction xs) (auto simp: insert_by_ok)

end


section \<open>The elements\<close>

definition der_elem :: "u8 list \<Rightarrow> bool" where
  "der_elem x \<longleftrightarrow> (\<exists>tag body. x = der_tlv tag body \<and> valid_tag tag \<and> length body < 256 ^ 4)"

lemma der_elem_ne: "der_elem x \<Longrightarrow> x \<noteq> []"
  using length_der_tag(2) by (auto simp: der_elem_def der_tlv_def)

lemma parse_elements_sound:
  "fits bs \<Longrightarrow> parse_elements fuel (cbs_view bs t) = Some els \<Longrightarrow>
     bs = concat (map cbs_bytes els) \<and> (\<forall>e \<in> set els. cbs_ok e \<and> der_elem (cbs_bytes e))"
proof (induction fuel arbitrary: bs t els)
  case 0
  then show ?case by (simp add: parse_elements.simps cbs_len_view_0 split: if_splits)
next
  case (Suc fuel)
  show ?case
  proof (cases "bs = []")
    case True
    with Suc.prems show ?thesis by (simp add: parse_elements.simps [of "Suc fuel"])
  next
    case False
    obtain r c where g: "CBS_get_any_asn1_element (cbs_view bs t) = (r, c)"
      by (cases "CBS_get_any_asn1_element (cbs_view bs t)")
    with Suc.prems False obtain el where r: "r = Some el"
      by (cases r) (simp_all add: parse_elements.simps [of "Suc fuel"] cbs_len_view_0)
    from get_any_asn1_element_sound [OF Suc.prems(1) g [unfolded r]] obtain tag body ys
      where d: "bs = der_tlv tag body @ ys" "valid_tag tag" "length body < 256 ^ 4"
        "el = der_element tag body (ys @ t)" "c = cbs_view ys t" .
    from Suc.prems False g r obtain es where es: "parse_elements fuel c = Some es" "els = el_out el # es"
      by (auto simp: parse_elements.simps [of "Suc fuel"] cbs_len_view_0)
    have "fits ys" "fits (der_tlv tag body)" using Suc.prems(1) d(1) by simp_all
    moreover from this(1) have "ys = concat (map cbs_bytes es) \<and> (\<forall>e \<in> set es. cbs_ok e \<and> der_elem (cbs_bytes e))"
      using es(1) d(5) by (intro Suc.IH [of ys t es]) simp_all
    ultimately show ?thesis
      using d es(2) by (auto simp: der_element_def der_elem_def)
  qed
qed

lemma parse_elements_complete:
  "fits (concat xs) \<Longrightarrow> \<forall>x \<in> set xs. der_elem x \<Longrightarrow> length xs \<le> fuel \<Longrightarrow>
     \<exists>els. parse_elements fuel (cbs_view (concat xs) t) = Some els \<and> map cbs_bytes els = xs"
proof (induction xs arbitrary: fuel)
  case Nil
  then show ?case by (simp add: parse_elements.simps)
next
  case (Cons x xs)
  then obtain f where f: "fuel = Suc f" by (cases fuel) auto
  from Cons.prems(2) obtain tag body where d: "x = der_tlv tag body" "valid_tag tag" "length body < 256 ^ 4"
    by (auto simp: der_elem_def)
  have ne: "concat (x # xs) \<noteq> []" using der_elem_ne Cons.prems(2) by auto
  have g: "CBS_get_any_asn1_element (cbs_view (concat (x # xs)) t) =
      (Some (der_element tag body (concat xs @ t)), cbs_view (concat xs) t)"
    using Cons.prems(1) d by (intro get_any_asn1_element_complete) simp_all
  obtain els where "parse_elements f (cbs_view (concat xs) t) = Some els" "map cbs_bytes els = xs"
    using Cons.IH [of f] Cons.prems f by auto
  moreover have nz: "cbs_len (cbs_view (concat (x # xs)) t) \<noteq> 0"
    using ne Cons.prems(1) by (simp only: cbs_len_view cbs_len_view_0 not_False_eq_True)
  have "parse_elements fuel (cbs_view (concat (x # xs)) t) =
      map_option (Cons (el_out (der_element tag body (concat xs @ t)))) (parse_elements f (cbs_view (concat xs) t))"
    unfolding f by (subst parse_elements.simps) (simp only: nz g if_False nat.case prod.case option.case)
  ultimately show ?case using Cons.prems(1) by (auto simp: der_element_def d(1))
qed

lemma length_der_elems: "\<forall>x \<in> set xs. der_elem x \<Longrightarrow> length xs \<le> length (concat xs)"
proof (induction xs)
  case (Cons x xs)
  then have "1 \<le> length x" using der_elem_ne [of x] by (cases x) auto
  with Cons show ?case by simp
qed simp

section \<open>Sorting them in place\<close>

lemma compare_le_bytes:
  assumes "cbs_ok a" and "cbs_ok b"
  shows "compare_set_of_element a b \<le> 0 \<longleftrightarrow> cbs_bytes a \<le> cbs_bytes b"
proof -
  have "unat (cbs_len a) = length (cbs_bytes a)" "unat (cbs_len b) = length (cbs_bytes b)"
    using assms by (simp_all add: cbs_ok_def cbs_bytes_def)
  then have "cbs_bytes a = cbs_bytes b \<Longrightarrow> cbs_len a = cbs_len b" by (simp add: word_unat_eq_iff)
  then show ?thesis by (auto simp: compare_set_of_element_eq Let_def)
qed

lemma qsort_bytes:
  assumes "\<forall>e \<in> set els. cbs_ok e"
  shows "map cbs_bytes (qsort compare_set_of_element els) = sort (map cbs_bytes els)"
    and "\<forall>e \<in> set (qsort compare_set_of_element els). cbs_ok e"
proof -
  let ?q = "qsort compare_set_of_element els"
  have q: "ordered compare_set_of_element ?q" "mset ?q = mset els" using set_of.qsort_ok [of els] by auto
  show ok: "\<forall>e \<in> set ?q. cbs_ok e" using assms mset_eq_setD [OF q(2)] by simp
  have "sorted (map cbs_bytes ?q)"
    using q(1) ok by (auto simp: sorted_wrt_map compare_le_bytes intro: sorted_wrt_mono_rel [rotated])
  moreover have "mset (map cbs_bytes ?q) = mset (map cbs_bytes els)" using q(2) by simp
  ultimately show "map cbs_bytes ?q = sort (map cbs_bytes els)" by (metis properties_for_sort)
qed

lemma write_children_eq:
  "\<forall>e \<in> set cs. cbs_ok e \<Longrightarrow> off + length (concat (map cbs_bytes cs)) \<le> length buf \<Longrightarrow>
     write_children buf off cs = write_at buf off (concat (map cbs_bytes cs))"
proof (induction cs arbitrary: buf off)
  case Nil
  then show ?case by (simp add: write_at_def)
next
  case (Cons c cs)
  let ?x = "cbs_bytes c"
  have x: "take (unat (cbs_len c)) (cbs_data c) = ?x" "unat (cbs_len c) = length ?x"
    using Cons.prems(1) by (simp_all add: cbs_bytes_def cbs_ok_def)
  have "write_children (write_at buf off ?x) (off + length ?x) cs =
      write_at (write_at buf off ?x) (off + length ?x) (concat (map cbs_bytes cs))"
    using Cons.prems by (intro Cons.IH) (simp_all add: write_at_def)
  also have "\<dots> = write_at buf off (?x @ concat (map cbs_bytes cs))"
    using Cons.prems(2) by (simp add: write_at_def ac_simps)
  finally show ?case using x by simp
qed


text \<open>The contents of the innermost open CBB.\<close>

fun doc_content :: "doc \<Rightarrow> u8 list" where
  "doc_content (Doc root fs) = (if fs = [] then root else snd (last fs))"

fun doc_set_content :: "u8 list \<Rightarrow> doc \<Rightarrow> doc" where
  "doc_set_content bs (Doc root fs) =
     (if fs = [] then Doc bs [] else Doc root (butlast fs @ [(fst (last fs), bs)]))"

lemma content_view:
  assumes "repr s d" and "n = doc_depth d"
  obtains p t where "cbb_buf s = p @ doc_content d @ t" "CBB_data n s = doc_content d @ t"
    "CBB_len n s = of_nat (length (doc_content d))" "data_start n s = length p"
    "\<And>bs. doc_bytes (doc_set_content bs d) = p @ bs" "unat (cbb_len s) = length p + length (doc_content d)"
proof -
  from assms(1) have h: "buf_holds s (doc_bytes d)" and c: "cbb_children s = children_of (length (doc_root d)) (doc_frames d)"
    by (simp_all add: repr_def)
  note len = buf_holds_len [OF h]
  define t where "t = drop (unat (cbb_len s)) (cbb_buf s)"
  have buf: "cbb_buf s = doc_bytes d @ t"
    using h append_take_drop_id [of "unat (cbb_len s)" "cbb_buf s"] by (simp add: buf_holds_def t_def)
  have cl: "cbb_len s = of_nat (length (doc_bytes d))" using len(1) by (metis of_nat_unat)
  obtain root fs where d: "d = Doc root fs" by (cases d)
  show thesis
  proof (cases fs rule: rev_cases)
    case Nil
    have "data_start n s = 0" using assms(2) d Nil by (simp add: data_start_def CBB_data_def)
    then show thesis
      using that [of "[]" t] d Nil buf cl len assms(2) by (simp add: CBB_data_def CBB_len_def)
  next
    case (snoc gs f)
    obtain k bs where f: "f = (k, bs)" by (cases f)
    define p where "p = root @ flat gs @ replicate (kind_len k) 0"
    have b: "doc_bytes d = p @ bs" by (simp add: d snoc f p_def flat_append)
    have n: "n = Suc (length gs)" using assms(2) by (simp add: d snoc)
    have ch: "cbb_children s ! length gs = \<lparr>child_offset = of_nat (length root + length (flat gs)),
        pending_len_len = of_nat (kind_len k), pending_is_asn1 = (k = Asn1)\<rparr>"
      using c by (simp add: d snoc f children_of_append nth_append)
    have k8: "kind_len k \<le> 8" using assms(1) by (simp add: repr_def d snoc f)
    have lp: "length p = length root + length (flat gs) + kind_len k" by (simp add: p_def)
    have "length p < 2 ^ 64" using len(2) b by simp
    then have "unat (of_nat (length root + length (flat gs)) + ucast (of_nat (kind_len k) :: u8) :: size_t) = length p"
      using k8 lp by (subst unat_add_u64) (simp_all add: unat_of_nat del: of_nat_add)
    then have data: "CBB_data n s = bs @ t"
      using buf b n ch by (simp add: CBB_data_def)
    have "ucast (of_nat (kind_len k) :: u8) = (of_nat (kind_len k) :: size_t)"
      using k8 by (simp add: word_unat_eq_iff unat_of_nat)
    then have "CBB_len n s = of_nat (length bs)"
      using n ch cl lp b by (simp add: CBB_len_def)
    moreover have "data_start n s = length p" by (simp add: data_start_def data buf b)
    moreover have "doc_bytes (doc_set_content bs' d) = p @ bs'" for bs'
      by (simp add: d snoc f p_def flat_append)
    ultimately show thesis
      using that [of p t] buf b data len(1) by (simp add: d snoc f)
  qed
qed

lemma repr_set_content:
  assumes "repr s d" and "n = doc_depth d" and "length bs = length (doc_content d)"
  shows "repr (s\<lparr>cbb_buf := write_at (cbb_buf s) (data_start n s) bs\<rparr>) (doc_set_content bs d)"
proof -
  from assms(1,2) obtain p t where c: "cbb_buf s = p @ doc_content d @ t" "data_start n s = length p"
    "\<And>bs. doc_bytes (doc_set_content bs d) = p @ bs" "unat (cbb_len s) = length p + length (doc_content d)"
    by (rule content_view) blast
  have "write_at (cbb_buf s) (data_start n s) bs = p @ bs @ t"
    using assms(3) by (simp add: write_at_def c(1,2))
  moreover have "doc_ok (doc_set_content bs d) \<longleftrightarrow> doc_ok d"
    "children_of (length (doc_root (doc_set_content bs d))) (doc_frames (doc_set_content bs d)) =
     children_of (length (doc_root d)) (doc_frames d)"
    by (cases d; cases "doc_frames d" rule: rev_cases; auto simp: children_of_append assms(3))+
  ultimately show ?thesis
    using assms(1,3) c by (auto simp: repr_def buf_holds_def)
qed


lemma length_doc_content: "repr s d \<Longrightarrow> length (doc_content d) < 2 ^ 64"
proof (rule ccontr)
  assume "repr s d" and "\<not> length (doc_content d) < 2 ^ 64"
  moreover from this(1) obtain p where "unat (cbb_len s) = p + length (doc_content d)"
    using content_view [OF _ refl] by blast
  ultimately show False using unat_u64_less [of "cbb_len s"] by simp
qed

lemma flush_set_of_cases:
  assumes "repr s d" and "n \<le> doc_depth d"
  obtains (err) s' where "CBB_flush A n s = (None, s')" "CBB_flush_asn1_set_of A n s = (None, s')"
  | (bad) s' d' where "CBB_flush A n s = (Some (), s')" "doc_flush n d = Some d'" "repr s' d'"
      "CBB_flush_asn1_set_of A n s = (None, s')"
      "\<not> (\<exists>xs. doc_content d' = concat xs \<and> (\<forall>x \<in> set xs. der_elem x)) \<or> \<not> (\<forall>l. A l)"
  | (ok) s' d' xs where "doc_flush n d = Some d'" "doc_content d' = concat xs" "\<forall>x \<in> set xs. der_elem x"
      "CBB_flush_asn1_set_of A n s = (Some (), s')" "repr s' (doc_set_content (concat (sort xs)) d')"
proof -
  from assms show thesis
  proof (cases rule: flush_cases [of s d n A])
    case (ok s' d')
    define c where "c = doc_content d'"
    from ok obtain p t where v: "CBB_data n s' = c @ t" "CBB_len n s' = of_nat (length c)"
      using content_view [of s' d' n] unfolding c_def by metis
    have fc: "fits c" using length_doc_content [OF ok(3)] by (simp add: c_def)
    then have uc: "unat (CBB_len n s') = length c" by (simp add: v(2) unat_of_nat)
    have i: "CBS_init (CBB_data n s') (CBB_len n s') = cbs_view c t" unfolding v by (rule CBS_init_view)
    have "take (length c) (c @ t) = c @ []" by simp
    then have i2: "CBS_init (take (length c) (CBB_data n s')) (CBB_len n s') = cbs_view c []"
      unfolding v using CBS_init_view by (metis append_Nil2)
    have eq: "CBB_flush_asn1_set_of A n s = (case parse_elements (length c) (cbs_view c t) of None \<Rightarrow> (None, s')
       | Some els \<Rightarrow> if length els < 2 then (Some (), s')
         else case OPENSSL_memdup A (CBB_data n s') (CBB_len n s') of None \<Rightarrow> (None, s')
         | Some buf \<Rightarrow> if \<not> A (of_nat (length els) * 16) then (None, s')
             else case parse_elements (length c) (CBS_init buf (CBB_len n s')) of None \<Rightarrow> (None, s')
             | Some children \<Rightarrow> (Some (), s'\<lparr>cbb_buf :=
                    write_children (cbb_buf s') (data_start n s') (qsort compare_set_of_element children)\<rparr>))"
      by (simp only: CBB_flush_asn1_set_of_def step_def ok(1) prod.case option.case Let_def uc i)
    show thesis
    proof (cases "parse_elements (length c) (cbs_view c t)")
      case None
      have "\<not> (\<exists>xs. c = concat xs \<and> (\<forall>x \<in> set xs. der_elem x))"
      proof
        assume "\<exists>xs. c = concat xs \<and> (\<forall>x \<in> set xs. der_elem x)"
        then obtain xs where xs: "c = concat xs" "\<forall>x \<in> set xs. der_elem x" by blast
        from parse_elements_complete [of xs "length c" t] xs fc length_der_elems [OF xs(2)] None
        show False by simp
      qed
      then show thesis
        using that(2) [OF _ ok(2,3)] ok(1) None eq by (simp add: c_def)
    next
      case (Some els)
      define xs where "xs = map cbs_bytes els"
      from parse_elements_sound [OF fc Some] have xs: "c = concat xs" "\<forall>x \<in> set xs. der_elem x"
        by (auto simp: xs_def)
      have keep: "doc_set_content (concat xs) d' = d'"
        unfolding xs(1) [symmetric] c_def by (cases d'; cases "doc_frames d'" rule: rev_cases) auto
      show thesis
      proof (cases "length els < 2")
        case True
        then have "sort xs = xs" by (cases els; cases "tl els") (auto simp: xs_def)
        then show thesis
          using that(3) [OF ok(2) _ xs(2)] xs(1) ok(3) True Some eq keep by (simp add: c_def)
      next
        case more: False
        show thesis
        proof (cases "A (CBB_len n s') \<and> A (of_nat (length els) * 16)")
          case False
          then have "CBB_flush_asn1_set_of A n s = (None, s')"
            unfolding eq Some using more by (auto simp: OPENSSL_memdup_def)
          moreover from False have "\<not> (\<forall>l. A l)" by auto
          ultimately show thesis using that(2) [OF _ ok(2,3)] ok(1) by simp
        next
          case mem: True
          have "xs \<noteq> []" using more by (auto simp: xs_def)
          then obtain x ys where "xs = x # ys" by (cases xs) auto
          then have "c \<noteq> []" using xs der_elem_ne [of x] by simp
          then have "CBB_len n s' \<noteq> 0" using uc by auto
          with mem have dup: "OPENSSL_memdup A (CBB_data n s') (CBB_len n s') = Some (take (length c) (CBB_data n s'))"
            by (simp add: OPENSSL_memdup_def uc)
          obtain els' where e: "parse_elements (length c) (cbs_view c []) = Some els'" "map cbs_bytes els' = xs"
            using parse_elements_complete [of xs "length c" "[]"] length_der_elems [OF xs(2)] xs fc by auto
          from parse_elements_sound [OF fc e(1)] have okc: "\<forall>e \<in> set els'. cbs_ok e" by auto
          let ?q = "qsort compare_set_of_element els'"
          note q = qsort_bytes [OF okc, unfolded e(2)]
          have len: "length (concat (sort xs)) = length c"
            unfolding xs(1) length_concat by (metis mset_map mset_sort sum_mset_sum_list)
          from ok(3,4) obtain p t' where "cbb_buf s' = p @ c @ t'" "data_start n s' = length p"
            using content_view [of s' d' n] unfolding c_def by metis
          then have "write_children (cbb_buf s') (data_start n s') ?q =
              write_at (cbb_buf s') (data_start n s') (concat (sort xs))"
            using write_children_eq [OF q(2), of "data_start n s'" "cbb_buf s'"] q(1) len by simp
          then have "CBB_flush_asn1_set_of A n s = (Some (), s'\<lparr>cbb_buf :=
              write_at (cbb_buf s') (data_start n s') (concat (sort xs))\<rparr>)"
            using eq Some more mem dup i2 e(1) by simp
          moreover have "repr (s'\<lparr>cbb_buf := write_at (cbb_buf s') (data_start n s') (concat (sort xs))\<rparr>)
              (doc_set_content (concat (sort xs)) d')"
            by (rule repr_set_content [OF ok(3) ok(4) [symmetric]]) (simp add: len c_def)
          ultimately show thesis using that(3) [OF ok(2) _ xs(2)] xs(1) by (simp add: c_def)
        qed
      qed
    qed
  qed (use that(1) in \<open>simp add: CBB_flush_asn1_set_of_def step_None\<close>)
qed


text \<open>
  C19: SET OF. After flushing, \<open>CBB_flush_asn1_set_of\<close> succeeds with an allocator that never
  fails exactly when the contents of the CBB are a sequence of DER elements, and then it has
  only rearranged them: the contents are the same elements in ascending order of their
  encodings, as X.690 asks for, and every other byte of the document is as it was. When it
  fails after the flush, the document is the flushed one.
\<close>

theorem CBB_flush_asn1_set_of_sorts:
  assumes "repr s d" and "n \<le> doc_depth d"
  shows "(case CBB_flush_asn1_set_of A n s of
      (Some _, s') \<Rightarrow> \<exists>d' xs. doc_flush n d = Some d' \<and> doc_content d' = concat xs \<and>
        (\<forall>x \<in> set xs. der_elem x) \<and> repr s' (doc_set_content (concat (sort xs)) d')
    | (None, s') \<Rightarrow>
        case CBB_flush A n s of (None, s1) \<Rightarrow> s' = s1
        | (Some _, s1) \<Rightarrow> s' = s1 \<and> (\<exists>d'. doc_flush n d = Some d' \<and> repr s' d' \<and>
            ((\<forall>l. A l) \<longrightarrow> \<not> (\<exists>xs. doc_content d' = concat xs \<and> (\<forall>x \<in> set xs. der_elem x)))))"
  using assms by (cases rule: flush_set_of_cases [of s d n A]) auto

theorem CBB_flush_asn1_set_of_sorts_witness:
  "\<exists>s' xs. CBB_flush_asn1_set_of (\<lambda>_. True) 0 (cbb_init [2, 1, 9, 2, 1, 5] 6 True\<lparr>cbb_len := 6\<rparr>) = (Some (), s') \<and>
     [2, 1, 9, 2, 1, 5] = concat xs \<and> repr s' (Doc (concat (sort xs)) [])"
proof -
  let ?s = "cbb_init [2, 1, 9, 2, 1, 5] 6 True\<lparr>cbb_len := 6\<rparr>" and ?d = "Doc [2, 1, 9, 2, 1, 5] []"
  let ?A = "\<lambda>_ :: size_t. True"
  have r: "repr ?s ?d" by (simp add: repr_def buf_holds_def cbb_init_def)
  have "der_tlv 2 [9] = [2, 1, 9]" "der_tlv 2 [5] = [2, 1, 5]" by code_simp+
  moreover have "valid_tag 2" by (simp add: valid_tag_def CBS_ASN1_CONSTRUCTED_def)
  then have "der_elem (der_tlv 2 [b])" for b unfolding der_elem_def by (intro exI conjI) auto
  ultimately have e: "der_elem [2, 1, 9]" "der_elem [2, 1, 5]" by metis+
  have fl: "doc_flush 0 ?d = Some ?d" by (simp add: doc_append.simps)
  have cf: "CBB_flush ?A 0 ?s = (Some (), ?s)"
    by (simp add: CBB_flush.simps base_is_null_def has_child_def cbb_init_def)
  have ex: "\<exists>xs. [2, 1, 9, 2, 1, 5] = concat xs \<and> (\<forall>x \<in> set xs. der_elem x)"
    by (rule exI [of _ "[[2, 1, 9], [2, 1, 5]]"]) (simp add: e)
  obtain r0 s' where f: "CBB_flush_asn1_set_of ?A 0 ?s = (r0, s')" by (cases "CBB_flush_asn1_set_of ?A 0 ?s")
  note t = CBB_flush_asn1_set_of_sorts [OF r, of 0 ?A, unfolded f cf fl prod.case option.case]
  show ?thesis
  proof (cases r0)
    case None
    with t have "\<not> (\<exists>xs. [2, 1, 9, 2, 1, 5] = concat xs \<and> (\<forall>x \<in> set xs. der_elem x))" by auto
    with ex show ?thesis by (rule notE [rotated])
  next
    case (Some u)
    with t f show ?thesis by auto
  qed
qed

end
