(* ===== verification/Ber.thy ===== *)
theory Ber
  imports CbbSetOf
begin

text \<open>
  crypto/bytestring/ber.c and asn1_compat.c: turning BER into DER. Every pass over the input
  takes a byte or more from it per step, so its length is fuel enough (\<open>find_ber_fuel\<close>);
  running out of fuel would count as a failure. \<open>CBB *out\<close> is a depth, as in Cbb, and a
  failed conversion returns the builder with no rest of the input.
\<close>

section \<open>The code\<close>

definition kMaxDepth :: nat where
  "kMaxDepth = 128"

definition is_string_type :: "asn1_tag \<Rightarrow> bool" where
  "is_string_type tag = (tag AND NOT CBS_ASN1_CONSTRUCTED \<in>
     {0x4, 0xc, 0x12, 0x13, 0x14, 0x15, 0x16, 0x19, 0x1a, 0x1b, 0x1c, 0x1e})"

text \<open>The result is \<open>*ber_found\<close>, or \<open>None\<close> for an error.\<close>

fun cbs_find_ber :: "nat \<Rightarrow> cbs \<Rightarrow> nat \<Rightarrow> bool option" where
  "cbs_find_ber fuel orig_in depth =
     (if depth > kMaxDepth then None
      else if cbs_len orig_in = 0 then Some False
      else case fuel of 0 \<Rightarrow> None | Suc fuel \<Rightarrow>
        (case CBS_get_any_ber_asn1_element orig_in of (None, _) \<Rightarrow> None | (Some el, rest) \<Rightarrow>
           if el_ber_found el then Some True
           else if el_tag el AND CBS_ASN1_CONSTRUCTED \<noteq> 0 then
             if is_string_type (el_tag el) then Some True
             else
               (case CBS_skip (el_header_len el) (el_out el) of (None, _) \<Rightarrow> None | (Some _, contents) \<Rightarrow>
                  (case cbs_find_ber fuel contents (depth + 1) of
                     None \<Rightarrow> None
                   | Some found \<Rightarrow> if found then Some True else cbs_find_ber fuel rest depth))
           else cbs_find_ber fuel rest depth))"

declare cbs_find_ber.simps [simp del]

definition cbs_get_eoc :: "cbs \<Rightarrow> unit option \<times> cbs" where
  "cbs_get_eoc cbs =
     (if cbs_len cbs \<ge> 2 \<and> cbs_data cbs ! 0 = 0 \<and> cbs_data cbs ! 1 = 0 then CBS_skip 2 cbs
      else (None, cbs))"

text \<open>The input is returned on an error too, as far as it has been consumed.\<close>

fun cbs_convert_ber :: "alloc \<Rightarrow> nat \<Rightarrow> cbs \<Rightarrow> nat \<Rightarrow> asn1_tag \<Rightarrow> bool \<Rightarrow> nat \<Rightarrow> cbb \<Rightarrow> unit option \<times> cbs \<times> cbb" where
  "cbs_convert_ber A fuel inp out string_tag looking_for_eoc depth s =
     (if depth > kMaxDepth then (None, inp, s)
      else if cbs_len inp = 0 then (if looking_for_eoc then None else Some (), inp, s)
      else if looking_for_eoc \<and> fst (cbs_get_eoc inp) \<noteq> None then (Some (), snd (cbs_get_eoc inp), s)
      else case fuel of 0 \<Rightarrow> (None, inp, s) | Suc fuel \<Rightarrow>
        (case CBS_get_any_ber_asn1_element inp of (None, inp) \<Rightarrow> (None, inp, s) | (Some el, inp) \<Rightarrow>
          let tag = el_tag el;
              constructed = tag AND CBS_ASN1_CONSTRUCTED \<noteq> 0;
              base_tag = tag AND NOT CBS_ASN1_CONSTRUCTED;
              string = constructed \<and> is_string_type tag;
              out_tag = (if string then base_tag else tag);
              child_string_tag = (if string_tag \<noteq> 0 then string_tag else if string then out_tag else 0);
              out_contents = (if string_tag \<noteq> 0 then out else Suc out)
          in if string_tag \<noteq> 0 \<and> base_tag \<noteq> string_tag then (None, inp, s)
             else case (if string_tag \<noteq> 0 then (Some (), s) else CBB_add_asn1 A out out_tag s) of
               (None, s) \<Rightarrow> (None, inp, s)
             | (Some _, s) \<Rightarrow>
                 (case (if el_indefinite el
                        then cbs_convert_ber A fuel inp out_contents child_string_tag True (depth + 1) s
                        else case CBS_skip (el_header_len el) (el_out el) of
                          (None, _) \<Rightarrow> (None, inp, s)
                        | (Some _, contents) \<Rightarrow>
                            if constructed then
                              (case cbs_convert_ber A fuel contents out_contents child_string_tag False (depth + 1) s of
                                 (r, _, s) \<Rightarrow> (r, inp, s))
                            else
                              (case CBB_add_bytes A out_contents (cbs_data contents) (cbs_len contents) s of
                                 (r, s) \<Rightarrow> (r, inp, s)))
                  of (None, inp, s) \<Rightarrow> (None, inp, s)
                   | (Some _, inp, s) \<Rightarrow>
                       (case CBB_flush A out s of (None, s) \<Rightarrow> (None, inp, s)
                        | (Some _, s) \<Rightarrow> cbs_convert_ber A fuel inp out string_tag looking_for_eoc depth s))))"

declare cbs_convert_ber.simps [simp del]

text \<open>The output CBS, \<open>*out_storage\<close> (NULL when nothing was converted), and the input left.\<close>

definition CBS_asn1_ber_to_der :: "alloc \<Rightarrow> cbs \<Rightarrow> (cbs \<times> u8 list option) option \<times> cbs" where
  "CBS_asn1_ber_to_der A inp =
     (let fuel = unat (cbs_len inp) in
      case cbs_find_ber fuel inp 0 of None \<Rightarrow> (None, inp)
      | Some conversion_needed \<Rightarrow>
          if \<not> conversion_needed then
            (case CBS_get_any_asn1_element inp of (None, inp) \<Rightarrow> (None, inp)
             | (Some el, inp) \<Rightarrow> (Some (el_out el, None), inp))
          else
            (case CBB_init A (cbs_len inp) of (None, _) \<Rightarrow> (None, inp) | (Some _, s) \<Rightarrow>
              (case cbs_convert_ber A fuel inp 0 0 False 0 s of (None, rest, _) \<Rightarrow> (None, rest)
               | (Some _, rest, s) \<Rightarrow>
                   (case CBB_finish A 0 True True s of (None, _) \<Rightarrow> (None, rest)
                    | (Some (data, len), _) \<Rightarrow> (Some (CBS_init data len, Some data), rest)))))"

fun implicit_string_loop :: "alloc \<Rightarrow> nat \<Rightarrow> asn1_tag \<Rightarrow> cbs \<Rightarrow> (cbb, unit) op" where
  "implicit_string_loop A fuel inner_tag child s =
     (if cbs_len child = 0 then (Some (), s)
      else case fuel of 0 \<Rightarrow> (None, s) | Suc fuel \<Rightarrow>
        (case CBS_get_asn1 inner_tag child of (None, _) \<Rightarrow> (None, s) | (Some chunk, child) \<Rightarrow>
          (case CBB_add_bytes A 0 (cbs_data chunk) (cbs_len chunk) s of (None, s) \<Rightarrow> (None, s)
           | (Some _, s) \<Rightarrow> implicit_string_loop A fuel inner_tag child s)))"

declare implicit_string_loop.simps [simp del]

definition CBS_get_asn1_implicit_string :: "alloc \<Rightarrow> asn1_tag \<Rightarrow> asn1_tag \<Rightarrow> (cbs, cbs \<times> u8 list option) op" where
  "CBS_get_asn1_implicit_string A outer_tag inner_tag inp =
     (if CBS_peek_asn1_tag inp outer_tag then step (CBS_get_asn1 outer_tag) (\<lambda>out. ret (out, None)) inp
      else case CBB_init A (cbs_len inp) of (None, _) \<Rightarrow> (None, inp) | (Some _, s) \<Rightarrow>
        step (CBS_get_asn1 (outer_tag OR CBS_ASN1_CONSTRUCTED)) (\<lambda>child inp.
          case implicit_string_loop A (unat (cbs_len child)) inner_tag child s of (None, _) \<Rightarrow> (None, inp)
          | (Some _, s) \<Rightarrow>
              (case CBB_finish A 0 True True s of (None, _) \<Rightarrow> (None, inp)
               | (Some (data, len), _) \<Rightarrow> (Some (CBS_init data len, Some data), inp))) inp)"

text \<open>
  \<open>CBB_finish_i2d\<close>: the result, \<open>*outp\<close> afterwards and the bytes written before the new
  \<open>*outp\<close>. \<open>outp\<close> is \<open>None\<close> for NULL, \<open>Some None\<close> for a pointer to NULL and \<open>Some (Some p)\<close>
  for a pointer to the memory \<open>p\<close>.
\<close>

definition CBB_finish_i2d :: "alloc \<Rightarrow> u8 list option option \<Rightarrow> cbb \<Rightarrow>
    int \<times> u8 list option option \<times> u8 list" where
  "CBB_finish_i2d A outp s =
     (case CBB_finish A 0 True True s of (None, _) \<Rightarrow> (- 1, outp, [])
      | (Some (der, dlen), _) \<Rightarrow>
          if uint dlen > INT_MAX then (- 1, outp, [])
          else (uint dlen,
            (case outp of
               None \<Rightarrow> (None, [])
             | Some None \<Rightarrow> (Some (Some der), [])
             | Some (Some p) \<Rightarrow> (Some (Some (drop (unat dlen) p)), take (unat dlen) der))))"


section \<open>Finding BER\<close>

lemma ber_of_der:
  "CBS_get_any_asn1_element c = (Some el, c') \<Longrightarrow>
     CBS_get_any_ber_asn1_element c = (Some el, c') \<and> \<not> el_ber_found el"
  by (auto simp: CBS_get_any_asn1_element_def CBS_get_any_ber_asn1_element_def cbs_get_any_asn1_element_def
      Let_def step_eq_Some split: prod.splits option.splits if_splits)

lemma der_of_ber:
  "CBS_get_any_ber_asn1_element c = (Some el, c') \<Longrightarrow> \<not> el_ber_found el \<Longrightarrow>
     CBS_get_any_asn1_element c = (Some el, c')"
  by (auto simp: CBS_get_any_asn1_element_def CBS_get_any_ber_asn1_element_def cbs_get_any_asn1_element_def
      Let_def step_eq_Some split: prod.splits option.splits if_splits)

text \<open>
  DER all the way down: a sequence of DER elements none of which is a constructed string, the
  bodies of the constructed ones again such sequences, at most \<open>k\<close> levels deep.
\<close>

inductive der_nested :: "nat \<Rightarrow> u8 list \<Rightarrow> bool" where
  Nil: "der_nested (Suc k) []"
| Prim: "tag AND CBS_ASN1_CONSTRUCTED = 0 \<Longrightarrow> valid_tag tag \<Longrightarrow> length body < 256 ^ 4 \<Longrightarrow>
    der_nested (Suc k) ys \<Longrightarrow> der_nested (Suc k) (der_tlv tag body @ ys)"
| Constr: "tag AND CBS_ASN1_CONSTRUCTED \<noteq> 0 \<Longrightarrow> \<not> is_string_type tag \<Longrightarrow> valid_tag tag \<Longrightarrow>
    length body < 256 ^ 4 \<Longrightarrow> der_nested k body \<Longrightarrow> der_nested (Suc k) ys \<Longrightarrow>
    der_nested (Suc k) (der_tlv tag body @ ys)"

lemma find_ber_step:
  assumes "fits (der_tlv tag body @ ys)" and "valid_tag tag" and "length body < 256 ^ 4" and "depth \<le> kMaxDepth"
  shows "cbs_find_ber (Suc f) (cbs_view (der_tlv tag body @ ys) t) depth =
    (if tag AND CBS_ASN1_CONSTRUCTED = 0 then cbs_find_ber f (cbs_view ys t) depth
     else if is_string_type tag then Some True
     else case cbs_find_ber f (cbs_view body (ys @ t)) (depth + 1) of None \<Rightarrow> None
       | Some found \<Rightarrow> if found then Some True else cbs_find_ber f (cbs_view ys t) depth)"
proof -
  have g: "CBS_get_any_ber_asn1_element (cbs_view (der_tlv tag body @ ys) t) =
      (Some (der_element tag body (ys @ t)), cbs_view ys t)"
    using ber_of_der [OF get_any_asn1_element_complete [OF assms(1) refl assms(2,3)]] by simp
  have nf: "\<not> el_ber_found (der_element tag body (ys @ t))" by (simp add: der_element_def)
  have "der_tlv tag body @ ys \<noteq> []" using length_der_tag(2) [of tag] by (simp add: der_tlv_def)
  then have nz: "cbs_len (cbs_view (der_tlv tag body @ ys) t) \<noteq> 0"
    using assms(1) by (simp only: cbs_len_view cbs_len_view_0 not_False_eq_True)
  have "fits (der_tlv tag body)" using assms(1) by simp
  note sk = skip_header [OF this, of "ys @ t"]
  show ?thesis
    by (subst cbs_find_ber.simps, simp only: assms(4) not_less nz g nf der_element_simps
      if_False if_True nat.case prod.case option.case not_le [symmetric] HOL.simp_thms)
      (use sk in \<open>simp del: of_nat_add length_append\<close>)
qed


lemma length_tlv: "length body < length (der_tlv tag body)"
  using length_der_tag(2) [of tag] by (simp add: der_tlv_def)

lemma find_ber_Nil: "depth \<le> kMaxDepth \<Longrightarrow> cbs_find_ber f (cbs_view [] t) depth = Some False"
  by (simp add: cbs_find_ber.simps)

lemma find_ber_deep: "depth > kMaxDepth \<Longrightarrow> cbs_find_ber f c depth = None"
  by (simp add: cbs_find_ber.simps)

text \<open>On any other input the first element decides: it is unreadable or not DER, or it is DER.\<close>

lemma find_ber_cases:
  assumes "fits bs" and "bs \<noteq> []" and "depth \<le> kMaxDepth"
  obtains (bad) r where "r = None \<or> r = Some True" "\<And>f. cbs_find_ber (Suc f) (cbs_view bs t) depth = r"
  | (der) tag body ys where "bs = der_tlv tag body @ ys" "valid_tag tag" "length body < 256 ^ 4"
      "length ys < length bs" "length body < length bs"
proof -
  have nz: "cbs_len (cbs_view bs t) \<noteq> 0" using assms(1,2) by (simp add: cbs_len_view_0)
  obtain r c where g: "CBS_get_any_ber_asn1_element (cbs_view bs t) = (r, c)"
    by (cases "CBS_get_any_ber_asn1_element (cbs_view bs t)")
  show thesis
  proof (cases r)
    case None
    with g nz assms(3) show thesis
      by (intro bad [of None]) (simp_all add: cbs_find_ber.simps [of "Suc _"])
  next
    case (Some el)
    show thesis
    proof (cases "el_ber_found el")
      case True
      with g nz Some assms(3) show thesis
        by (intro bad [of "Some True"]) (simp_all add: cbs_find_ber.simps [of "Suc _"])
    next
      case False
      from der_of_ber [OF g [unfolded Some] False]
      obtain tag body ys where *: "bs = der_tlv tag body @ ys" "valid_tag tag" "length body < 256 ^ 4"
        by (rule get_any_asn1_element_sound [OF assms(1)])
      have "der_tlv tag body \<noteq> []" using length_tlv [of body tag] by auto
      then show thesis using der [OF *] *(1) length_tlv [of body tag] by simp
    qed
  qed
qed

lemma find_ber_fuel:
  "fits bs \<Longrightarrow> length bs \<le> f \<Longrightarrow> length bs \<le> g \<Longrightarrow>
     cbs_find_ber f (cbs_view bs t) depth = cbs_find_ber g (cbs_view bs t) depth"
proof (induction f arbitrary: g bs t depth)
  case 0
  then show ?case by (simp add: cbs_find_ber.simps)
next
  case (Suc f)
  show ?case
  proof (cases "bs = [] \<or> depth > kMaxDepth")
    case True
    then show ?thesis using find_ber_deep find_ber_Nil by (metis not_le)
  next
    case False
    with Suc.prems(3) obtain g' where g: "g = Suc g'" by (cases g) auto
    from False have ne: "bs \<noteq> []" and dd: "depth \<le> kMaxDepth" by auto
    from Suc.prems(1) ne dd show ?thesis
    proof (cases rule: find_ber_cases [where t = t])
      case (der tag body ys)
      have "cbs_find_ber f (cbs_view ys t) depth = cbs_find_ber g' (cbs_view ys t) depth"
        using der Suc.prems g length_tlv [of body tag] by (intro Suc.IH) auto
      moreover have "cbs_find_ber f (cbs_view body (ys @ t)) (depth + 1) = cbs_find_ber g' (cbs_view body (ys @ t)) (depth + 1)"
        using der Suc.prems g by (intro Suc.IH) simp_all
      moreover have "fits (der_tlv tag body @ ys)" using Suc.prems(1) der(1) by simp
      ultimately show ?thesis
        unfolding g der(1) using dd der(2,3) by (simp only: find_ber_step)
    qed (simp add: g)
  qed
qed

lemma find_ber_sound:
  "fits bs \<Longrightarrow> cbs_find_ber f (cbs_view bs t) depth = Some False \<Longrightarrow>
     depth \<le> kMaxDepth \<and> der_nested (Suc (kMaxDepth - depth)) bs"
proof (induction f arbitrary: bs t depth)
  case 0
  then show ?case by (auto simp: cbs_find_ber.simps cbs_len_view_0 intro: der_nested.Nil split: if_splits)
next
  case (Suc f)
  have d: "depth \<le> kMaxDepth" using Suc.prems(2) find_ber_deep by (metis not_le option.distinct(1))
  show ?case
  proof (cases "bs = []")
    case True
    with d show ?thesis by (auto intro: der_nested.Nil)
  next
    case False
    from Suc.prems(1) False d show ?thesis
    proof (cases rule: find_ber_cases [where t = t])
      case (der tag body ys)
      have fit: "fits (der_tlv tag body @ ys)" "fits ys" "fits body" using Suc.prems(1) der by simp_all
      note st = find_ber_step [OF fit(1) der(2,3) d, of f t]
      show ?thesis
      proof (cases "tag AND CBS_ASN1_CONSTRUCTED = 0")
        case True
        with st Suc.prems(2) der(1) have "cbs_find_ber f (cbs_view ys t) depth = Some False" by simp
        from Suc.IH [OF fit(2) this] True der d show ?thesis by (auto intro: der_nested.Prim)
      next
        case F: False
        with st Suc.prems(2) der(1) have ns: "\<not> is_string_type tag" by (auto split: if_splits)
        with F st Suc.prems(2) der(1) have b: "cbs_find_ber f (cbs_view body (ys @ t)) (depth + 1) = Some False"
          and y: "cbs_find_ber f (cbs_view ys t) depth = Some False"
          by (auto split: option.splits if_splits)
        from Suc.IH [OF fit(3) b] have "der_nested (kMaxDepth - depth) body"
          by (auto simp: Suc_diff_Suc)
        with Suc.IH [OF fit(2) y] F ns der d show ?thesis by (auto intro: der_nested.Constr)
      qed
    qed (use Suc.prems(2) in auto)
  qed
qed

lemma find_ber_complete:
  "der_nested k bs \<Longrightarrow> fits bs \<Longrightarrow> depth \<le> kMaxDepth \<Longrightarrow> k = Suc (kMaxDepth - depth) \<Longrightarrow> length bs \<le> f \<Longrightarrow>
     cbs_find_ber f (cbs_view bs t) depth = Some False"
proof (induction arbitrary: f t depth rule: der_nested.induct)
  case (Nil k)
  then show ?case by (simp add: find_ber_Nil)
next
  case (Prim tag body k ys)
  from Prim.prems(4) length_tlv [of body tag] obtain f' where f: "f = Suc f'" "length ys \<le> f'" by (cases f) auto
  have "fits ys" using Prim.prems(1) by simp
  then have "cbs_find_ber f' (cbs_view ys t) depth = Some False"
    using Prim.prems f by (intro Prim.IH)
  then show ?case
    unfolding f by (simp only: find_ber_step [OF Prim.prems(1) Prim.hyps(2,3) Prim.prems(2)] Prim.hyps(1) if_True simp_thms)
next
  case (Constr tag body k ys)
  from Constr.prems(4) length_tlv [of body tag]
  obtain f' where f: "f = Suc f'" "length ys \<le> f'" "length body \<le> f'" by (cases f) auto
  have fit: "fits ys" "fits body" using Constr.prems(1) by (simp_all add: der_tlv_def)
  have "k \<noteq> 0" using Constr.hyps(5) by (auto elim: der_nested.cases)
  then have "depth + 1 \<le> kMaxDepth" "k = Suc (kMaxDepth - (depth + 1))" using Constr.prems(2,3) by auto
  then have "cbs_find_ber f' (cbs_view body (ys @ t)) (depth + 1) = Some False"
    using fit f by (intro Constr.IH(1))
  moreover have "cbs_find_ber f' (cbs_view ys t) depth = Some False"
    using Constr.prems fit f by (intro Constr.IH(2))
  ultimately show ?case
    unfolding f using Constr.hyps(1,2)
    by (simp only: find_ber_step [OF Constr.prems(1) Constr.hyps(3,4) Constr.prems(2)] if_False option.case simp_thms)
qed


lemma find_ber_iff:
  assumes "fits bs"
  shows "cbs_find_ber (length bs) (cbs_view bs t) 0 = Some False \<longleftrightarrow> der_nested (Suc kMaxDepth) bs"
proof
  assume "cbs_find_ber (length bs) (cbs_view bs t) 0 = Some False"
  from find_ber_sound [OF assms this] show "der_nested (Suc kMaxDepth) bs" by simp
next
  assume "der_nested (Suc kMaxDepth) bs"
  from find_ber_complete [OF this assms] show "cbs_find_ber (length bs) (cbs_view bs t) 0 = Some False"
    by simp
qed

text \<open>
  C20: BER detection. On any input, with the length of the input as fuel, \<open>cbs_find_ber\<close>
  at depth 0 reports that there is no BER in it exactly when the input is DER all the way down,
  129 levels at most; more fuel never changes its answer.
\<close>

theorem cbs_find_ber_iff:
  assumes "fits bs"
  shows "(cbs_find_ber (length bs) (cbs_view bs t) 0 = Some False \<longleftrightarrow> der_nested (Suc kMaxDepth) bs) \<and>
    (\<forall>f \<ge> length bs. cbs_find_ber f (cbs_view bs t) 0 = cbs_find_ber (length bs) (cbs_view bs t) 0)"
proof (rule conjI)
  show "cbs_find_ber (length bs) (cbs_view bs t) 0 = Some False \<longleftrightarrow> der_nested (Suc kMaxDepth) bs"
    by (rule find_ber_iff [OF assms])
  show "\<forall>f \<ge> length bs. cbs_find_ber f (cbs_view bs t) 0 = cbs_find_ber (length bs) (cbs_view bs t) 0"
  proof (rule allI, rule impI)
    fix f assume "length bs \<le> f"
    then show "cbs_find_ber f (cbs_view bs t) 0 = cbs_find_ber (length bs) (cbs_view bs t) 0"
      using find_ber_fuel [OF assms] by blast
  qed
qed

theorem cbs_find_ber_iff_witness:
  "cbs_find_ber 5 (cbs_view [0x30, 3, 2, 1, 7] []) 0 = Some False"
proof -
  have e: "der_tlv 0x20000010 [2, 1, 7] = [0x30, 3, 2, 1, 7]" "der_tlv 2 [7] = [2, 1, 7]" by code_simp+
  have t: "valid_tag 2" "valid_tag 0x20000010" "\<not> is_string_type 0x20000010"
    "2 AND CBS_ASN1_CONSTRUCTED = 0" "0x20000010 AND CBS_ASN1_CONSTRUCTED \<noteq> 0" by code_simp+
  have "der_nested kMaxDepth (der_tlv 2 [7] @ [])"
    unfolding kMaxDepth_def numeral_eq_Suc using t by (intro der_nested.Prim der_nested.Nil) simp_all
  then have "der_nested (Suc kMaxDepth) (der_tlv 0x20000010 [2, 1, 7] @ [])"
    using t e by (intro der_nested.Constr der_nested.Nil) simp_all
  then show ?thesis using cbs_find_ber_iff [of "[0x30, 3, 2, 1, 7]" "[]"] e by simp
qed

text \<open>
  DER passes through unchanged. \<open>CBS_asn1_ber_to_der\<close> returns a view into the input,
  without new storage, exactly when the whole input is DER all the way down; the result is then
  its first element, and the input continues behind it.
\<close>

theorem CBS_asn1_ber_to_der_der:
  assumes "fits bs"
  shows "CBS_asn1_ber_to_der A (cbs_view bs t) = (Some (out, None), rest) \<longleftrightarrow>
    der_nested (Suc kMaxDepth) bs \<and>
    (\<exists>tag body ys. bs = der_tlv tag body @ ys \<and> valid_tag tag \<and> length body < 256 ^ 4 \<and>
       out = cbs_view (der_tlv tag body) (ys @ t) \<and> rest = cbs_view ys t)"
proof -
  have len: "unat (cbs_len (cbs_view bs t)) = length bs" using assms by (simp add: unat_of_nat)
  have conv: "CBS_asn1_ber_to_der A (cbs_view bs t) \<noteq> (Some (out, None), rest)"
    if "cbs_find_ber (length bs) (cbs_view bs t) 0 = Some True"
    using that by (auto simp: CBS_asn1_ber_to_der_def len Let_def simp del: cbs_len_view split: prod.splits option.splits)
  have err: "CBS_asn1_ber_to_der A (cbs_view bs t) \<noteq> (Some (out, None), rest)"
    if "cbs_find_ber (length bs) (cbs_view bs t) 0 = None"
    using that by (simp add: CBS_asn1_ber_to_der_def len del: cbs_len_view)
  have pass: "CBS_asn1_ber_to_der A (cbs_view bs t) = (Some (out, None), rest) \<longleftrightarrow>
      (\<exists>el. CBS_get_any_asn1_element (cbs_view bs t) = (Some el, rest) \<and> out = el_out el)"
    if "cbs_find_ber (length bs) (cbs_view bs t) 0 = Some False"
    using that by (auto simp: CBS_asn1_ber_to_der_def len simp del: cbs_len_view split: prod.splits option.splits)
  note f = find_ber_iff [OF assms, of t]
  show ?thesis
  proof (cases "cbs_find_ber (length bs) (cbs_view bs t) 0")
    case None
    with err f show ?thesis by simp
  next
    case (Some b)
    show ?thesis
    proof (cases b)
      case True
      with conv f Some show ?thesis by simp
    next
      case False
      have "(\<exists>el. CBS_get_any_asn1_element (cbs_view bs t) = (Some el, rest) \<and> out = el_out el) \<longleftrightarrow>
          (\<exists>tag body ys. bs = der_tlv tag body @ ys \<and> valid_tag tag \<and> length body < 256 ^ 4 \<and>
             out = cbs_view (der_tlv tag body) (ys @ t) \<and> rest = cbs_view ys t)" (is "?l \<longleftrightarrow> ?r")
      proof
        assume ?l
        then obtain el where "CBS_get_any_asn1_element (cbs_view bs t) = (Some el, rest)" "out = el_out el" by blast
        from get_any_asn1_element_sound [OF assms this(1)] this(2) show ?r by (metis der_element_simps(2))
      next
        assume ?r
        then obtain tag body ys where "bs = der_tlv tag body @ ys" "valid_tag tag" "length body < 256 ^ 4"
          "out = cbs_view (der_tlv tag body) (ys @ t)" "rest = cbs_view ys t" by blast
        then show ?l using get_any_asn1_element_complete [OF assms, of tag body ys t] by simp
      qed
      with pass f Some False show ?thesis by simp
    qed
  qed
qed

theorem CBS_asn1_ber_to_der_der_witness:
  "CBS_asn1_ber_to_der (\<lambda>_. True) (cbs_view [2, 1, 7, 4, 0] []) =
     (Some (cbs_view [2, 1, 7] [4, 0], None), cbs_view [4, 0] [])"
proof -
  have e: "der_tlv 2 [7] = [2, 1, 7]" "der_tlv 4 [] = [4, 0]" by code_simp+
  have t: "valid_tag 2" "valid_tag 4" "2 AND CBS_ASN1_CONSTRUCTED = 0" "4 AND CBS_ASN1_CONSTRUCTED = 0"
    by code_simp+
  have "der_nested (Suc kMaxDepth) (der_tlv 2 [7] @ der_tlv 4 [] @ [])"
    using t by (intro der_nested.Prim der_nested.Nil) simp_all
  then show ?thesis
    using t by (subst CBS_asn1_ber_to_der_der, simp)
      (rule conjI, simp add: e, rule exI [of _ 2], rule exI [of _ "[7]"], simp add: e)
qed

text \<open>A constructed string of indefinite length becomes one primitive string.\<close>

lemma convert_example:
  "CBS_asn1_ber_to_der (\<lambda>_. True) (cbs_view [0x24, 0x80, 4, 1, 0x61, 4, 1, 0x62, 0, 0] []) =
     (Some (CBS_init [4, 2, 0x61, 0x62, 0, 0, 0, 0, 0, 0] 4, Some [4, 2, 0x61, 0x62, 0, 0, 0, 0, 0, 0]),
      cbs_view [] [])"
  by code_simp

end
