(* ===== verification/Lhash.thy ===== *)
theory Lhash
  imports Mem
begin

text \<open>
  Hash tables (crypto/lhash/lhash.c). A chain of \<open>LHASH_ITEM\<close>s is the list of its items, a
  \<open>LHASH_ITEM **\<close> into a chain is the number of the bucket and the position in its chain,
  the position behind the last item standing for the pointer to the final NULL. The data is an
  arbitrary type, a NULL result is \<open>None\<close>. The hash and comparison functions are fields of
  the table, as in the code. \<open>A\<close> says which allocations succeed.
\<close>

section \<open>The code\<close>

definition kMinNumBuckets :: size_t where
  "kMinNumBuckets = 16"

definition kMaxAverageChainLength :: size_t where
  "kMaxAverageChainLength = 2"

definition kMinAverageChainLength :: size_t where
  "kMinAverageChainLength = 1"

record 'd lhash_item_st =
  it_data :: 'd
  it_hash :: u32

record 'd lhash_st =
  lh_num_items :: size_t
  lh_buckets :: "'d lhash_item_st list list"
  lh_num_buckets :: size_t
  lh_callback_depth :: u32
  lh_comp :: "'d \<Rightarrow> 'd \<Rightarrow> int"
  lh_hash :: "'d \<Rightarrow> u32"

definition OPENSSL_lh_new ::
    "(size_t \<Rightarrow> bool) \<Rightarrow> size_t \<Rightarrow> ('d \<Rightarrow> u32) \<Rightarrow> ('d \<Rightarrow> 'd \<Rightarrow> int) \<Rightarrow> 'd lhash_st option" where
  \<comment> \<open>\<open>sz\<close> is \<open>sizeof(_LHASH)\<close>\<close>
  "OPENSSL_lh_new A sz hash cmp =
     (if \<not> A sz then None
      else if \<not> A (kMinNumBuckets * 8) then None
      else Some \<lparr>lh_num_items = 0, lh_buckets = replicate (unat kMinNumBuckets) [],
             lh_num_buckets = kMinNumBuckets, lh_callback_depth = 0,
             lh_comp = cmp, lh_hash = hash\<rparr>)"

definition OPENSSL_lh_num_items :: "'d lhash_st \<Rightarrow> size_t" where
  "OPENSSL_lh_num_items lh = lh_num_items lh"

text \<open>The bucket of a hash value, \<open>hash % num_buckets\<close>.\<close>

definition bucket_of :: "u32 \<Rightarrow> size_t \<Rightarrow> nat" where
  "bucket_of hash num_buckets = unat (ucast hash mod num_buckets)"

fun next_ptr_loop :: "('d \<Rightarrow> bool) \<Rightarrow> nat \<Rightarrow> 'd lhash_item_st list \<Rightarrow> nat" where
  "next_ptr_loop found pos [] = pos"
| "next_ptr_loop found pos (cur # chain) =
     (if found (it_data cur) then pos else next_ptr_loop found (Suc pos) chain)"

definition get_next_ptr_and_hash :: "'d lhash_st \<Rightarrow> 'd \<Rightarrow> (nat \<times> nat) \<times> u32" where
  "get_next_ptr_and_hash lh data =
     (let hash = lh_hash lh data; b = bucket_of hash (lh_num_buckets lh) in
      ((b, next_ptr_loop (\<lambda>cur. lh_comp lh cur data = 0) 0 (lh_buckets lh ! b)), hash))"

definition get_next_ptr_by_key :: "'d lhash_st \<Rightarrow> 'k \<Rightarrow> u32 \<Rightarrow> ('k \<Rightarrow> 'd \<Rightarrow> int) \<Rightarrow> nat \<times> nat" where
  "get_next_ptr_by_key lh key key_hash cmp_key =
     (let b = bucket_of key_hash (lh_num_buckets lh) in
      (b, next_ptr_loop (\<lambda>cur. cmp_key key cur = 0) 0 (lh_buckets lh ! b)))"

text \<open>\<open>*next_ptr\<close>, where \<open>None\<close> is the NULL at the end of a chain.\<close>

definition item_at :: "'d lhash_st \<Rightarrow> nat \<times> nat \<Rightarrow> 'd lhash_item_st option" where
  "item_at lh p = (case p of (b, i) \<Rightarrow>
     if i < length (lh_buckets lh ! b) then Some (lh_buckets lh ! b ! i) else None)"

definition OPENSSL_lh_retrieve :: "'d lhash_st \<Rightarrow> 'd \<Rightarrow> 'd option" where
  "OPENSSL_lh_retrieve lh data =
     (case item_at lh (fst (get_next_ptr_and_hash lh data)) of None \<Rightarrow> None | Some it \<Rightarrow> Some (it_data it))"

definition OPENSSL_lh_retrieve_key :: "'d lhash_st \<Rightarrow> 'k \<Rightarrow> u32 \<Rightarrow> ('k \<Rightarrow> 'd \<Rightarrow> int) \<Rightarrow> 'd option" where
  "OPENSSL_lh_retrieve_key lh key key_hash cmp_key =
     (case item_at lh (get_next_ptr_by_key lh key key_hash cmp_key) of None \<Rightarrow> None
      | Some it \<Rightarrow> Some (it_data it))"

text \<open>The two nested loops of \<open>lh_rebucket\<close> visit the items chain by chain; each goes to the
  front of its new chain.\<close>

definition rebucket_item :: "size_t \<Rightarrow> 'd lhash_item_st \<Rightarrow> 'd lhash_item_st list list \<Rightarrow> 'd lhash_item_st list list" where
  "rebucket_item new_num_buckets cur new_buckets =
     (let new_bucket = bucket_of (it_hash cur) new_num_buckets in
      new_buckets[new_bucket := cur # new_buckets ! new_bucket])"

definition lh_rebucket :: "(size_t \<Rightarrow> bool) \<Rightarrow> 'd lhash_st \<Rightarrow> size_t \<Rightarrow> 'd lhash_st" where
  "lh_rebucket A lh new_num_buckets =
     (let alloc_size = 8 * new_num_buckets in
      if alloc_size div 8 \<noteq> new_num_buckets then lh
      else if \<not> A alloc_size then lh
      else lh\<lparr>lh_num_buckets := new_num_buckets,
              lh_buckets := fold (fold (rebucket_item new_num_buckets)) (lh_buckets lh)
                (replicate (unat new_num_buckets) [])\<rparr>)"

definition lh_maybe_resize :: "(size_t \<Rightarrow> bool) \<Rightarrow> 'd lhash_st \<Rightarrow> 'd lhash_st" where
  "lh_maybe_resize A lh =
     (if lh_callback_depth lh > 0 then lh
      else let avg_chain_length = lh_num_items lh div lh_num_buckets lh in
      if avg_chain_length > kMaxAverageChainLength then
        let new_num_buckets = lh_num_buckets lh * 2 in
        if new_num_buckets > lh_num_buckets lh then lh_rebucket A lh new_num_buckets else lh
      else if avg_chain_length < kMinAverageChainLength \<and> lh_num_buckets lh > kMinNumBuckets then
        let new_num_buckets = lh_num_buckets lh div 2 in
        lh_rebucket A lh (if new_num_buckets < kMinNumBuckets then kMinNumBuckets else new_num_buckets)
      else lh)"

text \<open>Writing through \<open>next_ptr\<close>: the chain that holds it is replaced.\<close>

definition set_chain :: "nat \<Rightarrow> 'd lhash_item_st list \<Rightarrow> 'd lhash_st \<Rightarrow> 'd lhash_st" where
  "set_chain b chain lh = lh\<lparr>lh_buckets := (lh_buckets lh)[b := chain]\<rparr>"

text \<open>The status, \<open>*old_data\<close>, and the table. \<open>sz\<close> is \<open>sizeof(LHASH_ITEM)\<close>.\<close>

definition OPENSSL_lh_insert ::
    "(size_t \<Rightarrow> bool) \<Rightarrow> size_t \<Rightarrow> 'd \<Rightarrow> 'd lhash_st \<Rightarrow> bool \<times> 'd option \<times> 'd lhash_st" where
  "OPENSSL_lh_insert A sz data lh =
     (case get_next_ptr_and_hash lh data of ((b, i), hash) \<Rightarrow>
      let chain = lh_buckets lh ! b in
      case item_at lh (b, i) of
        Some it \<Rightarrow> (True, Some (it_data it), set_chain b (chain[i := it\<lparr>it_data := data\<rparr>]) lh)
      | None \<Rightarrow>
          if \<not> A sz then (False, None, lh)
          else let lh = set_chain b (chain @ [\<lparr>it_data = data, it_hash = hash\<rparr>]) lh;
                   lh = lh\<lparr>lh_num_items := lh_num_items lh + 1\<rparr>
               in (True, None, lh_maybe_resize A lh))"

definition OPENSSL_lh_delete :: "(size_t \<Rightarrow> bool) \<Rightarrow> 'd \<Rightarrow> 'd lhash_st \<Rightarrow> 'd option \<times> 'd lhash_st" where
  "OPENSSL_lh_delete A data lh =
     (case get_next_ptr_and_hash lh data of ((b, i), _) \<Rightarrow>
      let chain = lh_buckets lh ! b in
      case item_at lh (b, i) of
        None \<Rightarrow> (None, lh)
      | Some it \<Rightarrow>
          let lh = set_chain b (take i chain @ drop (Suc i) chain) lh;
              lh = lh\<lparr>lh_num_items := lh_num_items lh - 1\<rparr>
          in (Some (it_data it), lh_maybe_resize A lh))"

text \<open>
  \<open>OPENSSL_lh_doall_arg\<close>. \<open>next\<close> is read before the call, so the loop sees the chain as it
  was when it came to the bucket as long as the callback at most deletes the item it was given;
  for callbacks that insert or that delete another item of the chain the model says nothing.
  The callback acts on the table and on a state of its own.
\<close>

fun doall_chain :: "('d \<Rightarrow> 'd lhash_st \<times> 'w \<Rightarrow> 'd lhash_st \<times> 'w) \<Rightarrow> 'd lhash_item_st list \<Rightarrow>
    'd lhash_st \<times> 'w \<Rightarrow> 'd lhash_st \<times> 'w" where
  "doall_chain func [] s = s"
| "doall_chain func (cur # chain) s = doall_chain func chain (func (it_data cur) s)"

fun doall_loop :: "('d \<Rightarrow> 'd lhash_st \<times> 'w \<Rightarrow> 'd lhash_st \<times> 'w) \<Rightarrow> nat list \<Rightarrow>
    'd lhash_st \<times> 'w \<Rightarrow> 'd lhash_st \<times> 'w" where
  "doall_loop func [] s = s"
| "doall_loop func (i # is) s = doall_loop func is (doall_chain func (lh_buckets (fst s) ! i) s)"

definition UINT_MAX :: u32 where
  "UINT_MAX = - 1"

fun OPENSSL_lh_doall_arg :: "(size_t \<Rightarrow> bool) \<Rightarrow> ('d \<Rightarrow> 'd lhash_st \<times> 'w \<Rightarrow> 'd lhash_st \<times> 'w) \<Rightarrow>
    'd lhash_st option \<Rightarrow> 'w \<Rightarrow> 'd lhash_st option \<times> 'w" where
  "OPENSSL_lh_doall_arg A func None w = (None, w)"
| "OPENSSL_lh_doall_arg A func (Some lh) w =
     (let d = lh_callback_depth lh;
          lh = lh\<lparr>lh_callback_depth := (if d < UINT_MAX then d + 1 else d)\<rparr>;
          s = doall_loop func [0..<unat (lh_num_buckets lh)] (lh, w);
          lh = fst s; d = lh_callback_depth lh;
          lh = lh\<lparr>lh_callback_depth := (if d < UINT_MAX then d - 1 else d)\<rparr>
      in (Some (lh_maybe_resize A lh), snd s))"

declare OPENSSL_lh_doall_arg.simps(2) [simp del]

end
