(* ===== verification/LhashProps.thy ===== *)
theory LhashProps
  imports Lhash "HOL-Library.Multiset"
begin

text \<open>
  What a hash table promises. \<open>stored\<close> is the multiset of the data in the table; \<open>lh_ok\<close> says
  that every item is in the bucket of its hash and that no two stored data are equal. The locale
  \<open>hash_key\<close> is what a table asks of its two functions: the comparison is an equivalence
  and equal data hash alike. Under it the operations are those of a finite set of classes.
\<close>

section \<open>The interface to the stored type\<close>

locale hash_key =
  fixes hash :: "'d \<Rightarrow> u32" and cmp :: "'d \<Rightarrow> 'd \<Rightarrow> int"
  assumes cmp_refl: "cmp x x = 0"
    and cmp_sym: "cmp x y = 0 \<Longrightarrow> cmp y x = 0"
    and cmp_trans: "cmp x y = 0 \<Longrightarrow> cmp y z = 0 \<Longrightarrow> cmp x z = 0"
    and cmp_hash: "cmp x y = 0 \<Longrightarrow> hash x = hash y"
begin

lemma cmp_cong: "cmp x y = 0 \<Longrightarrow> cmp x z = 0 \<longleftrightarrow> cmp y z = 0"
  using cmp_sym cmp_trans by blast

lemma cmp_cong2: "cmp x y = 0 \<Longrightarrow> cmp z x = 0 \<longleftrightarrow> cmp z y = 0"
  using cmp_sym cmp_trans by blast

end

section \<open>Well-formed tables\<close>

definition stored :: "'d lhash_st \<Rightarrow> 'd multiset" where
  "stored lh = mset (map it_data (concat (lh_buckets lh)))"

definition chains_ok :: "('d \<Rightarrow> u32) \<Rightarrow> size_t \<Rightarrow> 'd lhash_item_st list list \<Rightarrow> bool" where
  "chains_ok hash n bs \<longleftrightarrow> length bs = unat n \<and>
     (\<forall>b < length bs. \<forall>it \<in> set (bs ! b). it_hash it = hash (it_data it) \<and> bucket_of (it_hash it) n = b)"

definition lh_ok :: "'d lhash_st \<Rightarrow> bool" where
  "lh_ok lh \<longleftrightarrow> kMinNumBuckets \<le> lh_num_buckets lh \<and>
     chains_ok (lh_hash lh) (lh_num_buckets lh) (lh_buckets lh) \<and>
     lh_num_items lh = of_nat (size (stored lh)) \<and>
     (\<forall>d. size {# x \<in># stored lh. lh_comp lh x d = 0 #} \<le> 1)"

lemma bucket_of_less: "n \<noteq> 0 \<Longrightarrow> bucket_of h n < unat n"
  unfolding bucket_of_def by (simp add: unat_mod word_gt_0 unat_gt_0)

lemma chains_okD:
  assumes "chains_ok hash n bs" "it \<in> set (concat bs)"
  shows "it_hash it = hash (it_data it)" "it \<in> set (bs ! bucket_of (hash (it_data it)) n)"
proof -
  from assms(2) obtain c where "c \<in> set bs" "it \<in> set c" by auto
  then obtain b where b: "b < length bs" "it \<in> set (bs ! b)" by (metis in_set_conv_nth)
  with assms(1) have "it_hash it = hash (it_data it) \<and> bucket_of (it_hash it) n = b" unfolding chains_ok_def by blast
  then have h: "it_hash it = hash (it_data it)" "bucket_of (hash (it_data it)) n = b" by auto
  show "it_hash it = hash (it_data it)" by (rule h(1))
  show "it \<in> set (bs ! bucket_of (hash (it_data it)) n)" unfolding h(2) by (rule b(2))
qed

lemma mset_concat_update:
  "b < length bs \<Longrightarrow> mset (concat (bs[b := c])) + mset (bs ! b) = mset (concat bs) + mset c"
proof (induction bs arbitrary: b)
  case (Cons x bs)
  then show ?case by (cases b) (auto simp: ac_simps)
qed simp

lemma chains_ok_at:
  "chains_ok hash n bs \<Longrightarrow> b < length bs \<Longrightarrow> it \<in> set (bs ! b) \<Longrightarrow>
     it_hash it = hash (it_data it) \<and> bucket_of (it_hash it) n = b"
  unfolding chains_ok_def by blast

lemma chains_ok_update:
  assumes "chains_ok hash n bs" "b < length bs"
    "\<And>it. it \<in> set c \<Longrightarrow> it \<in> set (bs ! b) \<or> it_hash it = hash (it_data it) \<and> bucket_of (it_hash it) n = b"
  shows "chains_ok hash n (bs[b := c])"
  unfolding chains_ok_def
proof (intro conjI allI impI ballI)
  show "length (bs[b := c]) = unat n" using assms(1) by (simp add: chains_ok_def)
  fix k it assume k: "k < length (bs[b := c])" "it \<in> set (bs[b := c] ! k)"
  have "it_hash it = hash (it_data it) \<and> bucket_of (it_hash it) n = k"
  proof (cases "k = b")
    case True
    with k assms(2) have "it \<in> set c" by simp
    from assms(3) [OF this] True chains_ok_at [OF assms(1,2)] show ?thesis by blast
  next
    case False
    with k have "k < length bs" "it \<in> set (bs ! k)" by simp_all
    with chains_ok_at [OF assms(1)] show ?thesis by blast
  qed
  then show "it_hash it = hash (it_data it)" "bucket_of (it_hash it) n = k" by blast+
qed

lemma next_ptr_loop_takeWhile:
  "next_ptr_loop P pos chain = pos + length (takeWhile (\<lambda>it. \<not> P (it_data it)) chain)"
  by (induction chain arbitrary: pos) auto

text \<open>The position the search ends at, and what is there.\<close>

lemma next_ptr_found:
  assumes "next_ptr_loop P 0 chain = i" "i < length chain"
  shows "P (it_data (chain ! i))"
  using assms nth_length_takeWhile [of "\<lambda>it. \<not> P (it_data it)" chain] by (auto simp: next_ptr_loop_takeWhile)

lemma next_ptr_not_found:
  "length chain \<le> next_ptr_loop P 0 chain \<Longrightarrow> it \<in> set chain \<Longrightarrow> \<not> P (it_data it)"
  using takeWhile_eq_all_conv [of "\<lambda>it. \<not> P (it_data it)" chain]
    length_takeWhile_le [of "\<lambda>it. \<not> P (it_data it)" chain] takeWhile_eq_take [of "\<lambda>it. \<not> P (it_data it)" chain]
  by (auto simp: next_ptr_loop_takeWhile)

lemma stored_in_chain:
  assumes "chains_ok hash n bs" "hash_key hash cmp" "cmp x d = 0" "x \<in># mset (map it_data (concat bs))"
  shows "\<exists>it. it \<in> set (bs ! bucket_of (hash d) n) \<and> it_data it = x"
proof -
  from assms(4) obtain it where it: "it \<in> set (concat bs)" "it_data it = x" by auto
  from chains_okD(2) [OF assms(1) this(1)] it(2) hash_key.cmp_hash [OF assms(2,3)] show ?thesis by auto
qed

lemma size_le_1_eq: "size M \<le> 1 \<Longrightarrow> x \<in># M \<Longrightarrow> M = {# x #}"
  by (auto dest!: multi_member_split)

lemma filter_mset_none: "(\<And>x. x \<in># M \<Longrightarrow> \<not> P x) \<Longrightarrow> filter_mset P M = {#}"
  by (induction M) auto

text \<open>The two cases of a search.\<close>

lemma search_cases:
  assumes ok: "lh_ok lh" and key: "hash_key (lh_hash lh) (lh_comp lh)"
  obtains
    (found) b i it xs ys where "get_next_ptr_and_hash lh d = ((b, i), lh_hash lh d)"
      "b = bucket_of (lh_hash lh d) (lh_num_buckets lh)" "b < length (lh_buckets lh)"
      "lh_buckets lh ! b = xs @ it # ys" "i = length xs" "item_at lh (b, i) = Some it"
      "lh_comp lh (it_data it) d = 0" "{# x \<in># stored lh. lh_comp lh x d = 0 #} = {# it_data it #}"
  | (missing) b i where "get_next_ptr_and_hash lh d = ((b, i), lh_hash lh d)"
      "b = bucket_of (lh_hash lh d) (lh_num_buckets lh)" "b < length (lh_buckets lh)"
      "item_at lh (b, i) = None" "{# x \<in># stored lh. lh_comp lh x d = 0 #} = {#}"
proof -
  let ?n = "lh_num_buckets lh" and ?bs = "lh_buckets lh"
  let ?b = "bucket_of (lh_hash lh d) ?n"
  let ?i = "next_ptr_loop (\<lambda>cur. lh_comp lh cur d = 0) 0 (?bs ! ?b)"
  have ch: "chains_ok (lh_hash lh) ?n ?bs" and n: "kMinNumBuckets \<le> ?n" using ok by (auto simp: lh_ok_def)
  have "?n \<noteq> 0" using n by (auto simp: kMinNumBuckets_def)
  then have b: "?b < length ?bs" using ch bucket_of_less by (auto simp: chains_ok_def)
  have g: "get_next_ptr_and_hash lh d = ((?b, ?i), lh_hash lh d)"
    by (simp add: get_next_ptr_and_hash_def Let_def)
  show thesis
  proof (cases "?i < length (?bs ! ?b)")
    case True
    let ?it = "?bs ! ?b ! ?i"
    have z: "lh_comp lh (it_data ?it) d = 0" by (rule next_ptr_found [OF refl True])
    have "?it \<in> set (?bs ! ?b)" using True by simp
    with b have "?it \<in> set (concat ?bs)" by auto
    then have "it_data ?it \<in># stored lh" by (auto simp: stored_def)
    with z have m: "it_data ?it \<in># {# x \<in># stored lh. lh_comp lh x d = 0 #}" by simp
    have "size {# x \<in># stored lh. lh_comp lh x d = 0 #} \<le> 1" using ok by (simp add: lh_ok_def)
    with m have f: "{# x \<in># stored lh. lh_comp lh x d = 0 #} = {# it_data ?it #}"
      by (intro size_le_1_eq)
    show thesis
      by (rule found [OF g refl b id_take_nth_drop [OF True] _ _ z f]) (use True in \<open>auto simp: item_at_def\<close>)
  next
    case False
    then have "\<And>it. it \<in> set (?bs ! ?b) \<Longrightarrow> lh_comp lh (it_data it) d \<noteq> 0"
      by (intro next_ptr_not_found [where P = "\<lambda>cur. lh_comp lh cur d = 0"]) auto
    then have "{# x \<in># stored lh. lh_comp lh x d = 0 #} = {#}"
      using stored_in_chain [OF ch key] unfolding stored_def by (intro filter_mset_none) blast
    with False show thesis by (intro missing [OF g refl b]) (auto simp: item_at_def)
  qed
qed

lemma retrieve_eq:
  assumes "lh_ok lh" "hash_key (lh_hash lh) (lh_comp lh)"
  shows "{# x \<in># stored lh. lh_comp lh x d = 0 #} = (case OPENSSL_lh_retrieve lh d of None \<Rightarrow> {#} | Some x \<Rightarrow> {# x #})"
  using assms
proof (cases rule: search_cases [of lh d, case_names found missing])
  case (found b i it xs ys)
  show ?thesis unfolding found(8) OPENSSL_lh_retrieve_def found(1) fst_conv found(6) by simp
next
  case (missing b i)
  show ?thesis unfolding missing(5) OPENSSL_lh_retrieve_def missing(1) fst_conv missing(4) by simp
qed


lemma retrieve_Some_iff:
  assumes "lh_ok lh" "hash_key (lh_hash lh) (lh_comp lh)"
  shows "OPENSSL_lh_retrieve lh d = Some x \<longleftrightarrow> x \<in># stored lh \<and> lh_comp lh x d = 0"
proof -
  have "x \<in># stored lh \<and> lh_comp lh x d = 0 \<longleftrightarrow> x \<in># {# x \<in># stored lh. lh_comp lh x d = 0 #}" by auto
  also have "\<dots> \<longleftrightarrow> OPENSSL_lh_retrieve lh d = Some x"
    unfolding retrieve_eq [OF assms] by (cases "OPENSSL_lh_retrieve lh d") auto
  finally show ?thesis by simp
qed

lemma stored_retrieve:
  assumes "lh_ok lh" "hash_key (lh_hash lh) (lh_comp lh)"
  shows "stored lh = {# x \<in># stored lh. lh_comp lh x d \<noteq> 0 #} +
    (case OPENSSL_lh_retrieve lh d of None \<Rightarrow> {#} | Some x \<Rightarrow> {# x #})"
proof -
  have "stored lh = {# x \<in># stored lh. lh_comp lh x d = 0 #} + {# x \<in># stored lh. lh_comp lh x d \<noteq> 0 #}"
    by (rule multiset_partition)
  then show ?thesis unfolding retrieve_eq [OF assms] by (simp add: add.commute)
qed

section \<open>Resizing\<close>

lemma fold_fold_concat: "fold (fold f) xss s = fold f (concat xss) s"
  by (induction xss arbitrary: s) auto

lemma rebucket_fold:
  assumes "n \<noteq> 0" "\<And>it. it \<in> set its \<Longrightarrow> it_hash it = hash (it_data it)" "chains_ok hash n bs"
  shows "chains_ok hash n (fold (rebucket_item n) its bs) \<and>
    mset (concat (fold (rebucket_item n) its bs)) = mset its + mset (concat bs)"
  using assms(2,3)
proof (induction its arbitrary: bs)
  case Nil
  then show ?case by simp
next
  case (Cons it its)
  let ?b = "bucket_of (it_hash it) n"
  have b: "?b < length bs" using Cons.prems(2) bucket_of_less [OF assms(1)] by (simp add: chains_ok_def)
  have r: "rebucket_item n it bs = bs[?b := it # bs ! ?b]" by (simp add: rebucket_item_def Let_def)
  have "chains_ok hash n (rebucket_item n it bs)"
    unfolding r using Cons.prems(1) by (intro chains_ok_update [OF Cons.prems(2) b]) auto
  from Cons.IH [OF _ this] Cons.prems(1) have "chains_ok hash n (fold (rebucket_item n) (it # its) bs) \<and>
    mset (concat (fold (rebucket_item n) (it # its) bs)) = mset its + mset (concat (rebucket_item n it bs))" by simp
  moreover have "mset (concat (rebucket_item n it bs)) = add_mset it (mset (concat bs))"
    unfolding r using mset_concat_update [OF b, of "it # bs ! ?b"] by simp
  ultimately show ?case by simp
qed

definition same_table :: "'d lhash_st \<Rightarrow> 'd lhash_st \<Rightarrow> bool" where
  "same_table lh lh' \<longleftrightarrow> stored lh' = stored lh \<and> lh_num_items lh' = lh_num_items lh \<and>
     lh_comp lh' = lh_comp lh \<and> lh_hash lh' = lh_hash lh \<and> lh_callback_depth lh' = lh_callback_depth lh"

lemma same_table_refl [simp]: "same_table lh lh"
  by (simp add: same_table_def)

lemma lh_rebucket_ok:
  assumes "lh_ok lh" "kMinNumBuckets \<le> n"
  shows "lh_ok (lh_rebucket A lh n)" "same_table lh (lh_rebucket A lh n)"
proof -
  let ?bs = "fold (fold (rebucket_item n)) (lh_buckets lh) (replicate (unat n) [])"
  have n: "n \<noteq> 0" using assms(2) by (auto simp: kMinNumBuckets_def)
  have ok: "chains_ok (lh_hash lh) (lh_num_buckets lh) (lh_buckets lh)" using assms(1) by (simp add: lh_ok_def)
  have h: "it_hash it = lh_hash lh (it_data it)" if "it \<in> set (concat (lh_buckets lh))" for it
    by (rule chains_okD(1) [OF ok that])
  have e: "chains_ok (lh_hash lh) n (replicate (unat n) [])" by (simp add: chains_ok_def)
  have c: "mset (concat (replicate k [])) = {#}" for k by (induction k) auto
  have bs: "chains_ok (lh_hash lh) n ?bs" "mset (concat ?bs) = mset (concat (lh_buckets lh))"
    using rebucket_fold [where its = "concat (lh_buckets lh)", OF n h e] by (simp_all add: fold_fold_concat c)
  then have st: "mset (map it_data (concat ?bs)) = stored lh" by (simp add: stored_def)
  let ?lh = "lh\<lparr>lh_num_buckets := n, lh_buckets := ?bs\<rparr>"
  have "stored ?lh = stored lh" using st by (simp add: stored_def)
  then have "lh_ok ?lh" "same_table lh ?lh"
    using assms bs(1) by (simp_all add: lh_ok_def same_table_def)
  then show "lh_ok (lh_rebucket A lh n)" "same_table lh (lh_rebucket A lh n)"
    using assms unfolding lh_rebucket_def by (auto simp: Let_def same_table_def)
qed

lemma lh_maybe_resize_ok:
  assumes "lh_ok lh"
  shows "lh_ok (lh_maybe_resize A lh) \<and> same_table lh (lh_maybe_resize A lh)"
proof -
  have n: "kMinNumBuckets \<le> lh_num_buckets lh" using assms by (simp add: lh_ok_def)
  note r = lh_rebucket_ok [OF assms, of _ A]
  have "kMinNumBuckets \<le> (if lh_num_buckets lh div 2 < kMinNumBuckets then kMinNumBuckets else lh_num_buckets lh div 2)"
    by auto
  moreover have "kMinNumBuckets \<le> lh_num_buckets lh * 2" if "lh_num_buckets lh < lh_num_buckets lh * 2"
    using n that by simp
  ultimately show ?thesis using assms r unfolding lh_maybe_resize_def Let_def by (auto split: if_splits)
qed

section \<open>Insertion and deletion\<close>

lemma stored_set_chain:
  assumes "b < length (lh_buckets lh)"
  shows "stored (set_chain b c lh) + mset (map it_data (lh_buckets lh ! b)) = stored lh + mset (map it_data c)"
proof -
  have "image_mset it_data (mset (concat ((lh_buckets lh)[b := c])) + mset (lh_buckets lh ! b)) =
      image_mset it_data (mset (concat (lh_buckets lh)) + mset c)"
    using mset_concat_update [OF assms, of c] by simp
  then show ?thesis by (simp add: stored_def set_chain_def)
qed

text \<open>A changed chain is good again, and so is the table when its contents are.\<close>

lemma set_chain_ok:
  assumes "lh_ok lh" "\<And>it. it \<in> set c \<Longrightarrow> it \<in> set (lh_buckets lh ! b) \<or>
      it_hash it = lh_hash lh (it_data it) \<and> bucket_of (it_hash it) (lh_num_buckets lh) = b"
    "b < length (lh_buckets lh)" "stored (set_chain b c lh) = M" "k = of_nat (size M)"
    "\<And>d. size {# x \<in># M. lh_comp lh x d = 0 #} \<le> 1"
  shows "lh_ok ((set_chain b c lh)\<lparr>lh_num_items := k\<rparr>)"
proof -
  have ok: "chains_ok (lh_hash lh) (lh_num_buckets lh) (lh_buckets lh)" using assms(1) by (simp add: lh_ok_def)
  have "chains_ok (lh_hash lh) (lh_num_buckets lh) ((lh_buckets lh)[b := c])"
    by (rule chains_ok_update [OF ok assms(3,2)])
  moreover have "stored ((set_chain b c lh)\<lparr>lh_num_items := k\<rparr>) = M" using assms(4) by (simp add: stored_def)
  ultimately show ?thesis using assms(1,5,6) by (simp add: lh_ok_def set_chain_def)
qed


definition same_frame :: "'d lhash_st \<Rightarrow> 'd lhash_st \<Rightarrow> bool" where
  "same_frame lh lh' \<longleftrightarrow> lh_num_buckets lh' = lh_num_buckets lh \<and> lh_comp lh' = lh_comp lh \<and>
     lh_hash lh' = lh_hash lh \<and> lh_callback_depth lh' = lh_callback_depth lh"

text \<open>What the operations do before the table is resized.\<close>

lemma insert_steps:
  assumes ok: "lh_ok lh" and key: "hash_key (lh_hash lh) (lh_comp lh)"
    and ins: "OPENSSL_lh_insert A sz d lh = (r, old, lh')"
  shows "if r then old = OPENSSL_lh_retrieve lh d \<and>
       (\<exists>lh1. lh_ok lh1 \<and> same_frame lh lh1 \<and>
          stored lh1 = add_mset d {# x \<in># stored lh. lh_comp lh x d \<noteq> 0 #} \<and>
          lh' = (if old = None then lh_maybe_resize A lh1 else lh1))
     else lh' = lh \<and> old = None \<and> OPENSSL_lh_retrieve lh d = None \<and> \<not> A sz"
proof -
  let ?M = "add_mset d {# x \<in># stored lh. lh_comp lh x d \<noteq> 0 #}"
  have u: "size {# x \<in># ?M. lh_comp lh x e = 0 #} \<le> 1" for e
  proof (cases "lh_comp lh d e = 0")
    case True
    then have "{# x \<in># ?M. lh_comp lh x e = 0 #} = {# d #}"
      using hash_key.cmp_cong2 [OF key True] by (auto simp: filter_mset_none)
    then show ?thesis by simp
  next
    case False
    have "size {# x \<in># ?M. lh_comp lh x e = 0 #} \<le> size {# x \<in># stored lh. lh_comp lh x e = 0 #}"
      using False by (auto intro!: size_mset_mono multiset_filter_mono)
    also have "\<dots> \<le> 1" using ok by (simp add: lh_ok_def)
    finally show ?thesis .
  qed
  show ?thesis
    using ok key
  proof (cases rule: search_cases [of lh d, case_names found missing])
    case (found b i it xs ys)
    let ?c = "xs @ it\<lparr>it_data := d\<rparr> # ys"
    have c: "(lh_buckets lh ! b)[i := it\<lparr>it_data := d\<rparr>] = ?c" unfolding found(4,5) by simp
    have r: "r = True" "old = Some (it_data it)" "lh' = set_chain b ?c lh"
      using ins unfolding OPENSSL_lh_insert_def found(1) by (simp_all add: found(6) c)
    have old: "OPENSSL_lh_retrieve lh d = Some (it_data it)"
      unfolding OPENSSL_lh_retrieve_def found(1) fst_conv found(6) by simp
    have m: "stored lh = {# x \<in># stored lh. lh_comp lh x d \<noteq> 0 #} + {# it_data it #}"
      using stored_retrieve [OF ok key, of d] unfolding old by simp
    have "stored (set_chain b ?c lh) + {# it_data it #} + mset (map it_data (xs @ ys)) =
        stored lh + {# d #} + mset (map it_data (xs @ ys))"
      using stored_set_chain [OF found(3), of ?c] unfolding found(4) by simp
    then have "stored (set_chain b ?c lh) + {# it_data it #} = stored lh + {# d #}" by simp
    also have "\<dots> = ?M + {# it_data it #}" by (subst m) simp
    finally have st: "stored (set_chain b ?c lh) = ?M" by simp
    have sz: "lh_num_items lh = of_nat (size ?M)" using ok m by (metis lh_ok_def size_add_mset size_union size_single Suc_eq_plus1)
    have it: "it \<in> set (lh_buckets lh ! b)" unfolding found(4) by simp
    have h: "it_hash it = lh_hash lh (it_data it)" "bucket_of (it_hash it) (lh_num_buckets lh) = b"
      using chains_ok_at [OF _ found(3) it] ok by (auto simp: lh_ok_def)
    have "lh_hash lh (it_data it) = lh_hash lh d" by (rule hash_key.cmp_hash [OF key found(7)])
    with h have "lh_ok ((set_chain b ?c lh)\<lparr>lh_num_items := lh_num_items lh\<rparr>)"
      by (intro set_chain_ok [OF ok _ found(3) st sz u]) (auto simp: found(4))
    then have "lh_ok lh'" unfolding r by (simp add: set_chain_def)
    moreover have "same_frame lh lh'" unfolding r by (simp add: same_frame_def set_chain_def)
    moreover have "stored lh' = ?M" unfolding r by (rule st)
    ultimately show ?thesis using r(1,2) old by auto
  next
    case (missing b i)
    let ?c = "lh_buckets lh ! b @ [\<lparr>it_data = d, it_hash = lh_hash lh d\<rparr>]"
    let ?lh = "(set_chain b ?c lh)\<lparr>lh_num_items := lh_num_items lh + 1\<rparr>"
    have old: "OPENSSL_lh_retrieve lh d = None"
      unfolding OPENSSL_lh_retrieve_def missing(1) fst_conv missing(4) by simp
    have m: "stored lh = {# x \<in># stored lh. lh_comp lh x d \<noteq> 0 #}"
      using stored_retrieve [OF ok key, of d] unfolding old by simp
    show ?thesis
    proof (cases "A sz")
      case False
      then have "r = False" "old = None" "lh' = lh"
        using ins unfolding OPENSSL_lh_insert_def missing(1) by (simp_all add: missing(4) Let_def)
      with ok old False show ?thesis by simp
    next
      case True
      then have r: "r = True" "old = None" "lh' = lh_maybe_resize A ?lh"
        using ins unfolding OPENSSL_lh_insert_def missing(1) by (simp_all add: missing(4) Let_def set_chain_def)
      have st: "stored (set_chain b ?c lh) = ?M"
        using stored_set_chain [OF missing(3), of ?c] m by simp
      have "size ?M = Suc (size (stored lh))" using m by simp
      then have sz: "lh_num_items lh + 1 = of_nat (size ?M)" using ok by (simp add: lh_ok_def)
      have "lh_ok ?lh"
        using missing(2) by (intro set_chain_ok [OF ok _ missing(3) st sz u]) auto
      moreover have "same_frame lh ?lh" by (simp add: same_frame_def set_chain_def)
      moreover have "stored ?lh = ?M" using st by (simp add: stored_def)
      ultimately show ?thesis using r old by auto
    qed
  qed
qed

lemma delete_steps:
  assumes ok: "lh_ok lh" and key: "hash_key (lh_hash lh) (lh_comp lh)"
    and del: "OPENSSL_lh_delete A d lh = (old, lh')"
  shows "old = OPENSSL_lh_retrieve lh d \<and>
     (\<exists>lh1. lh_ok lh1 \<and> same_frame lh lh1 \<and> stored lh1 = {# x \<in># stored lh. lh_comp lh x d \<noteq> 0 #} \<and>
        lh' = (if old = None then lh else lh_maybe_resize A lh1))"
proof -
  let ?M = "{# x \<in># stored lh. lh_comp lh x d \<noteq> 0 #}"
  show ?thesis
    using ok key
  proof (cases rule: search_cases [of lh d, case_names found missing])
    case (found b i it xs ys)
    let ?c = "xs @ ys"
    let ?lh = "(set_chain b ?c lh)\<lparr>lh_num_items := lh_num_items lh - 1\<rparr>"
    have c: "take i (lh_buckets lh ! b) @ drop (Suc i) (lh_buckets lh ! b) = ?c" unfolding found(4,5) by simp
    have r: "old = Some (it_data it)" "lh' = lh_maybe_resize A ?lh"
      using del unfolding OPENSSL_lh_delete_def found(1) by (simp_all add: found(6) c Let_def set_chain_def)
    have old: "OPENSSL_lh_retrieve lh d = Some (it_data it)"
      unfolding OPENSSL_lh_retrieve_def found(1) fst_conv found(6) by simp
    have m: "stored lh = ?M + {# it_data it #}"
      using stored_retrieve [OF ok key, of d] unfolding old by simp
    have "stored (set_chain b ?c lh) + {# it_data it #} + mset (map it_data ?c) = stored lh + mset (map it_data ?c)"
      using stored_set_chain [OF found(3), of ?c] unfolding found(4) by simp
    then have "stored (set_chain b ?c lh) + {# it_data it #} = ?M + {# it_data it #}" using m by simp
    then have st: "stored (set_chain b ?c lh) = ?M" by simp
    have "size (stored lh) = Suc (size ?M)" using m by (metis size_add_mset size_union size_single Suc_eq_plus1)
    then have sz: "lh_num_items lh - 1 = of_nat (size ?M)" using ok by (simp add: lh_ok_def)
    have u: "size {# x \<in># ?M. lh_comp lh x e = 0 #} \<le> 1" for e
    proof -
      have "size {# x \<in># ?M. lh_comp lh x e = 0 #} \<le> size {# x \<in># stored lh. lh_comp lh x e = 0 #}"
        by (intro size_mset_mono multiset_filter_mono) simp
      also have "\<dots> \<le> 1" using ok by (simp add: lh_ok_def)
      finally show ?thesis .
    qed
    have "lh_ok ?lh"
      by (intro set_chain_ok [OF ok _ found(3) st sz u]) (auto simp: found(4))
    moreover have "same_frame lh ?lh" by (simp add: same_frame_def set_chain_def)
    moreover have "stored ?lh = ?M" using st by (simp add: stored_def)
    ultimately show ?thesis using r old by auto
  next
    case (missing b i)
    have old: "OPENSSL_lh_retrieve lh d = None"
      unfolding OPENSSL_lh_retrieve_def missing(1) fst_conv missing(4) by simp
    have m: "stored lh = ?M" using stored_retrieve [OF ok key, of d] unfolding old by simp
    have "old = None" "lh' = lh"
      using del unfolding OPENSSL_lh_delete_def missing(1) by (simp_all add: missing(4) Let_def)
    with ok old m show ?thesis by (auto simp: same_frame_def)
  qed
qed

lemma insert_spec:
  assumes ok: "lh_ok lh" and key: "hash_key (lh_hash lh) (lh_comp lh)"
    and ins: "OPENSSL_lh_insert A sz d lh = (r, old, lh')"
  shows "lh_ok lh' \<and> lh_comp lh' = lh_comp lh \<and> lh_hash lh' = lh_hash lh \<and>
    (if r then old = OPENSSL_lh_retrieve lh d \<and>
       stored lh' = add_mset d {# x \<in># stored lh. lh_comp lh x d \<noteq> 0 #}
     else lh' = lh \<and> old = None \<and> OPENSSL_lh_retrieve lh d = None \<and> \<not> A sz)"
proof (cases r)
  case True
  then obtain lh1 where lh1: "lh_ok lh1" "same_frame lh lh1" "old = OPENSSL_lh_retrieve lh d"
      "stored lh1 = add_mset d {# x \<in># stored lh. lh_comp lh x d \<noteq> 0 #}"
      "lh' = (if old = None then lh_maybe_resize A lh1 else lh1)"
    using insert_steps [OF assms] by auto
  have "lh_ok lh'" "lh_comp lh' = lh_comp lh" "lh_hash lh' = lh_hash lh" "stored lh' = stored lh1"
    using lh1(1,2,5) lh_maybe_resize_ok [of lh1 A] by (simp_all add: same_frame_def same_table_def)
  with True lh1(3,4) show ?thesis by simp
next
  case False
  with insert_steps [OF assms] ok show ?thesis by simp
qed

lemma delete_spec:
  assumes ok: "lh_ok lh" and key: "hash_key (lh_hash lh) (lh_comp lh)"
    and del: "OPENSSL_lh_delete A d lh = (old, lh')"
  shows "lh_ok lh' \<and> lh_comp lh' = lh_comp lh \<and> lh_hash lh' = lh_hash lh \<and>
    old = OPENSSL_lh_retrieve lh d \<and> stored lh' = {# x \<in># stored lh. lh_comp lh x d \<noteq> 0 #}"
proof -
  obtain lh1 where lh1: "lh_ok lh1" "same_frame lh lh1" "old = OPENSSL_lh_retrieve lh d"
      "stored lh1 = {# x \<in># stored lh. lh_comp lh x d \<noteq> 0 #}"
      "lh' = (if old = None then lh else lh_maybe_resize A lh1)"
    using delete_steps [OF assms] by auto
  show ?thesis
  proof (cases "old = None")
    case True
    then have "stored lh = {# x \<in># stored lh. lh_comp lh x d \<noteq> 0 #}"
      using stored_retrieve [OF ok key, of d] lh1(3) by simp
    with True lh1 ok show ?thesis by simp
  next
    case False
    have e: "lh' = lh_maybe_resize A lh1" using lh1(5) by (simp only: False if_False)
    have "lh_ok lh'" "lh_comp lh' = lh_comp lh" "lh_hash lh' = lh_hash lh" "stored lh' = stored lh1"
      using lh1(1,2) lh_maybe_resize_ok [of lh1 A] unfolding e by (simp_all add: same_frame_def same_table_def)
    with lh1(3,4) show ?thesis by simp
  qed
qed


section \<open>The table as a map\<close>

lemma retrieve_None_iff:
  assumes "lh_ok lh" "hash_key (lh_hash lh) (lh_comp lh)"
  shows "OPENSSL_lh_retrieve lh d = None \<longleftrightarrow> (\<forall>x \<in># stored lh. lh_comp lh x d \<noteq> 0)"
  using retrieve_Some_iff [OF assms] by (metis not_None_eq)

lemma retrieve_after:
  assumes ok: "lh_ok lh" "lh_ok lh'" and key: "hash_key (lh_hash lh) (lh_comp lh)"
    and same: "lh_comp lh' = lh_comp lh" "lh_hash lh' = lh_hash lh"
    and st: "stored lh' = M + {# x \<in># stored lh. lh_comp lh x d \<noteq> 0 #}" and M: "set_mset M \<subseteq> {d}"
  shows "OPENSSL_lh_retrieve lh' e =
    (if lh_comp lh d e = 0 then (if M = {#} then None else Some d) else OPENSSL_lh_retrieve lh e)"
proof -
  have key': "hash_key (lh_hash lh') (lh_comp lh')" using key same by simp
  note c = hash_key.cmp_cong2 [OF key] and s = hash_key.cmp_sym [OF key]
  show ?thesis
  proof (cases "lh_comp lh d e = 0")
    case True
    have n: "lh_comp lh x e \<noteq> 0" if "x \<in># {# x \<in># stored lh. lh_comp lh x d \<noteq> 0 #}" for x
      using that c [OF True] by auto
    show ?thesis
    proof (cases "M = {#}")
      case True
      then have "OPENSSL_lh_retrieve lh' e = None"
        using n by (subst retrieve_None_iff [OF ok(2) key']) (simp add: st same)
      with True \<open>lh_comp lh d e = 0\<close> show ?thesis by simp
    next
      case False
      with M have "d \<in># M" by (metis multiset_nonemptyE singletonD subsetD)
      then have "OPENSSL_lh_retrieve lh' e = Some d"
        using True by (subst retrieve_Some_iff [OF ok(2) key']) (simp add: st same)
      with True False show ?thesis by simp
    qed
  next
    case False
    have "OPENSSL_lh_retrieve lh' e = Some x \<longleftrightarrow> OPENSSL_lh_retrieve lh e = Some x" for x
    proof -
      have d: "x \<notin># M" "lh_comp lh x d \<noteq> 0" if "lh_comp lh x e = 0"
        using that False M s c by blast+
      show ?thesis
        unfolding retrieve_Some_iff [OF ok(2) key'] retrieve_Some_iff [OF ok(1) key] same(1) st
        using d by auto
    qed
    with False show ?thesis by (metis not_None_eq)
  qed
qed

lemma new_ok:
  assumes "OPENSSL_lh_new A sz hash cmp = Some lh"
  shows "lh_ok lh \<and> stored lh = {#} \<and> lh_hash lh = hash \<and> lh_comp lh = cmp \<and> lh_callback_depth lh = 0"
proof -
  have "concat (replicate k []) = []" for k by (induction k) auto
  then show ?thesis
    using assms by (auto simp: OPENSSL_lh_new_def lh_ok_def stored_def chains_ok_def split: if_splits)
qed

text \<open>
  C21: the hash table is a map. From a well-formed table whose functions are an equivalence and a
  hash of its classes, a successful insertion returns the old equal element and leaves a
  well-formed table in which looking up anything equal to the new element gives it and any other
  look-up is as before; an insertion fails only for lack of memory and then changes nothing;
  a deletion returns the equal element and removes it and no other. Resizing is invisible.
\<close>

theorem lhash_refines_map:
  assumes "lh_ok lh" "hash_key (lh_hash lh) (lh_comp lh)"
  shows "(case OPENSSL_lh_insert A sz d lh of (r, old, lh') \<Rightarrow> lh_ok lh' \<and>
      (if r then old = OPENSSL_lh_retrieve lh d \<and>
          (\<forall>e. OPENSSL_lh_retrieve lh' e = (if lh_comp lh d e = 0 then Some d else OPENSSL_lh_retrieve lh e)) \<and>
          OPENSSL_lh_num_items lh' = (if old = None then OPENSSL_lh_num_items lh + 1 else OPENSSL_lh_num_items lh)
       else \<not> A sz \<and> old = None \<and> lh' = lh)) \<and>
    (case OPENSSL_lh_delete A d lh of (old, lh') \<Rightarrow> lh_ok lh' \<and> old = OPENSSL_lh_retrieve lh d \<and>
      (\<forall>e. OPENSSL_lh_retrieve lh' e = (if lh_comp lh d e = 0 then None else OPENSSL_lh_retrieve lh e)) \<and>
      OPENSSL_lh_num_items lh' = (if old = None then OPENSSL_lh_num_items lh else OPENSSL_lh_num_items lh - 1))"
proof -
  let ?M = "{# x \<in># stored lh. lh_comp lh x d \<noteq> 0 #}"
  have n: "OPENSSL_lh_num_items l = of_nat (size (stored l))" if "lh_ok l" for l :: "'a lhash_st"
    using that by (simp add: OPENSSL_lh_num_items_def lh_ok_def)
  have m: "size (stored lh) = size ?M + (if OPENSSL_lh_retrieve lh d = None then 0 else 1)"
    using arg_cong [OF stored_retrieve [OF assms, of d], of size] by (auto split: option.splits)
  obtain r old lh' where i: "OPENSSL_lh_insert A sz d lh = (r, old, lh')" by (metis surj_pair)
  have si: "lh_ok lh'" "lh_comp lh' = lh_comp lh" "lh_hash lh' = lh_hash lh" using insert_spec [OF assms i] by auto
  have "if r then old = OPENSSL_lh_retrieve lh d \<and>
          (\<forall>e. OPENSSL_lh_retrieve lh' e = (if lh_comp lh d e = 0 then Some d else OPENSSL_lh_retrieve lh e)) \<and>
          OPENSSL_lh_num_items lh' = (if old = None then OPENSSL_lh_num_items lh + 1 else OPENSSL_lh_num_items lh)
       else \<not> A sz \<and> old = None \<and> lh' = lh"
  proof (cases r)
    case True
    then have s: "old = OPENSSL_lh_retrieve lh d" "stored lh' = {# d #} + ?M" using insert_spec [OF assms i] by auto
    have "OPENSSL_lh_retrieve lh' e = (if lh_comp lh d e = 0 then Some d else OPENSSL_lh_retrieve lh e)" for e
      using retrieve_after [OF assms(1) si(1) assms(2) si(2,3) s(2)] by simp
    moreover have "OPENSSL_lh_num_items lh' = (if old = None then OPENSSL_lh_num_items lh + 1 else OPENSSL_lh_num_items lh)"
      unfolding n [OF si(1)] n [OF assms(1)] s m by simp
    ultimately show ?thesis using True s(1) by simp
  qed (use insert_spec [OF assms i] in auto)
  moreover obtain o' l' where d: "OPENSSL_lh_delete A d lh = (o', l')" by (metis surj_pair)
  have sd: "lh_ok l'" "lh_comp l' = lh_comp lh" "lh_hash l' = lh_hash lh" "o' = OPENSSL_lh_retrieve lh d" "stored l' = {#} + ?M"
    using delete_spec [OF assms d] by auto
  have "OPENSSL_lh_retrieve l' e = (if lh_comp lh d e = 0 then None else OPENSSL_lh_retrieve lh e)" for e
    using retrieve_after [OF assms(1) sd(1) assms(2) sd(2,3,5)] by simp
  moreover have "OPENSSL_lh_num_items l' = (if o' = None then OPENSSL_lh_num_items lh else OPENSSL_lh_num_items lh - 1)"
    unfolding n [OF sd(1)] n [OF assms(1)] sd(4,5) m by simp
  ultimately show ?thesis using i d si(1) sd(1,4) by simp
qed


section \<open>The load\<close>

lemma maybe_resize_load:
  assumes ok: "lh_ok lh" and d: "lh_callback_depth lh = 0"
    and m: "size (stored lh) < 2 ^ 60" "size (stored lh) \<le> 3 * unat (lh_num_buckets lh)"
  shows "size (stored lh) < 3 * unat (lh_num_buckets (lh_maybe_resize (\<lambda>_. True) lh))"
proof -
  let ?n = "lh_num_buckets lh" and ?k = "size (stored lh)"
  have n16: "kMinNumBuckets \<le> ?n" and items: "lh_num_items lh = of_nat ?k" using ok by (auto simp: lh_ok_def)
  have n: "16 \<le> unat ?n" using n16 by (simp add: kMinNumBuckets_def word_le_nat_alt)
  have k: "unat (lh_num_items lh) = ?k" using m(1) unfolding items by (simp add: unat_of_nat)
  have avg: "unat (lh_num_items lh div ?n) = ?k div unat ?n" by (simp add: unat_div k)
  have reb: "lh_num_buckets (lh_rebucket (\<lambda>_. True) lh b) = b" if "unat b < 2 ^ 61" for b
  proof -
    have "unat (8 * b) = 8 * unat b" using that by (subst unat_mult_lem [THEN iffD1]) auto
    then have "unat (8 * b div 8) = unat b" by (simp add: unat_div)
    then have "8 * b div 8 = b" by (rule word_unat_eq_iff [THEN iffD2])
    then show ?thesis by (simp add: lh_rebucket_def Let_def)
  qed
  consider (big) "kMaxAverageChainLength < lh_num_items lh div ?n"
    | (small) "\<not> kMaxAverageChainLength < lh_num_items lh div ?n"
        "lh_num_items lh div ?n < kMinAverageChainLength" "kMinNumBuckets < ?n"
    | (mid) "\<not> kMaxAverageChainLength < lh_num_items lh div ?n"
        "\<not> (lh_num_items lh div ?n < kMinAverageChainLength \<and> kMinNumBuckets < ?n)"
    by blast
  then show ?thesis
  proof cases
    case big
    then have "2 < ?k div unat ?n" by (simp add: kMaxAverageChainLength_def word_less_nat_alt avg)
    then have "3 \<le> ?k div unat ?n" by simp
    then have "3 * unat ?n \<le> ?k" using n by (simp add: less_eq_div_iff_mult_less_eq)
    with m have small: "unat ?n < 2 ^ 59" and eq: "?k = 3 * unat ?n" by auto
    have dbl: "unat (?n * 2) = unat ?n * 2" using small by (subst unat_mult_lem [THEN iffD1]) auto
    then have gt: "?n < ?n * 2" using n by (simp add: word_less_nat_alt)
    have "lh_maybe_resize (\<lambda>_. True) lh = lh_rebucket (\<lambda>_. True) lh (?n * 2)"
      using big d gt by (simp add: lh_maybe_resize_def Let_def)
    then have "lh_num_buckets (lh_maybe_resize (\<lambda>_. True) lh) = ?n * 2" using reb [of "?n * 2"] dbl small by simp
    with dbl eq n show ?thesis by simp
  next
    case small
    then have "?k div unat ?n < 1" by (simp add: kMinAverageChainLength_def word_less_nat_alt avg)
    then have k_n: "?k < unat ?n" using n by (simp add: div_eq_0_iff)
    let ?b = "if ?n div 2 < kMinNumBuckets then kMinNumBuckets else ?n div 2"
    have "lh_maybe_resize (\<lambda>_. True) lh = lh_rebucket (\<lambda>_. True) lh ?b"
      using small d by (simp add: lh_maybe_resize_def Let_def)
    moreover have "lh_num_buckets (lh_rebucket (\<lambda>_. True) lh b) = b \<or> lh_num_buckets (lh_rebucket (\<lambda>_. True) lh b) = ?n" for b
      by (simp add: lh_rebucket_def Let_def)
    ultimately have which: "lh_num_buckets (lh_maybe_resize (\<lambda>_. True) lh) = ?b \<or>
        lh_num_buckets (lh_maybe_resize (\<lambda>_. True) lh) = ?n" by (simp only:)
    have half: "unat (?n div 2) = unat ?n div 2" by (simp add: unat_div)
    have b: "unat ?n < 3 * unat ?b"
      using n half by (auto simp: kMinNumBuckets_def word_less_nat_alt)
    from which have "unat ?n < 3 * unat (lh_num_buckets (lh_maybe_resize (\<lambda>_. True) lh))"
    proof (rule disjE)
      assume "lh_num_buckets (lh_maybe_resize (\<lambda>_. True) lh) = ?b"
      with b show ?thesis by (simp only:)
    qed (use n in simp)
    with k_n show ?thesis by simp
  next
    case mid
    then have "?k div unat ?n \<le> 2" by (simp add: kMaxAverageChainLength_def word_less_nat_alt avg)
    then have "?k div unat ?n < 3" by simp
    then have "?k < 3 * unat ?n" using n by (simp add: div_less_iff_less_mult)
    moreover have "lh_maybe_resize (\<lambda>_. True) lh = lh"
      using mid d by (auto simp: lh_maybe_resize_def Let_def)
    ultimately show ?thesis by simp
  qed
qed


lemma insert_load:
  assumes ok: "lh_ok lh" and key: "hash_key (lh_hash lh) (lh_comp lh)" and d: "lh_callback_depth lh = 0"
    and m: "size (stored lh) < 3 * unat (lh_num_buckets lh)" "size (stored lh) + 1 < 2 ^ 60"
    and ins: "OPENSSL_lh_insert (\<lambda>_. True) sz x lh = (r, old, lh')"
  shows "r \<and> size (stored lh') < 3 * unat (lh_num_buckets lh')"
proof -
  note st = insert_steps [OF ok key ins]
  then have r: r by (auto split: if_splits)
  let ?M = "add_mset x {# y \<in># stored lh. lh_comp lh y x \<noteq> 0 #}"
  from r st obtain lh1 where lh1: "lh_ok lh1" "same_frame lh lh1" "old = OPENSSL_lh_retrieve lh x"
      "stored lh1 = ?M" "lh' = (if old = None then lh_maybe_resize (\<lambda>_. True) lh1 else lh1)"
    by auto
  have sz: "size (stored lh) = size {# y \<in># stored lh. lh_comp lh y x \<noteq> 0 #} + (if old = None then 0 else 1)"
    using arg_cong [OF stored_retrieve [OF ok key, of x], of size] lh1(3) by (auto split: option.splits)
  show ?thesis
  proof (cases "old = None")
    case True
    have "size (stored lh1) < 2 ^ 60" "size (stored lh1) \<le> 3 * unat (lh_num_buckets lh1)" "lh_callback_depth lh1 = 0"
      using m sz True lh1(2) d by (simp_all add: lh1(4) same_frame_def)
    from maybe_resize_load [OF lh1(1) this(3,1,2)] lh_maybe_resize_ok [OF lh1(1), of "\<lambda>_. True"] r True lh1(5)
    show ?thesis by (simp add: same_table_def)
  next
    case False
    have e: "lh' = lh1" using lh1(5) by (simp only: False if_False)
    from False have "size (stored lh) = size ?M" using sz by simp
    then have "size (stored lh') = size (stored lh)" "lh_num_buckets lh' = lh_num_buckets lh"
      using lh1(2,4) unfolding e by (simp_all add: same_frame_def)
    with m r show ?thesis by simp
  qed
qed

lemma delete_load:
  assumes ok: "lh_ok lh" and key: "hash_key (lh_hash lh) (lh_comp lh)" and d: "lh_callback_depth lh = 0"
    and m: "size (stored lh) < 3 * unat (lh_num_buckets lh)" "size (stored lh) < 2 ^ 60"
    and del: "OPENSSL_lh_delete (\<lambda>_. True) x lh = (old, lh')"
  shows "size (stored lh') < 3 * unat (lh_num_buckets lh')"
proof -
  obtain lh1 where lh1: "lh_ok lh1" "same_frame lh lh1" "stored lh1 = {# y \<in># stored lh. lh_comp lh y x \<noteq> 0 #}"
      "lh' = (if old = None then lh else lh_maybe_resize (\<lambda>_. True) lh1)"
    using delete_steps [OF ok key del] by auto
  have le: "size (stored lh1) \<le> size (stored lh)" unfolding lh1(3) by (rule size_filter_mset_lesseq)
  have "size (stored lh1) < 2 ^ 60" "size (stored lh1) \<le> 3 * unat (lh_num_buckets lh1)" "lh_callback_depth lh1 = 0"
    using m le lh1(2) d by (simp_all add: same_frame_def)
  from maybe_resize_load [OF lh1(1) this(3,1,2)] lh_maybe_resize_ok [OF lh1(1), of "\<lambda>_. True"] lh1(4) m
  show ?thesis by (simp add: same_table_def)
qed


section \<open>Iteration\<close>

text \<open>Nothing before an item in its chain is equal to it.\<close>

lemma chain_front:
  assumes ok: "lh_ok lh" and key: "hash_key (lh_hash lh) (lh_comp lh)"
    and b: "b < length (lh_buckets lh)" "lh_buckets lh ! b = xs @ it # ys" and x: "x \<in> set xs"
  shows "lh_comp lh (it_data x) (it_data it) \<noteq> 0"
proof
  assume z: "lh_comp lh (it_data x) (it_data it) = 0"
  let ?P = "\<lambda>y. lh_comp lh y (it_data it) = 0"
  have "mset (map it_data (lh_buckets lh ! b)) \<subseteq># stored lh"
    using stored_set_chain [OF b(1), of "[]"] by (metis mset_subset_eq_add_right add.right_neutral list.simps(8) mset.simps(1))
  then have "filter_mset ?P (mset (map it_data (xs @ it # ys))) \<subseteq># filter_mset ?P (stored lh)"
    unfolding b(2) by (rule multiset_filter_mono)
  then have "size (filter_mset ?P (mset (map it_data (xs @ it # ys)))) \<le> size (filter_mset ?P (stored lh))"
    by (rule size_mset_mono)
  also have "\<dots> \<le> 1" using ok by (simp add: lh_ok_def)
  finally have le: "size (filter_mset ?P (mset (map it_data (xs @ it # ys)))) \<le> 1" .
  have "it_data x \<in># filter_mset ?P (mset (map it_data xs))" using x z by simp
  then obtain M where "filter_mset ?P (mset (map it_data xs)) = add_mset (it_data x) M"
    by (metis multi_member_split)
  moreover have "?P (it_data it)" by (rule hash_key.cmp_refl [OF key])
  ultimately show False using le by simp
qed

lemma delete_at:
  assumes ok: "lh_ok lh" and key: "hash_key (lh_hash lh) (lh_comp lh)" and d: "lh_callback_depth lh > 0"
    and b: "b < length (lh_buckets lh)" "lh_buckets lh ! b = xs @ it # ys"
  shows "OPENSSL_lh_delete A (it_data it) lh =
    (Some (it_data it), (set_chain b (xs @ ys) lh)\<lparr>lh_num_items := lh_num_items lh - 1\<rparr>)"
proof -
  have "it \<in> set (lh_buckets lh ! b)" unfolding b(2) by simp
  then have h: "bucket_of (lh_hash lh (it_data it)) (lh_num_buckets lh) = b"
    using chains_ok_at [OF _ b(1)] ok by (metis lh_ok_def)
  have tw: "takeWhile (\<lambda>y. \<not> lh_comp lh (it_data y) (it_data it) = 0) (xs @ it # ys) = xs"
    using chain_front [OF ok key b] hash_key.cmp_refl [OF key] by (subst takeWhile_append2) auto
  have g: "get_next_ptr_and_hash lh (it_data it) = ((b, length xs), lh_hash lh (it_data it))"
    unfolding get_next_ptr_and_hash_def Let_def h b(2) next_ptr_loop_takeWhile tw by simp
  have i: "item_at lh (b, length xs) = Some it" by (simp add: item_at_def b(2))
  show ?thesis
    unfolding OPENSSL_lh_delete_def g using d by (simp add: i b(2) Let_def lh_maybe_resize_def set_chain_def)
qed

text \<open>A callback that records the item and deletes it from the table when \<open>p\<close> says so.\<close>

definition visit :: "(size_t \<Rightarrow> bool) \<Rightarrow> ('d \<Rightarrow> bool) \<Rightarrow> 'd \<Rightarrow> 'd lhash_st \<times> 'd list \<Rightarrow> 'd lhash_st \<times> 'd list" where
  "visit A p x s = (if p x then snd (OPENSSL_lh_delete A x (fst s)) else fst s, snd s @ [x])"

lemma doall_chain_visit:
  assumes "lh_ok lh" "hash_key (lh_hash lh) (lh_comp lh)" "lh_callback_depth lh > 0"
    "b < length (lh_buckets lh)" "lh_buckets lh ! b = xs @ chain"
  shows "\<exists>k. doall_chain (visit A p) chain (lh, log) =
      ((set_chain b (xs @ filter (\<lambda>it. \<not> p (it_data it)) chain) lh)\<lparr>lh_num_items := k\<rparr>, log @ map it_data chain) \<and>
    lh_ok ((set_chain b (xs @ filter (\<lambda>it. \<not> p (it_data it)) chain) lh)\<lparr>lh_num_items := k\<rparr>)"
  using assms
proof (induction chain arbitrary: lh log xs)
  case Nil
  have "(set_chain b xs lh)\<lparr>lh_num_items := lh_num_items lh\<rparr> = lh"
    using Nil.prems(4,5) by (simp add: set_chain_def list_update_same_conv)
  then show ?case using Nil.prems(1) by (metis append_Nil2 doall_chain.simps(1) filter.simps(1) list.simps(8))
next
  case (Cons it chain)
  show ?case
  proof (cases "p (it_data it)")
    case False
    have ch: "lh_buckets lh ! b = (xs @ [it]) @ chain" using Cons.prems(5) by simp
    from Cons.IH [OF Cons.prems(1-4) ch, of "log @ [it_data it]"] False show ?thesis
      by (simp add: visit_def)
  next
    case True
    let ?lh = "(set_chain b (xs @ chain) lh)\<lparr>lh_num_items := lh_num_items lh - 1\<rparr>"
    have del: "OPENSSL_lh_delete A (it_data it) lh = (Some (it_data it), ?lh)"
      by (rule delete_at [OF Cons.prems])
    have ok: "lh_ok ?lh" using delete_spec [OF Cons.prems(1,2) del] by simp
    have ch: "hash_key (lh_hash ?lh) (lh_comp ?lh)" "lh_callback_depth ?lh > 0"
        "b < length (lh_buckets ?lh)" "lh_buckets ?lh ! b = xs @ chain"
      using Cons.prems by (simp_all add: set_chain_def)
    have "(set_chain b c ?lh)\<lparr>lh_num_items := k\<rparr> = (set_chain b c lh)\<lparr>lh_num_items := k\<rparr>" for c k
      by (simp add: set_chain_def)
    with Cons.IH [OF ok ch, of "log @ [it_data it]"] True del show ?thesis
      by (simp add: visit_def)
  qed
qed

lemma doall_loop_visit:
  assumes "lh_ok lh" "hash_key (lh_hash lh) (lh_comp lh)" "lh_callback_depth lh > 0"
    "j + n = length (lh_buckets lh)"
  shows "\<exists>k. doall_loop (visit A p) [j..<j + n] (lh, log) =
      (lh\<lparr>lh_buckets := take j (lh_buckets lh) @ map (filter (\<lambda>it. \<not> p (it_data it))) (drop j (lh_buckets lh)),
         lh_num_items := k\<rparr>, log @ map it_data (concat (drop j (lh_buckets lh)))) \<and>
    lh_ok (lh\<lparr>lh_buckets := take j (lh_buckets lh) @ map (filter (\<lambda>it. \<not> p (it_data it))) (drop j (lh_buckets lh)),
         lh_num_items := k\<rparr>)"
  using assms
proof (induction n arbitrary: j lh log)
  case 0
  then have "lh\<lparr>lh_buckets := take j (lh_buckets lh) @ map (filter (\<lambda>it. \<not> p (it_data it))) (drop j (lh_buckets lh)),
      lh_num_items := lh_num_items lh\<rparr> = lh" by simp
  with 0 show ?case by (intro exI [of _ "lh_num_items lh"]) simp
next
  case (Suc n)
  let ?bs = "lh_buckets lh" and ?f = "filter (\<lambda>it. \<not> p (it_data it))"
  have j: "j < length ?bs" using Suc.prems(4) by simp
  have "?bs ! j = [] @ ?bs ! j" by simp
  from doall_chain_visit [OF Suc.prems(1-3) j this, of A p log] obtain k where
    k: "doall_chain (visit A p) (?bs ! j) (lh, log) =
        ((set_chain j (?f (?bs ! j)) lh)\<lparr>lh_num_items := k\<rparr>, log @ map it_data (?bs ! j))"
      "lh_ok ((set_chain j (?f (?bs ! j)) lh)\<lparr>lh_num_items := k\<rparr>)" by auto
  let ?lh = "(set_chain j (?f (?bs ! j)) lh)\<lparr>lh_num_items := k\<rparr>"
  have bs': "lh_buckets ?lh = take j ?bs @ ?f (?bs ! j) # drop (Suc j) ?bs"
    using j by (simp add: set_chain_def upd_conv_take_nth_drop)
  have pre: "hash_key (lh_hash ?lh) (lh_comp ?lh)" "lh_callback_depth ?lh > 0" "Suc j + n = length (lh_buckets ?lh)"
    using Suc.prems by (simp_all add: set_chain_def)
  have dj: "drop j ?bs = ?bs ! j # drop (Suc j) ?bs" using j by (rule Cons_nth_drop_Suc [symmetric])
  have up: "[j..<j + Suc n] = j # [Suc j..<Suc j + n]" by (simp add: upt_conv_Cons)
  have tk: "take (Suc j) (lh_buckets ?lh) @ map ?f (drop (Suc j) (lh_buckets ?lh)) = take j ?bs @ map ?f (drop j ?bs)"
    using j unfolding bs' dj by simp
  have dr: "log @ map it_data (?bs ! j) @ map it_data (concat (drop (Suc j) (lh_buckets ?lh))) = log @ map it_data (concat (drop j ?bs))"
    using j unfolding bs' dj by simp
  have fr: "?lh\<lparr>lh_buckets := c, lh_num_items := m\<rparr> = lh\<lparr>lh_buckets := c, lh_num_items := m\<rparr>" for c m
    by (simp add: set_chain_def)
  from Suc.IH [OF k(2) pre, of "log @ map it_data (?bs ! j)"] show ?case
    unfolding up doall_loop.simps fst_conv k(1) tk fr append_assoc dr .
qed


lemma doall_visit:
  assumes ok: "lh_ok lh" and key: "hash_key (lh_hash lh) (lh_comp lh)" and d: "lh_callback_depth lh + 1 < UINT_MAX"
    "lh_callback_depth lh < UINT_MAX"
  obtains lh' where "OPENSSL_lh_doall_arg A (visit A p) (Some lh) [] = (Some lh', map it_data (concat (lh_buckets lh)))"
    "lh_ok lh'" "stored lh' = {# x \<in># stored lh. \<not> p x #}" "lh_callback_depth lh' = lh_callback_depth lh"
    "lh_hash lh' = lh_hash lh" "lh_comp lh' = lh_comp lh"
proof -
  let ?lh = "lh\<lparr>lh_callback_depth := lh_callback_depth lh + 1\<rparr>"
  let ?bs = "map (filter (\<lambda>it. \<not> p (it_data it))) (lh_buckets lh)"
  have "lh_ok ?lh" using ok by (simp add: lh_ok_def stored_def)
  moreover have "0 < lh_callback_depth lh + 1"
    unfolding word_neq_0_conv [symmetric]
  proof
    assume "lh_callback_depth lh + 1 = 0"
    then have "lh_callback_depth lh = UINT_MAX" by (simp add: UINT_MAX_def eq_neg_iff_add_eq_0)
    with d(2) show False by simp
  qed
  moreover have len: "length (lh_buckets lh) = unat (lh_num_buckets lh)" using ok by (simp add: lh_ok_def chains_ok_def)
  ultimately obtain k where k: "doall_loop (visit A p) [0..<unat (lh_num_buckets lh)] (?lh, []) =
      (?lh\<lparr>lh_buckets := ?bs, lh_num_items := k\<rparr>, map it_data (concat (lh_buckets lh)))"
      "lh_ok (?lh\<lparr>lh_buckets := ?bs, lh_num_items := k\<rparr>)"
    using doall_loop_visit [of ?lh 0 "unat (lh_num_buckets lh)" A p "[]"] key by auto
  let ?lh2 = "lh\<lparr>lh_buckets := ?bs, lh_num_items := k\<rparr>"
  have ok2: "lh_ok ?lh2" using k(2) by (simp add: lh_ok_def stored_def)
  have st: "stored ?lh2 = {# x \<in># stored lh. \<not> p x #}"
    by (simp add: stored_def filter_mset_image_mset filter_concat [symmetric] mset_filter [symmetric] del: mset_filter)
  have "OPENSSL_lh_doall_arg A (visit A p) (Some lh) [] =
      (Some (lh_maybe_resize A ?lh2), map it_data (concat (lh_buckets lh)))"
    using d by (simp add: OPENSSL_lh_doall_arg.simps(2) Let_def k(1))
  then show thesis
    using lh_maybe_resize_ok [OF ok2, of A] st
    by (intro that [of "lh_maybe_resize A ?lh2"]) (simp_all add: same_table_def)
qed


section \<open>The properties\<close>

text \<open>A type whose values are their own hashes, for the examples.\<close>

definition word_cmp :: "u32 \<Rightarrow> u32 \<Rightarrow> int" where
  "word_cmp x y = (if x = y then 0 else 1)"

lemma word_key: "hash_key (\<lambda>x. x) word_cmp"
  by unfold_locales (auto simp: word_cmp_def split: if_splits)

lemma new_word_ok:
  obtains lh where "OPENSSL_lh_new (\<lambda>_. True) 48 (\<lambda>x. x) word_cmp = Some lh" "lh_ok lh"
    "lh_hash lh = (\<lambda>x. x)" "lh_comp lh = word_cmp" "lh_callback_depth lh = 0" "stored lh = {#}"
proof -
  obtain lh where lh: "OPENSSL_lh_new (\<lambda>_. True) 48 (\<lambda>x. x) word_cmp = Some lh"
    by (auto simp: OPENSSL_lh_new_def)
  with new_ok [OF lh] show thesis by (intro that [of lh]) simp_all
qed

lemma UINT_MAX_gt: "(0 :: u32) + 1 < UINT_MAX" "0 < UINT_MAX"
  by code_simp+

text \<open>The states a table can reach through its interface.\<close>

inductive lh_reachable :: "(size_t \<Rightarrow> bool) \<Rightarrow> ('d \<Rightarrow> u32) \<Rightarrow> ('d \<Rightarrow> 'd \<Rightarrow> int) \<Rightarrow> 'd lhash_st \<Rightarrow> bool"
  for A :: "size_t \<Rightarrow> bool" and hash :: "'d \<Rightarrow> u32" and cmp :: "'d \<Rightarrow> 'd \<Rightarrow> int" where
  new: "OPENSSL_lh_new A sz hash cmp = Some lh \<Longrightarrow> lh_reachable A hash cmp lh"
| insert: "lh_reachable A hash cmp lh \<Longrightarrow> OPENSSL_lh_insert A sz d lh = (r, old, lh') \<Longrightarrow> lh_reachable A hash cmp lh'"
| delete: "lh_reachable A hash cmp lh \<Longrightarrow> OPENSSL_lh_delete A d lh = (old, lh') \<Longrightarrow> lh_reachable A hash cmp lh'"
| doall: "lh_reachable A hash cmp lh \<Longrightarrow> OPENSSL_lh_doall_arg A (visit A p) (Some lh) [] = (Some lh', log) \<Longrightarrow>
    lh_reachable A hash cmp lh'"

lemma maybe_resize_depth [simp]: "lh_callback_depth (lh_maybe_resize A lh) = lh_callback_depth lh"
  by (simp add: lh_maybe_resize_def lh_rebucket_def Let_def)

lemma insert_depth:
  "OPENSSL_lh_insert A sz d lh = (r, old, lh') \<Longrightarrow> lh_callback_depth lh' = lh_callback_depth lh"
  by (auto simp: OPENSSL_lh_insert_def set_chain_def Let_def split: prod.splits option.splits if_splits)

lemma delete_depth:
  "OPENSSL_lh_delete A d lh = (old, lh') \<Longrightarrow> lh_callback_depth lh' = lh_callback_depth lh"
  by (auto simp: OPENSSL_lh_delete_def set_chain_def Let_def split: prod.splits option.splits if_splits)

lemma lh_reachable_inv:
  assumes "lh_reachable A hash cmp lh" "hash_key hash cmp"
  shows "lh_ok lh \<and> lh_hash lh = hash \<and> lh_comp lh = cmp \<and> lh_callback_depth lh = 0"
  using assms
proof (induction rule: lh_reachable.induct)
  case (new sz lh)
  then show ?case using new_ok [OF new(1)] by simp
next
  case (insert lh sz d r old lh')
  then have ok: "lh_ok lh" "hash_key (lh_hash lh) (lh_comp lh)" by auto
  have "lh_comp lh' = lh_comp lh" "lh_hash lh' = lh_hash lh" "lh_ok lh'" using insert_spec [OF ok insert(2)] by auto
  with insert insert_depth [OF insert(2)] show ?case by simp
next
  case (delete lh d old lh')
  then have ok: "lh_ok lh" "hash_key (lh_hash lh) (lh_comp lh)" by auto
  have "lh_comp lh' = lh_comp lh" "lh_hash lh' = lh_hash lh" "lh_ok lh'" using delete_spec [OF ok delete(2)] by auto
  with delete delete_depth [OF delete(2)] show ?case by simp
next
  case (doall lh p lh' log)
  then have ok: "lh_ok lh" "hash_key (lh_hash lh) (lh_comp lh)" "lh_callback_depth lh = 0" by auto
  have d: "lh_callback_depth lh + 1 < UINT_MAX" "lh_callback_depth lh < UINT_MAX" using UINT_MAX_gt unfolding ok(3) by blast+
  show ?case by (rule doall_visit [OF ok(1,2) d, of A p]) (use doall in auto)
qed

text \<open>
  C22: the hash table invariant. In every table the interface can reach, whatever allocations
  fail, there are as many chains as \<open>num_buckets\<close> says and at least 16 of them, each item is in
  the chain of its cached hash and that is the hash of its data, no two items are equal, and
  \<open>num_items\<close> counts them.
\<close>

theorem lhash_invariant:
  assumes "lh_reachable A hash cmp lh" "hash_key hash cmp"
  shows "16 \<le> lh_num_buckets lh \<and> length (lh_buckets lh) = unat (lh_num_buckets lh) \<and>
    (\<forall>b < length (lh_buckets lh). \<forall>it \<in> set (lh_buckets lh ! b). it_hash it = hash (it_data it) \<and>
       unat (ucast (it_hash it) mod lh_num_buckets lh) = b) \<and>
    (\<forall>d. size {# x \<in># mset (map it_data (concat (lh_buckets lh))). cmp x d = 0 #} \<le> 1) \<and>
    OPENSSL_lh_num_items lh = of_nat (length (concat (lh_buckets lh)))"
proof -
  have ok: "lh_ok lh" and h: "lh_hash lh = hash" "lh_comp lh = cmp" using lh_reachable_inv [OF assms] by auto
  have ch: "chains_ok hash (lh_num_buckets lh) (lh_buckets lh)" using ok h by (simp add: lh_ok_def)
  have items: "\<forall>b < length (lh_buckets lh). \<forall>it \<in> set (lh_buckets lh ! b). it_hash it = hash (it_data it) \<and>
       unat (ucast (it_hash it) mod lh_num_buckets lh) = b"
    using ch unfolding chains_ok_def bucket_of_def by (rule conjunct2)
  have "16 \<le> lh_num_buckets lh" using ok by (simp add: lh_ok_def kMinNumBuckets_def)
  moreover have "length (lh_buckets lh) = unat (lh_num_buckets lh)" using ch by (simp add: chains_ok_def)
  moreover have "\<forall>d. size {# x \<in># mset (map it_data (concat (lh_buckets lh))). cmp x d = 0 #} \<le> 1"
    using ok h(2) unfolding lh_ok_def stored_def by blast
  moreover have "OPENSSL_lh_num_items lh = of_nat (length (concat (lh_buckets lh)))"
    using ok by (simp add: lh_ok_def OPENSSL_lh_num_items_def stored_def)
  ultimately show ?thesis using items by blast
qed

theorem lhash_invariant_witness:
  "\<exists>lh. OPENSSL_lh_new (\<lambda>_. True) 48 (\<lambda>x. x) word_cmp = Some lh \<and> 16 \<le> lh_num_buckets lh"
proof -
  obtain lh where "OPENSSL_lh_new (\<lambda>_. True) 48 (\<lambda>x. x) word_cmp = Some lh" by (rule new_word_ok)
  with lhash_invariant [OF lh_reachable.new [OF this] word_key] show ?thesis by blast
qed

theorem lhash_refines_map_witness:
  "\<exists>lh. OPENSSL_lh_new (\<lambda>_. True) 48 (\<lambda>x. x) word_cmp = Some lh \<and>
     (case OPENSSL_lh_insert (\<lambda>_. True) 24 7 lh of (r, old, lh') \<Rightarrow>
        r \<longrightarrow> OPENSSL_lh_retrieve lh' 7 = Some 7)"
proof -
  obtain lh where lh: "OPENSSL_lh_new (\<lambda>_. True) 48 (\<lambda>x. x) word_cmp = Some lh" "lh_ok lh"
    "lh_hash lh = (\<lambda>x. x)" "lh_comp lh = word_cmp" by (rule new_word_ok)
  have "hash_key (lh_hash lh) (lh_comp lh)" using word_key lh by simp
  from lhash_refines_map [OF lh(2) this, where A = "\<lambda>_. True" and sz = 24 and d = 7] lh(1,4) show ?thesis
    by (auto simp: word_cmp_def split: prod.splits if_splits)
qed

text \<open>
  C23: the load of the table. As long as memory suffices and no iteration is under way, an
  insertion succeeds and chains keep an average length of 2 at most, for any number of items that
  fits in memory: an insertion that makes it 3 doubles the buckets, and a deletion that halves
  them never makes it more.
\<close>

theorem lhash_load:
  assumes ok: "lh_ok lh" and key: "hash_key (lh_hash lh) (lh_comp lh)" and d: "lh_callback_depth lh = 0"
    and m: "lh_num_items lh div lh_num_buckets lh \<le> kMaxAverageChainLength" "length (concat (lh_buckets lh)) + 1 < 2 ^ 60"
  shows "(case OPENSSL_lh_insert (\<lambda>_. True) sz x lh of (r, old, lh') \<Rightarrow>
      r \<and> lh_num_items lh' div lh_num_buckets lh' \<le> kMaxAverageChainLength) \<and>
    (case OPENSSL_lh_delete (\<lambda>_. True) x lh of (old, lh') \<Rightarrow>
      lh_num_items lh' div lh_num_buckets lh' \<le> kMaxAverageChainLength)"
proof -
  have avg: "lh_num_items l div lh_num_buckets l \<le> kMaxAverageChainLength \<longleftrightarrow> size (stored l) < 3 * unat (lh_num_buckets l)"
    if "lh_ok l" "size (stored l) < 2 ^ 60" for l :: "'a lhash_st"
  proof -
    have "16 \<le> unat (lh_num_buckets l)"
      using that(1) by (simp add: lh_ok_def kMinNumBuckets_def word_le_nat_alt)
    moreover have "unat (lh_num_items l) = size (stored l)" using that by (simp add: lh_ok_def unat_of_nat)
    ultimately have "lh_num_items l div lh_num_buckets l \<le> kMaxAverageChainLength \<longleftrightarrow> size (stored l) div unat (lh_num_buckets l) < 3"
      by (auto simp: kMaxAverageChainLength_def word_le_nat_alt unat_div)
    also have "\<dots> \<longleftrightarrow> size (stored l) < 3 * unat (lh_num_buckets l)"
      using \<open>16 \<le> unat (lh_num_buckets l)\<close> by (simp add: div_less_iff_less_mult)
    finally show ?thesis .
  qed
  have k: "size (stored lh) + 1 < 2 ^ 60" using m(2) by (simp add: stored_def)
  then have l: "size (stored lh) < 3 * unat (lh_num_buckets lh)" using avg [OF ok] m(1) by simp
  obtain r old lh' where i: "OPENSSL_lh_insert (\<lambda>_. True) sz x lh = (r, old, lh')" by (metis surj_pair)
  obtain o' l' where del: "OPENSSL_lh_delete (\<lambda>_. True) x lh = (o', l')" by (metis surj_pair)
  have "r \<and> size (stored lh') < 3 * unat (lh_num_buckets lh')" by (rule insert_load [OF ok key d l k i])
  moreover have "size (stored lh') \<le> size (stored lh) + 1"
    using insert_spec [OF ok key i] \<open>r \<and> _\<close> size_filter_mset_lesseq [of _ "stored lh"] by auto
  moreover have "size (stored l') < 3 * unat (lh_num_buckets l')" using k by (intro delete_load [OF ok key d l _ del]) simp
  moreover have "size (stored l') \<le> size (stored lh)"
    using delete_spec [OF ok key del] size_filter_mset_lesseq [of _ "stored lh"] by auto
  moreover have "lh_ok lh'" "lh_ok l'" using insert_spec [OF ok key i] delete_spec [OF ok key del] by auto
  ultimately have "r" "lh_num_items lh' div lh_num_buckets lh' \<le> kMaxAverageChainLength"
      "lh_num_items l' div lh_num_buckets l' \<le> kMaxAverageChainLength"
    using avg [of lh'] avg [of l'] k by simp_all
  then show ?thesis unfolding i del by simp
qed

theorem lhash_load_witness:
  "\<exists>lh. OPENSSL_lh_new (\<lambda>_. True) 48 (\<lambda>x. x) word_cmp = Some lh \<and>
     fst (OPENSSL_lh_insert (\<lambda>_. True) 24 7 lh)"
proof -
  obtain lh where lh: "OPENSSL_lh_new (\<lambda>_. True) 48 (\<lambda>x. x) word_cmp = Some lh" "lh_ok lh"
    "lh_hash lh = (\<lambda>x. x)" "lh_comp lh = word_cmp" "lh_callback_depth lh = 0" "stored lh = {#}"
    by (rule new_word_ok)
  have k: "hash_key (lh_hash lh) (lh_comp lh)" using word_key lh by simp
  have "size (stored lh) = length (concat (lh_buckets lh))" by (simp add: stored_def)
  then have e: "length (concat (lh_buckets lh)) = 0" by (simp only: lh(6) size_empty)
  have "length (concat (lh_buckets lh)) + 1 < 2 ^ 60" unfolding e by simp
  moreover have "lh_num_items lh div lh_num_buckets lh \<le> kMaxAverageChainLength"
    using lh(2,6) by (simp add: lh_ok_def)
  ultimately show ?thesis
    using lhash_load [OF lh(2) k lh(5), where sz = 24 and x = 7] lh(1) by (auto split: prod.splits)
qed

text \<open>
  C24: iteration with deletion. \<open>OPENSSL_lh_doall_arg\<close> with a callback that may delete the item it
  is given visits every item exactly once; afterwards the table is well-formed, holds the items
  that were not deleted, and has its old callback depth.
\<close>

theorem lhash_doall_visits_all:
  assumes "lh_ok lh" "hash_key (lh_hash lh) (lh_comp lh)" "lh_callback_depth lh + 1 < UINT_MAX" "lh_callback_depth lh < UINT_MAX"
  shows "case OPENSSL_lh_doall_arg A (visit A p) (Some lh) [] of
    (None, _) \<Rightarrow> False
  | (Some lh', visited) \<Rightarrow> mset visited = stored lh \<and> lh_ok lh' \<and> stored lh' = {# x \<in># stored lh. \<not> p x #} \<and>
      lh_callback_depth lh' = lh_callback_depth lh"
  by (rule doall_visit [OF assms, of A p]) (simp add: stored_def)

theorem lhash_doall_visits_all_witness:
  "\<exists>lh. OPENSSL_lh_new (\<lambda>_. True) 48 (\<lambda>x. x) word_cmp = Some lh \<and>
     snd (OPENSSL_lh_doall_arg (\<lambda>_. True) (visit (\<lambda>_. True) (\<lambda>_. True)) (Some lh) []) = []"
proof -
  obtain lh where lh: "OPENSSL_lh_new (\<lambda>_. True) 48 (\<lambda>x. x) word_cmp = Some lh" "lh_ok lh"
    "lh_hash lh = (\<lambda>x. x)" "lh_comp lh = word_cmp" "lh_callback_depth lh = 0" "stored lh = {#}"
    by (rule new_word_ok)
  have k: "hash_key (lh_hash lh) (lh_comp lh)" using word_key lh by simp
  have d: "lh_callback_depth lh + 1 < UINT_MAX" "lh_callback_depth lh < UINT_MAX" using UINT_MAX_gt unfolding lh(5) by blast+
  from lhash_doall_visits_all [OF lh(2) k d, of "\<lambda>_. True" "\<lambda>_. True"] lh(1,6)
  show ?thesis by (auto split: prod.splits option.splits)
qed

end
