(* ===== verification/ConstTime.thy ===== *)
theory ConstTime
  imports Mem
begin

text \<open>
  The word-level helpers of crypto/internal.h: the constant-time masks, addition and subtraction
  with carry, rotation, and loads and stores. \<open>crypto_word_t\<close> has 64 bits, as on the 64-bit
  targets. The value barriers return their argument and are left out; so are the compiler
  builtins, which the portable branches stand for.
\<close>

section \<open>Masks\<close>

type_synonym crypto_word_t = "64 word"

definition CONSTTIME_TRUE_W :: crypto_word_t where
  "CONSTTIME_TRUE_W = NOT 0"

definition CONSTTIME_FALSE_W :: crypto_word_t where
  "CONSTTIME_FALSE_W = 0"

definition CONSTTIME_TRUE_8 :: u8 where
  "CONSTTIME_TRUE_8 = 0xff"

definition CONSTTIME_FALSE_8 :: u8 where
  "CONSTTIME_FALSE_8 = 0"

definition constant_time_msb_w :: "crypto_word_t \<Rightarrow> crypto_word_t" where
  "constant_time_msb_w a = 0 - drop_bit (8 * 8 - 1) a"

definition constant_time_lt_w :: "crypto_word_t \<Rightarrow> crypto_word_t \<Rightarrow> crypto_word_t" where
  "constant_time_lt_w a b = constant_time_msb_w (a XOR ((a XOR b) OR ((a - b) XOR a)))"

definition constant_time_lt_8 :: "crypto_word_t \<Rightarrow> crypto_word_t \<Rightarrow> u8" where
  "constant_time_lt_8 a b = ucast (constant_time_lt_w a b)"

definition constant_time_ge_w :: "crypto_word_t \<Rightarrow> crypto_word_t \<Rightarrow> crypto_word_t" where
  "constant_time_ge_w a b = NOT (constant_time_lt_w a b)"

definition constant_time_ge_8 :: "crypto_word_t \<Rightarrow> crypto_word_t \<Rightarrow> u8" where
  "constant_time_ge_8 a b = ucast (constant_time_ge_w a b)"

definition constant_time_is_zero_w :: "crypto_word_t \<Rightarrow> crypto_word_t" where
  "constant_time_is_zero_w a = constant_time_msb_w (NOT a AND (a - 1))"

definition constant_time_is_zero_8 :: "crypto_word_t \<Rightarrow> u8" where
  "constant_time_is_zero_8 a = ucast (constant_time_is_zero_w a)"

definition constant_time_eq_w :: "crypto_word_t \<Rightarrow> crypto_word_t \<Rightarrow> crypto_word_t" where
  "constant_time_eq_w a b = constant_time_is_zero_w (a XOR b)"

definition constant_time_eq_8 :: "crypto_word_t \<Rightarrow> crypto_word_t \<Rightarrow> u8" where
  "constant_time_eq_8 a b = ucast (constant_time_eq_w a b)"

text \<open>\<open>int\<close> has 32 bits; its conversion to \<open>crypto_word_t\<close> extends the sign.\<close>

definition constant_time_eq_int :: "32 word \<Rightarrow> 32 word \<Rightarrow> crypto_word_t" where
  "constant_time_eq_int a b = constant_time_eq_w (scast a) (scast b)"

definition constant_time_eq_int_8 :: "32 word \<Rightarrow> 32 word \<Rightarrow> u8" where
  "constant_time_eq_int_8 a b = constant_time_eq_8 (scast a) (scast b)"

definition constant_time_select_w :: "crypto_word_t \<Rightarrow> crypto_word_t \<Rightarrow> crypto_word_t \<Rightarrow> crypto_word_t" where
  "constant_time_select_w msk a b = (msk AND a) OR (NOT msk AND b)"

definition constant_time_select_8 :: "crypto_word_t \<Rightarrow> u8 \<Rightarrow> u8 \<Rightarrow> u8" where
  "constant_time_select_8 msk a b = (let m = (ucast msk :: u8) in (m AND a) OR (NOT m AND b))"

definition constant_time_select_int :: "crypto_word_t \<Rightarrow> 32 word \<Rightarrow> 32 word \<Rightarrow> 32 word" where
  "constant_time_select_int msk a b = ucast (constant_time_select_w msk (scast a) (scast b))"

text \<open>The loops run over the first \<open>n\<close> bytes of two blocks that do not overlap.\<close>

definition constant_time_conditional_memcpy :: "u8 list \<Rightarrow> u8 list \<Rightarrow> size_t \<Rightarrow> crypto_word_t \<Rightarrow> u8 list" where
  "constant_time_conditional_memcpy out inp n msk =
     map2 (\<lambda>i x. constant_time_select_8 msk i x) (take (unat n) inp) (take (unat n) out) @ drop (unat n) out"

definition constant_time_conditional_memxor :: "u8 list \<Rightarrow> u8 list \<Rightarrow> size_t \<Rightarrow> crypto_word_t \<Rightarrow> u8 list" where
  "constant_time_conditional_memxor out inp n msk =
     map2 (\<lambda>i x. x XOR ucast (msk AND ucast i)) (take (unat n) inp) (take (unat n) out) @ drop (unat n) out"

definition buffers_alias :: "64 word \<Rightarrow> size_t \<Rightarrow> 64 word \<Rightarrow> size_t \<Rightarrow> bool" where
  "buffers_alias a_u a_bytes b_u b_bytes = (a_u + a_bytes > b_u \<and> b_u + b_bytes > a_u)"

definition align_pointer :: "64 word \<Rightarrow> size_t \<Rightarrow> 64 word" where
  "align_pointer ptr alignment = (let offset = (0 - ptr) AND (alignment - 1) in ptr + offset)"

section \<open>Carries and rotations\<close>

text \<open>Result and carry or borrow.\<close>

definition CRYPTO_addc_u32 :: "u32 \<Rightarrow> u32 \<Rightarrow> u32 \<Rightarrow> u32 \<times> u32" where
  "CRYPTO_addc_u32 x y carry =
     (let ret = (ucast carry :: u64) + (ucast x + ucast y) in (ucast ret, ucast (drop_bit 32 ret)))"

definition CRYPTO_addc_u64 :: "u64 \<Rightarrow> u64 \<Rightarrow> u64 \<Rightarrow> u64 \<times> u64" where
  "CRYPTO_addc_u64 x y carry =
     (let x = x + carry;
          carry = of_bool (x < carry);
          ret = x + y;
          carry = carry + of_bool (ret < x)
      in (ret, carry))"

definition CRYPTO_subc_u32 :: "u32 \<Rightarrow> u32 \<Rightarrow> u32 \<Rightarrow> u32 \<times> u32" where
  "CRYPTO_subc_u32 x y borrow =
     (x - y - borrow, of_bool (x < y) OR (of_bool (x = y) AND borrow))"

definition CRYPTO_subc_u64 :: "u64 \<Rightarrow> u64 \<Rightarrow> u64 \<Rightarrow> u64 \<times> u64" where
  "CRYPTO_subc_u64 x y borrow =
     (x - y - borrow, of_bool (x < y) OR (of_bool (x = y) AND borrow))"

text \<open>\<open>shift\<close> is less than the width: shifting by more is undefined.\<close>

definition CRYPTO_rotl_u32 :: "u32 \<Rightarrow> nat \<Rightarrow> u32" where
  "CRYPTO_rotl_u32 value shift = push_bit shift value OR drop_bit (nat ((- int shift) AND 31)) value"

definition CRYPTO_rotr_u32 :: "u32 \<Rightarrow> nat \<Rightarrow> u32" where
  "CRYPTO_rotr_u32 value shift = drop_bit shift value OR push_bit (nat ((- int shift) AND 31)) value"

definition CRYPTO_rotl_u64 :: "u64 \<Rightarrow> nat \<Rightarrow> u64" where
  "CRYPTO_rotl_u64 value shift = push_bit shift value OR drop_bit (nat ((- int shift) AND 63)) value"

definition CRYPTO_rotr_u64 :: "u64 \<Rightarrow> nat \<Rightarrow> u64" where
  "CRYPTO_rotr_u64 value shift = drop_bit shift value OR push_bit (nat ((- int shift) AND 63)) value"

section \<open>Masks are right\<close>

lemma bit_top: "bit (a :: 64 word) 63 \<longleftrightarrow> 2 ^ 63 \<le> unat a"
proof -
  have "unat a < 2 ^ 64" using unsigned_less [of a] by simp
  then have "unat a div 2 ^ 63 < 2" by (simp add: div_less_iff_less_mult)
  then have "odd (unat a div 2 ^ 63) \<longleftrightarrow> unat a div 2 ^ 63 \<noteq> 0" by (auto simp: less_2_cases_iff)
  moreover have "bit a 63 \<longleftrightarrow> bit (unat a) 63" by (simp add: bit_unsigned_iff)
  ultimately show ?thesis by (simp add: bit_iff_odd div_eq_0_iff not_less del: unat_eq_0)
qed

lemma msb_w_eq: "constant_time_msb_w a = (if bit a 63 then - 1 else 0)"
proof -
  have "drop_bit 63 a = of_bool (bit a 63)"
  proof (rule bit_word_eqI)
    fix n
    have "\<not> bit a (63 + Suc k)" for k using bit_imp_le_length [of a "63 + Suc k"] by auto
    then show "bit (drop_bit 63 a) n \<longleftrightarrow> bit (of_bool (bit a 63) :: 64 word) n"
      by (cases n) (simp_all add: bit_drop_bit_eq bit_of_bool_iff)
  qed
  then show ?thesis by (simp add: constant_time_msb_w_def)
qed

lemma bit_sub: "bit (a - b :: 64 word) 63 \<longleftrightarrow>
    (if unat b \<le> unat a then 2 ^ 63 \<le> unat a - unat b else 2 ^ 63 \<le> unat a + 2 ^ 64 - unat b)"
  unfolding bit_top unat_sub_if' by simp

lemma lt_w_eq: "constant_time_lt_w a b = (if a < b then CONSTTIME_TRUE_W else CONSTTIME_FALSE_W)"
proof -
  have a: "unat a < 2 ^ 64" "unat b < 2 ^ 64" using unsigned_less [of a] unsigned_less [of b] by simp_all
  have "bit (a XOR ((a XOR b) OR ((a - b) XOR a))) 63 \<longleftrightarrow> unat a < unat b"
    using a by (simp add: bit_xor_iff bit_or_iff bit_sub) (auto simp: bit_top)
  then show ?thesis
    by (simp add: constant_time_lt_w_def msb_w_eq CONSTTIME_TRUE_W_def CONSTTIME_FALSE_W_def word_less_nat_alt)
qed

lemma is_zero_w_eq: "constant_time_is_zero_w a = (if a = 0 then CONSTTIME_TRUE_W else CONSTTIME_FALSE_W)"
proof -
  have "unat a < 2 ^ 64" using unsigned_less [of a] by simp
  moreover have "bit (NOT a AND (a - 1)) 63 \<longleftrightarrow> \<not> bit a 63 \<and> bit (a - 1) 63"
    by (simp add: bit_and_iff bit_not_iff)
  ultimately have "bit (NOT a AND (a - 1)) 63 \<longleftrightarrow> unat a = 0"
    using bit_sub [of a 1] bit_top [of a] by auto
  then show ?thesis
    by (simp add: constant_time_is_zero_w_def msb_w_eq CONSTTIME_TRUE_W_def CONSTTIME_FALSE_W_def unat_eq_0)
qed

lemma eq_w_eq: "constant_time_eq_w a b = (if a = b then CONSTTIME_TRUE_W else CONSTTIME_FALSE_W)"
proof -
  have "a XOR b = 0 \<longleftrightarrow> a = b" by (auto simp: bit_eq_iff bit_xor_iff)
  then show ?thesis by (simp add: constant_time_eq_w_def is_zero_w_eq)
qed

lemma masks_8: "ucast CONSTTIME_TRUE_W = CONSTTIME_TRUE_8" "ucast CONSTTIME_FALSE_W = CONSTTIME_FALSE_8"
  by code_simp+

lemma eq_8_eq: "constant_time_eq_8 a b = (if a = b then CONSTTIME_TRUE_8 else CONSTTIME_FALSE_8)"
  by (simp add: constant_time_eq_8_def eq_w_eq masks_8)

lemma select_w_eq:
  "constant_time_select_w CONSTTIME_TRUE_W a b = a" "constant_time_select_w CONSTTIME_FALSE_W a b = b"
  by (simp_all add: constant_time_select_w_def CONSTTIME_TRUE_W_def CONSTTIME_FALSE_W_def)

lemma select_8_eq:
  "ucast m = CONSTTIME_TRUE_8 \<Longrightarrow> constant_time_select_8 m a b = a"
  "ucast m = CONSTTIME_FALSE_8 \<Longrightarrow> constant_time_select_8 m a b = b"
proof -
  have T: "CONSTTIME_TRUE_8 = - 1" by code_simp
  show "ucast m = CONSTTIME_TRUE_8 \<Longrightarrow> constant_time_select_8 m a b = a"
    by (simp add: constant_time_select_8_def Let_def T)
  show "ucast m = CONSTTIME_FALSE_8 \<Longrightarrow> constant_time_select_8 m a b = b"
    by (simp add: constant_time_select_8_def Let_def CONSTTIME_FALSE_8_def)
qed

lemma ucast_masks:
  "ucast (if P then CONSTTIME_TRUE_W else CONSTTIME_FALSE_W) = (if P then CONSTTIME_TRUE_8 else CONSTTIME_FALSE_8)"
  by (simp add: masks_8)

lemma select_w_if: "constant_time_select_w (if P then CONSTTIME_TRUE_W else CONSTTIME_FALSE_W) a b = (if P then a else b)"
  by (simp add: select_w_eq)

lemma select_8_if: "constant_time_select_8 (if P then CONSTTIME_TRUE_W else CONSTTIME_FALSE_W) a b = (if P then a else b)"
  by (simp add: select_8_eq masks_8)

text \<open>An 8-bit mask is extended to a word by zeros and cut again.\<close>

lemma ucast_mask_8: "ucast (ucast (m :: u8) :: u64) = m"
  by (rule bit_word_eqI) (simp add: bit_ucast_iff)

lemma select_8_if_8:
  "constant_time_select_8 (ucast (if P then CONSTTIME_TRUE_8 else CONSTTIME_FALSE_8)) a b = (if P then a else b)"
  by (simp add: select_8_eq ucast_mask_8)

text \<open>
  C25: the constant-time helpers compute what they say: each mask is all ones exactly when its
  comparison of unsigned words holds and zero otherwise, on every pair of words (\<open>lt\<close> without
  looking at the most significant bits apart), and a selection by such a mask is a conditional.
\<close>

theorem constant_time_masks:
  "constant_time_lt_w a b = (if a < b then - 1 else 0) \<and>
   constant_time_ge_w a b = (if a \<ge> b then - 1 else 0) \<and>
   constant_time_is_zero_w a = (if a = 0 then - 1 else 0) \<and>
   constant_time_eq_w a b = (if a = b then - 1 else 0) \<and>
   constant_time_lt_8 a b = (if a < b then 0xff else 0) \<and>
   constant_time_ge_8 a b = (if a \<ge> b then 0xff else 0) \<and>
   constant_time_is_zero_8 a = (if a = 0 then 0xff else 0) \<and>
   constant_time_eq_8 a b = (if a = b then 0xff else 0) \<and>
   constant_time_select_w (constant_time_lt_w a b) x y = (if a < b then x else y) \<and>
   constant_time_select_8 (constant_time_eq_w a b) u v = (if a = b then u else v)"
proof -
  have W: "CONSTTIME_TRUE_W = - 1" "CONSTTIME_FALSE_W = 0" "CONSTTIME_TRUE_8 = 0xff" "CONSTTIME_FALSE_8 = 0"
    by (simp_all add: CONSTTIME_TRUE_W_def CONSTTIME_FALSE_W_def CONSTTIME_TRUE_8_def CONSTTIME_FALSE_8_def)
  have ge: "constant_time_ge_w a b = (if a \<ge> b then CONSTTIME_TRUE_W else CONSTTIME_FALSE_W)"
    using not_less [of a b] by (auto simp: constant_time_ge_w_def lt_w_eq W)
  show ?thesis
    unfolding constant_time_lt_8_def constant_time_ge_8_def constant_time_is_zero_8_def constant_time_eq_8_def
      ge lt_w_eq is_zero_w_eq eq_w_eq select_w_if select_8_if ucast_masks
    unfolding W by (auto simp: not_le)
qed

text \<open>
  Conditional copies. \<open>constant_time_conditional_memcpy\<close> overwrites the first \<open>n\<close> bytes
  of the destination when the mask is set and leaves the destination alone when it is zero, and
  \<open>constant_time_conditional_memxor\<close> likewise adds the source to it.
\<close>

theorem conditional_copies:
  assumes "unat n \<le> length src" "unat n \<le> length dst"
  shows "constant_time_conditional_memcpy dst src n CONSTTIME_TRUE_W = take (unat n) src @ drop (unat n) dst \<and>
    constant_time_conditional_memcpy dst src n CONSTTIME_FALSE_W = dst \<and>
    constant_time_conditional_memxor dst src n CONSTTIME_TRUE_W =
      map2 (XOR) (take (unat n) dst) (take (unat n) src) @ drop (unat n) dst \<and>
    constant_time_conditional_memxor dst src n CONSTTIME_FALSE_W = dst"
proof -
  have f: "map2 (\<lambda>i x. i) xs ys = xs" "map2 (\<lambda>i x. x) ys xs = xs" if "length xs = length ys" for xs ys :: "u8 list"
    using that by (induction xs ys rule: list_induct2) auto
  have g: "map2 (\<lambda>i x. x XOR i) xs ys = map2 (XOR) ys xs" for xs ys :: "u8 list"
    by (induction xs ys rule: list_induct2') auto
  have len: "length (take (unat n) src) = length (take (unat n) dst)" using assms by simp
  have s: "constant_time_select_8 CONSTTIME_TRUE_W = (\<lambda>i x. i)" "constant_time_select_8 CONSTTIME_FALSE_W = (\<lambda>i x. x)"
    by (intro ext; simp add: select_8_eq masks_8)+
  have "constant_time_conditional_memcpy dst src n CONSTTIME_TRUE_W = take (unat n) src @ drop (unat n) dst"
    "constant_time_conditional_memcpy dst src n CONSTTIME_FALSE_W = dst"
    unfolding constant_time_conditional_memcpy_def using f [OF len] f [OF len [symmetric]]
    by (simp_all add: s)
  moreover have "constant_time_conditional_memxor dst src n CONSTTIME_TRUE_W =
      map2 (XOR) (take (unat n) dst) (take (unat n) src) @ drop (unat n) dst"
    "constant_time_conditional_memxor dst src n CONSTTIME_FALSE_W = dst"
    unfolding constant_time_conditional_memxor_def
    using f [OF len] f [OF len [symmetric]] g [of "take (unat n) src" "take (unat n) dst"]
    by (simp_all add: CONSTTIME_TRUE_W_def CONSTTIME_FALSE_W_def ucast_mask_8)
  ultimately show ?thesis by blast
qed

theorem conditional_copies_witness:
  "constant_time_conditional_memcpy [1, 2, 3] [7, 8] 2 CONSTTIME_TRUE_W = [7, 8, 3]"
  using conditional_copies [of 2 "[7, 8]" "[1, 2, 3]"] by simp

section \<open>Carries and rotations are right\<close>

lemma addc_u32_exact:
  "case CRYPTO_addc_u32 x y c of (r, c') \<Rightarrow> unat r + 2 ^ 32 * unat c' = unat x + unat y + unat c"
proof -
  let ?s = "(ucast c :: u64) + (ucast x + ucast y)"
  have b: "unat x < 2 ^ 32" "unat y < 2 ^ 32" "unat c < 2 ^ 32"
    using unsigned_less [of x] unsigned_less [of y] unsigned_less [of c] by simp_all
  have u: "unat (ucast v :: u64) = unat v" for v :: u32 by (rule unat_ucast_up) simp
  have s: "unat ?s = unat x + unat y + unat c"
    using b by (simp add: unat_word_ariths u)
  have "unat (ucast ?s :: u32) = unat ?s mod 2 ^ 32" by (simp add: unsigned_ucast_eq take_bit_eq_mod)
  moreover have "unat (ucast (drop_bit 32 ?s) :: u32) = unat ?s div 2 ^ 32"
    using b s by (simp add: unsigned_ucast_eq take_bit_eq_mod unat_drop_bit)
  ultimately show ?thesis unfolding CRYPTO_addc_u32_def Let_def prod.case s
    by (metis mod_mult_div_eq)
qed

lemma addc_u64_exact:
  assumes "c \<le> 1"
  shows "case CRYPTO_addc_u64 x y c of (r, c') \<Rightarrow> unat r + 2 ^ 64 * unat c' = unat x + unat y + unat c \<and> c' \<le> 1"
proof -
  have b: "unat x < 2 ^ 64" "unat y < 2 ^ 64" using unsigned_less [of x] unsigned_less [of y] by simp_all
  have c: "unat c \<le> 1" using assms by (simp add: word_le_nat_alt)
  show ?thesis
    unfolding CRYPTO_addc_u64_def Let_def prod.case word_less_nat_alt word_le_nat_alt
    using b c by (auto simp: unat_plus_if' of_bool_def)
qed

lemma subc_exact:
  fixes x y c :: "'a::len word"
  assumes "c \<le> 1"
  shows "int (unat (x - y - c)) - 2 ^ LENGTH('a) * int (unat (of_bool (x < y) OR (of_bool (x = y) AND c))) =
      int (unat x) - int (unat y) - int (unat c) \<and>
    of_bool (x < y) OR (of_bool (x = y) AND c) \<le> (1 :: 'a word)"
proof -
  have b: "0 \<le> uint v" "uint v < 2 ^ LENGTH('a)" for v :: "'a word" by simp_all
  have i: "uint (v - w) = (if uint w \<le> uint v then uint v - uint w else uint v + 2 ^ LENGTH('a) - uint w)"
    for v w :: "'a word"
    by (simp add: uint_sub_if')
  have lt: "x < y \<longleftrightarrow> uint x < uint y" "x = y \<longleftrightarrow> uint x = uint y" by (simp_all add: word_less_def word_uint_eq_iff)
  have g: "1 \<le> uint v + 2 ^ LENGTH('a) - uint w" for v w :: "'a word" using b [of v] b [of w] by linarith
  have u1: "uint (1 :: 'a word) = 1" by simp
  have "unat c \<le> 1" using assms by (simp add: word_le_nat_alt)
  then consider "c = 0" | "c = 1" by (metis One_nat_def le_Suc_eq le_zero_eq unat_1 unat_eq_0 word_unat_eq_iff)
  then show ?thesis
  proof cases
    case 1
    then show ?thesis using b [of x] b [of y] by (auto simp: i lt of_bool_def)
  next
    case 2
    have z: "of_bool P OR (of_bool Q AND (1 :: 'a word)) = of_bool (P \<or> Q)" for P Q by (auto simp: of_bool_def)
    show ?thesis unfolding 2 z using b [of x] b [of y] by (auto simp: i lt(1) of_bool_def u1 g) (auto simp: lt(2))
  qed
qed

text \<open>
  Addition and subtraction with carry. For a carry or borrow of 0 or 1 the results are those
  of the exact sum and difference: low word plus carry-out times \<open>2 ^ w\<close>, and carry-out and
  borrow-out are 0 or 1 again.
\<close>

theorem carry_arithmetic:
  assumes "c \<le> 1" "d \<le> 1"
  shows "(case CRYPTO_addc_u32 x y c of (r, c') \<Rightarrow> unat r + 2 ^ 32 * unat c' = unat x + unat y + unat c \<and> c' \<le> 1) \<and>
    (case CRYPTO_addc_u64 v w d of (r, d') \<Rightarrow> unat r + 2 ^ 64 * unat d' = unat v + unat w + unat d \<and> d' \<le> 1) \<and>
    (case CRYPTO_subc_u32 x y c of (r, c') \<Rightarrow>
       int (unat r) - 2 ^ 32 * int (unat c') = int (unat x) - int (unat y) - int (unat c) \<and> c' \<le> 1) \<and>
    (case CRYPTO_subc_u64 v w d of (r, d') \<Rightarrow>
       int (unat r) - 2 ^ 64 * int (unat d') = int (unat v) - int (unat w) - int (unat d) \<and> d' \<le> 1)"
proof -
  obtain r c' where r: "CRYPTO_addc_u32 x y c = (r, c')" by (metis surj_pair)
  with addc_u32_exact [of x y c] have e: "unat r + 2 ^ 32 * unat c' = unat x + unat y + unat c" by simp
  have "unat x < 2 ^ 32" "unat y < 2 ^ 32" "unat c \<le> 1"
    using unsigned_less [of x] unsigned_less [of y] assms(1) by (simp_all add: word_le_nat_alt)
  with e have "unat c' \<le> 1" by simp
  then have "c' \<le> 1" by (simp add: word_le_nat_alt)
  with r e have "case CRYPTO_addc_u32 x y c of (r, c') \<Rightarrow> unat r + 2 ^ 32 * unat c' = unat x + unat y + unat c \<and> c' \<le> 1"
    by simp
  then show ?thesis
    using addc_u64_exact [OF assms(2), of v w] subc_exact [OF assms(1), of x y] subc_exact [OF assms(2), of v w]
    unfolding CRYPTO_subc_u32_def CRYPTO_subc_u64_def prod.case by simp
qed

theorem carry_arithmetic_witness:
  "unat (fst (CRYPTO_addc_u64 (- 1) 5 1)) + 2 ^ 64 * unat (snd (CRYPTO_addc_u64 (- 1) 5 1)) = 2 ^ 64 + 5"
proof -
  have "unat (- 1 :: u64) = 2 ^ 64 - 1" by (simp add: unsigned_minus_1_eq_mask mask_eq_exp_minus_1)
  then show ?thesis using carry_arithmetic [of 1 1 0 0 "- 1" 5] by (auto split: prod.splits)
qed

lemma neg_mod_shift:
  assumes s: "s < n" "n = 2 ^ k" and m: "m = int n - 1"
  shows "nat ((- int s) AND m) = (n - s) mod n"
proof -
  have m: "m = mask k" using s(2) m by (simp add: mask_eq_exp_minus_1)
  have "(- int s) AND m = (- int s) mod int n"
    unfolding m by (simp add: s(2) flip: take_bit_eq_mask take_bit_eq_mod)
  also have "\<dots> = int ((n - s) mod n)"
  proof -
    have "(- int s) mod int n = (int n - int s) mod int n" by simp
    also have "int n - int s = int (n - s)" using s(1) by simp
    finally show ?thesis by (simp add: zmod_int)
  qed
  finally show ?thesis by simp
qed

lemma rotl_bits:
  fixes v :: "'a::len word"
  assumes "s < LENGTH('a)"
  shows "push_bit s v OR drop_bit ((LENGTH('a) - s) mod LENGTH('a)) v = word_rotl s v"
proof (rule bit_word_eqI)
  fix n assume n: "n < LENGTH('a)"
  show "bit (push_bit s v OR drop_bit ((LENGTH('a) - s) mod LENGTH('a)) v) n = bit (word_rotl s v) n"
  proof (cases "s = 0")
    case True
    then show ?thesis using n by (simp add: bit_word_rotl_iff)
  next
    case False
    then have m: "(LENGTH('a) - s) mod LENGTH('a) = LENGTH('a) - s" by simp
    have out: "\<not> bit v (LENGTH('a) - s + n)" if "s \<le> n"
      using that bit_imp_le_length [of v "LENGTH('a) - s + n"] assms by auto
    show ?thesis
    proof (cases "s \<le> n")
      case True
      then have "(n + (LENGTH('a) - s)) mod LENGTH('a) = n - s"
        using n assms by (simp add: mod_if)
      then show ?thesis using True n assms m out [OF True]
        by (simp add: bit_word_rotl_iff bit_or_iff bit_push_bit_iff bit_drop_bit_eq)
    next
      case False
      then have "(n + (LENGTH('a) - s)) mod LENGTH('a) = LENGTH('a) - s + n" using n assms by simp
      then show ?thesis using False n assms m
        by (simp add: bit_word_rotl_iff bit_or_iff bit_push_bit_iff bit_drop_bit_eq)
    qed
  qed
qed


lemma rotr_bits:
  fixes v :: "'a::len word"
  assumes "s < LENGTH('a)"
  shows "drop_bit s v OR push_bit ((LENGTH('a) - s) mod LENGTH('a)) v = word_rotr s v"
proof (cases "s = 0")
  case True
  then show ?thesis by (intro bit_word_eqI) (simp add: bit_word_rotr_iff)
next
  case False
  let ?t = "LENGTH('a) - s"
  have t: "?t < LENGTH('a)" "?t mod LENGTH('a) = ?t" "(LENGTH('a) - ?t) mod LENGTH('a) = s" using False assms by auto
  have "push_bit ?t v OR drop_bit s v = word_rotl ?t v" using rotl_bits [OF t(1), of v] unfolding t(3) .
  also have "\<dots> = word_rotr s v" using assms by (simp add: word_rotl_eq_word_rotr t(2))
  finally show ?thesis unfolding t(2) by (simp add: or.commute)
qed

text \<open>
  Rotations. For a shift below the width the shift-and-or code is the rotation by that many
  bits, no shift by the full width happens even for 0, and the two directions are inverse.
\<close>

theorem rotations:
  assumes "s < 32" "t < 64"
  shows "CRYPTO_rotl_u32 v s = word_rotl s v \<and> CRYPTO_rotr_u32 v s = word_rotr s v \<and>
    CRYPTO_rotl_u64 w t = word_rotl t w \<and> CRYPTO_rotr_u64 w t = word_rotr t w \<and>
    CRYPTO_rotr_u32 (CRYPTO_rotl_u32 v s) s = v \<and> CRYPTO_rotr_u64 (CRYPTO_rotl_u64 w t) t = w"
proof -
  have s: "nat ((- int s) AND 31) = (32 - s) mod 32" by (rule neg_mod_shift [where k = 5]) (use assms(1) in simp_all)
  have t: "nat ((- int t) AND 63) = (64 - t) mod 64" by (rule neg_mod_shift [where k = 6]) (use assms(2) in simp_all)
  have len: "LENGTH(32) = 32" "LENGTH(64) = 64" by simp_all
  have l: "CRYPTO_rotl_u32 v s = word_rotl s v" "CRYPTO_rotl_u64 w t = word_rotl t w"
    unfolding CRYPTO_rotl_u32_def CRYPTO_rotl_u64_def s t
    by (rule rotl_bits [where 'a = 32, unfolded len, OF assms(1)], rule rotl_bits [where 'a = 64, unfolded len, OF assms(2)])
  have r: "CRYPTO_rotr_u32 x s = word_rotr s x" "CRYPTO_rotr_u64 y t = word_rotr t y" for x y
    unfolding CRYPTO_rotr_u32_def CRYPTO_rotr_u64_def s t
    by (rule rotr_bits [where 'a = 32, unfolded len, OF assms(1)], rule rotr_bits [where 'a = 64, unfolded len, OF assms(2)])
  show ?thesis unfolding l r by simp
qed

theorem rotations_witness: "CRYPTO_rotr_u32 (CRYPTO_rotl_u32 0x12345678 8) 8 = 0x12345678"
  using rotations [of 8 0 "0x12345678" 0] by (intro rotations [THEN conjunct2, THEN conjunct2, THEN conjunct2, THEN conjunct2, THEN conjunct1, of 8 0 "0x12345678"]) simp_all

text \<open>Aligning a pointer: the result is aligned and at most \<open>alignment - 1\<close> further.\<close>

lemma align_pointer_ok:
  assumes "k < 64"
  shows "2 ^ k dvd unat (align_pointer ptr (2 ^ k))" "unat (align_pointer ptr (2 ^ k) - ptr) < 2 ^ k"
proof -
  have m: "(2 ^ k :: 64 word) - 1 = mask k" by (simp add: mask_eq_exp_minus_1)
  have off: "align_pointer ptr (2 ^ k) = ptr + take_bit k (- ptr)"
    by (simp add: align_pointer_def Let_def m take_bit_eq_mask)
  have "unat (ptr + take_bit k (- ptr)) mod 2 ^ k = (unat ptr + unat (- ptr)) mod 2 ^ k"
  proof -
    have d: "(2 :: nat) ^ k dvd 2 ^ 64" using assms by (intro le_imp_power_dvd) simp
    have "unat (ptr + take_bit k (- ptr)) = (unat ptr + unat (- ptr) mod 2 ^ k) mod 2 ^ 64"
      unfolding unat_word_ariths(1) unsigned_take_bit_eq by (simp add: take_bit_eq_mod [of k "unat (- ptr)"])
    then show ?thesis using d by (simp only: mod_mod_cancel mod_add_right_eq)
  qed
  also have "\<dots> = 0"
  proof -
    have "unat ptr + unat (- ptr) = (if ptr = 0 then 0 else 2 ^ 64)"
    proof -
      have "unat ptr < 2 ^ 64" using unsigned_less [of ptr] by simp
      then show ?thesis using unat_sub_if' [of 0 ptr] by (auto simp: unat_eq_0)
    qed
    moreover have "(2 ^ 64 :: nat) mod 2 ^ k = 0"
      using le_imp_power_dvd [of k 64 "2 :: nat"] assms by (simp add: dvd_eq_mod_eq_0 del: power_numeral)
    ultimately show ?thesis by (simp del: power_numeral)
  qed
  finally show "2 ^ k dvd unat (align_pointer ptr (2 ^ k))" unfolding off by (simp add: dvd_eq_mod_eq_0)
  have "unat (take_bit k (- ptr)) < 2 ^ k" by (simp add: unsigned_take_bit_eq take_bit_nat_less_exp)
  then show "unat (align_pointer ptr (2 ^ k) - ptr) < 2 ^ k" unfolding off by simp
qed

end
