(* ===== verification/Base64.thy ===== *)
theory Base64
  imports ConstTime
begin

text \<open>
  Base64 (crypto/base64/base64.c). An output pointer is the list of the bytes written behind it.
  The encoders end it with a NUL that later output overwrites: inside the functions the list
  holds what lies before the output pointer, the final NUL is added where the code leaves one.
  \<open>*out_len\<close> is an \<open>int\<close>.
\<close>

section \<open>Characters\<close>

definition constant_time_lt_args_8 :: "u8 \<Rightarrow> u8 \<Rightarrow> u8" where
  "constant_time_lt_args_8 a b =
     (let aw = (ucast a :: crypto_word_t); bw = ucast b in ucast (constant_time_msb_w (aw - bw)))"

definition constant_time_in_range_8 :: "u8 \<Rightarrow> u8 \<Rightarrow> u8 \<Rightarrow> u8" where
  "constant_time_in_range_8 a lo hi = constant_time_lt_args_8 (a - lo) (hi - lo + 1)"

definition conv_bin2ascii :: "u8 \<Rightarrow> u8" where
  "conv_bin2ascii a =
     (let a = a AND 0x3f;
          ret = constant_time_select_8 (ucast (constant_time_eq_8 (ucast a) 62)) 43 47;
          ret = constant_time_select_8 (ucast (constant_time_lt_args_8 a 62)) (a - 52 + 48) ret;
          ret = constant_time_select_8 (ucast (constant_time_lt_args_8 a 52)) (a - 26 + 97) ret;
          ret = constant_time_select_8 (ucast (constant_time_lt_args_8 a 26)) (a + 65) ret
      in ret)"

definition base64_ascii_to_bin :: "u8 \<Rightarrow> u8" where
  "base64_ascii_to_bin a =
     (let is_upper = constant_time_in_range_8 a 65 90;
          is_lower = constant_time_in_range_8 a 97 122;
          is_digit = constant_time_in_range_8 a 48 57;
          is_plus = constant_time_eq_8 (ucast a) 43;
          is_slash = constant_time_eq_8 (ucast a) 47;
          is_equals = constant_time_eq_8 (ucast a) 61;
          ret = 0;
          ret = ret OR (is_upper AND (a - 65));
          ret = ret OR (is_lower AND (a - 97 + 26));
          ret = ret OR (is_digit AND (a - 48 + 52));
          ret = ret OR (is_plus AND 62);
          ret = ret OR (is_slash AND 63);
          is_valid = is_upper OR is_lower OR is_digit OR is_plus OR is_slash OR is_equals
      in ret OR NOT is_valid)"

section \<open>Encoding\<close>

record evp_encode_ctx_st =
  data_used :: u32
  ctx_data :: "u8 list"
  eof_seen :: bool
  error_encountered :: bool

definition EVP_EncodedLength :: "size_t \<Rightarrow> size_t option" where
  "EVP_EncodedLength len =
     (if len + 2 < len then None
      else let len = (len + 2) div 3 in
      if drop_bit 2 (push_bit 2 len) \<noteq> len then None
      else let len = push_bit 2 len in
      if len + 1 < len then None
      else Some (len + 1))"

definition EVP_EncodeInit :: "evp_encode_ctx_st" where
  "EVP_EncodeInit = \<lparr>data_used = 0, ctx_data = replicate 48 0, eof_seen = False, error_encountered = False\<rparr>"

definition EVP_ENCODE_CTX_new :: "(size_t \<Rightarrow> bool) \<Rightarrow> size_t \<Rightarrow> evp_encode_ctx_st option" where
  \<comment> \<open>\<open>sz\<close> is \<open>sizeof(EVP_ENCODE_CTX)\<close>\<close>
  "EVP_ENCODE_CTX_new A sz = (if A sz then Some EVP_EncodeInit else None)"

definition conv_at :: "u32 \<Rightarrow> nat \<Rightarrow> u8" where
  "conv_at l n = conv_bin2ascii (ucast (drop_bit n l))"

fun encode_loop :: "u8 list \<Rightarrow> u8 list" where
  "encode_loop [] = []"
| "encode_loop [s0] =
     (let l = push_bit 16 (ucast s0 :: u32) in [conv_at l 18, conv_at l 12, 61, 61])"
| "encode_loop [s0, s1] =
     (let l = push_bit 16 (ucast s0 :: u32) OR push_bit 8 (ucast s1) in
      [conv_at l 18, conv_at l 12, conv_at l 6, 61])"
| "encode_loop (s0 # s1 # s2 # src) =
     (let l = push_bit 16 (ucast s0 :: u32) OR push_bit 8 (ucast s1) OR ucast s2 in
      [conv_at l 18, conv_at l 12, conv_at l 6, conv_at l 0] @ encode_loop src)"

definition EVP_EncodeBlock :: "u8 list \<Rightarrow> size_t \<Rightarrow> u8 list \<times> size_t" where
  "EVP_EncodeBlock src src_len =
     (let dst = encode_loop (take (unat src_len) src) in (dst @ [0], of_nat (length dst)))"

text \<open>\<open>sizeof(ctx->data)\<close>\<close>

definition data_size :: size_t where
  "data_size = 48"

definition write_data :: "u8 list \<Rightarrow> u32 \<Rightarrow> u8 list \<Rightarrow> u8 list" where
  "write_data data pos bs = take (unat pos) data @ bs @ drop (unat pos + length bs) data"

text \<open>The bytes before the output pointer, and the total and the rest of the input unless the
  total overflowed.\<close>

function encode_update_loop :: "u8 list \<Rightarrow> size_t \<Rightarrow> u8 list \<Rightarrow> u8 list \<times> (size_t \<times> u8 list) option" where
  "encode_update_loop out total_out inp =
     (if length inp \<ge> unat data_size then
        case EVP_EncodeBlock inp data_size of (enc, encoded) \<Rightarrow>
        let out = out @ take (unat encoded) enc @ [10] in
        if total_out + encoded + 1 < total_out then (out, None)
        else encode_update_loop out (total_out + encoded + 1) (drop (unat data_size) inp)
      else (out, Some (total_out, inp)))"
  by pat_completeness auto
termination
  by (relation "measure (\<lambda>(_, _, inp). length inp)") (auto simp: data_size_def)

declare encode_update_loop.simps [simp del]

definition INT_MAX_size :: size_t where
  "INT_MAX_size = 2 ^ 31 - 1"

text \<open>The context, the bytes written, and \<open>*out_len\<close>.\<close>

definition EVP_EncodeUpdate :: "evp_encode_ctx_st \<Rightarrow> u8 list \<Rightarrow> size_t \<Rightarrow> evp_encode_ctx_st \<times> u8 list \<times> int" where
  "EVP_EncodeUpdate ctx inp in_len =
     (if in_len = 0 then (ctx, [], 0)
      else let inp = take (unat in_len) inp in
      if data_size - ucast (data_used ctx) > in_len then
        (ctx\<lparr>ctx_data := write_data (ctx_data ctx) (data_used ctx) inp,
             data_used := data_used ctx + ucast in_len\<rparr>, [], 0)
      else
        case (if data_used ctx \<noteq> 0 then
                let todo = data_size - ucast (data_used ctx);
                    ctx = ctx\<lparr>ctx_data := write_data (ctx_data ctx) (data_used ctx) (take (unat todo) inp)\<rparr>
                in case EVP_EncodeBlock (ctx_data ctx) data_size of (enc, encoded) \<Rightarrow>
                   (ctx\<lparr>data_used := 0\<rparr>, take (unat encoded) enc @ [10], encoded + 1, drop (unat todo) inp)
              else (ctx, [], 0, inp))
        of (ctx, out, total_out, inp) \<Rightarrow>
        case encode_update_loop out total_out inp of
          (out, None) \<Rightarrow> (ctx, out @ [0], 0)
        | (out, Some (total_out, inp)) \<Rightarrow>
            let ctx = (if inp \<noteq> [] then ctx\<lparr>ctx_data := write_data (ctx_data ctx) 0 inp\<rparr> else ctx);
                ctx = ctx\<lparr>data_used := of_nat (length inp)\<rparr>;
                total_out = (if total_out > INT_MAX_size then 0 else total_out)
            in (ctx, out @ [0], uint total_out))"

definition EVP_EncodeFinal :: "evp_encode_ctx_st \<Rightarrow> evp_encode_ctx_st \<times> u8 list \<times> int" where
  "EVP_EncodeFinal ctx =
     (if data_used ctx = 0 then (ctx, [], 0)
      else case EVP_EncodeBlock (ctx_data ctx) (ucast (data_used ctx)) of (enc, encoded) \<Rightarrow>
        (ctx\<lparr>data_used := 0\<rparr>, take (unat encoded) enc @ [10, 0], uint (encoded + 1)))"

section \<open>Decoding\<close>

definition EVP_DecodedLength :: "size_t \<Rightarrow> size_t option" where
  "EVP_DecodedLength len = (if len mod 4 \<noteq> 0 then None else Some (len div 4 * 3))"

definition EVP_DecodeInit :: "evp_encode_ctx_st" where
  "EVP_DecodeInit = \<lparr>data_used = 0, ctx_data = replicate 48 0, eof_seen = False, error_encountered = False\<rparr>"

definition base64_decode_quad :: "u8 \<times> u8 \<times> u8 \<times> u8 \<Rightarrow> u8 list option" where
  "base64_decode_quad inp = (case inp of (i0, i1, i2, i3) \<Rightarrow>
     let a = base64_ascii_to_bin i0; b = base64_ascii_to_bin i1;
         c = base64_ascii_to_bin i2; d = base64_ascii_to_bin i3 in
     if a = 0xff \<or> b = 0xff \<or> c = 0xff \<or> d = 0xff then None
     else let v = push_bit 18 (ucast a :: u32) OR push_bit 12 (ucast b) OR push_bit 6 (ucast c) OR ucast d;
              padding_pattern = push_bit 3 (of_bool (i0 = 61) :: u32) OR push_bit 2 (of_bool (i1 = 61)) OR
                push_bit 1 (of_bool (i2 = 61)) OR of_bool (i3 = 61)
     in if padding_pattern = 0 then Some [ucast (drop_bit 16 v), ucast (drop_bit 8 v), ucast v]
        else if padding_pattern = 1 then Some [ucast (drop_bit 16 v), ucast (drop_bit 8 v)]
        else if padding_pattern = 3 then Some [ucast (drop_bit 16 v)]
        else None)"

text \<open>Whether the loop ran to its end, the context, and the bytes written.\<close>

fun decode_update_loop :: "u8 list \<Rightarrow> evp_encode_ctx_st \<Rightarrow> u8 list \<Rightarrow> bool \<times> evp_encode_ctx_st \<times> u8 list" where
  "decode_update_loop [] ctx out = (True, ctx, out)"
| "decode_update_loop (c # inp) ctx out =
     (if c = 32 \<or> c = 9 \<or> c = 13 \<or> c = 10 then decode_update_loop inp ctx out
      else if eof_seen ctx then (False, ctx\<lparr>error_encountered := True\<rparr>, out)
      else let ctx = ctx\<lparr>ctx_data := (ctx_data ctx)[unat (data_used ctx) := c], data_used := data_used ctx + 1\<rparr> in
      if data_used ctx = 4 then
        case base64_decode_quad (ctx_data ctx ! 0, ctx_data ctx ! 1, ctx_data ctx ! 2, ctx_data ctx ! 3) of
          None \<Rightarrow> (False, ctx\<lparr>error_encountered := True\<rparr>, out)
        | Some bs \<Rightarrow>
            let ctx = ctx\<lparr>data_used := 0\<rparr>;
                ctx = (if length bs < 3 then ctx\<lparr>eof_seen := True\<rparr> else ctx)
            in decode_update_loop inp ctx (out @ bs)
      else decode_update_loop inp ctx out)"

text \<open>The result, the context, the bytes written, and \<open>*out_len\<close>.\<close>

definition EVP_DecodeUpdate :: "evp_encode_ctx_st \<Rightarrow> u8 list \<Rightarrow> size_t \<Rightarrow> int \<times> evp_encode_ctx_st \<times> u8 list \<times> int" where
  "EVP_DecodeUpdate ctx inp in_len =
     (if error_encountered ctx then (- 1, ctx, [], 0)
      else case decode_update_loop (take (unat in_len) inp) ctx [] of
        (False, ctx, out) \<Rightarrow> (- 1, ctx, out, 0)
      | (True, ctx, out) \<Rightarrow>
          let bytes_out = (of_nat (length out) :: size_t) in
          if bytes_out > INT_MAX_size then (- 1, ctx\<lparr>error_encountered := True\<rparr>, out, 0)
          else (if eof_seen ctx then 0 else 1, ctx, out, uint bytes_out))"

definition EVP_DecodeFinal :: "evp_encode_ctx_st \<Rightarrow> int \<times> int" where
  "EVP_DecodeFinal ctx = (if error_encountered ctx \<or> data_used ctx \<noteq> 0 then - 1 else 1, 0)"

text \<open>The status and the bytes written; \<open>*out_len\<close> is their number on success and 0 otherwise.\<close>

fun decode_base64_loop :: "u8 list \<Rightarrow> u8 list \<Rightarrow> bool \<times> u8 list" where
  "decode_base64_loop (i0 # i1 # i2 # i3 # inp) out =
     (case base64_decode_quad (i0, i1, i2, i3) of
        None \<Rightarrow> (False, out)
      | Some bs \<Rightarrow>
          if length bs \<noteq> 3 \<and> inp \<noteq> [] then (False, out @ bs)
          else decode_base64_loop inp (out @ bs))"
| "decode_base64_loop _ out = (True, out)"

definition EVP_DecodeBase64 :: "size_t \<Rightarrow> u8 list \<Rightarrow> size_t \<Rightarrow> bool \<times> u8 list" where
  "EVP_DecodeBase64 max_out inp in_len =
     (if in_len mod 4 \<noteq> 0 then (False, [])
      else case EVP_DecodedLength in_len of None \<Rightarrow> (False, [])
      | Some max_len \<Rightarrow>
          if max_out < max_len then (False, [])
          else decode_base64_loop (take (unat in_len) inp) [])"

definition trim_block :: "u8 list \<Rightarrow> u8 list" where
  "trim_block src =
     (let src = dropWhile (\<lambda>c. c = 32 \<or> c = 9) src in
      rev (dropWhile (\<lambda>c. c = 32 \<or> c = 9 \<or> c = 13 \<or> c = 10) (rev src)))"

text \<open>The result and the bytes written.\<close>

definition EVP_DecodeBlock :: "u8 list \<Rightarrow> size_t \<Rightarrow> int \<times> u8 list" where
  "EVP_DecodeBlock src src_len =
     (let src = trim_block (take (unat src_len) src); src_len = (of_nat (length src) :: size_t) in
      case EVP_DecodedLength src_len of None \<Rightarrow> (- 1, [])
      | Some dst_len \<Rightarrow>
          if dst_len > INT_MAX_size then (- 1, [])
          else case EVP_DecodeBase64 dst_len src src_len of
            (False, dst) \<Rightarrow> (- 1, dst)
          | (True, dst) \<Rightarrow>
              let dst = dst @ replicate (if length dst mod 3 = 0 then 0 else 3 - length dst mod 3) 0
              in (int (length dst), dst))"


section \<open>The alphabet\<close>

lemma unat_ucast_64: "unat (ucast (a :: u8) :: u64) = unat a"
  by (rule unat_ucast_up) simp

lemma lt_args_8_eq: "constant_time_lt_args_8 a b = (if a < b then - 1 else 0)"
proof -
  have "unat (ucast a :: u64) < 256" "unat (ucast b :: u64) < 256"
    using unat_u8_less [of a] unat_u8_less [of b] by (simp_all add: unat_ucast_64)
  then have "bit (ucast a - ucast b :: u64) 63 \<longleftrightarrow> a < b"
    unfolding bit_sub word_less_nat_alt unat_ucast_64 by auto
  moreover have "ucast (- 1 :: u64) = (- 1 :: u8)" by code_simp
  ultimately show ?thesis by (simp add: constant_time_lt_args_8_def Let_def msb_w_eq)
qed

lemma in_range_8_eq:
  assumes "lo \<le> hi" "unat hi - unat lo < 255"
  shows "constant_time_in_range_8 a lo hi = (if lo \<le> a \<and> a \<le> hi then - 1 else 0)"
proof -
  have "unat (hi - lo) = unat hi - unat lo" using assms(1) by (simp add: unat_sub word_le_nat_alt)
  then have m: "unat (hi - lo + 1) = unat hi - unat lo + 1" using assms(2) by (simp add: unat_word_ariths)
  have "a - lo < hi - lo + 1 \<longleftrightarrow> lo \<le> a \<and> a \<le> hi"
    unfolding word_less_nat_alt word_le_nat_alt m
    using assms(1) unat_u8_less [of a] unat_u8_less [of hi] unat_u8_less [of lo]
    by (auto simp: unat_sub_if' word_le_nat_alt split: if_splits)
  then show ?thesis by (simp add: constant_time_in_range_8_def lt_args_8_eq)
qed

lemma eq_8_ucast: "constant_time_eq_8 (ucast (a :: u8)) (numeral n) = (if unat a = unat (numeral n :: u64) then - 1 else 0)"
proof -
  have "ucast a = (numeral n :: u64) \<longleftrightarrow> unat a = unat (numeral n :: u64)"
    by (simp only: word_unat_eq_iff unat_ucast_64)
  moreover have "CONSTTIME_TRUE_8 = - 1" by code_simp
  ultimately show ?thesis by (simp add: eq_8_eq CONSTTIME_FALSE_8_def)
qed

text \<open>The alphabet of RFC 4648 and its inverse; \<open>=\<close> counts as 0.\<close>

definition b64_char :: "u8 \<Rightarrow> u8" where
  "b64_char n = (if n < 26 then n + 65 else if n < 52 then n - 26 + 97 else if n < 62 then n - 52 + 48
     else if n = 62 then 43 else 47)"

definition b64_val :: "u8 \<Rightarrow> u8" where
  "b64_val a = (if 65 \<le> a \<and> a \<le> 90 then a - 65 else if 97 \<le> a \<and> a \<le> 122 then a - 97 + 26
     else if 48 \<le> a \<and> a \<le> 57 then a - 48 + 52 else if a = 43 then 62 else if a = 47 then 63
     else if a = 61 then 0 else 0xff)"

lemma select_8_mask: "constant_time_select_8 (ucast (if P then - 1 else 0 :: u8)) a b = (if P then a else b)"
proof -
  have "- 1 = CONSTTIME_TRUE_8" "0 = CONSTTIME_FALSE_8" by code_simp+
  then show ?thesis by (simp only: select_8_if_8)
qed

lemma conv_bin2ascii_eq: "conv_bin2ascii a = b64_char (a AND 63)"
proof -
  have "unat b = 62 \<longleftrightarrow> b = 62" for b :: u8 by (simp add: word_unat_eq_iff)
  then show ?thesis
    unfolding conv_bin2ascii_def Let_def lt_args_8_eq eq_8_ucast select_8_mask b64_char_def by simp
qed

lemma base64_ascii_to_bin_eq: "base64_ascii_to_bin a = b64_val a"
proof -
  have n: "unat a = 43 \<longleftrightarrow> a = 43" "unat a = 47 \<longleftrightarrow> a = 47" "unat a = 61 \<longleftrightarrow> a = 61" by (simp_all add: word_unat_eq_iff)
  define U where "U \<longleftrightarrow> 65 \<le> a \<and> a \<le> 90"
  define L where "L \<longleftrightarrow> 97 \<le> a \<and> a \<le> 122"
  define D where "D \<longleftrightarrow> 48 \<le> a \<and> a \<le> 57"
  have r: "constant_time_in_range_8 a 65 90 = (if U then - 1 else 0)"
    "constant_time_in_range_8 a 97 122 = (if L then - 1 else 0)"
    "constant_time_in_range_8 a 48 57 = (if D then - 1 else 0)"
    unfolding U_def L_def D_def by (rule in_range_8_eq; simp)+
  have v: "b64_val a = (if U then a - 65 else if L then a - 97 + 26 else if D then a - 48 + 52
      else if a = 43 then 62 else if a = 47 then 63 else if a = 61 then 0 else 0xff)"
    unfolding b64_val_def U_def L_def D_def ..
  have "U \<Longrightarrow> \<not> L \<and> \<not> D" "L \<Longrightarrow> \<not> D" "U \<or> L \<or> D \<Longrightarrow> a \<noteq> 43 \<and> a \<noteq> 47 \<and> a \<noteq> 61"
    unfolding U_def L_def D_def by (auto simp: word_le_nat_alt)
  then show ?thesis
    unfolding v base64_ascii_to_bin_def Let_def r eq_8_ucast
    by (cases U; cases L; cases D) (auto simp: n)
qed

lemma b64_roundtrip: "b64_val (b64_char (a AND 63)) = a AND 63" and b64_char_range: "b64_char (a AND 63) \<notin> {9, 10, 13, 32, 61}"
proof -
  have "list_all (\<lambda>n. b64_val (b64_char n) = n \<and> b64_char n \<noteq> 9 \<and> b64_char n \<noteq> 10 \<and> b64_char n \<noteq> 13 \<and>
      b64_char n \<noteq> 32 \<and> b64_char n \<noteq> 61) (map of_nat [0..<64])"
    by code_simp
  moreover have "a AND 63 \<in> set (map of_nat [0..<64])"
  proof -
    have "a AND 63 = take_bit 6 a" by (simp add: take_bit_eq_mask mask_eq_exp_minus_1)
    then have "unat (a AND 63) < 64" using take_bit_nat_less_exp [of 6 "unat a"] by (simp add: unsigned_take_bit_eq)
    then show ?thesis by (auto intro!: image_eqI [of _ _ "unat (a AND 63)"])
  qed
  ultimately show "b64_val (b64_char (a AND 63)) = a AND 63" "b64_char (a AND 63) \<notin> {9, 10, 13, 32, 61}"
    unfolding list_all_iff by blast+
qed

lemma bin_conv_at: "base64_ascii_to_bin (conv_at l n) = ucast (drop_bit n l) AND 63"
  by (simp add: conv_at_def conv_bin2ascii_eq base64_ascii_to_bin_eq b64_roundtrip)

lemma conv_at_range: "conv_at l n \<notin> {9, 10, 13, 32, 61}"
  unfolding conv_at_def conv_bin2ascii_eq by (rule b64_char_range)

lemma bin_equals: "base64_ascii_to_bin 61 = 0"
  by (simp add: base64_ascii_to_bin_eq b64_val_def word_le_nat_alt)

lemma and_63_valid: "(a :: u8) AND 63 \<noteq> 0xff"
proof
  assume "a AND 63 = 0xff"
  then have "bit (a AND 63) 7 = bit (0xff :: u8) 7" by simp
  moreover have "bit (0xff :: u8) 7" "\<not> bit (63 :: u8) 7" by code_simp+
  ultimately show False by (simp add: bit_and_iff)
qed

section \<open>Quads\<close>

lemma bit_63: "bit (63 :: u8) k \<longleftrightarrow> k < 6"
proof -
  have "(63 :: u8) = mask 6" by (simp add: mask_eq_exp_minus_1)
  then show ?thesis by (simp only: bit_mask_iff) auto
qed

lemma bit_sextet: "bit (ucast (ucast (drop_bit n l) AND 63 :: u8) :: u32) k \<longleftrightarrow> k < 6 \<and> bit (l :: u32) (n + k)"
  by (simp only: bit_ucast_iff bit_and_iff bit_63 bit_drop_bit_eq) auto

text \<open>The four sextets of a 24-bit value, put together again.\<close>

lemma join_sextets:
  fixes l :: u32
  assumes "\<And>k. bit l k \<Longrightarrow> k < 24"
  shows "push_bit 18 (ucast (ucast (drop_bit 18 l) AND 63 :: u8) :: u32) OR
    push_bit 12 (ucast (ucast (drop_bit 12 l) AND 63 :: u8)) OR
    push_bit 6 (ucast (ucast (drop_bit 6 l) AND 63 :: u8)) OR ucast (ucast (drop_bit 0 l) AND 63 :: u8) = l"
    (is "?v = l")
proof (rule bit_word_eqI)
  fix k assume k: "k < LENGTH(32)"
  have "bit ?v k \<longleftrightarrow> (18 \<le> k \<and> k - 18 < 6 \<and> bit l (18 + (k - 18))) \<or> (12 \<le> k \<and> k - 12 < 6 \<and> bit l (12 + (k - 12))) \<or>
      (6 \<le> k \<and> k - 6 < 6 \<and> bit l (6 + (k - 6))) \<or> (k < 6 \<and> bit l (0 + k))"
    unfolding bit_or_iff bit_push_bit_iff bit_sextet using k by auto
  also have "\<dots> \<longleftrightarrow> bit l k" using assms [of k] by (cases "k < 6"; cases "k < 12"; cases "k < 18") auto
  finally show "bit ?v k \<longleftrightarrow> bit l k" .
qed


definition join_bytes :: "u8 \<Rightarrow> u8 \<Rightarrow> u8 \<Rightarrow> u32" where
  "join_bytes s0 s1 s2 = push_bit 16 (ucast s0) OR push_bit 8 (ucast s1) OR ucast s2"

lemma bit_join_bytes: "bit (join_bytes s0 s1 s2) k \<longleftrightarrow>
    (16 \<le> k \<and> k < 24 \<and> bit s0 (k - 16)) \<or> (8 \<le> k \<and> k < 16 \<and> bit s1 (k - 8)) \<or> (k < 8 \<and> bit s2 k)"
proof -
  have "bit s i \<Longrightarrow> i < 8" for s :: u8 and i using bit_imp_le_length [of s i] by simp
  then show ?thesis
    unfolding join_bytes_def bit_or_iff bit_push_bit_iff bit_ucast_iff by fastforce
qed

lemma bytes_of_join:
  "ucast (drop_bit 16 (join_bytes s0 s1 s2)) = s0" "ucast (drop_bit 8 (join_bytes s0 s1 s2)) = s1"
  "ucast (join_bytes s0 s1 s2) = s2"
  by (rule bit_word_eqI, simp add: bit_ucast_iff bit_drop_bit_eq bit_join_bytes; fail)+

lemma join_sextets_bytes:
  "push_bit 18 (ucast (ucast (drop_bit 18 (join_bytes s0 s1 s2)) AND 63 :: u8) :: u32) OR
    push_bit 12 (ucast (ucast (drop_bit 12 (join_bytes s0 s1 s2)) AND 63 :: u8)) OR
    push_bit 6 (ucast (ucast (drop_bit 6 (join_bytes s0 s1 s2)) AND 63 :: u8)) OR
    ucast (ucast (drop_bit 0 (join_bytes s0 s1 s2)) AND 63 :: u8) = join_bytes s0 s1 s2"
  by (rule join_sextets) (auto simp: bit_join_bytes)

text \<open>A sextet that holds no data is 0, which is how padding decodes.\<close>

lemma empty_sextet:
  "ucast (drop_bit 0 (join_bytes s0 s1 0)) AND 63 = (0 :: u8)"
  "ucast (drop_bit 6 (join_bytes s0 0 0)) AND 63 = (0 :: u8)"
proof -
  show "ucast (drop_bit 0 (join_bytes s0 s1 0)) AND 63 = (0 :: u8)"
    by (rule bit_word_eqI) (simp only: bit_and_iff bit_63 bit_ucast_iff bit_drop_bit_eq bit_join_bytes bit_0_eq, auto simp: bit_join_bytes)
  show "ucast (drop_bit 6 (join_bytes s0 0 0)) AND 63 = (0 :: u8)"
    by (rule bit_word_eqI) (simp only: bit_and_iff bit_63 bit_ucast_iff bit_drop_bit_eq bit_join_bytes bit_0_eq, auto simp: bit_join_bytes)
qed

lemma conv_at_not_equals [simp]: "conv_at l n \<noteq> 61"
  using conv_at_range [of l n] by simp

lemma decode_quad_3:
  "base64_decode_quad (conv_at (join_bytes s0 s1 s2) 18, conv_at (join_bytes s0 s1 s2) 12,
     conv_at (join_bytes s0 s1 s2) 6, conv_at (join_bytes s0 s1 s2) 0) = Some [s0, s1, s2]"
  unfolding base64_decode_quad_def prod.case Let_def bin_conv_at join_sextets_bytes
  by (simp add: and_63_valid bytes_of_join)

lemma decode_quad_2:
  "base64_decode_quad (conv_at (join_bytes s0 s1 0) 18, conv_at (join_bytes s0 s1 0) 12,
     conv_at (join_bytes s0 s1 0) 6, 61) = Some [s0, s1]"
  using join_sextets_bytes [of s0 s1 0]
  unfolding base64_decode_quad_def prod.case Let_def bin_conv_at bin_equals empty_sextet
  by (simp add: and_63_valid bytes_of_join)

lemma decode_quad_1:
  "base64_decode_quad (conv_at (join_bytes s0 0 0) 18, conv_at (join_bytes s0 0 0) 12, 61, 61) = Some [s0]"
proof -
  have "(push_bit 1 1 OR 1 :: u32) = 3" by code_simp
  then show ?thesis
    using join_sextets_bytes [of s0 0 0]
    unfolding base64_decode_quad_def prod.case Let_def bin_conv_at bin_equals empty_sextet
    by (simp add: and_63_valid bytes_of_join)
qed

lemma encode_loop_join:
  "encode_loop [s0] = [conv_at (join_bytes s0 0 0) 18, conv_at (join_bytes s0 0 0) 12, 61, 61]"
  "encode_loop [s0, s1] = [conv_at (join_bytes s0 s1 0) 18, conv_at (join_bytes s0 s1 0) 12, conv_at (join_bytes s0 s1 0) 6, 61]"
  "encode_loop (s0 # s1 # s2 # src) = [conv_at (join_bytes s0 s1 s2) 18, conv_at (join_bytes s0 s1 s2) 12,
     conv_at (join_bytes s0 s1 s2) 6, conv_at (join_bytes s0 s1 s2) 0] @ encode_loop src"
  by (simp_all add: join_bytes_def Let_def)

lemma length_encode_loop: "length (encode_loop src) = 4 * ((length src + 2) div 3)"
proof (induction src rule: encode_loop.induct)
  case (4 s0 s1 s2 src)
  have "(length (s0 # s1 # s2 # src) + 2) div 3 = Suc ((length src + 2) div 3)" by simp
  with 4 show ?case by (simp add: Let_def)
qed (simp_all add: Let_def)

lemma decode_encode_loop: "decode_base64_loop (encode_loop src) out = (True, out @ src)"
proof (induction src arbitrary: out rule: encode_loop.induct)
  case (2 s0)
  show ?case unfolding encode_loop_join by (simp add: decode_quad_1)
next
  case (3 s0 s1)
  show ?case unfolding encode_loop_join by (simp add: decode_quad_2)
next
  case (4 s0 s1 s2 src)
  then show ?case unfolding encode_loop_join by (simp add: decode_quad_3)
qed simp


section \<open>Whole blocks\<close>

lemma unat_size_div: "unat (len div 3 :: size_t) = unat len div 3" by (simp add: unat_div)

text \<open>The length the code computes, in unbounded arithmetic.\<close>

lemma EncodedLength_eq:
  "EVP_EncodedLength len = (if 4 * ((unat len + 2) div 3) + 1 < 2 ^ 64 then Some (of_nat (4 * ((unat len + 2) div 3) + 1)) else None)"
proof (cases "unat len + 2 < 2 ^ 64")
  case False
  then have "unat (len + 2) < unat len" using unsigned_less [of len] by (simp add: unat_plus_if' not_less)
  then have "EVP_EncodedLength len = None" by (simp add: EVP_EncodedLength_def word_less_nat_alt)
  moreover have "\<not> 4 * ((unat len + 2) div 3) + 1 < 2 ^ 64" using False by simp
  ultimately show ?thesis by simp
next
  case True
  let ?q = "(unat len + 2) div 3"
  have l: "unat (len + 2) = unat len + 2" using True by (simp add: unat_plus_if')
  then have ge: "\<not> len + 2 < len" by (simp add: word_less_nat_alt)
  have q: "unat ((len + 2) div 3) = ?q" by (simp add: unat_div l)
  have sh: "unat (push_bit 2 ((len + 2) div 3)) = 4 * ?q mod 2 ^ 64"
  proof -
    have "push_bit 2 ((len + 2) div 3) = (len + 2) div 3 * 4" by (simp add: push_bit_eq_mult)
    then show ?thesis by (simp only: unat_word_ariths(2) q) (simp add: mult.commute)
  qed
  have bk: "drop_bit 2 (push_bit 2 ((len + 2) div 3)) = (len + 2) div 3 \<longleftrightarrow> 4 * ?q < 2 ^ 64"
  proof -
    have "unat (drop_bit 2 (push_bit 2 ((len + 2) div 3))) = (4 * ?q mod 2 ^ 64) div 4"
      by (simp add: unat_drop_bit sh)
    moreover have "(4 * ?q mod 2 ^ 64) div 4 = ?q \<longleftrightarrow> 4 * ?q < 2 ^ 64"
    proof
      assume "(4 * ?q mod 2 ^ 64) div 4 = ?q"
      moreover have "(4 * ?q mod 2 ^ 64) div 4 < 2 ^ 62" by (simp add: div_less_iff_less_mult)
      ultimately show "4 * ?q < 2 ^ 64" by simp
    qed simp
    ultimately show ?thesis by (simp only: word_unat_eq_iff q)
  qed
  show ?thesis
  proof (cases "4 * ?q < 2 ^ 64")
    case False
    then show ?thesis using ge bk by (simp add: EVP_EncodedLength_def Let_def)
  next
    case True
    let ?w = "push_bit 2 ((len + 2) div 3)"
    have w: "unat ?w = 4 * ?q" using sh True by simp
    have lt: "4 * ?q + 1 < 2 ^ 64"
    proof (rule ccontr)
      assume "\<not> ?thesis"
      with True have "4 * ?q = 2 ^ 64 - 1" by simp
      then have "(4 * ?q) mod 4 = (2 ^ 64 - 1 :: nat) mod 4" by (simp only:)
      then show False by simp
    qed
    then have w1: "unat (?w + 1) = 4 * ?q + 1" using w by (simp add: unat_plus_if')
    then have "?w + 1 = of_nat (4 * ?q + 1)" by (metis of_nat_unat)
    moreover have "\<not> ?w + 1 < ?w" using w w1 by (simp add: word_less_nat_alt)
    ultimately show ?thesis using ge bk True lt by (simp add: EVP_EncodedLength_def Let_def)
  qed
qed


lemma EncodeBlock_eq:
  assumes "length src = unat len"
  shows "EVP_EncodeBlock src len = (encode_loop src @ [0], of_nat (length (encode_loop src)))"
  using assms by (simp add: EVP_EncodeBlock_def Let_def)

lemma encode_loop_chars: "c \<in> set (encode_loop src) \<Longrightarrow> c \<notin> {9, 10, 13, 32}"
proof (induction src rule: encode_loop.induct)
  case (4 s0 s1 s2 src)
  then show ?case using conv_at_range unfolding encode_loop_join by (auto; metis insertCI)
qed (use conv_at_range in \<open>(auto simp: Let_def; metis insertCI)+\<close>)

lemma trim_encode_loop: "trim_block (encode_loop src) = encode_loop src"
proof -
  have h: "dropWhile P xs = xs" if "\<And>x. x \<in> set xs \<Longrightarrow> \<not> P x" for P and xs :: "u8 list"
    using that by (cases xs) auto
  have c: "c \<noteq> 9 \<and> c \<noteq> 10 \<and> c \<noteq> 13 \<and> c \<noteq> 32" if "c \<in> set (encode_loop src)" for c
    using encode_loop_chars [OF that] by simp
  have "dropWhile (\<lambda>c. c = 32 \<or> c = 9) (encode_loop src) = encode_loop src"
    by (rule h) (use c in blast)
  moreover have "dropWhile (\<lambda>c. c = 32 \<or> c = 9 \<or> c = 13 \<or> c = 10) (rev (encode_loop src)) = rev (encode_loop src)"
    by (rule h) (use c in auto)
  ultimately show ?thesis by (simp add: trim_block_def)
qed

lemma pad_length: "(n :: nat) + (3 - n mod 3) mod 3 = 3 * ((n + 2) div 3)"
proof -
  obtain q r where n: "n = 3 * q + r" "r < 3"
    using mod_less_divisor [of 3 n] mult_div_mod_eq [of 3 n] by (metis zero_less_numeral)
  from n(2) consider "r = 0" | "r = 1" | "r = 2" by linarith
  moreover have m: "n mod 3 = r" using n by simp
  ultimately show ?thesis unfolding m by cases (simp_all add: n(1))
qed

lemma unat_of_nat_64: "n < 2 ^ 64 \<Longrightarrow> unat (of_nat n :: 64 word) = n"
  by (simp add: unat_of_nat)

lemma DecodedLength_4: "4 * k < 2 ^ 64 \<Longrightarrow> EVP_DecodedLength (of_nat (4 * k)) = Some (of_nat (3 * k))"
proof -
  assume k: "4 * k < 2 ^ 64"
  then have u: "unat (of_nat (4 * k) :: size_t) = 4 * k" by (rule unat_of_nat_64)
  have "unat (of_nat (4 * k) mod 4 :: size_t) = 0" by (simp only: unat_mod u) simp
  then have m: "of_nat (4 * k) mod 4 = (0 :: size_t)" by (simp only: unat_eq_0)
  have d: "unat (of_nat (4 * k) div 4 :: size_t) = k" by (simp only: unat_div u) simp
  then have "of_nat (4 * k) div 4 = (of_nat k :: size_t)" by (metis of_nat_unat)
  with m show ?thesis unfolding EVP_DecodedLength_def by (simp add: mult.commute)
qed

lemma decode_base64_eq:
  assumes "length inp = 4 * k" "4 * k < 2 ^ 64" "3 * k \<le> unat max_out"
  shows "EVP_DecodeBase64 max_out inp (of_nat (4 * k)) = decode_base64_loop inp []"
proof -
  have u: "unat (of_nat (4 * k) :: size_t) = 4 * k" "unat (of_nat (3 * k) :: size_t) = 3 * k"
    using assms(2) by (auto intro: unat_of_nat_64 simp del: of_nat_mult)
  have "unat (of_nat (4 * k) mod 4 :: size_t) = 0" by (simp only: unat_mod u) simp
  then have m: "of_nat (4 * k) mod 4 = (0 :: size_t)" by (simp only: unat_eq_0)
  have "\<not> max_out < of_nat (3 * k)" using assms(3) by (simp only: word_less_nat_alt u not_less)
  then show ?thesis
    unfolding EVP_DecodeBase64_def DecodedLength_4 [OF assms(2)] u using m assms(1)
    by (simp del: of_nat_mult)
qed

text \<open>
  C26: base64 round trip. What \<open>EVP_EncodeBlock\<close> writes for any input, \<open>EVP_DecodeBase64\<close>
  decodes to exactly that input, given room for three bytes a quad, and \<open>EVP_DecodeBlock\<close> to
  that input padded with NULs to a multiple of three bytes, which is also its result.
\<close>

theorem base64_roundtrip:
  assumes "length src = unat len" "4 * ((length src + 2) div 3) < 2 ^ 64"
  shows "case EVP_EncodeBlock src len of (enc, n) \<Rightarrow>
    unat n = 4 * ((length src + 2) div 3) \<and>
    (\<forall>max_out. 3 * ((length src + 2) div 3) \<le> unat max_out \<longrightarrow> EVP_DecodeBase64 max_out enc n = (True, src)) \<and>
    (3 * ((length src + 2) div 3) < 2 ^ 31 \<longrightarrow>
       EVP_DecodeBlock enc n = (int (3 * ((length src + 2) div 3)), src @ replicate ((3 - length src mod 3) mod 3) 0))"
proof -
  let ?k = "(length src + 2) div 3" and ?enc = "encode_loop src"
  have l: "length ?enc = 4 * ?k" by (rule length_encode_loop)
  have u: "unat (of_nat (4 * ?k) :: size_t) = 4 * ?k" using assms(2) by (rule unat_of_nat_64)
  have dec: "decode_base64_loop ?enc [] = (True, src)" using decode_encode_loop [of src "[]"] by simp
  have d64: "EVP_DecodeBase64 max_out ?enc (of_nat (4 * ?k)) = (True, src)" if "3 * ?k \<le> unat max_out" for max_out
    using decode_base64_eq [OF l assms(2) that] dec by simp
  have pre: "EVP_DecodeBase64 max_out (?enc @ [0]) (of_nat (4 * ?k)) = EVP_DecodeBase64 max_out ?enc (of_nat (4 * ?k))" for max_out
  proof -
    have "take (4 * ?k) (?enc @ [0]) = take (4 * ?k) ?enc" by (simp only: l [symmetric]) simp
    then show ?thesis unfolding EVP_DecodeBase64_def u by (simp only:)
  qed
  have blk: "EVP_DecodeBlock (?enc @ [0]) (of_nat (4 * ?k)) =
      (int (3 * ?k), src @ replicate ((3 - length src mod 3) mod 3) 0)" if "3 * ?k < 2 ^ 31"
  proof -
    have t: "trim_block (take (unat (of_nat (4 * ?k) :: size_t)) (?enc @ [0])) = ?enc"
      unfolding u using l trim_encode_loop by simp
    have u3: "unat (of_nat (3 * ?k) :: size_t) = 3 * ?k" by (rule unat_of_nat_64) (use that in simp)
    have i: "\<not> of_nat (3 * ?k) > INT_MAX_size"
      using that by (simp only: INT_MAX_size_def word_less_nat_alt u3) simp
    have r: "EVP_DecodeBase64 (of_nat (3 * ?k)) ?enc (of_nat (4 * ?k)) = (True, src)"
      by (rule d64) (simp only: u3)
    have p: "(if length src mod 3 = 0 then 0 else 3 - length src mod 3) = (3 - length src mod 3) mod 3"
      by (auto simp: mod_less)
    have "length src + (3 - length src mod 3) mod 3 = 3 * ?k"
      by (rule pad_length)
    then show ?thesis
      unfolding EVP_DecodeBlock_def t Let_def l DecodedLength_4 [OF assms(2)] option.case
      using i by (simp only: if_False r prod.case bool.case p length_append length_replicate)
  qed
  show ?thesis
    unfolding EncodeBlock_eq [OF assms(1)] l prod.case
    using u d64 pre blk by simp
qed


theorem base64_roundtrip_witness:
  "EVP_DecodeBase64 3 (fst (EVP_EncodeBlock [1, 2] 2)) (snd (EVP_EncodeBlock [1, 2] 2)) = (True, [1, 2])"
proof -
  have "length [1, 2 :: u8] = unat (2 :: size_t)" "4 * ((length [1, 2 :: u8] + 2) div 3) < 2 ^ 64" by simp_all
  from base64_roundtrip [OF this] show ?thesis by (auto split: prod.splits)
qed

section \<open>Streaming\<close>

text \<open>The lines a stream of bytes is broken into, and what is left over.\<close>

function full_lines :: "u8 list \<Rightarrow> u8 list" where
  "full_lines xs = (if length xs \<ge> 48 then encode_loop (take 48 xs) @ [10] @ full_lines (drop 48 xs) else [])"
  by pat_completeness auto
termination by (relation "measure length") auto

declare full_lines.simps [simp del]

function pending :: "u8 list \<Rightarrow> u8 list" where
  "pending xs = (if length xs \<ge> 48 then pending (drop 48 xs) else xs)"
  by pat_completeness auto
termination by (relation "measure length") auto

declare pending.simps [simp del]

definition wrapped :: "u8 list \<Rightarrow> u8 list" where
  "wrapped xs = full_lines xs @ (if pending xs = [] then [] else encode_loop (pending xs) @ [10])"

lemma full_lines_short: "length xs < 48 \<Longrightarrow> full_lines xs = []"
  by (simp add: full_lines.simps [of xs])

lemma pending_short: "length xs < 48 \<Longrightarrow> pending xs = xs"
  by (simp add: pending.simps [of xs])

lemma length_pending: "length (pending xs) < 48"
  by (induction xs rule: pending.induct) (subst pending.simps, auto)

lemma lines_append:
  "full_lines (xs @ ys) = full_lines xs @ full_lines (pending xs @ ys) \<and> pending (xs @ ys) = pending (pending xs @ ys)"
proof (induction xs rule: pending.induct)
  case (1 xs)
  show ?case
  proof (cases "length xs \<ge> 48")
    case True
    then have "full_lines (xs @ ys) = encode_loop (take 48 xs) @ [10] @ full_lines (drop 48 xs @ ys)"
      "pending (xs @ ys) = pending (drop 48 xs @ ys)"
      "full_lines xs = encode_loop (take 48 xs) @ [10] @ full_lines (drop 48 xs)" "pending xs = pending (drop 48 xs)"
      by (simp_all add: full_lines.simps [of "xs @ ys"] pending.simps [of "xs @ ys"] full_lines.simps [of xs] pending.simps [of xs])
    with 1 [OF True] show ?thesis by simp
  next
    case False
    then show ?thesis by (simp add: full_lines_short pending_short)
  qed
qed

lemma length_line: "length xs = 48 \<Longrightarrow> length (encode_loop xs) = 64"
  by (simp add: length_encode_loop)

lemma length_full_lines: "length (full_lines xs) \<le> 2 * length xs"
proof (induction xs rule: full_lines.induct)
  case (1 xs)
  then show ?case
    by (cases "length xs \<ge> 48") (simp_all add: full_lines.simps [of xs] length_line)
qed

lemma length_le_lines: "length xs < length (full_lines xs) + 48"
proof (induction xs rule: full_lines.induct)
  case (1 xs)
  then show ?case
    by (cases "length xs \<ge> 48") (simp_all add: full_lines.simps [of xs] length_line)
qed

text \<open>The context represents the bytes not yet encoded.\<close>

definition ctx_holds :: "evp_encode_ctx_st \<Rightarrow> u8 list \<Rightarrow> bool" where
  "ctx_holds ctx p \<longleftrightarrow> length p < 48 \<and> data_used ctx = of_nat (length p) \<and> length (ctx_data ctx) = 48 \<and>
     take (length p) (ctx_data ctx) = p"

lemma EncodeBlock_line:
  assumes "48 \<le> length xs"
  shows "EVP_EncodeBlock xs data_size = (encode_loop (take 48 xs) @ [0], 64)"
  using assms by (simp add: EVP_EncodeBlock_def Let_def data_size_def length_encode_loop)

lemma encode_update_loop_eq:
  assumes "unat tot + 2 * length inp < 2 ^ 64"
  shows "encode_update_loop out tot inp =
    (out @ full_lines inp, Some (tot + of_nat (length (full_lines inp)), pending inp))"
  using assms
proof (induction out tot inp rule: encode_update_loop.induct)
  case (1 out tot inp)
  show ?case
  proof (cases "length inp \<ge> 48")
    case False
    then show ?thesis
      by (subst encode_update_loop.simps) (simp add: data_size_def full_lines_short pending_short)
  next
    case True
    have t: "take (unat (64 :: size_t)) (encode_loop (take 48 inp) @ [0]) = encode_loop (take 48 inp)"
      using True by (simp add: length_line)
    have lt: "unat tot + 65 < 2 ^ 64" "unat (tot + 64 + 1) + 2 * length (drop 48 inp) < 2 ^ 64" "\<not> tot + 64 + 1 < tot"
    proof -
      have "unat (65 + tot) = unat tot + 65" using 1(2) True by (simp add: unat_plus_if')
      moreover have "tot + 64 + 1 = 65 + tot" by simp
      ultimately show "unat tot + 65 < 2 ^ 64" "unat (tot + 64 + 1) + 2 * length (drop 48 inp) < 2 ^ 64" "\<not> tot + 64 + 1 < tot"
        using 1(2) True by (simp_all add: word_less_nat_alt)
    qed
    have u: "unat data_size = 48" by (simp add: data_size_def)
    have f: "full_lines inp = encode_loop (take 48 inp) @ [10] @ full_lines (drop 48 inp)" "pending inp = pending (drop 48 inp)"
      using True by (simp_all add: full_lines.simps [of inp] pending.simps [of inp])
    have ih: "encode_update_loop (out @ encode_loop (take 48 inp) @ [10]) (tot + 64 + 1) (drop 48 inp) =
        ((out @ encode_loop (take 48 inp) @ [10]) @ full_lines (drop 48 inp),
         Some (tot + 64 + 1 + of_nat (length (full_lines (drop 48 inp))), pending (drop 48 inp)))"
      using 1(1) [of "encode_loop (take 48 inp) @ [0]" 64 "out @ encode_loop (take 48 inp) @ [10]"]
        EncodeBlock_line [OF True] True lt t u by simp
    have n: "tot + of_nat (length (encode_loop (take 48 inp) @ [10] @ full_lines (drop 48 inp))) = tot + 64 + 1 + of_nat (length (full_lines (drop 48 inp)))"
      using True by (simp add: length_line)
    show ?thesis
      by (subst encode_update_loop.simps)
        (simp only: u True if_True EncodeBlock_line [OF True] prod.case Let_def t lt if_False ih n f append_assoc)
  qed
qed


lemma write_data_holds:
  assumes "length data = 48" "take (unat pos) data = p" "length p = unat pos" "length p + length bs \<le> 48"
  shows "length (write_data data pos bs) = 48" "take (length p + length bs) (write_data data pos bs) = p @ bs"
  using assms by (auto simp: write_data_def)

lemma EncodeUpdate_holds:
  assumes ctx: "ctx_holds ctx p" and inp: "length inp = unat len" and big: "length (full_lines (p @ inp)) < 2 ^ 31"
  obtains ctx' out n where "EVP_EncodeUpdate ctx inp len = (ctx', out, n)" "ctx_holds ctx' (pending (p @ inp))"
    "0 \<le> n" "take (nat n) out = full_lines (p @ inp)"
proof -
  have p: "length p < 48" "data_used ctx = of_nat (length p)" "length (ctx_data ctx) = 48"
    "take (length p) (ctx_data ctx) = p" using ctx by (auto simp: ctx_holds_def)
  have du: "unat (data_used ctx) = length p" using p(1) by (simp add: p(2) unat_of_nat)
  have w: "take (unat (data_used ctx)) (ctx_data ctx) = p" unfolding du by (rule p(4))
  have du64: "unat (ucast (data_used ctx) :: 64 word) = length p" using du by (simp add: unat_ucast_up)
  have room: "unat (data_size - ucast (data_used ctx)) = 48 - length p"
    using p(1) du64 by (simp add: unat_sub_if' data_size_def)
  have du0: "data_used ctx = 0 \<longleftrightarrow> p = []" using du by (metis length_0_conv unat_eq_0)
  have ti: "take (unat len) inp = inp" using inp by simp
  consider (empty) "len = 0" | (short) "len \<noteq> 0" "length p + length inp < 48" | (long) "len \<noteq> 0" "48 \<le> length p + length inp"
    by linarith
  then show thesis
  proof cases
    case empty
    then have "inp = []" using inp by simp
    with empty ctx p(1) show thesis
      by (intro that [of ctx "[]" 0]) (simp_all add: EVP_EncodeUpdate_def full_lines_short pending_short)
  next
    case short
    let ?ctx = "ctx\<lparr>ctx_data := write_data (ctx_data ctx) (data_used ctx) inp, data_used := data_used ctx + ucast len\<rparr>"
    have "data_size - ucast (data_used ctx) > len" using short(2) inp p(1) by (simp add: word_less_nat_alt room)
    then have e: "EVP_EncodeUpdate ctx inp len = (?ctx, [], 0)" using short(1) ti by (simp add: EVP_EncodeUpdate_def Let_def)
    have "unat (ucast len :: u32) = length inp" using short(2) inp by (simp add: unsigned_ucast_eq take_bit_nat_eq_self)
    then have "data_used ctx + ucast len = of_nat (length p + length inp)"
      by (metis p(2) of_nat_add of_nat_unat)
    moreover have "length (write_data (ctx_data ctx) (data_used ctx) inp) = 48"
        "take (length p + length inp) (write_data (ctx_data ctx) (data_used ctx) inp) = p @ inp"
      by (rule write_data_holds(1) [OF p(3) w du [symmetric] less_imp_le [OF short(2)]],
        rule write_data_holds(2) [OF p(3) w du [symmetric] less_imp_le [OF short(2)]])
    ultimately have "ctx_holds ?ctx (p @ inp)" unfolding ctx_holds_def using short(2) by simp
    with e short(2) show thesis by (intro that [OF e]) (simp_all add: full_lines_short pending_short)
  next
    case long
    have nlt: "\<not> data_size - ucast (data_used ctx) > len" using long(2) inp p(1) by (simp add: word_less_nat_alt room)
    let ?todo = "48 - length p"
    let ?data = "write_data (ctx_data ctx) (data_used ctx) (take ?todo inp)"
    have data: "?data = p @ take ?todo inp"
      using p long(2) du by (simp add: write_data_def)
    obtain ctx1 out1 tot1 inp1 where st: "(if data_used ctx \<noteq> 0 then
                let todo = data_size - ucast (data_used ctx);
                    ctx = ctx\<lparr>ctx_data := write_data (ctx_data ctx) (data_used ctx) (take (unat todo) inp)\<rparr>
                in case EVP_EncodeBlock (ctx_data ctx) data_size of (enc, encoded) \<Rightarrow>
                   (ctx\<lparr>data_used := 0\<rparr>, take (unat encoded) enc @ [10], encoded + 1, drop (unat todo) inp)
              else (ctx, [], 0, inp)) = (ctx1, out1, tot1, inp1)"
      and c1: "length (ctx_data ctx1) = 48" and o1: "out1 @ full_lines inp1 = full_lines (p @ inp)"
      and i1: "pending inp1 = pending (p @ inp)" and t1: "tot1 + of_nat (length (full_lines inp1)) = of_nat (length (full_lines (p @ inp)))"
      and u1: "unat tot1 \<le> 65"  and l1: "length inp1 \<le> length inp"
    proof (cases "p = []")
      case True
      with du0 p show thesis by (intro that [of ctx "[]" 0 inp]) simp_all
    next
      case False
      have len48: "length (p @ take ?todo inp) = 48" using long(2) p(1) by simp
      have t: "take 64 (encode_loop (p @ take ?todo inp) @ [0]) = encode_loop (p @ take ?todo inp)"
        using length_line [OF len48] by simp
      have blk: "EVP_EncodeBlock ?data data_size = (encode_loop (p @ take ?todo inp) @ [0], 64)"
        unfolding data using EncodeBlock_line [of "p @ take ?todo inp"] len48 by simp
      have f: "full_lines (p @ inp) = encode_loop (p @ take ?todo inp) @ [10] @ full_lines (drop ?todo inp)"
        "pending (p @ inp) = pending (drop ?todo inp)"
        using long(2) p(1) by (simp_all add: full_lines.simps [of "p @ inp"] pending.simps [of "p @ inp"])
      show thesis
      proof (rule that)
        show "(if data_used ctx \<noteq> 0 then
                let todo = data_size - ucast (data_used ctx);
                    ctx = ctx\<lparr>ctx_data := write_data (ctx_data ctx) (data_used ctx) (take (unat todo) inp)\<rparr>
                in case EVP_EncodeBlock (ctx_data ctx) data_size of (enc, encoded) \<Rightarrow>
                   (ctx\<lparr>data_used := 0\<rparr>, take (unat encoded) enc @ [10], encoded + 1, drop (unat todo) inp)
              else (ctx, [], 0, inp)) =
          (ctx\<lparr>ctx_data := ?data, data_used := 0\<rparr>, encode_loop (p @ take ?todo inp) @ [10], 65, drop ?todo inp)"
          using False du0 t by (simp add: Let_def room blk del: take_append)
        show "(65 :: size_t) + of_nat (length (full_lines (drop ?todo inp))) = of_nat (length (full_lines (p @ inp)))"
          unfolding f using length_line [OF len48] by (simp del: take_append)
      qed (use f data len48 in simp_all)
    qed
    let ?tot = "of_nat (length (full_lines (p @ inp))) :: size_t"
    have "unat tot1 + 2 * length inp1 < 2 ^ 64"
    proof -
      have "length (p @ inp) < length (full_lines (p @ inp)) + 48" by (rule length_le_lines)
      then show ?thesis using big u1 l1 by simp
    qed
    then have loop: "encode_update_loop out1 tot1 inp1 = (full_lines (p @ inp), Some (?tot, pending (p @ inp)))"
      using encode_update_loop_eq [of tot1 inp1 out1] by (simp only: o1 i1 t1)
    let ?rest = "pending (p @ inp)"
    let ?ctx2 = "if ?rest \<noteq> [] then ctx1\<lparr>ctx_data := write_data (ctx_data ctx1) 0 ?rest\<rparr> else ctx1"
    let ?ctx' = "?ctx2\<lparr>data_used := of_nat (length ?rest)\<rparr>"
    have "unat ?tot = length (full_lines (p @ inp))" using big by (intro unat_of_nat_64) simp
    moreover then have "\<not> ?tot > INT_MAX_size" using big by (simp add: word_less_nat_alt INT_MAX_size_def)
    moreover have "uint ?tot = int (unat ?tot)" by simp
    ultimately have e: "EVP_EncodeUpdate ctx inp len = (?ctx', full_lines (p @ inp) @ [0], int (length (full_lines (p @ inp))))"
      using long(1) nlt unfolding EVP_EncodeUpdate_def Let_def ti st [unfolded Let_def] by (simp add: loop)
    have "ctx_holds ?ctx' ?rest"
      using length_pending [of "p @ inp"] c1 write_data_holds [of "ctx_data ctx1" 0 "[]" ?rest]
      by (auto simp: ctx_holds_def)
    with e show thesis by (intro that [OF e]) simp_all
  qed
qed


lemma EncodeFinal_holds:
  assumes "ctx_holds ctx p"
  obtains ctx' out n where "EVP_EncodeFinal ctx = (ctx', out, n)" "data_used ctx' = 0"
    "take (nat n) out = (if p = [] then [] else encode_loop p @ [10])"
proof -
  have p: "length p < 48" "data_used ctx = of_nat (length p)" "take (length p) (ctx_data ctx) = p"
    using assms by (auto simp: ctx_holds_def)
  have du: "unat (data_used ctx) = length p" using p(1) by (simp add: p(2) unat_of_nat)
  have du0: "data_used ctx = 0 \<longleftrightarrow> p = []" using du by (metis length_0_conv unat_eq_0)
  show thesis
  proof (cases "p = []")
    case True
    with du0 show thesis by (intro that [of ctx "[]" 0]) (simp_all add: EVP_EncodeFinal_def)
  next
    case False
    have du64: "unat (ucast (data_used ctx) :: 64 word) = length p" using du by (simp add: unat_ucast_up)
    let ?n = "length (encode_loop p)"
    have n: "?n \<le> 64" using p(1) by (simp add: length_encode_loop)
    then have u: "unat (of_nat ?n :: size_t) = ?n" by (intro unat_of_nat_64) simp
    have "EVP_EncodeBlock (ctx_data ctx) (ucast (data_used ctx)) = (encode_loop p @ [0], of_nat ?n)"
      unfolding EVP_EncodeBlock_def du64 p(3) by (simp add: Let_def)
    moreover have "unat (of_nat ?n + 1 :: size_t) = ?n + 1" using u n by (simp add: unat_plus_if')
    moreover have "uint (of_nat ?n + 1 :: size_t) = int (unat (of_nat ?n + 1 :: size_t))" by simp
    ultimately have e: "EVP_EncodeFinal ctx = (ctx\<lparr>data_used := 0\<rparr>, encode_loop p @ [10, 0], int (?n + 1))"
      using False du0 u by (simp add: EVP_EncodeFinal_def)
    show thesis
    proof (rule that [OF e])
      show "data_used (ctx\<lparr>data_used := 0\<rparr>) = 0" by simp
      show "take (nat (int (?n + 1))) (encode_loop p @ [10, 0]) = (if p = [] then [] else encode_loop p @ [10])"
        unfolding nat_int using False by simp
    qed
  qed
qed

text \<open>A stream: the chunks in turn, then the end; the bytes the caller takes from the output.\<close>

fun encode_stream :: "evp_encode_ctx_st \<Rightarrow> u8 list list \<Rightarrow> u8 list" where
  "encode_stream ctx [] = (case EVP_EncodeFinal ctx of (_, out, n) \<Rightarrow> take (nat n) out)"
| "encode_stream ctx (chunk # chunks) =
     (case EVP_EncodeUpdate ctx chunk (of_nat (length chunk)) of (ctx, out, n) \<Rightarrow>
        take (nat n) out @ encode_stream ctx chunks)"

lemma encode_stream_eq:
  assumes "ctx_holds ctx p" "length (full_lines (p @ concat chunks)) < 2 ^ 31"
  shows "encode_stream ctx chunks = wrapped (p @ concat chunks)"
  using assms
proof (induction chunks arbitrary: ctx p)
  case Nil
  have "length p < 48" using Nil(1) by (simp add: ctx_holds_def)
  moreover obtain ctx' out n where "EVP_EncodeFinal ctx = (ctx', out, n)"
      "take (nat n) out = (if p = [] then [] else encode_loop p @ [10])"
    by (rule EncodeFinal_holds [OF Nil(1)])
  ultimately show ?case by (simp add: wrapped_def full_lines_short pending_short)
next
  case (Cons chunk chunks)
  have app: "full_lines (p @ chunk @ concat chunks) = full_lines (p @ chunk) @ full_lines (pending (p @ chunk) @ concat chunks)"
    "pending (p @ chunk @ concat chunks) = pending (pending (p @ chunk) @ concat chunks)"
    using lines_append [of "p @ chunk" "concat chunks"] by simp_all
  have lt: "length (full_lines (p @ chunk)) < 2 ^ 31" "length (full_lines (pending (p @ chunk) @ concat chunks)) < 2 ^ 31"
    using Cons.prems(2) by (simp_all add: app)
  have "length p < 48" using Cons.prems(1) by (simp add: ctx_holds_def)
  then have "length chunk < 2 ^ 64" using length_le_lines [of "p @ chunk"] lt(1) by simp
  then have "length chunk = unat (of_nat (length chunk) :: size_t)" by (simp add: unat_of_nat_64)
  then obtain ctx' out n where u: "EVP_EncodeUpdate ctx chunk (of_nat (length chunk)) = (ctx', out, n)"
      "ctx_holds ctx' (pending (p @ chunk))" "take (nat n) out = full_lines (p @ chunk)"
    by (rule EncodeUpdate_holds [OF Cons.prems(1) _ lt(1)])
  from Cons.IH [OF u(2) lt(2)] u(1,3) show ?case by (simp add: wrapped_def app)
qed

text \<open>
  Streaming. However the input is cut into chunks, feeding them to \<open>EVP_EncodeUpdate\<close> after
  \<open>EVP_EncodeInit\<close> and ending with \<open>EVP_EncodeFinal\<close> gives the same bytes: lines that encode 48
  bytes each, and a last line for the rest, each ended by a newline (below the 1 GB at which
  \<open>*out_len\<close> may no longer be an \<open>int\<close>).
\<close>

theorem encode_stream_chunks:
  assumes "length (concat chunks) < 2 ^ 30"
  shows "encode_stream EVP_EncodeInit chunks = wrapped (concat chunks)"
proof -
  have "ctx_holds EVP_EncodeInit []" by (simp add: ctx_holds_def EVP_EncodeInit_def)
  moreover have "length (full_lines ([] @ concat chunks)) < 2 ^ 31"
    using length_full_lines [of "concat chunks"] assms by simp
  ultimately show ?thesis using encode_stream_eq [of EVP_EncodeInit "[]" chunks] by simp
qed

theorem encode_stream_chunks_witness:
  "encode_stream EVP_EncodeInit [[1], [2, 3]] = encode_loop [1, 2, 3] @ [10]"
proof -
  have "length (concat [[1], [2, 3 :: u8]]) < 2 ^ 30" by simp
  from encode_stream_chunks [OF this] show ?thesis by (simp add: wrapped_def full_lines_short pending_short)
qed


section \<open>Streaming decoding\<close>

abbreviation is_ws :: "u8 \<Rightarrow> bool" where
  "is_ws c \<equiv> c = 32 \<or> c = 9 \<or> c = 13 \<or> c = 10"

lemma decode_quad_length: "base64_decode_quad q = Some bs \<Longrightarrow> 1 \<le> length bs \<and> length bs \<le> 3"
  by (auto simp: base64_decode_quad_def Let_def split: prod.splits if_splits)

lemma decode_loop_ws: "decode_update_loop inp ctx out = decode_update_loop (filter (\<lambda>c. \<not> is_ws c) inp) ctx out"
proof (induction inp arbitrary: ctx out)
  case (Cons c inp)
  show ?case
  proof (cases "is_ws c")
    case True
    then have "filter (\<lambda>c. \<not> is_ws c) (c # inp) = filter (\<lambda>c. \<not> is_ws c) inp" by auto
    then show ?thesis unfolding decode_update_loop.simps if_P [OF True] by (simp only: Cons.IH [symmetric])
  next
    case False
    then have f: "filter (\<lambda>c. \<not> is_ws c) (c # inp) = c # filter (\<lambda>c. \<not> is_ws c) inp" by simp
    show ?thesis unfolding f decode_update_loop.simps Let_def Cons.IH [symmetric] ..
  qed
qed simp

text \<open>One character that is no white space and comes before the end of the data.\<close>

definition put_char :: "u8 \<Rightarrow> evp_encode_ctx_st \<Rightarrow> evp_encode_ctx_st" where
  "put_char c ctx = ctx\<lparr>ctx_data := (ctx_data ctx)[unat (data_used ctx) := c], data_used := data_used ctx + 1\<rparr>"

definition after_quad :: "u8 list \<Rightarrow> evp_encode_ctx_st \<Rightarrow> evp_encode_ctx_st" where
  "after_quad bs ctx = (let ctx = ctx\<lparr>data_used := 0\<rparr> in if length bs < 3 then ctx\<lparr>eof_seen := True\<rparr> else ctx)"

definition ctx_quad :: "evp_encode_ctx_st \<Rightarrow> u8 list option" where
  "ctx_quad ctx = base64_decode_quad (ctx_data ctx ! 0, ctx_data ctx ! 1, ctx_data ctx ! 2, ctx_data ctx ! 3)"

lemma decode_loop_Cons:
  "decode_update_loop (c # inp) ctx out =
     (if is_ws c then decode_update_loop inp ctx out
      else if eof_seen ctx then (False, ctx\<lparr>error_encountered := True\<rparr>, out)
      else if data_used ctx + 1 = 4 then
        case ctx_quad (put_char c ctx) of
          None \<Rightarrow> (False, (put_char c ctx)\<lparr>error_encountered := True\<rparr>, out)
        | Some bs \<Rightarrow> decode_update_loop inp (after_quad bs (put_char c ctx)) (out @ bs)
      else decode_update_loop inp (put_char c ctx) out)"
  by (simp add: Let_def put_char_def ctx_quad_def after_quad_def cong: if_cong option.case_cong)

lemma error_simps [simp]:
  "error_encountered (put_char c ctx) = error_encountered ctx"
  "error_encountered (after_quad bs ctx) = error_encountered ctx"
  by (simp_all add: put_char_def after_quad_def Let_def)

declare decode_update_loop.simps(2) [simp del]

lemma decode_loop_out:
  "decode_update_loop inp ctx out = (case decode_update_loop inp ctx [] of (b, ctx', w) \<Rightarrow> (b, ctx', out @ w))"
proof (induction inp arbitrary: ctx out)
  case (Cons c inp)
  have h: "decode_update_loop inp ctx (out @ bs) = (case decode_update_loop inp ctx bs of (b, ctx', w) \<Rightarrow> (b, ctx', out @ w))" for ctx bs
    by (subst Cons.IH, subst (2) Cons.IH) (simp split: prod.splits)
  show ?case
    unfolding decode_loop_Cons using Cons.IH [of _ out] h by (simp split: option.splits)
qed simp

lemma decode_loop_append:
  "decode_update_loop (xs @ ys) ctx out = (case decode_update_loop xs ctx out of
     (False, ctx', w) \<Rightarrow> (False, ctx', w) | (True, ctx', w) \<Rightarrow> decode_update_loop ys ctx' w)"
  by (induction xs arbitrary: ctx out) (simp_all add: decode_loop_Cons split: option.splits)

lemma decode_loop_error:
  "decode_update_loop inp ctx out = (True, ctx', w) \<Longrightarrow>
     error_encountered ctx' = error_encountered ctx \<and> length w \<le> length out + 3 * length inp"
proof (induction inp arbitrary: ctx out)
  case (Cons c inp)
  consider (ws) "is_ws c" | (eof) "\<not> is_ws c" "eof_seen ctx" | (more) "\<not> is_ws c" "\<not> eof_seen ctx" "data_used ctx + 1 \<noteq> 4"
    | (quad) "\<not> is_ws c" "\<not> eof_seen ctx" "data_used ctx + 1 = 4" by blast
  then show ?case
  proof cases
    case quad
    show ?thesis
    proof (cases "ctx_quad (put_char c ctx)")
      case None
      with Cons.prems quad show ?thesis by (simp add: decode_loop_Cons)
    next
      case (Some bs)
      then have "length bs \<le> 3" using decode_quad_length by (auto simp: ctx_quad_def)
      moreover have "decode_update_loop inp (after_quad bs (put_char c ctx)) (out @ bs) = (True, ctx', w)"
        using Cons.prems quad Some by (simp add: decode_loop_Cons)
      from Cons.IH [OF this] have "error_encountered ctx' = error_encountered ctx" "length w \<le> length out + length bs + 3 * length inp"
        by simp_all
      ultimately show ?thesis by simp
    qed
  qed (use Cons in \<open>auto simp: decode_loop_Cons dest: Cons.IH\<close>)
qed simp

text \<open>A whole quad of such characters.\<close>

lemma decode_quad_step:
  assumes "data_used ctx = 0" "\<not> eof_seen ctx" "length (ctx_data ctx) = 48"
    "\<not> is_ws a" "\<not> is_ws b" "\<not> is_ws c" "\<not> is_ws d"
  obtains ctx4 where "decode_update_loop (a # b # c # d # s) ctx out =
      (case base64_decode_quad (a, b, c, d) of
          None \<Rightarrow> (False, ctx4\<lparr>error_encountered := True\<rparr>, out)
        | Some bs \<Rightarrow> decode_update_loop s (after_quad bs ctx4) (out @ bs))"
    "length (ctx_data ctx4) = 48" "\<not> eof_seen ctx4"
proof -
  let ?c1 = "put_char a ctx" let ?c2 = "put_char b ?c1" let ?c3 = "put_char c ?c2" let ?c4 = "put_char d ?c3"
  have du: "data_used ?c1 = 1" "data_used ?c2 = 2" "data_used ?c3 = 3" using assms(1) by (simp_all add: put_char_def)
  have eof: "eof_seen (put_char x k) = eof_seen k" for x k by (simp add: put_char_def)
  have "ctx_data ?c4 = (ctx_data ctx)[0 := a, 1 := b, 2 := c, 3 := d]"
    unfolding put_char_def [of d] using du(3)
    unfolding put_char_def [of c] using du(2)
    unfolding put_char_def [of b] using du(1)
    unfolding put_char_def [of a] using assms(1) by simp
  then have q: "ctx_quad ?c4 = base64_decode_quad (a, b, c, d)" "length (ctx_data ?c4) = 48"
    using assms(3) by (simp_all add: ctx_quad_def nth_list_update)
  show thesis
  proof (rule that [of ?c4])
    have "decode_update_loop (a # b # c # d # s) ctx out = decode_update_loop (d # s) ?c3 out"
      using assms du by (simp only: decode_loop_Cons [of a] decode_loop_Cons [of b] decode_loop_Cons [of c] eof if_False) simp
    then show "decode_update_loop (a # b # c # d # s) ctx out =
      (case base64_decode_quad (a, b, c, d) of
          None \<Rightarrow> (False, ?c4\<lparr>error_encountered := True\<rparr>, out)
        | Some bs \<Rightarrow> decode_update_loop s (after_quad bs ?c4) (out @ bs))"
      using assms(2,7) du by (simp add: decode_loop_Cons [of d] q(1) eof)
  qed (use q(2) assms(2) in \<open>simp_all add: eof\<close>)
qed


lemma decode_loop_base64:
  assumes "data_used ctx = 0" "\<not> eof_seen ctx" "length (ctx_data ctx) = 48" "\<And>c. c \<in> set s \<Longrightarrow> \<not> is_ws c"
  shows "(\<exists>ctx'. decode_update_loop s ctx out = (True, ctx', w) \<and> data_used ctx' = 0) \<longleftrightarrow>
    length s mod 4 = 0 \<and> decode_base64_loop s out = (True, w)"
  using assms
proof (induction s out arbitrary: ctx rule: decode_base64_loop.induct [case_names 1 nil one two three])
  case (1 a b c d s out)
  have ws: "\<not> is_ws a" "\<not> is_ws b" "\<not> is_ws c" "\<not> is_ws d" by (rule 1(5), simp)+
  obtain ctx4 where st: "decode_update_loop (a # b # c # d # s) ctx out =
      (case base64_decode_quad (a, b, c, d) of
          None \<Rightarrow> (False, ctx4\<lparr>error_encountered := True\<rparr>, out)
        | Some bs \<Rightarrow> decode_update_loop s (after_quad bs ctx4) (out @ bs))"
    and c4: "length (ctx_data ctx4) = 48" "\<not> eof_seen ctx4"
    by (rule decode_quad_step [OF 1(2-4) ws, of s out])
  show ?case
  proof (cases "base64_decode_quad (a, b, c, d)")
    case None
    then show ?thesis unfolding st by simp
  next
    case (Some bs)
    have n: "1 \<le> length bs" "length bs \<le> 3" using decode_quad_length [OF Some] by auto
    have l: "length (a # b # c # d # s) mod 4 = length s mod 4" by simp
    show ?thesis
    proof (cases "length bs = 3")
      case True
      have "after_quad bs ctx4 = ctx4\<lparr>data_used := 0\<rparr>" using True by (simp add: after_quad_def)
      then have pre: "data_used (after_quad bs ctx4) = 0" "\<not> eof_seen (after_quad bs ctx4)"
        "length (ctx_data (after_quad bs ctx4)) = 48" using c4 by simp_all
      have "\<not> (length bs \<noteq> 3 \<and> s \<noteq> [])" using True by simp
      note ih = 1(1) [OF Some this pre]
      have "(\<exists>ctx'. decode_update_loop s (after_quad bs ctx4) (out @ bs) = (True, ctx', w) \<and> data_used ctx' = 0) \<longleftrightarrow>
          length s mod 4 = 0 \<and> decode_base64_loop s (out @ bs) = (True, w)"
        by (rule ih) (use 1(5) in auto)
      then show ?thesis unfolding st l using Some True by simp
    next
      case False
      with n have "length bs < 3" by simp
      then have e: "after_quad bs ctx4 = ctx4\<lparr>data_used := 0, eof_seen := True\<rparr>" by (simp add: after_quad_def Let_def)
      show ?thesis
      proof (cases s)
        case Nil
        then show ?thesis unfolding st using Some False e by (auto simp: exI [of _ "ctx4\<lparr>data_used := 0, eof_seen := True\<rparr>"])
      next
        case (Cons x xs)
        have "\<not> is_ws x" by (rule 1(5)) (simp add: Cons)
        then have "fst (decode_update_loop s (after_quad bs ctx4) (out @ bs)) = False"
          unfolding Cons decode_loop_Cons e by simp
        moreover have "fst (decode_base64_loop (a # b # c # d # s) out) = False" using Some False Cons by simp
        ultimately show ?thesis unfolding st Some option.case
          by (metis fst_conv)
      qed
    qed
  qed
next
  case (nil out)
  then show ?case by auto
next
  case (one v out)
  then show ?case by (auto simp: decode_loop_Cons put_char_def)
next
  case (two v va out)
  then show ?case by (auto simp: decode_loop_Cons put_char_def)
next
  case (three v va vb out)
  then show ?case by (auto simp: decode_loop_Cons put_char_def)
qed

text \<open>A stream: the chunks in turn, then the end; the bytes the caller takes from the output,
  unless a call reports an error.\<close>

fun decode_stream :: "evp_encode_ctx_st \<Rightarrow> u8 list list \<Rightarrow> u8 list option" where
  "decode_stream ctx [] = (if fst (EVP_DecodeFinal ctx) = - 1 then None else Some [])"
| "decode_stream ctx (chunk # chunks) =
     (case EVP_DecodeUpdate ctx chunk (of_nat (length chunk)) of (r, ctx, out, n) \<Rightarrow>
        if r = - 1 then None
        else map_option (append (take (nat n) out)) (decode_stream ctx chunks))"

lemma decode_stream_eq:
  assumes "\<not> error_encountered ctx" "3 * length (concat chunks) < 2 ^ 31"
  shows "decode_stream ctx chunks = Some w \<longleftrightarrow>
    (\<exists>ctx'. decode_update_loop (concat chunks) ctx [] = (True, ctx', w) \<and> data_used ctx' = 0)"
  using assms
proof (induction chunks arbitrary: ctx w)
  case Nil
  then show ?case by (auto simp: EVP_DecodeFinal_def)
next
  case (Cons chunk chunks)
  have u: "unat (of_nat (length chunk) :: size_t) = length chunk"
    using Cons.prems(2) by (intro unat_of_nat_64) simp
  obtain b ctx1 o1 where l: "decode_update_loop chunk ctx [] = (b, ctx1, o1)" by (metis surj_pair)
  show ?case
  proof (cases b)
    case False
    then show ?thesis using l Cons.prems(1) by (simp add: EVP_DecodeUpdate_def u decode_loop_append)
  next
    case True
    have e: "\<not> error_encountered ctx1" "length o1 \<le> 3 * length chunk"
      using decode_loop_error [of chunk ctx "[]" ctx1 o1] l True Cons.prems(1) by simp_all
    have o1: "unat (of_nat (length o1) :: size_t) = length o1" "length o1 < 2 ^ 31"
      using e(2) Cons.prems(2) by (auto intro!: unat_of_nat_64)
    then have i: "\<not> of_nat (length o1) > INT_MAX_size" by (simp add: word_less_nat_alt INT_MAX_size_def)
    have n: "nat (uint (of_nat (length o1) :: size_t)) = length o1" using o1(1) by simp
    have up: "EVP_DecodeUpdate ctx chunk (of_nat (length chunk)) =
        (if eof_seen ctx1 then 0 else 1, ctx1, o1, uint (of_nat (length o1) :: size_t))"
      using Cons.prems(1) l True i by (simp add: EVP_DecodeUpdate_def u Let_def)
    have "decode_stream ctx (chunk # chunks) = map_option (append o1) (decode_stream ctx1 chunks)"
      using n by (simp add: up)
    then have "decode_stream ctx (chunk # chunks) = Some w \<longleftrightarrow> (\<exists>v. decode_stream ctx1 chunks = Some v \<and> w = o1 @ v)"
      by auto
    also have "\<dots> \<longleftrightarrow> (\<exists>v. (\<exists>ctx'. decode_update_loop (concat chunks) ctx1 [] = (True, ctx', v) \<and> data_used ctx' = 0) \<and> w = o1 @ v)"
      using Cons.IH [OF e(1)] Cons.prems(2) by simp
    also have "\<dots> \<longleftrightarrow> (\<exists>ctx'. decode_update_loop (concat chunks) ctx1 o1 = (True, ctx', w) \<and> data_used ctx' = 0)"
      by (subst (2) decode_loop_out) (auto split: prod.splits)
    also have "\<dots> \<longleftrightarrow> (\<exists>ctx'. decode_update_loop (concat (chunk # chunks)) ctx [] = (True, ctx', w) \<and> data_used ctx' = 0)"
      using l True by (simp add: decode_loop_append)
    finally show ?thesis .
  qed
qed

text \<open>
  C27: streaming decoding. However the text is cut into chunks, feeding them to
  \<open>EVP_DecodeUpdate\<close> after \<open>EVP_DecodeInit\<close> and ending with \<open>EVP_DecodeFinal\<close> succeeds exactly
  when \<open>EVP_DecodeBase64\<close> succeeds on the text without its white space, with the same bytes
  (for texts short enough that \<open>*out_len\<close> is an \<open>int\<close>).
\<close>

theorem decode_stream_chunks:
  assumes "3 * length (concat chunks) < 2 ^ 31"
  shows "decode_stream EVP_DecodeInit chunks = Some w \<longleftrightarrow>
    (let s = filter (\<lambda>c. \<not> (c = 32 \<or> c = 9 \<or> c = 13 \<or> c = 10)) (concat chunks) in
     EVP_DecodeBase64 (- 1) s (of_nat (length s)) = (True, w))"
proof -
  let ?s = "filter (\<lambda>c. \<not> is_ws c) (concat chunks)"
  have len: "length ?s \<le> length (concat chunks)" by simp
  have small: "length ?s < 2 ^ 30"
  proof (rule le_less_trans [OF len])
    show "length (concat chunks) < 2 ^ 30" using assms by simp
  qed
  have u: "unat (of_nat (length ?s) :: size_t) = length ?s" by (rule unat_of_nat_64, rule less_trans [OF small]) simp
  have init: "data_used EVP_DecodeInit = 0" "\<not> eof_seen EVP_DecodeInit" "length (ctx_data EVP_DecodeInit) = 48"
    "\<not> error_encountered EVP_DecodeInit" by (simp_all add: EVP_DecodeInit_def)
  have "decode_stream EVP_DecodeInit chunks = Some w \<longleftrightarrow>
      (\<exists>ctx'. decode_update_loop ?s EVP_DecodeInit [] = (True, ctx', w) \<and> data_used ctx' = 0)"
    unfolding decode_stream_eq [OF init(4) assms] decode_loop_ws [of "concat chunks"] ..
  also have "\<dots> \<longleftrightarrow> length ?s mod 4 = 0 \<and> decode_base64_loop ?s [] = (True, w)"
    by (rule decode_loop_base64 [OF init(1-3)]) auto
  also have "\<dots> \<longleftrightarrow> EVP_DecodeBase64 (- 1) ?s (of_nat (length ?s)) = (True, w)"
  proof (cases "length ?s mod 4 = 0")
    case True
    then have "4 dvd length ?s" by (rule mod_0_imp_dvd)
    then obtain k where k: "length ?s = 4 * k" by (rule dvdE)
    have k30: "4 * k < 2 ^ 30" using small unfolding k .
    have m1: "unat (- 1 :: size_t) = 2 ^ 64 - 1" by (simp add: unsigned_minus_1_eq_mask mask_eq_exp_minus_1)
    have "3 * k \<le> unat (- 1 :: size_t)" unfolding m1 using k30 by simp
    moreover have "4 * k < 2 ^ 64" using k30 by simp
    ultimately have "EVP_DecodeBase64 (- 1) ?s (of_nat (4 * k)) = decode_base64_loop ?s []"
      by (rule decode_base64_eq [OF k, rotated])
    with True show ?thesis by (simp only: k) simp
  next
    case False
    have "unat (of_nat (length ?s) mod 4 :: size_t) = length ?s mod 4" by (simp only: unat_mod u) simp
    then have "of_nat (length ?s) mod 4 \<noteq> (0 :: size_t)" using False unfolding unat_eq_0 [symmetric] by (simp only:) simp
    then have "fst (EVP_DecodeBase64 (- 1) ?s (of_nat (length ?s))) = False"
      unfolding EVP_DecodeBase64_def by (simp only: if_True simp_thms fst_conv)
    then have "EVP_DecodeBase64 (- 1) ?s (of_nat (length ?s)) \<noteq> (True, w)" by auto
    with False show ?thesis by (simp only: simp_thms)
  qed
  finally show ?thesis by (simp only: Let_def)
qed

theorem decode_stream_chunks_witness:
  "decode_stream EVP_DecodeInit [[65, 81], [10, 61, 61]] = Some [1]"
proof -
  have "3 * length (concat [[65, 81], [10, 61, 61 :: u8]]) < 2 ^ 31" by simp
  note t = decode_stream_chunks [OF this, of "[1]"]
  have "EVP_DecodeBase64 (- 1) [65, 81, 61, 61] 4 = (True, [1])" by code_simp
  then show ?thesis using t by (simp add: Let_def)
qed


section \<open>Output sizes\<close>

lemma length_decode_loop: "length (snd (decode_base64_loop inp out)) \<le> length out + 3 * (length inp div 4)"
proof (induction inp out rule: decode_base64_loop.induct)
  case (1 a b c d inp out)
  show ?case
  proof (cases "base64_decode_quad (a, b, c, d)")
    case (Some bs)
    then have n: "length bs \<le> 3" using decode_quad_length by blast
    show ?thesis
    proof (cases "length bs \<noteq> 3 \<and> inp \<noteq> []")
      case False
      have "length (snd (decode_base64_loop inp (out @ bs))) \<le> length (out @ bs) + 3 * (length inp div 4)"
        by (rule 1) (use Some False in auto)
      also have "\<dots> \<le> length out + 3 * (length (a # b # c # d # inp) div 4)"
      proof -
        have "length (a # b # c # d # inp) div 4 = length inp div 4 + 1" by simp
        then show ?thesis using n unfolding length_append by linarith
      qed
      finally show ?thesis unfolding decode_base64_loop.simps(1) Some option.case if_not_P [OF False] .
    next
      case True
      have "length (a # b # c # d # inp) div 4 = length inp div 4 + 1" by simp
      then show ?thesis
        unfolding decode_base64_loop.simps(1) Some option.case if_P [OF True] snd_conv length_append using n by linarith
    qed
  qed simp
qed simp_all

text \<open>
  Output sizes. \<open>EVP_EncodedLength\<close> fails exactly when the size would not fit a
  \<open>size_t\<close>, and otherwise is the exact number of bytes \<open>EVP_EncodeBlock\<close> writes, its NUL
  included; \<open>EVP_DecodeBase64\<close> never writes more than \<open>max_out\<close> bytes, even when it fails.
\<close>

theorem base64_output_sizes:
  "(EVP_EncodedLength len = None \<longleftrightarrow> 2 ^ 64 \<le> 4 * ((unat len + 2) div 3) + 1) \<and>
   (\<forall>n src. EVP_EncodedLength len = Some n \<and> length src = unat len \<longrightarrow>
      length (fst (EVP_EncodeBlock src len)) = unat n) \<and>
   length (snd (EVP_DecodeBase64 max_out inp len)) \<le> unat max_out"
proof (intro conjI allI impI)
  show "EVP_EncodedLength len = None \<longleftrightarrow> 2 ^ 64 \<le> 4 * ((unat len + 2) div 3) + 1"
    unfolding EncodedLength_eq by (auto simp: not_less simp del: of_nat_add of_nat_mult)
next
  fix n and src :: "u8 list"
  assume "EVP_EncodedLength len = Some n \<and> length src = unat len"
  then have n: "EVP_EncodedLength len = Some n" "length src = unat len" by auto
  from n(1) have lt: "4 * ((unat len + 2) div 3) + 1 < 2 ^ 64" and e: "n = of_nat (4 * ((unat len + 2) div 3) + 1)"
    unfolding EncodedLength_eq by (auto split: if_splits simp del: of_nat_add of_nat_mult)
  have "unat n = 4 * ((unat len + 2) div 3) + 1" unfolding e by (rule unat_of_nat_64 [OF lt])
  then show "length (fst (EVP_EncodeBlock src len)) = unat n"
    unfolding EncodeBlock_eq [OF n(2)] by (simp add: length_encode_loop n(2))
next
  show "length (snd (EVP_DecodeBase64 max_out inp len)) \<le> unat max_out"
  proof (cases "len mod 4 = 0 \<and> \<not> max_out < len div 4 * 3")
    case True
    let ?inp = "take (unat len) inp"
    have "unat (len div 4 * 3) = unat len div 4 * 3"
    proof -
      have "unat len div 4 * 3 < 2 ^ 64" using unsigned_less [of len, where 'a = nat] by simp
      then show ?thesis by (simp only: unat_word_ariths(2) unat_div) simp
    qed
    then have m: "3 * (unat len div 4) \<le> unat max_out" using True by (simp add: word_less_nat_alt not_less)
    have "length (snd (decode_base64_loop ?inp [])) \<le> 3 * (length ?inp div 4)"
      using length_decode_loop [of ?inp "[]"] by simp
    also have "\<dots> \<le> 3 * (unat len div 4)" by (intro mult_le_mono2 div_le_mono) simp
    finally show ?thesis using True m by (simp add: EVP_DecodeBase64_def EVP_DecodedLength_def)
  next
    case False
    then show ?thesis by (auto simp: EVP_DecodeBase64_def EVP_DecodedLength_def)
  qed
qed

theorem base64_output_sizes_witness:
  "length (fst (EVP_EncodeBlock [1, 2, 3, 4] 4)) = 9"
proof -
  have "EVP_EncodedLength 4 = Some 9" by code_simp
  moreover have "length [1, 2, 3, 4 :: u8] = unat (4 :: size_t)" by simp
  ultimately show ?thesis
    using base64_output_sizes [THEN conjunct2, THEN conjunct1, THEN spec, THEN spec, of 4 9 "[1, 2, 3, 4]"] by simp
qed

end
