(* ===== verification/TimeText.thy ===== *)
theory TimeText
  imports CbsText
begin

text \<open>
  What the time parsers of cbs.c accept: the texts of UTCTime and GeneralizedTime as
  functions of the broken-down time (\<open>time_text\<close>), and the proof that
  \<open>CBS_parse_utc_time\<close> and \<open>CBS_parse_generalized_time\<close> are their inverses.
\<close>

section \<open>The texts\<close>

definition digit :: "int \<Rightarrow> u8" where
  "digit d = of_int (48 + d)"

definition two_digits :: "int \<Rightarrow> u8 list" where
  "two_digits n = [digit (n div 10), digit (n mod 10)]"

definition fields_text :: "tm \<Rightarrow> u8 list" where
  "fields_text tm = two_digits (tm_mon tm + 1) @ two_digits (tm_mday tm) @ two_digits (tm_hour tm) @
     two_digits (tm_min tm) @ two_digits (tm_sec tm)"

definition year_text :: "bool \<Rightarrow> int \<Rightarrow> u8 list" where
  "year_text is_gentime year = (if is_gentime then two_digits (year div 100) else []) @ two_digits (year mod 100)"

definition valid_year :: "bool \<Rightarrow> int \<Rightarrow> bool" where
  "valid_year is_gentime year = (if is_gentime then 0 \<le> year \<and> year \<le> 9999 else 1950 \<le> year \<and> year < 2050)"

text \<open>The zone: \<open>Z\<close>, or \<open>+hhmm\<close> or \<open>-hhmm\<close>; the seconds it counts are those of the code.\<close>

datatype zone = Zulu | Plus int int | Minus int int

fun zone_text :: "zone \<Rightarrow> u8 list" where
  "zone_text Zulu = [90]"
| "zone_text (Plus hh mm) = 43 # two_digits hh @ two_digits mm"
| "zone_text (Minus hh mm) = 45 # two_digits hh @ two_digits mm"

fun zone_ok :: "zone \<Rightarrow> bool" where
  "zone_ok Zulu = True"
| "zone_ok (Plus hh mm) = (0 \<le> hh \<and> hh \<le> 23 \<and> 0 \<le> mm \<and> mm \<le> 59)"
| "zone_ok (Minus hh mm) = (0 \<le> hh \<and> hh \<le> 23 \<and> 0 \<le> mm \<and> mm \<le> 59)"

fun zone_secs :: "zone \<Rightarrow> int" where
  "zone_secs Zulu = 0"
| "zone_secs (Plus hh mm) = hh * 3600 + mm * 60"
| "zone_secs (Minus hh mm) = - (hh * 3600 + mm * 60)"

definition time_text :: "bool \<Rightarrow> tm \<Rightarrow> zone \<Rightarrow> u8 list" where
  "time_text is_gentime tm z = year_text is_gentime (tm_year tm + 1900) @ fields_text tm @ zone_text z"

section \<open>Two digits\<close>

lemma uint_digit [simp]: "0 \<le> d \<Longrightarrow> d < 10 \<Longrightarrow> uint (digit d) = 48 + d"
  unfolding digit_def by (simp only: uint_word_of_int) simp

lemma isdigit_digit [simp]: "0 \<le> d \<Longrightarrow> d < 10 \<Longrightarrow> OPENSSL_isdigit (48 + d)"
  by (simp add: OPENSSL_isdigit_def)

lemma isdigit_cases:
  assumes "OPENSSL_isdigit (uint (b :: u8))"
  obtains d where "0 \<le> d" "d < 10" "b = digit d"
proof
  show "0 \<le> uint b - 48" "uint b - 48 < 10" using assms by (auto simp: OPENSSL_isdigit_def)
  show "b = digit (uint b - 48)" by (simp add: digit_def)
qed

lemma length_two_digits [simp]: "length (two_digits n) = 2"
  by (simp add: two_digits_def)

lemma two_digits_get [simp]:
  assumes "length r + 2 < 2 ^ 64" "0 \<le> n" "n \<le> 99"
  shows "cbs_get_two_digits (cbs_view (two_digits n @ r) t) = (Some n, cbs_view r t)"
proof -
  have f: "fits (digit (n div 10) # digit (n mod 10) # r)" "fits (digit (n mod 10) # r)" using assms by simp_all
  have "n div 10 < 10" "0 \<le> n div 10" using assms by simp_all
  with f show ?thesis
    unfolding cbs_get_two_digits_def two_digits_def append_Cons append_Nil step_def
    by (simp add: CBS_get_u8_Cons [OF f(1)] CBS_get_u8_Cons [OF f(2)] del: CBS_get_u8_Cons)
qed

lemma two_digitsE:
  assumes "cbs_get_two_digits (cbs_view bs t) = (Some n, c)" and "fits bs"
  obtains r where "bs = two_digits n @ r" "0 \<le> n" "n \<le> 99" "fits r" "c = cbs_view r t"
proof -
  note l = assms(1)
  then obtain a bs' where a: "bs = a # bs'" by (cases bs) (simp_all add: cbs_get_two_digits_def step_def)
  with assms have f: "fits bs'" by simp
  with l a assms obtain b r where b: "bs' = b # r"
    by (cases bs') (simp_all add: cbs_get_two_digits_def step_def split: if_splits)
  from l a b f assms have "OPENSSL_isdigit (uint a)" "OPENSSL_isdigit (uint b)"
      and n: "n = (uint a - 48) * 10 + (uint b - 48)" "c = cbs_view r t"
    by (auto simp: cbs_get_two_digits_def step_def split: if_splits)
  then obtain d e where d: "0 \<le> d" "d < 10" "a = digit d" and e: "0 \<le> e" "e < 10" "b = digit e"
    by (auto elim!: isdigit_cases)
  then have "n = d * 10 + e" using n by simp
  with d e have "two_digits n = [a, b]" "0 \<le> n" "n \<le> 99" by (simp_all add: two_digits_def)
  with that a b n(2) f show thesis by simp
qed

text \<open>A parser of two digits and what follows, as an elimination.\<close>

lemma two_digits_stepE:
  assumes "step cbs_get_two_digits f (cbs_view bs t) = (Some x, c)" and "fits bs"
  obtains n r where "bs = two_digits n @ r" "0 \<le> n" "n \<le> 99" "fits r" "f n (cbs_view r t) = (Some x, c)"
  using assms by (auto simp: step_eq_Some elim!: two_digitsE)

section \<open>The parser, part by part\<close>

lemma year_get:
  assumes "length r + 4 < 2 ^ 64" "valid_year g y"
  shows "parse_time_year g (cbs_view (year_text g y @ r) t) = (Some y, cbs_view r t)"
proof (cases g)
  case True
  with assms have y: "0 \<le> y" "y \<le> 9999" by (simp_all add: valid_year_def)
  then have "y div 100 \<le> 99" by presburger
  with y assms(1) True show ?thesis
    unfolding parse_time_year_def year_text_def by (simp add: Let_def step_def)
next
  case False
  with assms have y: "1950 \<le> y" "y < 2050" by (simp_all add: valid_year_def)
  then have "y mod 100 = (if y < 2000 then y - 1900 else y - 2000)" by presburger
  with y assms(1) False show ?thesis
    unfolding parse_time_year_def year_text_def by (simp add: Let_def step_def)
qed

lemma yearE:
  assumes "parse_time_year g (cbs_view bs t) = (Some y, c)" and "fits bs"
  obtains r where "bs = year_text g y @ r" "valid_year g y" "fits r" "c = cbs_view r t"
proof (cases g)
  case True
  with assms obtain m n r where "bs = two_digits m @ two_digits n @ r" "0 \<le> m" "m \<le> 99" "0 \<le> n" "n \<le> 99"
      "fits r" "y = m * 100 + n" "c = cbs_view r t"
    by (auto simp: parse_time_year_def Let_def elim!: two_digits_stepE)
  with True show thesis by (intro that) (simp_all add: year_text_def valid_year_def)
next
  case False
  with assms obtain n r where n: "bs = two_digits n @ r" "0 \<le> n" "n \<le> 99" "fits r" "c = cbs_view r t"
      and y: "y = (if n < 50 then 2000 + n else 1900 + n)" "y < 2050"
    by (auto simp: parse_time_year_def Let_def split: if_splits elim!: two_digits_stepE)
  from n y have m: "y mod 100 = n"
    using mod_mult_self1 [of n 20 100] mod_mult_self1 [of n 19 100]
    by (cases "n < 50") (simp_all add: add.commute)
  from n y have "1950 \<le> y" by (cases "n < 50") simp_all
  with False n y(2) m show thesis by (intro that) (simp_all add: year_text_def valid_year_def)
qed

lemma is_valid_day_iff:
  "1 \<le> m \<Longrightarrow> 0 \<le> y \<Longrightarrow> y \<le> 9999 \<Longrightarrow> is_valid_day y m d \<longleftrightarrow> is_valid_date y m d"
  by (simp add: is_valid_day_def is_valid_date_def)

lemma tm_valid_iff: "OPENSSL_tm_to_posix tm \<noteq> None \<longleftrightarrow>
    is_valid_date (tm_year tm + 1900) (tm_mon tm + 1) (tm_mday tm) \<and>
    is_valid_time (tm_hour tm) (tm_min tm) (tm_sec tm)"
  by (simp add: OPENSSL_tm_to_posix_def posix_time_from_utc_def Let_def)

lemma is_valid_dateD:
  "is_valid_date y m d \<Longrightarrow> 0 \<le> y \<and> y \<le> 9999 \<and> 1 \<le> m \<and> m \<le> 12 \<and> 1 \<le> d \<and> d \<le> 31"
  by (auto simp: is_valid_date_iff month_days_def split: if_splits)

lemma is_valid_time_iff:
  "is_valid_time h m s \<longleftrightarrow> 0 \<le> h \<and> h \<le> 23 \<and> 0 \<le> m \<and> m \<le> 59 \<and> 0 \<le> s \<and> s \<le> 59"
  by (auto simp: is_valid_time_def)

lemma fields_get:
  assumes "length r + 10 < 2 ^ 64" "OPENSSL_tm_to_posix tm \<noteq> None"
  shows "parse_time_fields (tm_year tm + 1900) (cbs_view (fields_text tm @ r) t) = (Some tm, cbs_view r t)"
proof -
  from assms(2) have v: "is_valid_date (tm_year tm + 1900) (tm_mon tm + 1) (tm_mday tm)"
    and h: "is_valid_time (tm_hour tm) (tm_min tm) (tm_sec tm)" by (simp_all only: tm_valid_iff)
  note d = is_valid_dateD [OF v]
  have "is_valid_day (tm_year tm + 1900) (tm_mon tm + 1) (tm_mday tm)"
    using v d by (simp add: is_valid_day_iff)
  with d h [unfolded is_valid_time_iff] assms(1) show ?thesis
    by (simp add: parse_time_fields_def fields_text_def step_def)
qed

lemma fieldsE:
  assumes "parse_time_fields y (cbs_view bs t) = (Some tm, c)" and "fits bs" and "0 \<le> y" "y \<le> 9999"
  obtains r where "bs = fields_text tm @ r" "OPENSSL_tm_to_posix tm \<noteq> None" "tm_year tm + 1900 = y"
    "fits r" "c = cbs_view r t"
proof -
  from assms(1,2) obtain mo d h mi s r where
      b: "bs = two_digits mo @ two_digits d @ two_digits h @ two_digits mi @ two_digits s @ r"
        "fits r" "c = cbs_view r t"
      and v: "1 \<le> mo" "mo \<le> 12" "is_valid_day y mo d" "0 \<le> h" "h \<le> 23" "0 \<le> mi" "mi \<le> 59" "0 \<le> s" "s \<le> 59"
      and tm: "tm = \<lparr>tm_year = y - 1900, tm_mon = mo - 1, tm_mday = d, tm_hour = h, tm_min = mi, tm_sec = s\<rparr>"
    unfolding parse_time_fields_def
    by (elim two_digits_stepE) (auto split: if_splits elim!: two_digits_stepE)
  from v assms(3,4) have "is_valid_date y mo d" by (simp add: is_valid_day_iff)
  with v have "OPENSSL_tm_to_posix tm \<noteq> None" unfolding tm_valid_iff tm by (simp add: is_valid_time_iff)
  with that b tm show thesis by (simp add: fields_text_def)
qed

lemma offset_get:
  assumes "zone_ok z" "z = Zulu \<or> allow"
  shows "parse_time_offset allow (cbs_view (zone_text z) t) = (Some (zone_secs z), cbs_view [] t)"
proof -
  have g: "cbs_get_two_digits (cbs_view (two_digits n) t) = (Some n, cbs_view [] t)" if "0 \<le> n" "n \<le> 99" for n
    using two_digits_get [of "[]" n t] that by simp
  show ?thesis using assms
    by (cases z) (simp_all add: parse_time_offset_def step_def g)
qed

lemma offsetE:
  assumes "parse_time_offset allow (cbs_view bs t) = (Some off, c)" and "fits bs" and "cbs_len c = 0"
  obtains z where "bs = zone_text z" "zone_ok z" "off = zone_secs z" "z = Zulu \<or> allow"
proof -
  from assms(1) obtain b bs' where b: "bs = b # bs'" by (cases bs) (simp_all add: parse_time_offset_def step_def)
  with assms(2) have f: "fits bs'" by simp
  have c: "fits r \<Longrightarrow> c = cbs_view r t \<Longrightarrow> r = []" for r using assms(3) by (simp add: cbs_len_view_0)
  consider "b = 90" | "b = 43" | "b = 45"
    using assms(1,2) b by (auto simp: parse_time_offset_def step_def split: if_splits)
  then show thesis
  proof cases
    case 1
    with assms(1,2) b f c have "off = 0" "bs' = []" by (auto simp: parse_time_offset_def step_def)
    with b 1 that [of Zulu] show thesis by simp
  next
    case 2
    with assms(1,2) b obtain hh mm r where h: "bs' = two_digits hh @ two_digits mm @ r" "0 \<le> hh" "hh \<le> 23" "0 \<le> mm" "mm \<le> 59"
        "fits r" "off = hh * 3600 + mm * 60" "c = cbs_view r t" "allow"
      by (auto simp: parse_time_offset_def step_Some split: if_splits elim!: two_digits_stepE)
    with b 2 c that [of "Plus hh mm"] show thesis by simp
  next
    case 3
    with assms(1,2) b obtain hh mm r where h: "bs' = two_digits hh @ two_digits mm @ r" "0 \<le> hh" "hh \<le> 23" "0 \<le> mm" "mm \<le> 59"
        "fits r" "off = - (hh * 3600 + mm * 60)" "c = cbs_view r t" "allow"
      by (auto simp: parse_time_offset_def step_Some split: if_splits elim!: two_digits_stepE)
    with b 3 c that [of "Minus hh mm"] show thesis by simp
  qed
qed

section \<open>The whole parser\<close>

text \<open>Adjusting by the zone, also where the code skips the call because there is nothing to add.\<close>

lemma adjust_zone:
  assumes "OPENSSL_tm_to_posix tm = Some p"
  shows "(if s \<noteq> 0 then OPENSSL_gmtime_adj tm 0 s else Some tm) = OPENSSL_posix_to_tm (p + s)"
proof (cases "s = 0")
  case True
  with assms show ?thesis
    by (cases tm) (simp add: OPENSSL_tm_to_posix_def utc_roundtrip OPENSSL_posix_to_tm_def)
next
  case False
  with assms show ?thesis by (simp add: gmtime_adj_eq)
qed

lemma rfc5280_time_iff:
  assumes "fits bs"
  shows "CBS_parse_rfc5280_time_internal (cbs_view bs t) g allow = Some out \<longleftrightarrow>
    (\<exists>tm z p. OPENSSL_tm_to_posix tm = Some p \<and> valid_year g (tm_year tm + 1900) \<and> zone_ok z \<and>
       (z = Zulu \<or> allow) \<and> bs = time_text g tm z \<and> OPENSSL_posix_to_tm (p + zone_secs z) = Some out)"
    (is "?l \<longleftrightarrow> ?r")
proof
  assume ?l
  then obtain y c1 tm c2 off c3 where p: "parse_time_year g (cbs_view bs t) = (Some y, c1)"
      "parse_time_fields y c1 = (Some tm, c2)" "parse_time_offset allow c2 = (Some off, c3)" "cbs_len c3 = 0"
      and adj: "(if off \<noteq> 0 then OPENSSL_gmtime_adj tm 0 off else Some tm) = Some out"
    unfolding CBS_parse_rfc5280_time_internal_def step_def
    by (auto split: prod.splits option.splits if_splits)
  from p(1) assms obtain r1 where r1: "bs = year_text g y @ r1" "valid_year g y" "fits r1" "c1 = cbs_view r1 t"
    by (rule yearE)
  then have y: "0 \<le> y" "y \<le> 9999" by (auto simp: valid_year_def split: if_splits)
  from p(2) r1(3,4) y obtain r2 where r2: "r1 = fields_text tm @ r2" "OPENSSL_tm_to_posix tm \<noteq> None"
      "tm_year tm + 1900 = y" "fits r2" "c2 = cbs_view r2 t"
    by (auto elim: fieldsE)
  obtain z where z: "r2 = zone_text z" "zone_ok z" "off = zone_secs z" "z = Zulu \<or> allow"
    by (rule offsetE [OF p(3) [unfolded r2(5)] r2(4) p(4)])
  from r2(2) obtain q where "OPENSSL_tm_to_posix tm = Some q" by blast
  with r1 r2 z adj adjust_zone [OF this, of off] show ?r
    by (intro exI [of _ tm] exI [of _ z] exI [of _ q]) (simp add: time_text_def)
next
  assume ?r
  then obtain tm z p where a: "OPENSSL_tm_to_posix tm = Some p" "valid_year g (tm_year tm + 1900)" "zone_ok z"
      "z = Zulu \<or> allow" "bs = time_text g tm z" "OPENSSL_posix_to_tm (p + zone_secs z) = Some out" by blast
  have "length (zone_text z) \<le> 5" by (cases z) simp_all
  then have l: "length (fields_text tm @ zone_text z) + 4 < 2 ^ 64" "length (zone_text z) + 10 < 2 ^ 64"
    by (simp_all add: fields_text_def)
  have "OPENSSL_tm_to_posix tm \<noteq> None" using a(1) by simp
  note parts = year_get [OF l(1) a(2)] fields_get [OF l(2) this] offset_get [OF a(3,4)]
  show ?l
    unfolding CBS_parse_rfc5280_time_internal_def a(5) time_text_def
    using adjust_zone [OF a(1), of "zone_secs z"] a(6) parts
    by (auto simp: step_Some split: if_splits)
qed

text \<open>A zone of no seconds leaves the time as it is written.\<close>

lemma no_adjustment: "OPENSSL_tm_to_posix tm = Some p \<Longrightarrow> OPENSSL_posix_to_tm p = Some out \<longleftrightarrow> out = tm"
  using adjust_zone [of tm p 0] by auto

lemma rfc5280_zulu_iff:
  assumes "fits bs"
  shows "CBS_parse_rfc5280_time_internal (cbs_view bs t) g False = Some out \<longleftrightarrow>
    OPENSSL_tm_to_posix out \<noteq> None \<and> valid_year g (tm_year out + 1900) \<and> bs = time_text g out Zulu"
proof -
  have "OPENSSL_tm_to_posix out = Some p \<Longrightarrow> OPENSSL_posix_to_tm p = Some out" for p by (simp add: no_adjustment)
  then show ?thesis unfolding rfc5280_time_iff [OF assms] by (fastforce simp: no_adjustment)
qed

lemma rfc5280_time_accepts:
  assumes "fits bs" "OPENSSL_tm_to_posix tm \<noteq> None" "valid_year g (tm_year tm + 1900)" "zone_ok z" "zone_secs z = 0"
    and "bs = time_text g tm z"
  shows "CBS_parse_rfc5280_time_internal (cbs_view bs t) g True = Some tm"
proof -
  from assms(2) obtain p where p: "OPENSSL_tm_to_posix tm = Some p" by blast
  show ?thesis
    unfolding rfc5280_time_iff [OF assms(1)]
    by (intro exI [of _ tm] exI [of _ z] exI [of _ p]) (use assms p no_adjustment [OF p] in simp)
qed

lemma rfc5280_time_text:
  assumes "fits bs" "CBS_parse_rfc5280_time_internal (cbs_view bs t) g allow \<noteq> None"
  shows "\<exists>tm z. OPENSSL_tm_to_posix tm \<noteq> None \<and> valid_year g (tm_year tm + 1900) \<and> zone_ok z \<and>
    (z = Zulu \<or> allow) \<and> bs = time_text g tm z"
proof -
  from assms(2) obtain out where "CBS_parse_rfc5280_time_internal (cbs_view bs t) g allow = Some out" by blast
  then show ?thesis unfolding rfc5280_time_iff [OF assms(1)] by blast
qed

lemma valid_years:
  "OPENSSL_tm_to_posix tm \<noteq> None \<Longrightarrow> valid_year True (tm_year tm + 1900)"
  "valid_year False (tm_year tm + 1900) \<longleftrightarrow> 50 \<le> tm_year tm \<and> tm_year tm < 150"
  using tm_valid_iff [of tm] is_valid_dateD by (fastforce simp: valid_year_def)+

text \<open>
  C12: the time parsers. Without offsets, a GeneralizedTime or UTCTime is accepted exactly when its
  bytes are the two-digit fields of a valid calendar time (of the years 0 to 9999, or 1950 to
  2049), followed by \<open>Z\<close> and nothing more, and the result is that time. Where offsets are allowed, an
  accepted text ends in \<open>Z\<close> or in a sign, an hour up to 23 and a minute up to 59, and a text
  with \<open>Z\<close> or an offset of no minutes is accepted as the time it names. What other offsets do to the
  time is \<open>rfc5280_time_iff\<close>: the code adds them, where UTC is the local time less the offset.
\<close>

theorem time_parsers_utc:
  assumes "fits bs"
  shows "(CBS_parse_generalized_time (cbs_view bs t) False = Some out \<longleftrightarrow>
      OPENSSL_tm_to_posix out \<noteq> None \<and> bs = time_text True out Zulu) \<and>
    (CBS_parse_utc_time (cbs_view bs t) False = Some out \<longleftrightarrow>
      OPENSSL_tm_to_posix out \<noteq> None \<and> 50 \<le> tm_year out \<and> tm_year out < 150 \<and> bs = time_text False out Zulu) \<and>
    (OPENSSL_tm_to_posix tm \<noteq> None \<and> zone_ok z \<and> zone_secs z = 0 \<and> bs = time_text True tm z \<longrightarrow>
      CBS_parse_generalized_time (cbs_view bs t) True = Some tm) \<and>
    (OPENSSL_tm_to_posix tm \<noteq> None \<and> 50 \<le> tm_year tm \<and> tm_year tm < 150 \<and> zone_ok z \<and> zone_secs z = 0 \<and>
        bs = time_text False tm z \<longrightarrow>
      CBS_parse_utc_time (cbs_view bs t) True = Some tm) \<and>
    (CBS_parse_generalized_time (cbs_view bs t) allow \<noteq> None \<longrightarrow>
      (\<exists>tm z. OPENSSL_tm_to_posix tm \<noteq> None \<and> zone_ok z \<and> (z = Zulu \<or> allow) \<and> bs = time_text True tm z)) \<and>
    (CBS_parse_utc_time (cbs_view bs t) allow \<noteq> None \<longrightarrow>
      (\<exists>tm z. OPENSSL_tm_to_posix tm \<noteq> None \<and> 50 \<le> tm_year tm \<and> tm_year tm < 150 \<and> zone_ok z \<and>
         (z = Zulu \<or> allow) \<and> bs = time_text False tm z))"
  using rfc5280_time_accepts [OF assms, of tm _ z] rfc5280_time_text [OF assms]
  unfolding CBS_parse_generalized_time_def CBS_parse_utc_time_def rfc5280_zulu_iff [OF assms]
  by (intro conjI impI) (metis valid_years)+

text \<open>Noon of the first day of 2020.\<close>

theorem time_parsers_utc_witness:
  "CBS_parse_generalized_time (cbs_view (map of_nat [50, 48, 50, 48, 48, 49, 48, 49, 49, 50, 48, 48, 48, 48, 90]) []) False =
     Some \<lparr>tm_year = 120, tm_mon = 0, tm_mday = 1, tm_hour = 12, tm_min = 0, tm_sec = 0\<rparr>"
proof (subst conjunct1 [OF time_parsers_utc], simp, intro conjI)
  show "OPENSSL_tm_to_posix \<lparr>tm_year = 120, tm_mon = 0, tm_mday = 1, tm_hour = 12, tm_min = 0, tm_sec = 0\<rparr> \<noteq> None"
    by code_simp
  show "map of_nat [50, 48, 50, 48, 48, 49, 48, 49, 49, 50, 48, 48, 48, 48, 90] =
    time_text True \<lparr>tm_year = 120, tm_mon = 0, tm_mday = 1, tm_hour = 12, tm_min = 0, tm_sec = 0\<rparr> Zulu"
    by code_simp
qed

end
