(* ===== verification/Conf.thy ===== *)
theory Conf
  imports Cbs StackProps LhashProps
begin

text \<open>
  Configuration files (crypto/conf/conf.c, with the buffers of crypto/buf/buf.c and the line
  reader of a memory BIO in crypto/bio/bio_mem.c). A \<open>char *\<close> into a NUL-terminated string
  is the list of bytes from it up to the terminator, so \<open>*p\<close> is \<open>peek p\<close>, \<open>p + n\<close> is
  \<open>drop n p\<close>, two pointers into the same string are equal when as much is left behind them,
  and \<open>*end = '\0'\<close> turns \<open>start\<close> into \<open>upto_ptr start end\<close>. \<open>A\<close> says which
  allocations succeed.
\<close>

type_synonym cstr = "u8 list"

definition peek :: "cstr \<Rightarrow> u8" where
  "peek p = (case p of [] \<Rightarrow> 0 | c # _ \<Rightarrow> c)"

definition upto_ptr :: "cstr \<Rightarrow> cstr \<Rightarrow> cstr" where
  "upto_ptr start end_ptr = take (length start - length end_ptr) start"

text \<open>\<open>strcmp\<close> of the C library compares the bytes as unsigned; only the sign of its result is specified.\<close>

fun strcmp :: "cstr \<Rightarrow> cstr \<Rightarrow> int" where
  "strcmp [] [] = 0"
| "strcmp [] (b # bs) = (if b = 0 then 0 else - 1)"
| "strcmp (a # as) [] = (if a = 0 then 0 else 1)"
| "strcmp (a # as) (b # bs) =
     (if a < b then - 1 else if a > b then 1 else if a = 0 then 0 else strcmp as bs)"

section \<open>Buffers (crypto/buf/buf.c)\<close>

record buf_mem_st =
  bm_length :: size_t
  bm_data :: "u8 list"
  bm_max :: size_t

definition BUF_MEM_new :: "(size_t \<Rightarrow> bool) \<Rightarrow> buf_mem_st option" where
  \<comment> \<open>\<open>sizeof(BUF_MEM)\<close> is 24\<close>
  "BUF_MEM_new A = (if A 24 then Some \<lparr>bm_length = 0, bm_data = [], bm_max = 0\<rparr> else None)"

definition BUF_MEM_reserve :: "(size_t \<Rightarrow> bool) \<Rightarrow> size_t \<Rightarrow> (buf_mem_st, unit) op" where
  "BUF_MEM_reserve A cap buf =
     (if bm_max buf \<ge> cap then (Some (), buf)
      else let n = cap + 3 in
        if n < cap then (None, buf)
        else let n = n div 3; alloc_size = n * 4 in
          if alloc_size div 4 \<noteq> n then (None, buf)
          else case OPENSSL_realloc A (bm_data buf) alloc_size of
            None \<Rightarrow> (None, buf)
          | Some new_buf \<Rightarrow> (Some (), buf\<lparr>bm_data := new_buf, bm_max := alloc_size\<rparr>))"

definition BUF_MEM_grow :: "(size_t \<Rightarrow> bool) \<Rightarrow> size_t \<Rightarrow> buf_mem_st \<Rightarrow> size_t \<times> buf_mem_st" where
  "BUF_MEM_grow A len buf =
     (case BUF_MEM_reserve A len buf of (None, buf) \<Rightarrow> (0, buf) | (Some _, buf) \<Rightarrow>
        let l = unat (bm_length buf);
            buf = (if bm_length buf < len
                   then buf\<lparr>bm_data := take l (bm_data buf) @ replicate (unat (len - bm_length buf)) 0 @
                                        drop (unat len) (bm_data buf)\<rparr>
                   else buf)
        in (len, buf\<lparr>bm_length := len\<rparr>))"

definition BUF_MEM_grow_clean :: "(size_t \<Rightarrow> bool) \<Rightarrow> size_t \<Rightarrow> buf_mem_st \<Rightarrow> size_t \<times> buf_mem_st" where
  "BUF_MEM_grow_clean A len buf = BUF_MEM_grow A len buf"

definition BUF_MEM_append :: "(size_t \<Rightarrow> bool) \<Rightarrow> u8 list \<Rightarrow> size_t \<Rightarrow> (buf_mem_st, unit) op" where
  "BUF_MEM_append A inp len buf =
     (if len = 0 then (Some (), buf)
      else let new_len = bm_length buf + len in
        if new_len < len then (None, buf)
        else case BUF_MEM_reserve A new_len buf of (None, buf) \<Rightarrow> (None, buf) | (Some _, buf) \<Rightarrow>
          let l = unat (bm_length buf) in
          (Some (), buf\<lparr>bm_data := take l (bm_data buf) @ take (unat len) inp @ drop (unat new_len) (bm_data buf),
                        bm_length := new_len\<rparr>))"

section \<open>Values, sections and the tables\<close>

text \<open>
  A \<open>CONF_VALUE *\<close> in a table is its address with what it points to, which the code does not
  change once the value is in a table. A section's name does not change either, but its stack
  does: \<open>cs_values\<close> is the address of the stack in \<open>conf_stacks\<close>. \<open>conf_fresh\<close> is the
  next unused address.
\<close>

record CONF_VALUE =
  cv_addr :: nat
  cv_section :: cstr
  cv_name :: cstr
  cv_value :: cstr

record CONF_SECTION =
  cs_name :: cstr
  cs_values :: nat

type_synonym value_stack = "(CONF_VALUE, unit) stack"

record conf_st =
  conf_values :: "CONF_VALUE lhash_st"
  conf_sections :: "CONF_SECTION lhash_st"
  conf_stacks :: "nat \<Rightarrow> value_stack"
  conf_fresh :: nat

definition conf_section_hash :: "CONF_SECTION \<Rightarrow> u32" where
  "conf_section_hash s = OPENSSL_strhash (cs_name s)"

definition conf_section_cmp :: "CONF_SECTION \<Rightarrow> CONF_SECTION \<Rightarrow> int" where
  "conf_section_cmp a b = strcmp (cs_name a) (cs_name b)"

definition conf_value_hash :: "CONF_VALUE \<Rightarrow> u32" where
  "conf_value_hash v =
     (let section_hash = OPENSSL_strhash (cv_section v); name_hash = OPENSSL_strhash (cv_name v)
      in push_bit 2 section_hash XOR name_hash)"

definition conf_value_cmp :: "CONF_VALUE \<Rightarrow> CONF_VALUE \<Rightarrow> int" where
  "conf_value_cmp a b =
     (let c = strcmp (cv_section a) (cv_section b) in if c \<noteq> 0 then c else strcmp (cv_name a) (cv_name b))"

text \<open>\<open>method\<close> must be NULL. The sizes are those of \<open>CONF\<close>, \<open>_LHASH\<close>, \<open>LHASH_ITEM\<close>,
  \<open>CONF_SECTION\<close>, \<open>OPENSSL_STACK\<close> and \<open>CONF_VALUE\<close> on a 64-bit target.\<close>

definition NCONF_new :: "(size_t \<Rightarrow> bool) \<Rightarrow> bool \<Rightarrow> conf_st option" where
  "NCONF_new A method_is_null =
     (if \<not> method_is_null then None
      else if \<not> A 16 then None
      else case (OPENSSL_lh_new A 48 conf_section_hash conf_section_cmp, OPENSSL_lh_new A 48 conf_value_hash conf_value_cmp) of
        (Some s, Some v) \<Rightarrow> Some \<lparr>conf_values = v, conf_sections = s, conf_stacks = (\<lambda>_. None), conf_fresh = 0\<rparr>
      | _ \<Rightarrow> None)"

definition NCONF_new_section :: "(size_t \<Rightarrow> bool) \<Rightarrow> cstr \<Rightarrow> (conf_st, CONF_SECTION) op" where
  "NCONF_new_section A section conf =
     (if \<not> A 16 then (None, conf)
      else case (OPENSSL_strdup A (Some section), OPENSSL_sk_new_null A 40) of
        (Some name, Some st) \<Rightarrow>
          let s = \<lparr>cs_name = name, cs_values = conf_fresh conf\<rparr>;
              conf' = conf\<lparr>conf_stacks := (conf_stacks conf)(conf_fresh conf := Some st),
                           conf_fresh := Suc (conf_fresh conf)\<rparr>
          in (case OPENSSL_lh_insert A 24 s (conf_sections conf) of
                (False, _, _) \<Rightarrow> (None, conf)
              | (True, old_section, lh) \<Rightarrow>
                  (Some s, conf'\<lparr>conf_sections := lh,
                     conf_stacks := (case old_section of None \<Rightarrow> conf_stacks conf'
                       | Some old \<Rightarrow> (conf_stacks conf')(cs_values old := None))\<rparr>))
      | _ \<Rightarrow> (None, conf))"

definition get_section :: "conf_st \<Rightarrow> cstr \<Rightarrow> CONF_SECTION option" where
  "get_section conf section =
     OPENSSL_lh_retrieve (conf_sections conf) \<lparr>cs_name = section, cs_values = 0\<rparr>"

definition NCONF_get_section :: "conf_st \<Rightarrow> cstr \<Rightarrow> value_stack" where
  "NCONF_get_section conf section =
     (case get_section conf section of None \<Rightarrow> None | Some s \<Rightarrow> conf_stacks conf (cs_values s))"

text \<open>The bytes of \<open>"default"\<close>.\<close>

definition kDefaultSectionName :: cstr where
  "kDefaultSectionName = [100, 101, 102, 97, 117, 108, 116]"

definition NCONF_get_string :: "conf_st \<Rightarrow> cstr option \<Rightarrow> cstr \<Rightarrow> cstr option" where
  "NCONF_get_string conf section name =
     (let section = (case section of None \<Rightarrow> kDefaultSectionName | Some s \<Rightarrow> s) in
      case OPENSSL_lh_retrieve (conf_values conf)
             \<lparr>cv_addr = 0, cv_section = section, cv_name = name, cv_value = []\<rparr> of
        None \<Rightarrow> None
      | Some value \<Rightarrow> Some (cv_value value))"

text \<open>\<open>value\<close> is not in a table yet; \<open>CONF_VALUE_new\<close> has chosen its address.\<close>

definition add_string :: "(size_t \<Rightarrow> bool) \<Rightarrow> CONF_SECTION \<Rightarrow> CONF_VALUE \<Rightarrow> (conf_st, unit) op" where
  "add_string A section value conf =
     (case OPENSSL_strdup A (Some (cs_name section)) of None \<Rightarrow> (None, conf) | Some name \<Rightarrow>
        let value = value\<lparr>cv_section := name\<rparr>; a = cs_values section;
            (n, st) = OPENSSL_sk_push A (conf_stacks conf a) (Some value);
            conf = conf\<lparr>conf_stacks := (conf_stacks conf)(a := st)\<rparr>
        in if n = 0 then (None, conf)
           else case OPENSSL_lh_insert A 24 value (conf_values conf) of
             (False, _, _) \<Rightarrow>
               (None, conf\<lparr>conf_stacks := (conf_stacks conf)(a := snd (OPENSSL_sk_pop st))\<rparr>)
           | (True, old_value, lh) \<Rightarrow>
               let conf = conf\<lparr>conf_values := lh\<rparr> in
               (Some (), case old_value of None \<Rightarrow> conf
                 | Some old \<Rightarrow> conf\<lparr>conf_stacks := (conf_stacks conf)
                     (a := snd (OPENSSL_sk_delete_ptr st (Some old)))\<rparr>))"

section \<open>Scanning a line\<close>

definition is_comment :: "u8 \<Rightarrow> bool" where
  "is_comment c = (c = 35)"

definition is_quote :: "u8 \<Rightarrow> bool" where
  "is_quote c = (c = 34 \<or> c = 39 \<or> c = 96)"

definition is_esc :: "u8 \<Rightarrow> bool" where
  "is_esc c = (c = 92)"

definition is_conf_ws :: "u8 \<Rightarrow> bool" where
  "is_conf_ws c = (c = 32 \<or> c = 9 \<or> c = 13 \<or> c = 10)"

text \<open>The symbols are \<open>_ ! . % & * + , / ; ? @ ^ ~ | -\<close>.\<close>

definition is_name_char :: "u8 \<Rightarrow> bool" where
  "is_name_char c = (OPENSSL_isalnum (sint c) \<or> c = 95 \<or> c = 33 \<or> c = 46 \<or> c = 37 \<or> c = 38 \<or> c = 42 \<or>
     c = 43 \<or> c = 44 \<or> c = 47 \<or> c = 59 \<or> c = 63 \<or> c = 64 \<or> c = 94 \<or> c = 126 \<or> c = 124 \<or> c = 45)"

fun eat_ws :: "cstr \<Rightarrow> cstr" where
  "eat_ws [] = []"
| "eat_ws (c # p) = (if is_conf_ws c then eat_ws p else c # p)"

definition scan_esc :: "cstr \<Rightarrow> cstr" where
  "scan_esc p = (if peek (drop 1 p) = 0 then drop 1 p else drop 2 p)"

function eat_name :: "cstr \<Rightarrow> cstr" where
  "eat_name p =
     (if is_esc (peek p) then eat_name (scan_esc p)
      else if \<not> is_name_char (peek p) then p
      else eat_name (drop 1 p))"
  by pat_completeness auto
termination
  by (relation "measure length")
    (auto simp: peek_def scan_esc_def is_esc_def is_name_char_def OPENSSL_isalnum_def OPENSSL_isalpha_def
      OPENSSL_isdigit_def split: list.splits)

declare eat_name.simps [simp del]

fun quote_end :: "u8 \<Rightarrow> cstr \<Rightarrow> cstr" where
  "quote_end q [] = []"
| "quote_end q (c # p) =
     (if c = q then p
      else if is_esc c then quote_end q (drop 1 p)
      else quote_end q p)"

definition scan_quote :: "cstr \<Rightarrow> cstr" where
  "scan_quote p = quote_end (peek p) (drop 1 p)"

text \<open>At the end of the string \<open>drop 1\<close> does not move: the escape was the last byte.\<close>

text \<open>\<open>clear_comments\<close> returns the string as it is left; its second loop starts at \<open>p\<close>.\<close>

lemma quote_end_length: "length (quote_end q p) \<le> length p"
  by (induction q p rule: quote_end.induct) (auto intro: le_SucI order_trans)

function comments_loop :: "cstr \<Rightarrow> cstr" where
  "comments_loop p =
     (if is_comment (peek p) then []
      else if is_quote (peek p) then upto_ptr p (scan_quote p) @ comments_loop (scan_quote p)
      else if is_esc (peek p) then upto_ptr p (scan_esc p) @ comments_loop (scan_esc p)
      else if p = [] then []
      else hd p # comments_loop (drop 1 p))"
  by pat_completeness auto
termination
proof (relation "measure length")
  fix p :: cstr
  assume "is_quote (peek p)"
  then obtain c r where "p = c # r" by (cases p) (auto simp: peek_def is_quote_def)
  then show "(scan_quote p, p) \<in> measure length"
    using quote_end_length [of c r] by (simp add: scan_quote_def peek_def)
next
  fix p :: cstr
  assume "is_esc (peek p)"
  then show "(scan_esc p, p) \<in> measure length"
    by (cases p) (auto simp: peek_def is_esc_def scan_esc_def)
qed auto

declare comments_loop.simps [simp del]

definition clear_comments :: "cstr \<Rightarrow> cstr" where
  "clear_comments p = upto_ptr p (eat_ws p) @ comments_loop (eat_ws p)"

text \<open>
  The quoted part of \<open>str_copy\<close>: the bytes it copies and the closing quote or terminator it
  stops at.
\<close>

fun quote_copy :: "u8 \<Rightarrow> cstr \<Rightarrow> cstr \<times> cstr" where
  "quote_copy q [] = ([], [])"
| "quote_copy q (c # from_ptr) =
     (if c = q then ([], c # from_ptr)
      else if is_esc c then
        if from_ptr = [] then ([], [])
        else (case quote_copy q (drop 1 from_ptr) of (w, r) \<Rightarrow> (hd from_ptr # w, r))
      else (case quote_copy q from_ptr of (w, r) \<Rightarrow> (c # w, r)))"

lemma quote_copy_length: "length (snd (quote_copy q p)) \<le> length p"
  by (induction q p rule: quote_copy.induct) (auto simp: case_prod_beta intro: le_SucI order_trans)

definition esc_char :: "u8 \<Rightarrow> u8" where
  "esc_char v = (if v = 114 then 13 else if v = 110 then 10 else if v = 98 then 8 else if v = 116 then 9 else v)"

text \<open>The loop of \<open>str_copy\<close> over the source: what it writes to the buffer, or \<open>None\<close> for the
  error on \<open>$\<close>.\<close>

function str_copy_loop :: "cstr \<Rightarrow> cstr option" where
  "str_copy_loop from_ptr =
     (if is_quote (peek from_ptr) then
        (case quote_copy (peek from_ptr) (drop 1 from_ptr) of (w, r) \<Rightarrow>
           map_option ((@) w) (str_copy_loop (if peek r = peek from_ptr then drop 1 r else r)))
      else if is_esc (peek from_ptr) then
        (case drop 1 from_ptr of [] \<Rightarrow> Some []
         | v # r \<Rightarrow> map_option ((#) (esc_char v)) (str_copy_loop r))
      else if from_ptr = [] then Some []
      else if peek from_ptr = 36 then None
      else map_option ((#) (hd from_ptr)) (str_copy_loop (drop 1 from_ptr)))"
  by pat_completeness auto
termination
proof (relation "measure length")
  fix p w r
  assume "is_quote (peek p)" "(w, r) = quote_copy (peek p) (drop 1 p)"
  moreover from this(2) have "r = snd (quote_copy (peek p) (drop 1 p))" by (metis snd_conv)
  ultimately show "((if peek r = peek p then drop 1 r else r), p) \<in> measure length"
    using quote_copy_length [of "peek p" "drop 1 p"] by (cases p) (auto simp: peek_def is_quote_def)
next
  fix p v r
  assume "drop 1 p = v # r"
  then show "(r, p) \<in> measure length" by (cases p) auto
qed auto

declare str_copy_loop.simps [simp del]

definition str_copy :: "(size_t \<Rightarrow> bool) \<Rightarrow> cstr \<Rightarrow> cstr option" where
  "str_copy A from_ptr =
     (case BUF_MEM_new A of None \<Rightarrow> None | Some buf \<Rightarrow>
        if fst (BUF_MEM_grow A (of_nat (strlen from_ptr) + 1) buf) = 0 then None
        else str_copy_loop from_ptr)"

section \<open>Loading\<close>

text \<open>The variables \<open>section\<close> and \<open>sv\<close> of \<open>NCONF_load_bio\<close> with the configuration.\<close>

record load_st =
  ld_conf :: conf_st
  ld_section :: cstr
  ld_sv :: CONF_SECTION

lemma eat_ws_length: "length (eat_ws p) \<le> length p"
  by (induction p) auto

lemma scan_esc_length: "length (scan_esc p) \<le> length p"
  by (simp add: scan_esc_def)

lemma eat_name_length: "length (eat_name p) \<le> length p"
proof (induction p rule: eat_name.induct)
  case (1 p)
  with scan_esc_length [of p] show ?case by (subst eat_name.simps) (auto intro: order_trans)
qed

text \<open>The loop at the label \<open>again\<close>: where the name of a section ends.\<close>

function section_end :: "cstr \<Rightarrow> cstr option" where
  "section_end ss =
     (let end_ptr = eat_name ss; p = eat_ws end_ptr in
      if peek p \<noteq> 93 then
        if peek p \<noteq> 0 \<and> length ss \<noteq> length p then section_end p else None
      else Some end_ptr)"
  by pat_completeness auto
termination
proof (relation "measure length")
  fix ss e p :: cstr
  assume "e = eat_name ss" "p = eat_ws e" "peek p \<noteq> 0 \<and> length ss \<noteq> length p"
  then show "(p, ss) \<in> measure length"
    using eat_ws_length [of e] eat_name_length [of ss] by simp
qed simp

declare section_end.simps [simp del]

definition find_section :: "(size_t \<Rightarrow> bool) \<Rightarrow> cstr \<Rightarrow> (conf_st, CONF_SECTION) op" where
  "find_section A section conf =
     (case get_section conf section of Some s \<Rightarrow> (Some s, conf) | None \<Rightarrow> NCONF_new_section A section conf)"

definition load_section :: "(size_t \<Rightarrow> bool) \<Rightarrow> cstr \<Rightarrow> (load_st, unit) op" where
  "load_section A s st =
     (let start = eat_ws s in
      case section_end start of None \<Rightarrow> (None, st) | Some end_ptr \<Rightarrow>
        (case str_copy A (upto_ptr start end_ptr) of None \<Rightarrow> (None, st) | Some section \<Rightarrow>
          (case find_section A section (ld_conf st) of
             (None, conf) \<Rightarrow> (None, st\<lparr>ld_conf := conf, ld_section := section\<rparr>)
           | (Some sv, conf) \<Rightarrow> (Some (), st\<lparr>ld_conf := conf, ld_section := section, ld_sv := sv\<rparr>))))"

text \<open>
  Trimming the end of a value: the index where \<open>p\<close> stops. For an empty value \<open>p\<close> runs back to
  before \<open>start\<close> and the terminator it writes there does not change the string at \<open>start\<close>.
\<close>

fun trim_loop :: "cstr \<Rightarrow> nat \<Rightarrow> nat" where
  "trim_loop start 0 = 0"
| "trim_loop start (Suc i) = (if is_conf_ws (start ! Suc i) then trim_loop start i else Suc i)"

definition trim_end :: "cstr \<Rightarrow> cstr" where
  "trim_end start = (if start = [] then [] else take (Suc (trim_loop start (length start - 1))) start)"

definition load_value :: "(size_t \<Rightarrow> bool) \<Rightarrow> cstr \<Rightarrow> (load_st, unit) op" where
  "load_value A s st =
     (let end_ptr = eat_name s;
          (psection, pname, end_ptr) =
            (if peek end_ptr = 58 \<and> peek (drop 1 end_ptr) = 58
             then (upto_ptr s end_ptr, drop 2 end_ptr, eat_name (drop 2 end_ptr))
             else (ld_section st, s, end_ptr));
          p = eat_ws end_ptr
      in if peek p \<noteq> 61 then (None, st)
      else let start = eat_ws (drop 1 p) in
        if \<not> A 24 then (None, st)
        else
          let conf = ld_conf st; addr = conf_fresh conf;
              st = st\<lparr>ld_conf := conf\<lparr>conf_fresh := Suc addr\<rparr>\<rparr>
          in case OPENSSL_strdup A (Some (upto_ptr pname end_ptr)) of None \<Rightarrow> (None, st) | Some name \<Rightarrow>
            (case str_copy A (trim_end start) of None \<Rightarrow> (None, st) | Some val \<Rightarrow>
              (case (if strcmp psection (ld_section st) \<noteq> 0 then find_section A psection (ld_conf st)
                     else (Some (ld_sv st), ld_conf st)) of
                 (None, conf) \<Rightarrow> (None, st\<lparr>ld_conf := conf\<rparr>)
               | (Some tv, conf) \<Rightarrow>
                   (case add_string A tv \<lparr>cv_addr = addr, cv_section = [], cv_name = name, cv_value = val\<rparr> conf of
                      (r, conf) \<Rightarrow> (r, st\<lparr>ld_conf := conf\<rparr>)))))"

definition load_line :: "(size_t \<Rightarrow> bool) \<Rightarrow> cstr \<Rightarrow> (load_st, unit) op" where
  "load_line A buf st =
     (let s = eat_ws (clear_comments buf) in
      if s = [] then (Some (), st)
      else if peek s = 91 then load_section A (drop 1 s) st
      else load_value A s st)"

text \<open>
  \<open>BIO_gets\<close> is the parameter \<open>gets\<close>: from the BIO and the size of the buffer, the bytes it
  stores before its terminator (none on an error) and the BIO. \<open>mem_gets\<close> is the one of a memory
  BIO, whose state is the bytes left in it.
\<close>

definition CONFBUFSIZE :: nat where
  "CONFBUFSIZE = 512"

definition mem_gets :: "u8 list \<Rightarrow> nat \<Rightarrow> u8 list \<times> u8 list" where
  "mem_gets b sz =
     (if sz = 0 then ([], b)
      else
        let r = min (sz - 1) (length b);
            r = (case OPENSSL_memchr b 10 (of_nat r) of None \<Rightarrow> r | Some newline \<Rightarrow> newline + 1)
        in (take r b, drop r b))"

definition poke :: "nat \<Rightarrow> u8 list \<Rightarrow> u8 list \<Rightarrow> u8 list" where
  "poke n bs data = take n data @ bs @ drop (n + length bs) data"

fun eol_loop :: "u8 list \<Rightarrow> nat \<Rightarrow> nat" where
  "eol_loop p 0 = 0"
| "eol_loop p (Suc i) = (if p ! i \<noteq> 13 \<and> p ! i \<noteq> 10 then Suc i else eol_loop p i)"

text \<open>
  One turn of the main loop up to the test of \<open>again\<close>: the buffer cannot grow, the BIO is at
  its end, the line goes on, or a whole line is in the buffer.
\<close>

datatype 'b read =
  Fail
| Eof
| More buf_mem_st nat nat 'b
| Line cstr buf_mem_st nat 'b

definition read_chunk :: "(size_t \<Rightarrow> bool) \<Rightarrow> ('b \<Rightarrow> nat \<Rightarrow> u8 list \<times> 'b) \<Rightarrow> buf_mem_st \<Rightarrow>
    nat \<Rightarrow> bool \<Rightarrow> nat \<Rightarrow> 'b \<Rightarrow> 'b read" where
  "read_chunk A gets buff bufnum again eline bio =
     (case BUF_MEM_grow A (of_nat (bufnum + CONFBUFSIZE)) buff of (n, buff) \<Rightarrow>
      if n = 0 then Fail
      else case gets bio (CONFBUFSIZE - 1) of (line, bio) \<Rightarrow>
        let data = poke (bufnum + CONFBUFSIZE - 1) [0] (poke bufnum (line @ [0]) (bm_data buff));
            p = drop bufnum data; ii = strlen p
        in if ii = 0 \<and> \<not> again then Eof
        else
          let i = eol_loop p ii; again = (ii \<noteq> 0 \<and> i = ii);
              (data, eline) = (if again then (data, eline) else (poke (bufnum + i) [0] data, eline + 1));
              bufnum = bufnum + i;
              (bufnum, again) =
                (if bufnum \<ge> 1 \<and> is_esc (data ! (bufnum - 1)) \<and> (bufnum \<le> 1 \<or> \<not> is_esc (data ! (bufnum - 2)))
                 then (bufnum - 1, True) else (bufnum, again));
              buff = buff\<lparr>bm_data := data\<rparr>
          in if again then More buff bufnum eline bio
          else Line (take (strlen data) data) buff eline bio)"

text \<open>
  The main loop. The result is the status, \<open>eline\<close> and the state; \<open>None\<close> is a BIO that never
  ends. The writes of the line parser to the buffer are of no effect, since the next line
  overwrites it up to its terminator. \<open>bufnum\<close> is an \<open>int\<close> of the code and does not overflow
  for lines shorter than 2 GB.
\<close>

partial_function (option) load_loop :: "(size_t \<Rightarrow> bool) \<Rightarrow> ('b \<Rightarrow> nat \<Rightarrow> u8 list \<times> 'b) \<Rightarrow> buf_mem_st \<Rightarrow>
    nat \<Rightarrow> bool \<Rightarrow> nat \<Rightarrow> load_st \<Rightarrow> 'b \<Rightarrow> (bool \<times> nat \<times> load_st) option" where
  "load_loop A gets buff bufnum again eline st bio =
     (case read_chunk A gets buff bufnum again eline bio of
        Fail \<Rightarrow> Some (False, eline, st)
      | Eof \<Rightarrow> Some (True, eline, st)
      | More buff bufnum eline bio \<Rightarrow> load_loop A gets buff bufnum True eline st bio
      | Line buf buff eline bio \<Rightarrow>
          (case load_line A buf st of
             (None, st) \<Rightarrow> Some (False, eline, st)
           | (Some _, st) \<Rightarrow> load_loop A gets buff 0 False eline st bio))"

definition NCONF_load_bio :: "(size_t \<Rightarrow> bool) \<Rightarrow> ('b \<Rightarrow> nat \<Rightarrow> u8 list \<times> 'b) \<Rightarrow> conf_st \<Rightarrow> 'b \<Rightarrow>
    (bool \<times> nat \<times> conf_st) option" where
  "NCONF_load_bio A gets conf bio =
     (case BUF_MEM_new A of None \<Rightarrow> Some (False, 0, conf) | Some buff \<Rightarrow>
        (case OPENSSL_strdup A (Some kDefaultSectionName) of None \<Rightarrow> Some (False, 0, conf) | Some section \<Rightarrow>
          (case NCONF_new_section A section conf of (None, conf) \<Rightarrow> Some (False, 0, conf) | (Some sv, conf) \<Rightarrow>
             (case load_loop A gets buff 0 False 0 \<lparr>ld_conf = conf, ld_section = section, ld_sv = sv\<rparr> bio of
                None \<Rightarrow> None
              | Some (ok, eline, st) \<Rightarrow> Some (ok, eline, ld_conf st)))))"

section \<open>Lists\<close>

text \<open>\<open>strchr\<close> of the C library, which finds the terminator when it is asked for it.\<close>

definition strchr :: "cstr \<Rightarrow> u8 \<Rightarrow> nat option" where
  "strchr s c = (let i = length (takeWhile (\<lambda>d. d \<noteq> c) s) in if i < length s \<or> c = 0 then Some i else None)"

fun skip_space :: "cstr \<Rightarrow> cstr" where
  "skip_space [] = []"
| "skip_space (c # s) = (if OPENSSL_isspace (uint c) then skip_space s else c # s)"

text \<open>The element ends where \<open>tmpend\<close> stops, \<open>i\<close> being \<open>tmpend - lstart\<close>.\<close>

fun space_loop :: "cstr \<Rightarrow> nat \<Rightarrow> nat" where
  "space_loop lstart 0 = 0"
| "space_loop lstart (Suc i) = (if OPENSSL_isspace (uint (lstart ! Suc i)) then space_loop lstart i else Suc i)"

lemma skip_space_length: "length (skip_space s) \<le> length s"
  by (induction s) auto

lemma strchr_skip_less:
  "i < length (if b then skip_space s else s) \<Longrightarrow>
     length (drop (i + 1) (if b then skip_space s else s)) < length s"
  using skip_space_length [of s] by (cases b) simp_all

text \<open>
  The callback gets the element, or \<open>None\<close> for a NULL of length 0, and a state of its own. The result
  is \<open>None\<close> when the loop runs on behind the terminator of the list, which a separator NUL makes it do.
\<close>

function parse_list_loop :: "cstr \<Rightarrow> u8 \<Rightarrow> bool \<Rightarrow> (cstr option \<Rightarrow> 'w \<Rightarrow> int \<times> 'w) \<Rightarrow> 'w \<Rightarrow> (int \<times> 'w) option" where
  "parse_list_loop lst sep remove_whitespace list_cb w =
     (let lstart = (if remove_whitespace then skip_space lst else lst);
          p = strchr lstart sep;
          (r, w) =
            (if p = Some 0 \<or> lstart = [] then list_cb None w
             else
               let tmpend = (case p of Some i \<Rightarrow> i - 1 | None \<Rightarrow> length lstart - 1);
                   tmpend = (if remove_whitespace then space_loop lstart tmpend else tmpend)
               in list_cb (Some (take (tmpend + 1) lstart)) w)
      in if r \<le> 0 then Some (r, w)
      else case p of None \<Rightarrow> Some (1, w)
        | Some i \<Rightarrow>
            if i < length lstart then parse_list_loop (drop (i + 1) lstart) sep remove_whitespace list_cb w
            else None)"
  by pat_completeness auto
termination
  by (relation "measure (\<lambda>(lst, _). length lst)")
    (simp_all only: wf_measure in_measure prod.case strchr_skip_less)

declare parse_list_loop.simps [simp del]

definition CONF_parse_list :: "cstr option \<Rightarrow> u8 \<Rightarrow> bool \<Rightarrow> (cstr option \<Rightarrow> 'w \<Rightarrow> int \<times> 'w) \<Rightarrow> 'w \<Rightarrow> (int \<times> 'w) option" where
  "CONF_parse_list lst sep remove_whitespace list_cb w =
     (case lst of None \<Rightarrow> Some (0, w) | Some lst \<Rightarrow> parse_list_loop lst sep remove_whitespace list_cb w)"

end
