(* ===== verification/ConfProps.thy ===== *)
theory ConfProps
  imports Conf
begin

text \<open>
  The tables of a configuration: the hash tables' interface is provided by the comparison of
  names, and the invariant \<open>conf_ok\<close> of sections, values and stacks that every operation keeps.
\<close>

section \<open>Strings\<close>

lemma strcmp_eq_0: "strcmp a b = 0 \<longleftrightarrow> takeWhile (\<lambda>c. c \<noteq> 0) a = takeWhile (\<lambda>c. c \<noteq> 0) b"
  by (induction a b rule: strcmp.induct) (auto simp: not_less)

lemma takeWhile_nonzero: "0 \<notin> set s \<Longrightarrow> takeWhile (\<lambda>c. c \<noteq> 0) s = s"
  by (subst takeWhile_eq_all_conv) auto

lemma strcmp_eq_0_iff: "0 \<notin> set a \<Longrightarrow> 0 \<notin> set b \<Longrightarrow> strcmp a b = 0 \<longleftrightarrow> a = b"
  by (simp add: strcmp_eq_0 takeWhile_nonzero)

lemma strlen_takeWhile: "strlen s = length (takeWhile (\<lambda>c. c \<noteq> 0) s)"
  by (induction s) auto

lemma strlen_nonzero: "0 \<notin> set s \<Longrightarrow> strlen s = length s"
  by (simp add: strlen_takeWhile takeWhile_nonzero)

lemma take_length_takeWhile: "n \<le> length (takeWhile P s) \<Longrightarrow> take n s = take n (takeWhile P s)"
  by (metis length_takeWhile_le min.absorb1 take_take takeWhile_eq_take)

lemma strhash_takeWhile: "OPENSSL_strhash s = OPENSSL_strhash (takeWhile (\<lambda>c. c \<noteq> 0) s)"
proof -
  have "unat (of_nat n :: size_t) \<le> n" for n
    by (simp add: unat_of_nat)
  from take_length_takeWhile [OF this [of "strlen s", unfolded strlen_takeWhile [of s]]]
  show ?thesis
    unfolding OPENSSL_strhash_def OPENSSL_hash32_def strlen_takeWhile by (simp add: takeWhile_idem)
qed

lemma strhash_cong: "strcmp a b = 0 \<Longrightarrow> OPENSSL_strhash a = OPENSSL_strhash b"
  by (metis strcmp_eq_0 strhash_takeWhile)

lemma strdup_Some:
  assumes "OPENSSL_strdup A (Some s) = Some n" "0 \<notin> set s" "length s + 1 < 2 ^ 64"
  shows "n = s"
proof -
  have "unat (of_nat (length s) + 1 :: size_t) = length s + 1"
    using assms(3) unat_of_nat_size [of "length s + 1"] by (simp add: add.commute)
  with assms show ?thesis
    by (auto simp: OPENSSL_strdup_def OPENSSL_memdup_def strlen_nonzero split: if_splits)
qed

lemma strdup_all: "0 \<notin> set s \<Longrightarrow> length s + 1 < 2 ^ 64 \<Longrightarrow> OPENSSL_strdup (\<lambda>_. True) (Some s) = Some s"
proof -
  assume a: "0 \<notin> set s" "length s + 1 < 2 ^ 64"
  then have u: "unat (of_nat (length s) + 1 :: size_t) = length s + 1"
    using unat_of_nat_size [of "length s + 1"] by (simp add: add.commute)
  then have "of_nat (length s) + 1 \<noteq> (0 :: size_t)" by (metis Suc_eq_plus1 nat.distinct(1) unat_0)
  with u a show ?thesis
    by (simp add: OPENSSL_strdup_def OPENSSL_memdup_def strlen_nonzero)
qed

section \<open>The interface of the tables, provided by the names\<close>

interpretation section_key: hash_key conf_section_hash conf_section_cmp
  by unfold_locales (auto simp: conf_section_hash_def conf_section_cmp_def strcmp_eq_0 intro: strhash_cong)

interpretation value_key: hash_key conf_value_hash conf_value_cmp
proof unfold_locales
  fix x y :: CONF_VALUE
  assume "conf_value_cmp x y = 0"
  then have "strcmp (cv_section x) (cv_section y) = 0" "strcmp (cv_name x) (cv_name y) = 0"
    by (auto simp: conf_value_cmp_def Let_def split: if_splits)
  then show "conf_value_hash x = conf_value_hash y"
    by (simp add: conf_value_hash_def strhash_cong)
qed (auto simp: conf_value_cmp_def Let_def strcmp_eq_0 split: if_splits)

lemmas section_table = section_key.hash_key_axioms
lemmas value_table = value_key.hash_key_axioms

section \<open>The invariant\<close>

definition name_ok :: "cstr \<Rightarrow> bool" where
  "name_ok s \<longleftrightarrow> 0 \<notin> set s \<and> length s + 1 < 2 ^ 64"

definition values_ok :: "nat \<Rightarrow> CONF_VALUE lhash_st \<Rightarrow> bool" where
  "values_ok fresh lh \<longleftrightarrow> lh_ok lh \<and> lh_hash lh = conf_value_hash \<and> lh_comp lh = conf_value_cmp \<and>
     (\<forall>v \<in># stored lh. cv_addr v < fresh \<and> name_ok (cv_section v) \<and> 0 \<notin> set (cv_name v))"

definition sections_ok :: "nat \<Rightarrow> CONF_SECTION lhash_st \<Rightarrow> bool" where
  "sections_ok fresh lh \<longleftrightarrow> lh_ok lh \<and> lh_hash lh = conf_section_hash \<and> lh_comp lh = conf_section_cmp \<and>
     (\<forall>s \<in># stored lh. cs_values s < fresh \<and> name_ok (cs_name s) \<and>
        (\<forall>t \<in># stored lh. cs_values s = cs_values t \<longrightarrow> s = t))"

text \<open>The stack of a section: every pointer in it is to a live value of that section.\<close>

definition stack_of_ok :: "CONF_VALUE lhash_st \<Rightarrow> cstr \<Rightarrow> value_stack \<Rightarrow> bool" where
  "stack_of_ok lh name sk \<longleftrightarrow> (\<exists>st. sk = Some st \<and> stack_ok st \<and> distinct (elems st) \<and>
     (\<forall>p \<in> set (elems st). \<exists>v. p = Some v \<and> v \<in># stored lh \<and> cv_section v = name))"

definition conf_ok :: "conf_st \<Rightarrow> bool" where
  "conf_ok conf \<longleftrightarrow> values_ok (conf_fresh conf) (conf_values conf) \<and>
     sections_ok (conf_fresh conf) (conf_sections conf) \<and>
     (\<forall>s \<in># stored (conf_sections conf).
        stack_of_ok (conf_values conf) (cs_name s) (conf_stacks conf (cs_values s)))"

text \<open>The other direction: every value in the table is in the stack of its section.\<close>

definition linked :: "conf_st \<Rightarrow> bool" where
  "linked conf \<longleftrightarrow> (\<forall>v \<in># stored (conf_values conf). \<exists>s st. s \<in># stored (conf_sections conf) \<and>
     cs_name s = cv_section v \<and> conf_stacks conf (cs_values s) = Some st \<and> Some v \<in> set (elems st))"

lemma NCONF_new_ok:
  "NCONF_new A m = Some conf \<Longrightarrow> conf_ok conf \<and> stored (conf_values conf) = {#}"
  by (auto simp: NCONF_new_def conf_ok_def values_ok_def sections_ok_def dest!: new_ok
      split: if_splits option.splits)

text \<open>What is stored under a name is what a look-up of the name finds.\<close>

lemma section_name_unique:
  assumes "sections_ok n lh" "s \<in># stored lh" "t \<in># stored lh" "cs_name s = cs_name t"
  shows "s = t"
proof -
  from assms(1) have o: "lh_ok lh" "hash_key (lh_hash lh) (lh_comp lh)" "lh_comp lh = conf_section_cmp"
    by (simp_all add: sections_ok_def section_table)
  have "OPENSSL_lh_retrieve lh s = Some s" "OPENSSL_lh_retrieve lh s = Some t"
    unfolding retrieve_Some_iff [OF o(1,2)] o(3) using assms by (simp_all add: conf_section_cmp_def strcmp_eq_0)
  then show ?thesis by simp
qed

lemma get_section_eq:
  assumes "sections_ok n (conf_sections conf)" "0 \<notin> set name"
  shows "get_section conf name = Some s \<longleftrightarrow> s \<in># stored (conf_sections conf) \<and> cs_name s = name"
proof -
  from assms(1) have o: "lh_ok (conf_sections conf)"
      "hash_key (lh_hash (conf_sections conf)) (lh_comp (conf_sections conf))"
      "lh_comp (conf_sections conf) = conf_section_cmp"
    by (simp_all add: sections_ok_def section_table)
  from assms have z: "0 \<notin> set (cs_name s)" if "s \<in># stored (conf_sections conf)"
    using that by (auto simp: sections_ok_def name_ok_def)
  show ?thesis
    unfolding get_section_def retrieve_Some_iff [OF o(1,2)] o(3)
    using z assms(2) by (auto simp: conf_section_cmp_def strcmp_eq_0_iff)
qed

section \<open>Sections\<close>

text \<open>
  The sections after an insertion: the new one, and the old ones of another name.
\<close>

lemma insert_section:
  assumes S: "sections_ok n lh" and ins: "OPENSSL_lh_insert A sz s lh = (r, old, lh')"
    and s: "name_ok (cs_name s)" "cs_values s = n"
  shows "if r then sections_ok (Suc n) lh' \<and>
      (\<forall>t. t \<in># stored lh' \<longleftrightarrow> t = s \<or> t \<in># stored lh \<and> cs_name t \<noteq> cs_name s) \<and>
      (\<forall>x. old = Some x \<longrightarrow> x \<in># stored lh \<and> cs_name x = cs_name s)
    else lh' = lh"
proof -
  from S have o: "lh_ok lh" "hash_key (lh_hash lh) (lh_comp lh)" "lh_comp lh = conf_section_cmp"
      and each: "\<And>t. t \<in># stored lh \<Longrightarrow> cs_values t < n \<and> name_ok (cs_name t)"
      and inj: "\<And>t u. t \<in># stored lh \<Longrightarrow> u \<in># stored lh \<Longrightarrow> cs_values t = cs_values u \<Longrightarrow> t = u"
    by (auto simp: sections_ok_def section_table)
  have c: "conf_section_cmp t s = 0 \<longleftrightarrow> cs_name t = cs_name s" if "t \<in># stored lh" for t
    using each [OF that] s(1) by (simp add: conf_section_cmp_def strcmp_eq_0_iff name_ok_def)
  note spec = insert_spec [OF o(1,2) ins]
  show ?thesis
  proof (cases r)
    case True
    with spec o(3) have l: "lh_ok lh'" "lh_hash lh' = lh_hash lh" "lh_comp lh' = lh_comp lh"
        "stored lh' = add_mset s {# x \<in># stored lh. conf_section_cmp x s \<noteq> 0 #}"
        "old = OPENSSL_lh_retrieve lh s" by auto
    from l(4) c have m: "t \<in># stored lh' \<longleftrightarrow> t = s \<or> t \<in># stored lh \<and> cs_name t \<noteq> cs_name s" for t by auto
    have "sections_ok (Suc n) lh'"
      unfolding sections_ok_def
      using S l m each inj s by (fastforce simp: sections_ok_def)
    moreover have "x \<in># stored lh \<and> cs_name x = cs_name s" if "old = Some x" for x
      using that l(5) retrieve_Some_iff [OF o(1,2), of s x] o(3) c [of x] by simp
    ultimately show ?thesis unfolding if_P [OF True] using m by blast
  next
    case False
    with spec show ?thesis by simp
  qed
qed

lemma NCONF_new_section_ok:
  assumes ok: "conf_ok conf" and n: "name_ok section"
    and new: "NCONF_new_section A section conf = (r, conf')"
  shows "conf_ok conf' \<and> conf_values conf' = conf_values conf \<and> conf_fresh conf \<le> conf_fresh conf' \<and>
    (case r of None \<Rightarrow> conf' = conf
     | Some s \<Rightarrow> cs_name s = section \<and>
         (\<forall>t. t \<in># stored (conf_sections conf') \<longleftrightarrow>
            t = s \<or> t \<in># stored (conf_sections conf) \<and> cs_name t \<noteq> section)) \<and>
    (linked conf \<and> (\<forall>v \<in># stored (conf_values conf). cv_section v \<noteq> section) \<longrightarrow> linked conf')"
proof (cases r)
  case None
  with new ok show ?thesis
    by (auto simp: NCONF_new_section_def Let_def split: if_splits option.splits prod.splits bool.splits)
next
  case (Some s)
  with new obtain name st old lh where d: "OPENSSL_strdup A (Some section) = Some name"
      "OPENSSL_sk_new_null A 40 = (Some st :: value_stack)"
      and s: "s = \<lparr>cs_name = name, cs_values = conf_fresh conf\<rparr>"
      and ins: "OPENSSL_lh_insert A 24 s (conf_sections conf) = (True, old, lh)"
      and c': "conf' = conf\<lparr>conf_fresh := Suc (conf_fresh conf), conf_sections := lh,
         conf_stacks := (case old of None \<Rightarrow> (conf_stacks conf)(conf_fresh conf := Some st)
           | Some x \<Rightarrow> ((conf_stacks conf)(conf_fresh conf := Some st))(cs_values x := None))\<rparr>"
    by (auto simp: NCONF_new_section_def Let_def split: if_splits option.splits prod.splits bool.splits)
  from d(1) n have name: "name = section" by (auto simp: name_ok_def dest: strdup_Some)
  from ok have V: "values_ok (conf_fresh conf) (conf_values conf)"
      and S: "sections_ok (conf_fresh conf) (conf_sections conf)"
      and K: "\<And>t. t \<in># stored (conf_sections conf) \<Longrightarrow>
         stack_of_ok (conf_values conf) (cs_name t) (conf_stacks conf (cs_values t))"
    by (auto simp: conf_ok_def)
  from insert_section [OF S ins] n s name have
    I: "sections_ok (Suc (conf_fresh conf)) lh"
      "\<And>t. t \<in># stored lh \<longleftrightarrow> t = s \<or> t \<in># stored (conf_sections conf) \<and> cs_name t \<noteq> section"
      "\<And>x. old = Some x \<Longrightarrow> x \<in># stored (conf_sections conf) \<and> cs_name x = section" by auto
  have lt: "t \<in># stored (conf_sections conf) \<Longrightarrow> cs_values t < conf_fresh conf" for t
    using S by (auto simp: sections_ok_def)
  have same: "conf_stacks conf' (cs_values t) = conf_stacks conf (cs_values t)"
    if t: "t \<in># stored (conf_sections conf)" "cs_name t \<noteq> section" for t
  proof -
    have "cs_values t \<noteq> cs_values x" if "old = Some x" for x
      using I(3) [OF that] t S by (auto simp: sections_ok_def)
    then show ?thesis using c' lt [OF t(1)] by (auto split: option.splits)
  qed
  have link: "linked conf'" if l: "linked conf" "\<forall>v \<in># stored (conf_values conf). cv_section v \<noteq> section"
    unfolding linked_def
  proof
    fix v assume "v \<in># stored (conf_values conf')"
    with c' have v: "v \<in># stored (conf_values conf)" by simp
    with l(1) obtain t st where t: "t \<in># stored (conf_sections conf)" "cs_name t = cv_section v"
        "conf_stacks conf (cs_values t) = Some st" "Some v \<in> set (elems st)" unfolding linked_def by blast
    moreover from v l(2) t(2) have "cs_name t \<noteq> section" by auto
    ultimately show "\<exists>s st. s \<in># stored (conf_sections conf') \<and> cs_name s = cv_section v \<and>
        conf_stacks conf' (cs_values s) = Some st \<and> Some v \<in> set (elems st)"
      using I(2) [of t] c' same [of t] by (intro exI [of _ t] exI [of _ st]) simp
  qed
  have "values_ok (conf_fresh conf') (conf_values conf')"
    using V c' by (auto simp: values_ok_def)
  moreover have "stack_of_ok (conf_values conf') (cs_name t) (conf_stacks conf' (cs_values t))"
    if t: "t \<in># stored (conf_sections conf')" for t
  proof -
    from t c' I(2) consider "t = s" | "t \<in># stored (conf_sections conf)" "cs_name t \<noteq> section" by auto
    then show ?thesis
    proof cases
      case 1
      from OPENSSL_sk_new_ok [OF d(2) [unfolded OPENSSL_sk_new_null_def]]
      have "stack_of_ok (conf_values conf) (cs_name t) (Some st)" by (simp add: stack_of_ok_def)
      moreover have "conf_stacks conf' (cs_values t) = Some st"
        using 1 c' s I(3) lt by (fastforce split: option.splits)
      ultimately show ?thesis using c' by simp
    next
      case 2
      with same [OF 2] K [OF 2(1)] c' show ?thesis by simp
    qed
  qed
  ultimately have "conf_ok conf'" using I(1) c' by (simp add: conf_ok_def)
  with Some c' I(2) s name link show ?thesis by simp
qed

lemma find_section_ok:
  assumes ok: "conf_ok conf" and n: "name_ok section" and f: "find_section A section conf = (r, conf')"
  shows "conf_ok conf' \<and> conf_values conf' = conf_values conf \<and> conf_fresh conf \<le> conf_fresh conf' \<and>
    (\<forall>t. t \<in># stored (conf_sections conf) \<longrightarrow> t \<in># stored (conf_sections conf')) \<and>
    (\<forall>s. r = Some s \<longrightarrow> s \<in># stored (conf_sections conf') \<and> cs_name s = section) \<and>
    (linked conf \<longrightarrow> linked conf')"
proof (cases "get_section conf section")
  case None
  from ok n have "t \<in># stored (conf_sections conf) \<Longrightarrow> cs_name t \<noteq> section" for t
    using get_section_eq [of "conf_fresh conf" conf "section" t] None by (auto simp: conf_ok_def name_ok_def)
  moreover from this have "linked conf \<Longrightarrow> \<forall>v \<in># stored (conf_values conf). cv_section v \<noteq> section"
    unfolding linked_def by metis
  ultimately show ?thesis using NCONF_new_section_ok [OF ok n, of A r conf'] f None
    by (auto simp: find_section_def split: option.splits)
next
  case (Some s)
  with f ok n get_section_eq [of "conf_fresh conf" conf "section" s] show ?thesis
    by (auto simp: find_section_def conf_ok_def name_ok_def)
qed

section \<open>Values\<close>

lemma index_loop_takeWhile:
  "index_loop P i xs = (if \<exists>x \<in> set xs. P x then Some (i + length (takeWhile (\<lambda>x. \<not> P x) xs)) else None)"
  by (induction P i xs rule: index_loop.induct) auto

lemma remove1_takeWhile:
  "remove1 p xs = take (length (takeWhile (\<lambda>x. x \<noteq> p) xs)) xs @ drop (Suc (length (takeWhile (\<lambda>x. x \<noteq> p) xs))) xs"
  by (induction xs) auto

lemma takeWhile_neq_less: "p \<in> set xs \<Longrightarrow> length (takeWhile (\<lambda>x. x \<noteq> p) xs) < length xs"
  by (induction xs) auto

lemma delete_ptr_cases:
  assumes "stack_ok st"
  obtains st' where "snd (OPENSSL_sk_delete_ptr (Some st) p) = Some st'" "stack_ok st'"
    "elems st' = remove1 p (elems st)"
proof (cases "p \<in> set (elems st)")
  case False
  then have "OPENSSL_sk_delete_ptr (Some st) p = (None, Some st)"
    by (auto simp: index_loop_takeWhile elems_def [symmetric])
  with False assms that show thesis by (simp add: remove1_idem)
next
  case True
  let ?i = "length (takeWhile (\<lambda>x. x \<noteq> p) (elems st))"
  have i: "?i < length (elems st)" using True by (rule takeWhile_neq_less)
  have "length (elems st) < 2 ^ 31" using assms length_elems [OF assms] by (simp add: stack_ok_def)
  with i have u: "unat (of_nat ?i :: size_t) = ?i" by (intro unat_of_nat_size) simp
  have "OPENSSL_sk_delete_ptr (Some st) p = OPENSSL_sk_delete (Some st) (of_nat ?i)"
    using True by (auto simp: index_loop_takeWhile elems_def [symmetric] simp del: OPENSSL_sk_delete.simps)
  moreover obtain st' where "OPENSSL_sk_delete (Some st) (of_nat ?i) = (elems st ! unat (of_nat ?i :: size_t), Some st')"
      "stack_ok st'" "elems st' = take (unat (of_nat ?i :: size_t)) (elems st) @ drop (Suc (unat (of_nat ?i :: size_t))) (elems st)"
    by (rule OPENSSL_sk_delete_eq [OF assms, of "of_nat ?i"]) (use i length_elems [OF assms] u in auto)
  ultimately show thesis using that [of st'] by (simp add: u flip: remove1_takeWhile)
qed

lemma sk_push_cases:
  assumes "stack_ok st"
  obtains (fail) "OPENSSL_sk_push A (Some st) p = (0, Some st)" "length (elems st) = 2 ^ 31 - 1 \<or> \<not> (\<forall>l. A l)"
  | (ok) n st' where "OPENSSL_sk_push A (Some st) p = (n, Some st')" "n \<noteq> 0" "stack_ok st'" "elems st' = elems st @ [p]"
proof (rule OPENSSL_sk_insert_cases [OF assms, of A p "st_num st"])
  assume "OPENSSL_sk_insert A (Some st) p (st_num st) = (0, Some st)" "unat (st_num st) = 2 ^ 31 - 1 \<or> \<not> (\<forall>l. A l)"
  with fail show thesis by (simp add: OPENSSL_sk_push_def length_elems [OF assms] del: OPENSSL_sk_insert.simps)
next
  fix st'
  assume i: "OPENSSL_sk_insert A (Some st) p (st_num st) = (st_num st + 1, Some st')" "stack_ok st'"
    "elems st' = take (unat (st_num st)) (elems st) @ p # drop (unat (st_num st)) (elems st)" "st_num st' = st_num st + 1"
  have e: "elems st' = elems st @ [p]" using i(3) length_elems [OF assms] by simp
  have "st_num st + 1 \<noteq> 0" using length_elems [OF i(2)] e i(4) by auto
  with i(1,2) e show thesis by (intro ok) (simp_all add: OPENSSL_sk_push_def del: OPENSSL_sk_insert.simps)
qed

lemma sk_pop_snoc:
  assumes "stack_ok st" "elems st = xs @ [p]"
  obtains st' where "snd (OPENSSL_sk_pop (Some st)) = Some st'" "stack_ok st'" "elems st' = xs"
proof -
  have l: "unat (st_num st) = Suc (length xs)" using length_elems [OF assms(1)] assms(2) by simp
  then have nz: "st_num st \<noteq> 0" by auto
  with l have u: "unat (st_num st - 1) = length xs" by (simp add: unat_pred)
  obtain st' where "OPENSSL_sk_delete (Some st) (st_num st - 1) = (elems st ! unat (st_num st - 1), Some st')" "stack_ok st'"
      "elems st' = take (unat (st_num st - 1)) (elems st) @ drop (Suc (unat (st_num st - 1))) (elems st)"
    by (rule OPENSSL_sk_delete_eq [OF assms(1), of "st_num st - 1"]) (use u l in auto)
  with nz u assms(2) that [of st'] show thesis
    by (simp add: OPENSSL_sk_pop_def del: OPENSSL_sk_delete.simps)
qed

text \<open>The values after an insertion, as \<open>insert_section\<close>.\<close>

lemma value_cmp_iff:
  assumes "values_ok n lh" "v \<in># stored lh" "0 \<notin> set sec" "0 \<notin> set nm"
    "cv_section w = sec" "cv_name w = nm"
  shows "conf_value_cmp v w = 0 \<longleftrightarrow> cv_section v = sec \<and> cv_name v = nm"
  using assms by (auto simp: conf_value_cmp_def Let_def strcmp_eq_0_iff values_ok_def name_ok_def split: if_splits)

lemma insert_value:
  assumes V: "values_ok n lh" and ins: "OPENSSL_lh_insert A sz v lh = (r, old, lh')"
    and v: "name_ok (cv_section v)" "0 \<notin> set (cv_name v)" "cv_addr v < n"
  shows "if r then values_ok n lh' \<and>
      (\<forall>w. w \<in># stored lh' \<longleftrightarrow> w = v \<or>
         w \<in># stored lh \<and> \<not> (cv_section w = cv_section v \<and> cv_name w = cv_name v)) \<and>
      (\<forall>w. old = Some w \<longleftrightarrow> w \<in># stored lh \<and> cv_section w = cv_section v \<and> cv_name w = cv_name v)
    else lh' = lh \<and> \<not> A sz"
proof -
  from V have o: "lh_ok lh" "hash_key (lh_hash lh) (lh_comp lh)" "lh_comp lh = conf_value_cmp"
    by (simp_all add: values_ok_def value_table)
  have "0 \<notin> set (cv_section v)" using v by (simp add: name_ok_def)
  note c = value_cmp_iff [OF V _ this v(2) refl refl]
  note spec = insert_spec [OF o(1,2) ins]
  show ?thesis
  proof (cases r)
    case True
    with spec o(3) have l: "lh_ok lh'" "lh_hash lh' = lh_hash lh" "lh_comp lh' = lh_comp lh"
        "stored lh' = add_mset v {# x \<in># stored lh. conf_value_cmp x v \<noteq> 0 #}"
        "old = OPENSSL_lh_retrieve lh v" by auto
    have m: "w \<in># stored lh' \<longleftrightarrow> w = v \<or>
         w \<in># stored lh \<and> \<not> (cv_section w = cv_section v \<and> cv_name w = cv_name v)" for w
      unfolding l(4) using c [of w] by auto
    have "old = Some w \<longleftrightarrow> w \<in># stored lh \<and> cv_section w = cv_section v \<and> cv_name w = cv_name v" for w
      unfolding l(5) retrieve_Some_iff [OF o(1,2)] o(3) using c [of w] by auto
    moreover have "values_ok n lh'"
      using V l(1-3) m v unfolding values_ok_def by auto
    ultimately show ?thesis unfolding if_P [OF True] using m by blast
  next
    case False
    with spec show ?thesis by simp
  qed
qed

lemma get_string_eq:
  assumes "values_ok n (conf_values conf)" "0 \<notin> set sec" "0 \<notin> set nm"
  shows "NCONF_get_string conf (Some sec) nm = Some x \<longleftrightarrow>
    (\<exists>v \<in># stored (conf_values conf). cv_section v = sec \<and> cv_name v = nm \<and> cv_value v = x)"
proof -
  from assms(1) have o: "lh_ok (conf_values conf)"
      "hash_key (lh_hash (conf_values conf)) (lh_comp (conf_values conf))"
      "lh_comp (conf_values conf) = conf_value_cmp"
    by (simp_all add: values_ok_def value_table)
  let ?t = "\<lparr>cv_addr = 0, cv_section = sec, cv_name = nm, cv_value = []\<rparr>"
  have "OPENSSL_lh_retrieve (conf_values conf) ?t = Some v \<longleftrightarrow>
      v \<in># stored (conf_values conf) \<and> cv_section v = sec \<and> cv_name v = nm" for v
    unfolding retrieve_Some_iff [OF o(1,2)] o(3)
    using value_cmp_iff [OF assms(1) _ assms(2,3), of v ?t] by auto
  moreover have "NCONF_get_string conf (Some sec) nm = Some x \<longleftrightarrow>
      (\<exists>v. OPENSSL_lh_retrieve (conf_values conf) ?t = Some v \<and> cv_value v = x)"
    by (simp add: NCONF_get_string_def split: option.splits)
  ultimately show ?thesis by blast
qed

lemma option_eqI: "(\<And>x. a = Some x \<longleftrightarrow> b = Some x) \<Longrightarrow> a = b"
  by (metis not_None_eq)

text \<open>Replacing the stack of one section by one whose pointers live in the new table.\<close>

lemma replace_stack_ok:
  assumes ok: "conf_ok conf" and s: "s \<in># stored (conf_sections conf)"
    and st: "stack_of_ok lh (cs_name s) st" and V: "values_ok (conf_fresh conf) lh"
    and keep: "\<And>v. v \<in># stored (conf_values conf) \<Longrightarrow> cv_section v \<noteq> cs_name s \<Longrightarrow> v \<in># stored lh"
  shows "conf_ok (conf\<lparr>conf_values := lh, conf_stacks := (conf_stacks conf)(cs_values s := st)\<rparr>)"
proof -
  from ok have S: "sections_ok (conf_fresh conf) (conf_sections conf)" by (simp add: conf_ok_def)
  have "stack_of_ok lh (cs_name t) (((conf_stacks conf)(cs_values s := st)) (cs_values t))"
    if t: "t \<in># stored (conf_sections conf)" for t
  proof (cases "t = s")
    case True
    with st show ?thesis by simp
  next
    case False
    with S s t have "cs_values t \<noteq> cs_values s" "cs_name t \<noteq> cs_name s"
      by (auto simp: sections_ok_def dest: section_name_unique [OF S t s])
    moreover have "stack_of_ok (conf_values conf) (cs_name t) (conf_stacks conf (cs_values t))"
      using ok t by (simp add: conf_ok_def)
    ultimately show ?thesis using keep unfolding stack_of_ok_def by fastforce
  qed
  with S V show ?thesis by (simp add: conf_ok_def)
qed

lemma replace_stack_linked:
  assumes ok: "conf_ok conf" and s: "s \<in># stored (conf_sections conf)" "conf_stacks conf (cs_values s) = Some st"
    and l: "linked conf"
    and new: "\<And>v. v \<in># stored lh \<Longrightarrow> cv_section v = cs_name s \<Longrightarrow>
      (v \<in># stored (conf_values conf) \<longrightarrow> Some v \<in> set (elems st)) \<Longrightarrow> Some v \<in> set (elems st')"
    and keep: "\<And>v. v \<in># stored lh \<Longrightarrow> cv_section v \<noteq> cs_name s \<Longrightarrow> v \<in># stored (conf_values conf)"
  shows "linked (conf\<lparr>conf_values := lh, conf_stacks := (conf_stacks conf)(cs_values s := Some st')\<rparr>)"
  unfolding linked_def
proof
  let ?c = "conf\<lparr>conf_values := lh, conf_stacks := (conf_stacks conf)(cs_values s := Some st')\<rparr>"
  from ok have S: "sections_ok (conf_fresh conf) (conf_sections conf)" by (simp add: conf_ok_def)
  fix v assume "v \<in># stored (conf_values ?c)"
  then have v: "v \<in># stored lh" by simp
  have old: "\<exists>t u. t \<in># stored (conf_sections conf) \<and> cs_name t = cv_section v \<and>
      conf_stacks conf (cs_values t) = Some u \<and> Some v \<in> set (elems u)" if "v \<in># stored (conf_values conf)"
    using l that unfolding linked_def by blast
  show "\<exists>t u. t \<in># stored (conf_sections ?c) \<and> cs_name t = cv_section v \<and>
      conf_stacks ?c (cs_values t) = Some u \<and> Some v \<in> set (elems u)"
  proof (cases "cv_section v = cs_name s")
    case True
    have "Some v \<in> set (elems st)" if "v \<in># stored (conf_values conf)"
      using old [OF that] s True section_name_unique [OF S _ s(1)] by fastforce
    with new [OF v True] True s(1) show ?thesis by (intro exI [of _ s] exI [of _ st']) simp
  next
    case False
    from old [OF keep [OF v False]] obtain t u where t: "t \<in># stored (conf_sections conf)" "cs_name t = cv_section v"
        "conf_stacks conf (cs_values t) = Some u" "Some v \<in> set (elems u)" by blast
    with False S s(1) have "cs_values t \<noteq> cs_values s" by (auto simp: sections_ok_def)
    with t show ?thesis by (intro exI [of _ t] exI [of _ u]) simp
  qed
qed

lemma add_string_ok:
  assumes cok: "conf_ok conf" and s: "s \<in># stored (conf_sections conf)"
    and v: "0 \<notin> set (cv_name v)" "cv_addr v < conf_fresh conf"
      "\<And>w. w \<in># stored (conf_values conf) \<Longrightarrow> cv_addr w \<noteq> cv_addr v"
    and add: "add_string A s v conf = (r, conf')"
  shows "conf_ok conf' \<and> conf_sections conf' = conf_sections conf \<and> conf_fresh conf' = conf_fresh conf \<and>
    (\<forall>sec nm. 0 \<notin> set sec \<longrightarrow> 0 \<notin> set nm \<longrightarrow> NCONF_get_string conf' (Some sec) nm =
       (if r = Some () \<and> sec = cs_name s \<and> nm = cv_name v then Some (cv_value v)
        else NCONF_get_string conf (Some sec) nm)) \<and>
    (linked conf \<longrightarrow> linked conf')"
proof -
  from cok s obtain st where st: "conf_stacks conf (cs_values s) = Some st" "stack_ok st" "distinct (elems st)"
      and el: "\<And>p. p \<in> set (elems st) \<Longrightarrow> \<exists>v. p = Some v \<and> v \<in># stored (conf_values conf) \<and> cv_section v = cs_name s"
    unfolding conf_ok_def stack_of_ok_def by blast
  from cok have V: "values_ok (conf_fresh conf) (conf_values conf)" by (simp add: conf_ok_def)
  from cok s have n: "name_ok (cs_name s)" by (auto simp: conf_ok_def sections_ok_def)
  let ?v = "v\<lparr>cv_section := cs_name s\<rparr>"
  have same: ?thesis if "r = None" "conf' = conf\<lparr>conf_stacks := (conf_stacks conf)(cs_values s := Some st')\<rparr>"
    "stack_ok st'" "elems st' = elems st" for st'
  proof -
    have "stack_of_ok (conf_values conf) (cs_name s) (Some st')"
      using st el that by (simp add: stack_of_ok_def)
    from replace_stack_ok [OF cok s this V] have "conf_ok conf'" using that(2) by simp
    moreover have "linked conf \<Longrightarrow> linked conf'"
      using replace_stack_linked [OF cok s st(1), of "conf_values conf" st'] that(2,4) by simp
    ultimately show ?thesis using that(1,2) by (simp add: NCONF_get_string_def)
  qed
  have dup: "OPENSSL_strdup A (Some (cs_name s)) = Some nm \<Longrightarrow> nm = cs_name s" for nm
    using n by (auto simp: name_ok_def dest: strdup_Some)
  show ?thesis
  proof (cases "OPENSSL_strdup A (Some (cs_name s))")
    case None
    with add have "r = None" "conf' = conf" by (simp_all add: add_string_def)
    with cok show ?thesis by simp
  next
    case (Some nm)
    with dup have nm: "OPENSSL_strdup A (Some (cs_name s)) = Some (cs_name s)" by simp
    from st(2) show ?thesis
    proof (cases rule: sk_push_cases [where A = A and p = "Some ?v"])
      case fail
      with add nm st(1) have "r = None" "conf' = conf\<lparr>conf_stacks := (conf_stacks conf)(cs_values s := Some st)\<rparr>"
        by (simp_all add: add_string_def Let_def)
      from same [OF this st(2) refl] show ?thesis .
    next
      case (ok n st')
      note push = ok
      obtain b old lh where ins: "OPENSSL_lh_insert A 24 ?v (conf_values conf) = (b, old, lh)" by (metis surj_pair)
      note spec = insert_value [OF V ins, simplified, OF n v(1,2)]
      show ?thesis
      proof (cases b)
        case False
        obtain st'' where "snd (OPENSSL_sk_pop (Some st')) = Some st''" "stack_ok st''" "elems st'' = elems st"
          using sk_pop_snoc [OF push(3,4)] .
        moreover from this False add nm st(1) push(1,2) ins have "r = None"
            "conf' = conf\<lparr>conf_stacks := (conf_stacks conf)(cs_values s := Some st'')\<rparr>"
          by (simp_all add: add_string_def Let_def)
        ultimately show ?thesis using same by blast
      next
        case True
        with spec have lh: "values_ok (conf_fresh conf) lh"
            "\<And>w. w \<in># stored lh \<longleftrightarrow> w = ?v \<or> w \<in># stored (conf_values conf) \<and> \<not> (cv_section w = cs_name s \<and> cv_name w = cv_name v)"
            "\<And>w. old = Some w \<longleftrightarrow> w \<in># stored (conf_values conf) \<and> cv_section w = cs_name s \<and> cv_name w = cv_name v"
          by auto
        define sk where "sk = (case old of None \<Rightarrow> Some st' | Some w \<Rightarrow> snd (OPENSSL_sk_delete_ptr (Some st') (Some w)))"
        have c': "r = Some ()" "conf' = conf\<lparr>conf_values := lh, conf_stacks := (conf_stacks conf)(cs_values s := sk)\<rparr>"
          using True add nm st(1) push(1,2) ins by (auto simp: add_string_def Let_def sk_def split: option.splits)
        have nv: "Some ?v \<notin> set (elems st)" using el v(3) by fastforce
        then have d: "distinct (elems st')" using push(4) st(3) by simp
        obtain st'' where st'': "sk = Some st''" "stack_ok st''" "distinct (elems st'')"
            "\<And>p. p \<in> set (elems st'') \<longleftrightarrow> p = Some ?v \<or> p \<in> set (elems st) \<and> (old = None \<or> p \<noteq> old)"
        proof (cases old)
          case None
          with that [of st'] push d show thesis by (auto simp: sk_def)
        next
          case (Some w)
          from lh(3) [of w] Some v(3) have "w \<noteq> ?v" by fastforce
          moreover obtain st'' where "snd (OPENSSL_sk_delete_ptr (Some st') (Some w)) = Some st''" "stack_ok st''"
              "elems st'' = remove1 (Some w) (elems st')" using delete_ptr_cases [OF push(3)] .
          ultimately show thesis using that [of st''] Some d push(4) by (auto simp: sk_def distinct_remove1)
        qed
        have "stack_of_ok lh (cs_name s) sk"
          unfolding stack_of_ok_def
        proof (intro exI [of _ st''] conjI ballI)
          fix p assume "p \<in> set (elems st'')"
          with st''(4) consider "p = Some ?v" | "p \<in> set (elems st)" "p \<noteq> Some ?v" "old = None \<or> p \<noteq> old" by blast
          then show "\<exists>w. p = Some w \<and> w \<in># stored lh \<and> cv_section w = cs_name s"
          proof cases
            case 1
            with lh(2) [of ?v] show ?thesis by auto
          next
            case 2
            from el [OF 2(1)] obtain w where w: "p = Some w" "w \<in># stored (conf_values conf)" "cv_section w = cs_name s"
              by blast
            with 2(3) lh(3) [of w] lh(2) [of w] show ?thesis by auto
          qed
        qed (use st'' in auto)
        from replace_stack_ok [OF cok s this lh(1)] lh(2) c' have "conf_ok conf'" by simp
        moreover have "NCONF_get_string conf' (Some sec) nm =
            (if sec = cs_name s \<and> nm = cv_name v then Some (cv_value v) else NCONF_get_string conf (Some sec) nm)"
          if z: "0 \<notin> set sec" "0 \<notin> set nm" for sec nm
        proof (rule option_eqI)
          fix x
          have "values_ok (conf_fresh conf) (conf_values conf')" using lh(1) c' by simp
          note g = get_string_eq [OF this z, of x] get_string_eq [OF V z, of x]
          show "NCONF_get_string conf' (Some sec) nm = Some x \<longleftrightarrow>
              (if sec = cs_name s \<and> nm = cv_name v then Some (cv_value v) else NCONF_get_string conf (Some sec) nm) = Some x"
          proof (cases "sec = cs_name s \<and> nm = cv_name v")
            case True
            then have "w \<in># stored lh \<and> cv_section w = sec \<and> cv_name w = nm \<and> cv_value w = x \<longleftrightarrow>
                w = ?v \<and> cv_value v = x" for w
              using lh(2) [of w] by auto
            then have "(\<exists>w \<in># stored lh. cv_section w = sec \<and> cv_name w = nm \<and> cv_value w = x) \<longleftrightarrow> cv_value v = x"
              by blast
            with g(1) True c'(2) show ?thesis by simp
          next
            case False
            then have "w \<in># stored lh \<and> cv_section w = sec \<and> cv_name w = nm \<longleftrightarrow>
                w \<in># stored (conf_values conf) \<and> cv_section w = sec \<and> cv_name w = nm" for w
              using lh(2) [of w] by auto
            with g False c'(2) show ?thesis by auto
          qed
        qed
        moreover have "linked conf'" if l: "linked conf"
        proof -
          have "Some w \<in> set (elems st'')" if "w \<in># stored lh" "cv_section w = cs_name s"
              "w \<in># stored (conf_values conf) \<longrightarrow> Some w \<in> set (elems st)" for w
            using that lh(2) [of w] lh(3) [of w] st''(4) [of "Some w"] by auto
          moreover have "w \<in># stored (conf_values conf)" if "w \<in># stored lh" "cv_section w \<noteq> cs_name s" for w
            using that lh(2) [of w] by auto
          ultimately show ?thesis
            using replace_stack_linked [OF cok s st(1), of lh st''] l c'(2) st''(1) by simp
        qed
        ultimately show ?thesis using c' by simp
      qed
    qed
  qed
qed

end
