(* ===== verification/ConfLoad.thy ===== *)
theory ConfLoad
  imports ConfProps "HOL-Library.Sublist"
begin

text \<open>
  Loading a configuration: the invariant of the tables is kept by every line of any file, and a
  memory BIO is read to its end in finitely many steps.
\<close>

section \<open>Scanning only moves forward\<close>

lemma upto_suffix: "suffix q p \<Longrightarrow> upto_ptr p q @ q = p"
  by (auto simp: suffix_def upto_ptr_def)

lemma upto_prefix: "prefix (upto_ptr p q) p"
  by (simp add: upto_ptr_def take_is_prefix)

lemma suffix_eat_ws: "suffix (eat_ws p) p"
  by (induction p) (auto intro: suffix_ConsI)

lemma suffix_scan_esc: "suffix (scan_esc p) p"
  by (simp add: scan_esc_def suffix_drop)

lemma suffix_eat_name: "suffix (eat_name p) p"
proof (induction p rule: eat_name.induct)
  case (1 p)
  then show ?case
    using suffix_scan_esc [of p] suffix_drop [of 1 p]
    by (subst eat_name.simps) (auto intro: suffix_order.trans)
qed

lemma suffix_quote_end: "suffix (quote_end q p) p"
proof (induction q p rule: quote_end.induct)
  case (2 q c p)
  then show ?case
    using suffix_drop [of 1 p] by (auto intro!: suffix_ConsI intro: suffix_order.trans)
qed simp

lemma suffix_scan_quote: "suffix (scan_quote p) p"
  unfolding scan_quote_def by (rule suffix_order.trans [OF suffix_quote_end suffix_drop])

lemma prefix_comments_loop: "prefix (comments_loop p) p"
proof (induction p rule: comments_loop.induct)
  case (1 p)
  have u: "prefix (upto_ptr p q @ r) p" if "prefix r q" "suffix q p" for q r
    using that upto_suffix [OF that(2)] by (metis same_prefix_prefix)
  show ?case
  proof (cases "is_comment (peek p) \<or> p = []")
    case True
    then show ?thesis by (subst comments_loop.simps) (auto simp: peek_def is_quote_def is_esc_def)
  next
    case False
    then obtain c r where p: "p = c # r" by (cases p) auto
    with False 1 u [OF _ suffix_scan_quote] u [OF _ suffix_scan_esc] show ?thesis
      by (subst comments_loop.simps) simp
  qed
qed

lemma prefix_clear_comments: "prefix (clear_comments p) p"
  unfolding clear_comments_def
  by (metis prefix_comments_loop same_prefix_prefix suffix_eat_ws upto_suffix)

text \<open>Names cut out of a line are zero-free and shorter than the line.\<close>

lemma name_ok_suffix: "name_ok p \<Longrightarrow> suffix q p \<Longrightarrow> name_ok q"
  unfolding name_ok_def by (metis add_le_mono1 le_less_trans set_mono_suffix subset_eq suffix_length_le)

lemma name_ok_prefix: "name_ok p \<Longrightarrow> prefix q p \<Longrightarrow> name_ok q"
  unfolding name_ok_def by (metis add_le_mono1 le_less_trans set_mono_prefix subset_eq prefix_length_le)

lemmas name_ok_scan = name_ok_suffix [OF _ suffix_eat_ws] name_ok_suffix [OF _ suffix_eat_name]
  name_ok_suffix [OF _ suffix_drop] name_ok_prefix [OF _ upto_prefix] name_ok_prefix [OF _ prefix_clear_comments]

lemma quote_copy_props:
  "0 \<notin> set p \<Longrightarrow> 0 \<notin> set (fst (quote_copy q p)) \<and> suffix (snd (quote_copy q p)) p \<and>
     length (fst (quote_copy q p)) + length (snd (quote_copy q p)) \<le> length p"
proof (induction q p rule: quote_copy.induct)
  case (2 q c p)
  show ?case
  proof (cases "c = q \<or> \<not> is_esc c \<or> p = []")
    case True
    with 2 show ?thesis by (auto simp: case_prod_beta intro: suffix_ConsI)
  next
    case False
    then obtain d p' where p: "p = d # p'" by (cases p) auto
    with False 2 show ?thesis by (auto simp: case_prod_beta intro: suffix_ConsI)
  qed
qed simp

text \<open>The loop of \<open>str_copy\<close> by the first byte.\<close>

lemma str_copy_loop_Nil [simp]: "str_copy_loop [] = Some []"
  by (simp add: str_copy_loop.simps [of "[]"] peek_def is_quote_def is_esc_def)

lemma str_copy_loop_quote: "is_quote c \<Longrightarrow> str_copy_loop (c # p) =
    (case quote_copy c p of (w, r) \<Rightarrow> map_option ((@) w) (str_copy_loop (if peek r = c then drop 1 r else r)))"
  by (simp add: str_copy_loop.simps [of "c # p"] peek_def [of "c # p"])

lemma esc_not_quote: "is_esc c \<Longrightarrow> \<not> is_quote c"
  by (auto simp: is_esc_def is_quote_def)

lemma str_copy_loop_esc:
  "is_esc c \<Longrightarrow> str_copy_loop [c] = Some []"
  "is_esc c \<Longrightarrow> str_copy_loop (c # v # p) = map_option ((#) (esc_char v)) (str_copy_loop p)"
  by (simp_all add: str_copy_loop.simps [of "[c]"] str_copy_loop.simps [of "c # v # p"] peek_def esc_not_quote)

lemma str_copy_loop_plain:
  "\<not> is_quote c \<Longrightarrow> \<not> is_esc c \<Longrightarrow> str_copy_loop (c # p) =
     (if c = 36 then None else map_option ((#) c) (str_copy_loop p))"
  by (simp add: str_copy_loop.simps [of "c # p"] peek_def)

lemma str_copy_loop_props:
  "0 \<notin> set p \<Longrightarrow> str_copy_loop p = Some r \<Longrightarrow> 0 \<notin> set r \<and> length r \<le> length p"
proof (induction p arbitrary: r rule: length_induct)
  case (1 p)
  show ?case
  proof (cases p)
    case Nil
    with 1(3) show ?thesis by simp
  next
    case (Cons c p')
    consider (q) "is_quote c" | (e) "is_esc c" | (o) "\<not> is_quote c" "\<not> is_esc c" by blast
    then show ?thesis
    proof cases
      case q
      obtain w s where ws: "quote_copy c p' = (w, s)" by (cases "quote_copy c p'")
      from quote_copy_props [of p' c] ws 1(2) Cons
      have w: "0 \<notin> set w" "suffix s p'" "length w + length s \<le> length p'" by auto
      define t where "t = (if peek s = c then drop 1 s else s)"
      from 1(3) obtain r' where r': "str_copy_loop t = Some r'" "r = w @ r'"
        unfolding Cons str_copy_loop_quote [OF q] ws t_def by auto
      have s: "suffix t s" by (simp add: t_def suffix_drop)
      have "0 \<notin> set t" using 1(2) Cons s w(2) by (metis list.set_intros(2) set_mono_suffix subset_eq)
      moreover have "length t < length p" using suffix_length_le [OF s] w(3) Cons by simp
      ultimately have "0 \<notin> set r' \<and> length r' \<le> length t" using 1(1) r'(1) by blast
      with w r'(2) suffix_length_le [OF s] Cons show ?thesis by auto
    next
      case e
      show ?thesis
      proof (cases p')
        case Nil
        with 1(3) Cons e show ?thesis by (simp add: str_copy_loop_esc)
      next
        case (Cons v s)
        with 1(3) \<open>p = c # p'\<close> e obtain r' where r': "str_copy_loop s = Some r'" "r = esc_char v # r'"
          by (auto simp: str_copy_loop_esc)
        moreover have "0 \<notin> set s" "length s < length p" "v \<noteq> 0" using 1(2) \<open>p = c # p'\<close> Cons by auto
        ultimately have "0 \<notin> set r' \<and> length r' \<le> length s" using 1(1) by blast
        with r' \<open>p = c # p'\<close> Cons \<open>v \<noteq> 0\<close> show ?thesis by (simp add: esc_char_def)
      qed
    next
      case o
      with 1(3) Cons obtain r' where r': "str_copy_loop p' = Some r'" "r = c # r'"
        by (auto simp: str_copy_loop_plain split: if_splits)
      moreover have "0 \<notin> set p'" "length p' < length p" "c \<noteq> 0" using 1(2) Cons by auto
      ultimately have "0 \<notin> set r' \<and> length r' \<le> length p'" using 1(1) by blast
      with r' Cons \<open>c \<noteq> 0\<close> show ?thesis by simp
    qed
  qed
qed

lemma name_ok_str_copy: "str_copy A p = Some r \<Longrightarrow> name_ok p \<Longrightarrow> name_ok r"
  using str_copy_loop_props [of p r]
  by (auto simp: str_copy_def name_ok_def split: option.splits if_splits)

section \<open>One line\<close>

definition load_ok :: "load_st \<Rightarrow> bool" where
  "load_ok st \<longleftrightarrow> conf_ok (ld_conf st) \<and> name_ok (ld_section st) \<and>
     ld_sv st \<in># stored (conf_sections (ld_conf st)) \<and> cs_name (ld_sv st) = ld_section st"

text \<open>What every line leaves: the tables are well formed even after an error.\<close>

lemma load_section_ok:
  assumes st: "load_ok st" and s: "name_ok s" and l: "load_section A s st = (r, st')"
  shows "conf_ok (ld_conf st') \<and> (r = Some () \<longrightarrow> load_ok st') \<and> (linked (ld_conf st) \<longrightarrow> linked (ld_conf st'))"
proof (cases "section_end (eat_ws s)")
  case None
  with l st show ?thesis by (simp add: load_section_def Let_def load_ok_def)
next
  case (Some e)
  have n: "name_ok (upto_ptr (eat_ws s) e)" using s by (intro name_ok_scan)
  show ?thesis
  proof (cases "str_copy A (upto_ptr (eat_ws s) e)")
    case None
    with Some l st show ?thesis by (simp add: load_section_def Let_def load_ok_def)
  next
    case (Some sec)
    obtain q c where f: "find_section A sec (ld_conf st) = (q, c)" by (cases "find_section A sec (ld_conf st)")
    have k: "name_ok sec" by (rule name_ok_str_copy [OF Some n])
    from st have "conf_ok (ld_conf st)" by (simp add: load_ok_def)
    note find_section_ok [OF this k f]
    with f k l \<open>section_end (eat_ws s) = Some e\<close> Some show ?thesis
      by (cases q) (auto simp: load_section_def Let_def load_ok_def)
  qed
qed

lemma conf_ok_fresh: "conf_ok conf \<Longrightarrow> conf_ok (conf\<lparr>conf_fresh := Suc (conf_fresh conf)\<rparr>)"
  by (auto simp: conf_ok_def values_ok_def sections_ok_def less_Suc_eq)

lemma linked_fresh [simp]: "linked (conf\<lparr>conf_fresh := n\<rparr>) \<longleftrightarrow> linked conf"
  by (simp add: linked_def)

text \<open>
  The last part of a value line, from the allocation of the value on: \<open>sec\<close> is the section it
  names, \<open>nm\<close> its name and \<open>val\<close> the text of its value.
\<close>

definition store_value :: "(size_t \<Rightarrow> bool) \<Rightarrow> cstr \<Rightarrow> cstr \<Rightarrow> cstr \<Rightarrow> (load_st, unit) op" where
  "store_value A sec nm val st =
     (if \<not> A 24 then (None, st)
      else
        let conf = ld_conf st; addr = conf_fresh conf;
            st = st\<lparr>ld_conf := conf\<lparr>conf_fresh := Suc addr\<rparr>\<rparr>
        in case OPENSSL_strdup A (Some nm) of None \<Rightarrow> (None, st) | Some name \<Rightarrow>
          (case str_copy A val of None \<Rightarrow> (None, st) | Some val \<Rightarrow>
            (case (if strcmp sec (ld_section st) \<noteq> 0 then find_section A sec (ld_conf st)
                   else (Some (ld_sv st), ld_conf st)) of
               (None, conf) \<Rightarrow> (None, st\<lparr>ld_conf := conf\<rparr>)
             | (Some tv, conf) \<Rightarrow>
                 (case add_string A tv \<lparr>cv_addr = addr, cv_section = [], cv_name = name, cv_value = val\<rparr> conf of
                    (r, conf) \<Rightarrow> (r, st\<lparr>ld_conf := conf\<rparr>)))))"

lemma load_value_eq:
  "load_value A s st =
     (let e = eat_name s;
          (sec, nm, e) = (if peek e = 58 \<and> peek (drop 1 e) = 58 then (upto_ptr s e, drop 2 e, eat_name (drop 2 e))
                          else (ld_section st, s, e));
          p = eat_ws e
      in if peek p \<noteq> 61 then (None, st)
         else store_value A sec (upto_ptr nm e) (trim_end (eat_ws (drop 1 p))) st)"
  by (auto simp: load_value_def store_value_def Let_def)

lemma store_value_eq:
  assumes "A 24" "OPENSSL_strdup A (Some nm) = Some name" "str_copy A val = Some v"
    and "(if strcmp sec (ld_section st) \<noteq> 0
      then find_section A sec (ld_conf st\<lparr>conf_fresh := Suc (conf_fresh (ld_conf st))\<rparr>)
      else (Some (ld_sv st), ld_conf st\<lparr>conf_fresh := Suc (conf_fresh (ld_conf st))\<rparr>)) = (q, c)"
  shows "store_value A sec nm val st = (case q of None \<Rightarrow> (None, st\<lparr>ld_conf := c\<rparr>)
    | Some tv \<Rightarrow>
        (case add_string A tv \<lparr>cv_addr = conf_fresh (ld_conf st), cv_section = [], cv_name = name, cv_value = v\<rparr> c of
           (r, c') \<Rightarrow> (r, st\<lparr>ld_conf := c'\<rparr>)))"
  using assms by (cases "strcmp sec (ld_section st) = 0") (auto simp: store_value_def Let_def split: option.splits)

lemma store_value_ok:
  assumes st: "load_ok st" and n: "name_ok sec" "name_ok nm" "name_ok val" and l: "store_value A sec nm val st = (r, st')"
  shows "conf_ok (ld_conf st') \<and> (r = Some () \<longrightarrow> load_ok st' \<and> ld_section st' = ld_section st \<and>
    (\<exists>v. str_copy A val = Some v \<and> (\<forall>sec' nm'. 0 \<notin> set sec' \<longrightarrow> 0 \<notin> set nm' \<longrightarrow>
       NCONF_get_string (ld_conf st') (Some sec') nm' =
         (if sec' = sec \<and> nm' = nm then Some v else NCONF_get_string (ld_conf st) (Some sec') nm')))) \<and>
    (linked (ld_conf st) \<longrightarrow> linked (ld_conf st'))"
proof -
  let ?addr = "conf_fresh (ld_conf st)"
  let ?c = "ld_conf st\<lparr>conf_fresh := Suc ?addr\<rparr>"
  from st have ok: "conf_ok (ld_conf st)" "conf_ok ?c" by (simp_all add: load_ok_def conf_ok_fresh)
  show ?thesis
  proof (cases "A 24 \<and> OPENSSL_strdup A (Some nm) \<noteq> None \<and> str_copy A val \<noteq> None")
    case False
    then consider "\<not> A 24" | "A 24" "OPENSSL_strdup A (Some nm) = None"
      | name where "A 24" "OPENSSL_strdup A (Some nm) = Some name" "str_copy A val = None" by blast
    then have "r = None \<and> (st' = st \<or> st' = st\<lparr>ld_conf := ?c\<rparr>)"
      by cases (use l in \<open>simp_all add: store_value_def Let_def\<close>)
    with ok show ?thesis by auto
  next
    case True
    then obtain name v where nv: "OPENSSL_strdup A (Some nm) = Some name" "str_copy A val = Some v" by blast
    then have nm: "name = nm" using n(2) by (auto simp: name_ok_def dest: strdup_Some)
    define find where "find = (if strcmp sec (ld_section st) \<noteq> 0 then find_section A sec ?c else (Some (ld_sv st), ?c))"
    obtain q c where f: "find = (q, c)" by (cases find)
    note eq = store_value_eq [of A, OF _ nv f [unfolded find_def]]
    have F: "conf_ok c \<and> conf_values c = conf_values ?c \<and> conf_fresh ?c \<le> conf_fresh c \<and>
      (\<forall>t. t \<in># stored (conf_sections ?c) \<longrightarrow> t \<in># stored (conf_sections c)) \<and>
      (\<forall>s. q = Some s \<longrightarrow> s \<in># stored (conf_sections c) \<and> cs_name s = sec) \<and> (linked ?c \<longrightarrow> linked c)"
    proof (cases "strcmp sec (ld_section st) = 0")
      case True
      then have "sec = ld_section st" using n(1) st by (simp add: load_ok_def name_ok_def strcmp_eq_0_iff)
      with True f ok st show ?thesis by (auto simp: find_def load_ok_def)
    next
      case False
      with f have "find_section A sec ?c = (q, c)" by (simp add: find_def)
      from find_section_ok [OF ok(2) n(1) this] show ?thesis .
    qed
    show ?thesis
    proof (cases q)
      case None
      then have "r = None" "st' = st\<lparr>ld_conf := c\<rparr>"
        using l True eq by simp_all
      with F show ?thesis by simp
    next
      case (Some tv)
      let ?v = "\<lparr>cv_addr = ?addr, cv_section = [], cv_name = nm, cv_value = v\<rparr>"
      obtain c' where a: "add_string A tv ?v c = (r, c')" and st': "st' = st\<lparr>ld_conf := c'\<rparr>"
        using l True eq Some nm by (auto split: prod.splits)
      have "w \<in># stored (conf_values c) \<Longrightarrow> cv_addr w \<noteq> ?addr" for w
        using ok(1) F by (fastforce simp: conf_ok_def values_ok_def)
      with F Some n(2) have "conf_ok c'" "conf_sections c' = conf_sections c"
        and g: "\<And>sec' nm'. 0 \<notin> set sec' \<Longrightarrow> 0 \<notin> set nm' \<Longrightarrow> NCONF_get_string c' (Some sec') nm' =
           (if r = Some () \<and> sec' = sec \<and> nm' = nm then Some v else NCONF_get_string c (Some sec') nm')"
        and "linked c \<Longrightarrow> linked c'"
        using add_string_ok [OF _ _ _ _ _ a] by (simp_all add: name_ok_def)
      moreover have "NCONF_get_string c s k = NCONF_get_string (ld_conf st) s k" for s k
        using F by (simp add: NCONF_get_string_def)
      moreover have "load_ok st'"
        using calculation(1,2) F st by (simp add: load_ok_def st')
      ultimately show ?thesis using st' nv F by simp
    qed
  qed
qed

lemma prefix_trim_end: "prefix (trim_end s) s"
  by (simp add: trim_end_def take_is_prefix)

lemma load_value_ok:
  assumes st: "load_ok st" and s: "name_ok s" and l: "load_value A s st = (r, st')"
  shows "conf_ok (ld_conf st') \<and> (r = Some () \<longrightarrow> load_ok st') \<and> (linked (ld_conf st) \<longrightarrow> linked (ld_conf st'))"
proof -
  let ?e = "eat_name s"
  define sec where "sec = (if peek ?e = 58 \<and> peek (drop 1 ?e) = 58 then upto_ptr s ?e else ld_section st)"
  define nm where "nm = (if peek ?e = 58 \<and> peek (drop 1 ?e) = 58 then drop 2 ?e else s)"
  define p where "p = eat_ws (eat_name nm)"
  have "load_value A s st = (if peek p \<noteq> 61 then (None, st)
      else store_value A sec (upto_ptr nm (eat_name nm)) (trim_end (eat_ws (drop 1 p))) st)"
    by (simp add: load_value_eq Let_def sec_def nm_def p_def)
  moreover have n: "name_ok sec"
    using st name_ok_prefix [OF s upto_prefix] by (simp add: sec_def load_ok_def)
  moreover have m: "name_ok nm"
    using s by (simp add: nm_def) (intro impI name_ok_scan)
  moreover from m have "name_ok (upto_ptr nm (eat_name nm))" by (intro name_ok_scan)
  moreover from m have "name_ok (eat_ws (drop 1 p))" unfolding p_def
    by (rule name_ok_suffix [OF name_ok_suffix [OF name_ok_suffix [OF name_ok_suffix
          [OF _ suffix_eat_name] suffix_eat_ws] suffix_drop] suffix_eat_ws])
  moreover from this have "name_ok (trim_end (eat_ws (drop 1 p)))" by (rule name_ok_prefix [OF _ prefix_trim_end])
  ultimately show ?thesis
    using l st store_value_ok [OF st, of sec "upto_ptr nm (eat_name nm)" "trim_end (eat_ws (drop 1 p))" A r st']
    by (cases "peek p = 61") (simp_all add: load_ok_def)
qed

lemma load_line_ok:
  assumes "load_ok st" and "name_ok buf" and "load_line A buf st = (r, st')"
  shows "conf_ok (ld_conf st') \<and> (r = Some () \<longrightarrow> load_ok st') \<and> (linked (ld_conf st) \<longrightarrow> linked (ld_conf st'))"
proof -
  have "name_ok (eat_ws (clear_comments buf))"
    using assms(2) by (intro name_ok_scan)
  moreover from this have "name_ok (drop 1 (eat_ws (clear_comments buf)))" by (rule name_ok_suffix [OF _ suffix_drop])
  ultimately show ?thesis
    using assms(1,3) load_section_ok [OF assms(1)] load_value_ok [OF assms(1)]
    by (auto simp: load_line_def Let_def load_ok_def split: if_splits)
qed

section \<open>The line buffer\<close>

definition buf_ok :: "buf_mem_st \<Rightarrow> bool" where
  "buf_ok b \<longleftrightarrow> length (bm_data b) = unat (bm_max b) \<and> bm_length b \<le> bm_max b"

text \<open>\<open>malloc\<close> returns no block larger than \<open>PTRDIFF_MAX\<close>.\<close>

definition sane :: "(size_t \<Rightarrow> bool) \<Rightarrow> bool" where
  "sane A \<longleftrightarrow> (\<forall>n. A n \<longrightarrow> unat n < 2 ^ 63)"

lemma times_4_exact:
  fixes n :: size_t
  assumes "n * 4 div 4 = n"
  shows "unat (n * 4) = unat n * 4"
proof -
  have "unat (n * 4) div 4 = unat n" using arg_cong [OF assms, of unat] by (simp add: unat_div)
  moreover have "unat (n * 4) \<le> unat n * 4" by (simp add: unat_word_ariths(2))
  ultimately show ?thesis by linarith
qed

lemma times_4_fits:
  fixes cap :: size_t
  assumes "unat cap < 2 ^ 62"
  shows "\<not> cap + 3 < cap" "(cap + 3) div 3 * 4 div 4 = (cap + 3) div 3"
proof -
  have c: "unat (cap + 3) = unat cap + 3" using assms by (simp add: unat_plus_if')
  then show "\<not> cap + 3 < cap" by (simp add: word_less_nat_alt)
  have n: "unat ((cap + 3) div 3) = (unat cap + 3) div 3" using c by (simp add: unat_div)
  then have "unat ((cap + 3) div 3 * 4) = unat ((cap + 3) div 3) * 4"
    using assms by (subst unat_word_ariths(2)) simp
  then show "(cap + 3) div 3 * 4 div 4 = (cap + 3) div 3"
    by (simp add: word_unat_eq_iff unat_div)
qed

lemma BUF_MEM_reserve_cases:
  assumes b: "buf_ok b"
  obtains (fail) "BUF_MEM_reserve A cap b = (None, b)" "\<not> (\<forall>n. A n) \<or> 2 ^ 62 \<le> unat cap"
  | (ok) b' where "BUF_MEM_reserve A cap b = (Some (), b')" "buf_ok b'" "cap \<le> bm_max b'"
      "bm_length b' = bm_length b" "take (length (bm_data b)) (bm_data b') = bm_data b"
      "bm_max b' = bm_max b \<or> A (bm_max b')"
proof (cases "bm_max b \<ge> cap")
  case True
  with ok [of b] b show thesis by (simp add: BUF_MEM_reserve_def)
next
  case False
  let ?n = "(cap + 3) div 3"
  show thesis
  proof (cases "cap + 3 < cap \<or> ?n * 4 div 4 \<noteq> ?n \<or> \<not> A (?n * 4)")
    case True
    with False have "BUF_MEM_reserve A cap b = (None, b)"
      by (auto simp: BUF_MEM_reserve_def Let_def OPENSSL_realloc_def)
    moreover have "\<not> (\<forall>n. A n) \<or> 2 ^ 62 \<le> unat cap" using True times_4_fits [of cap] by auto
    ultimately show thesis by (rule fail)
  next
    case ok3: False
    have c: "unat (cap + 3) = unat cap + 3" using ok3 by (simp add: unat_plus_if' word_less_nat_alt split: if_splits)
    then have "unat ?n = (unat cap + 3) div 3" by (simp add: unat_div)
    with times_4_exact [of ?n] ok3 have m: "unat cap < unat (?n * 4)" by linarith
    then have l: "unat (bm_max b) < unat (?n * 4)" using False by (simp add: word_le_nat_alt)
    let ?d = "bm_data b @ replicate (unat (?n * 4) - length (bm_data b)) 0"
    have "BUF_MEM_reserve A cap b = (Some (), b\<lparr>bm_data := ?d, bm_max := ?n * 4\<rparr>)"
      using False ok3 b l by (simp add: BUF_MEM_reserve_def Let_def OPENSSL_realloc_def buf_ok_def)
    moreover have "buf_ok (b\<lparr>bm_data := ?d, bm_max := ?n * 4\<rparr>)"
      using b l by (auto simp: buf_ok_def word_le_nat_alt)
    ultimately show thesis using ok m ok3 by (simp add: word_le_nat_alt)
  qed
qed

lemma BUF_MEM_grow_cases:
  assumes b: "buf_ok b" and len: "len \<noteq> 0"
  obtains (fail) "fst (BUF_MEM_grow A len b) = 0" "\<not> (\<forall>n. A n) \<or> 2 ^ 62 \<le> unat len"
  | (ok) b' where "BUF_MEM_grow A len b = (len, b')" "buf_ok b'" "bm_length b' = len"
      "bm_max b' = bm_max b \<or> A (bm_max b')"
      "take (min (unat (bm_length b)) (unat len)) (bm_data b') = take (min (unat (bm_length b)) (unat len)) (bm_data b)"
  using b
proof (cases rule: BUF_MEM_reserve_cases [of b A len, case_names none some])
  case none
  then show thesis using fail by (simp add: BUF_MEM_grow_def)
next
  case (some b')
  have len_le: "length (bm_data b) \<le> length (bm_data b')"
    using arg_cong [OF some(5), of length] unfolding length_take by simp
  have l: "unat (bm_length b) \<le> length (bm_data b)" "length (bm_data b) \<le> length (bm_data b')"
    "unat len \<le> length (bm_data b')"
    using b some(2,3) len_le by (simp_all add: buf_ok_def word_le_nat_alt)
  have pre: "take k (bm_data b') = take k (bm_data b)" if "k \<le> unat (bm_length b)" for k
    using arg_cong [OF some(5), of "take k"] that l by (simp add: min_absorb1)
  show thesis
  proof (cases "bm_length b < len")
    case True
    let ?d = "take (unat (bm_length b)) (bm_data b') @ replicate (unat (len - bm_length b)) 0 @ drop (unat len) (bm_data b')"
    have "unat (len - bm_length b) = unat len - unat (bm_length b)"
      using True by (simp add: unat_sub order.strict_implies_order)
    with l True have "length ?d = length (bm_data b')" by (simp add: word_less_nat_alt)
    moreover have "BUF_MEM_grow A len b = (len, b'\<lparr>bm_data := ?d, bm_length := len\<rparr>)"
      using some(1,4) True by (simp add: BUF_MEM_grow_def Let_def)
    moreover have "take (min (unat (bm_length b)) (unat len)) ?d = take (min (unat (bm_length b)) (unat len)) (bm_data b)"
      using l pre [of "min (unat (bm_length b)) (unat len)"] by (simp add: min_absorb1)
    ultimately show thesis using ok [of "b'\<lparr>bm_data := ?d, bm_length := len\<rparr>"] some(2,3,6) by (simp add: buf_ok_def)
  next
    case False
    then have "BUF_MEM_grow A len b = (len, b'\<lparr>bm_length := len\<rparr>)"
      using some(1,4) by (simp add: BUF_MEM_grow_def Let_def)
    with ok [of "b'\<lparr>bm_length := len\<rparr>"] some(2,3,6) pre [of "min (unat (bm_length b)) (unat len)"] show thesis
      by (simp add: buf_ok_def)
  qed
qed

lemma length_poke: "n + length bs \<le> length data \<Longrightarrow> length (poke n bs data) = length data"
  by (simp add: poke_def)

lemma eol_loop_le: "eol_loop p i \<le> i"
  by (induction p i rule: eol_loop.induct) auto

text \<open>What one turn of the loop keeps of the buffer, and that a line is fit for the parser.\<close>

lemma strlen_le_zero: "n < length d \<Longrightarrow> d ! n = 0 \<Longrightarrow> strlen d \<le> n"
proof (induction d arbitrary: n)
  case (Cons c d)
  then show ?case by (cases n) auto
qed simp

lemma zero_free_strlen: "0 \<notin> set (take (strlen d) d)"
  by (induction d) auto

lemma nth_poke: "n + length bs \<le> length data \<Longrightarrow> i < length data \<Longrightarrow>
    poke n bs data ! i = (if n \<le> i \<and> i < n + length bs then bs ! (i - n) else data ! i)"
  by (auto simp: poke_def nth_append min_def)

lemma read_chunk_eq:
  assumes "BUF_MEM_grow A (of_nat (bufnum + CONFBUFSIZE)) buff = (n, b')" "n \<noteq> 0"
    and "gets bio (CONFBUFSIZE - 1) = (line, bio')"
    and d: "data = poke (bufnum + CONFBUFSIZE - 1) [0] (poke bufnum (line @ [0]) (bm_data b'))"
    and ii: "ii = strlen (drop bufnum data)" and i: "i = eol_loop (drop bufnum data) ii"
    and ag: "ag = (ii \<noteq> 0 \<and> i = ii)" and d': "data' = (if ag then data else poke (bufnum + i) [0] data)"
    and e: "eline' = (if ag then eline else eline + 1)"
    and c: "cont = (bufnum + i \<ge> 1 \<and> is_esc (data' ! (bufnum + i - 1)) \<and>
      (bufnum + i \<le> 1 \<or> \<not> is_esc (data' ! (bufnum + i - 2))))"
  shows "read_chunk A gets buff bufnum again eline bio =
    (if ii = 0 \<and> \<not> again then Eof
     else if cont then More (b'\<lparr>bm_data := data'\<rparr>) (bufnum + i - 1) eline' bio'
     else if ag then More (b'\<lparr>bm_data := data'\<rparr>) (bufnum + i) eline' bio'
     else Line (take (strlen data') data') (b'\<lparr>bm_data := data'\<rparr>) eline' bio')"
proof -
  have p1: "(if ag then (data, eline) else (poke (bufnum + i) [0] data, eline + 1)) = (data', eline')"
    by (simp add: d' e)
  have p2: "(if cont then (bufnum + i - 1, True) else (bufnum + i, ag)) =
      (if cont then bufnum + i - 1 else bufnum + i, cont \<or> ag)" by simp
  show ?thesis
    unfolding read_chunk_def assms(1,3) prod.case if_not_P [OF assms(2)] Let_def
      d [symmetric] ii [symmetric] i [symmetric] ag [symmetric] p1 c [symmetric] p2
    by auto
qed

lemma read_chunk_ok:
  assumes b: "buf_ok buff" "unat (bm_max buff) < 2 ^ 63" and A: "sane A" and n: "bufnum \<le> unat (bm_length buff)"
    and g: "length (fst (gets bio (CONFBUFSIZE - 1))) < CONFBUFSIZE - 1"
  shows "case read_chunk A gets buff bufnum again eline bio of
      More buff' bufnum' _ _ \<Rightarrow> buf_ok buff' \<and> unat (bm_max buff') < 2 ^ 63 \<and> bufnum' \<le> unat (bm_length buff')
    | Line l buff' _ _ \<Rightarrow> buf_ok buff' \<and> unat (bm_max buff') < 2 ^ 63 \<and> name_ok l
    | _ \<Rightarrow> True"
proof -
  have n2: "bufnum < 2 ^ 63" using b n by (auto simp: buf_ok_def word_le_nat_alt)
  let ?len = "of_nat (bufnum + CONFBUFSIZE) :: size_t"
  have len: "unat ?len = bufnum + 512" using n2 by (subst unat_of_nat_size) (simp_all add: CONFBUFSIZE_def)
  then have "?len \<noteq> 0" by (metis add_is_0 numeral_neq_zero unat_0 zero_neq_numeral)
  from b(1) this show ?thesis
  proof (cases rule: BUF_MEM_grow_cases [where A = A and len = ?len, case_names none some])
    case none
    then obtain b' where "BUF_MEM_grow A ?len buff = (0, b')" by (metis prod.collapse)
    then show ?thesis by (simp only: read_chunk_def prod.case if_True read.case simp_thms)
  next
    case (some b')
    obtain line bio' where l: "gets bio (CONFBUFSIZE - 1) = (line, bio')" by (cases "gets bio (CONFBUFSIZE - 1)")
    with g have ll: "length line + 1 \<le> 511" by (simp add: CONFBUFSIZE_def)
    have d: "bufnum + 512 \<le> length (bm_data b')" using some(2,3) len by (simp add: buf_ok_def word_le_nat_alt)
    define data where "data = poke (bufnum + CONFBUFSIZE - 1) [0] (poke bufnum (line @ [0]) (bm_data b'))"
    have ld: "length data = length (bm_data b')" using d ll by (simp add: data_def poke_def CONFBUFSIZE_def)
    have z: "data ! (bufnum + 511) = 0" "data ! (bufnum + length line) = 0"
      using d ll by (auto simp: data_def CONFBUFSIZE_def nth_poke length_poke)
    define ii where "ii = strlen (drop bufnum data)"
    have ii: "ii \<le> length line" unfolding ii_def using z(2) d ld ll by (intro strlen_le_zero) simp_all
    define i where "i = eol_loop (drop bufnum data) ii"
    have i: "i \<le> ii" by (simp add: i_def eol_loop_le)
    define ag where "ag = (ii \<noteq> 0 \<and> i = ii)"
    define data' where "data' = (if ag then data else poke (bufnum + i) [0] data)"
    define el where "el = (if ag then eline else eline + 1)"
    define cont where "cont = (bufnum + i \<ge> 1 \<and> is_esc (data' ! (bufnum + i - 1)) \<and>
      (bufnum + i \<le> 1 \<or> \<not> is_esc (data' ! (bufnum + i - 2))))"
    have ld': "length data' = length data" using i ii d ld ll by (simp add: data'_def length_poke)
    have z': "data' ! (bufnum + 511) = 0" using z d ld i ii ll by (auto simp: data'_def nth_poke)
    have ok: "buf_ok (b'\<lparr>bm_data := data'\<rparr>)" "unat (bm_max b') < 2 ^ 63"
      using some(2,4) ld ld' b(2) A by (auto simp: buf_ok_def sane_def)
    have "strlen data' \<le> bufnum + 511" using z' d ld ld' by (intro strlen_le_zero) simp_all
    moreover have "length data' < 2 ^ 63" using ok by (simp add: buf_ok_def)
    ultimately have "name_ok (take (strlen data') data')"
      using zero_free_strlen [of data'] by (simp add: name_ok_def)
    moreover have "bufnum + i \<le> unat (bm_length b')" using some(3) len i ii ll by simp
    ultimately show ?thesis
      using ok unfolding read_chunk_eq [where eline = eline and gets = gets and bio = bio,
          OF some(1) \<open>?len \<noteq> 0\<close> l data_def ii_def i_def ag_def data'_def el_def cont_def]
      by auto
  qed
qed

section \<open>The whole file\<close>

definition gets_fit :: "('b \<Rightarrow> nat \<Rightarrow> u8 list \<times> 'b) \<Rightarrow> bool" where
  "gets_fit gets \<longleftrightarrow> (\<forall>b n. 0 < n \<longrightarrow> length (fst (gets b n)) < n)"

lemma load_loop_ok:
  assumes "load_loop A gets buff bufnum again eline st bio = Some y"
    and "sane A" "gets_fit gets" "buf_ok buff \<and> unat (bm_max buff) < 2 ^ 63" "bufnum \<le> unat (bm_length buff)" "load_ok st"
  shows "conf_ok (ld_conf (snd (snd y))) \<and> (linked (ld_conf st) \<longrightarrow> linked (ld_conf (snd (snd y))))"
  using assms
proof (induction A gets buff bufnum again eline st bio y
    rule: load_loop.raw_induct [rotated, consumes 1, case_names turn])
  case 1: (turn loop A gets buff bufnum again eline st bio y)
  have c: "conf_ok (ld_conf st)" using 1(7) by (simp add: load_ok_def)
  have "length (fst (gets bio (CONFBUFSIZE - 1))) < CONFBUFSIZE - 1"
    using 1(4) by (simp add: gets_fit_def CONFBUFSIZE_def)
  note R = read_chunk_ok [where again = again and eline = eline and gets = gets and bio = bio, OF _ _ 1(3,6) this]
  show ?case
  proof (cases "read_chunk A gets buff bufnum again eline bio")
    case (More b n e bio')
    with 1(2) have "loop A gets b n True e st bio' = Some y" by simp
    from 1(1) [OF this 1(3,4) _ _ 1(7)] R 1(5) More show ?thesis by simp
  next
    case (Line l b e bio')
    with R 1(5) have l: "buf_ok b \<and> unat (bm_max b) < 2 ^ 63" "name_ok l" by simp_all
    obtain r st' where ll: "load_line A l st = (r, st')" by (cases "load_line A l st")
    note L = load_line_ok [OF 1(7) l(2) ll]
    show ?thesis
    proof (cases r)
      case None
      with 1(2) Line ll L show ?thesis by auto
    next
      case (Some u)
      with 1(2) Line ll have "loop A gets b 0 False e st' bio' = Some y" by simp
      from 1(1) [OF this 1(3,4) l(1)] L Some show ?thesis by simp
    qed
  qed (use 1(2) c in auto)
qed

lemma BUF_MEM_new_ok: "BUF_MEM_new A = Some b \<Longrightarrow> buf_ok b \<and> unat (bm_max b) < 2 ^ 63"
  by (auto simp: BUF_MEM_new_def buf_ok_def split: if_splits)

lemma default_name_ok: "name_ok kDefaultSectionName"
  by (simp add: name_ok_def kDefaultSectionName_def)

lemma NCONF_load_bio_ok:
  assumes ok: "conf_ok conf" and A: "sane A" and g: "gets_fit gets"
    and l: "NCONF_load_bio A gets conf bio = Some (r, n, conf')"
  shows "conf_ok conf' \<and> (linked conf \<and> (\<forall>v \<in># stored (conf_values conf). cv_section v \<noteq> kDefaultSectionName) \<longrightarrow> linked conf')"
proof (cases "BUF_MEM_new A")
  case None
  with l ok show ?thesis by (simp add: NCONF_load_bio_def)
next
  case (Some buff)
  note b = this
  show ?thesis
  proof (cases "OPENSSL_strdup A (Some kDefaultSectionName)")
    case None
    with l ok b show ?thesis by (simp add: NCONF_load_bio_def)
  next
    case (Some name)
    then have s: "OPENSSL_strdup A (Some kDefaultSectionName) = Some kDefaultSectionName"
      using default_name_ok by (auto simp: name_ok_def dest: strdup_Some)
    obtain q c where new: "NCONF_new_section A kDefaultSectionName conf = (q, c)"
      by (cases "NCONF_new_section A kDefaultSectionName conf")
    note N = NCONF_new_section_ok [OF ok default_name_ok new]
    show ?thesis
    proof (cases q)
      case None
      with l b s new N ok show ?thesis by (simp add: NCONF_load_bio_def)
    next
      case (Some sv)
      let ?st = "\<lparr>ld_conf = c, ld_section = kDefaultSectionName, ld_sv = sv\<rparr>"
      from l b s new Some obtain st where st: "load_loop A gets buff 0 False 0 ?st bio = Some (r, n, st)" "conf' = ld_conf st"
        by (auto simp: NCONF_load_bio_def split: option.splits)
      have "load_ok ?st" using N Some default_name_ok by (simp add: load_ok_def)
      from load_loop_ok [OF st(1) A g BUF_MEM_new_ok [OF b] _ this] st(2) N show ?thesis by auto
    qed
  qed
qed

section \<open>Termination on a memory BIO\<close>

lemma memchr_loop_less: "memchr_loop c s = Some i \<Longrightarrow> i < length s"
  by (induction c s arbitrary: i rule: memchr_loop.induct) (auto split: if_splits)

lemma mem_gets_shorter:
  assumes "mem_gets b n = (line, b')" "1 < n"
  shows "length line < n" and "b \<noteq> [] \<Longrightarrow> length b' < length b" and "b = [] \<Longrightarrow> line = [] \<and> b' = []"
proof -
  let ?r = "min (n - 1) (length b)"
  have "unat (of_nat ?r :: size_t) \<le> ?r" unfolding unat_of_nat by (rule mod_less_eq_dividend)
  then have i: "i < ?r" if "OPENSSL_memchr b 10 (of_nat ?r) = Some i" for i
    using that memchr_loop_less [of 10 "take (unat (of_nat ?r :: size_t)) b" i]
    by (auto simp: OPENSSL_memchr_def split: if_splits)
  define k where "k = (case OPENSSL_memchr b 10 (of_nat ?r) of None \<Rightarrow> ?r | Some newline \<Rightarrow> newline + 1)"
  have "line = take k b" "b' = drop k b"
    using assms by (simp_all add: mem_gets_def Let_def k_def split: option.splits)
  moreover have "k \<le> ?r \<and> (b \<noteq> [] \<longrightarrow> 0 < k)"
  proof (cases "OPENSSL_memchr b 10 (of_nat ?r)")
    case None
    with assms(2) show ?thesis by (simp add: k_def)
  next
    case (Some j)
    from i [OF this] show ?thesis unfolding k_def Some by simp
  qed
  ultimately show "length line < n" "b \<noteq> [] \<Longrightarrow> length b' < length b" "b = [] \<Longrightarrow> line = [] \<and> b' = []"
    using assms(2) by auto
qed

lemma mem_gets_fit: "gets_fit mem_gets"
  unfolding gets_fit_def
proof (intro allI impI)
  fix b :: "u8 list" and n :: nat
  assume "0 < n"
  then consider "n = 1" | "1 < n" by linarith
  then show "length (fst (mem_gets b n)) < n"
  proof cases
    case 1
    then show ?thesis by (auto simp: mem_gets_def Let_def OPENSSL_memchr_def)
  next
    case 2
    then show ?thesis using mem_gets_shorter(1) [of b n] by (metis prod.collapse)
  qed
qed

lemma strlen_after_empty: "strlen (drop n (poke (n + k) [0] (poke n [0] d))) = 0"
proof (cases "n \<le> length d")
  case True
  let ?e = "poke n [0] d"
  let ?x = "poke (n + k) [0] ?e"
  have "length ?e \<ge> n + 1" "?e ! n = 0" using True by (simp_all add: poke_def nth_append)
  then have "n < length ?x" "?x ! n = 0" by (auto simp: poke_def [of "n + k"] nth_append)
  then have "drop n ?x = 0 # drop (Suc n) ?x" by (metis Cons_nth_drop_Suc)
  then show ?thesis by simp
next
  case False
  then have "drop n (poke (n + k) [0] (poke n [0] d)) = drop (n - Suc (length d)) [0]"
    by (cases n) (simp_all add: poke_def Suc_diff_le)
  then show ?thesis by (cases "n - Suc (length d)") simp_all
qed

text \<open>What is in the stack of a section, and where a look-up finds its value.\<close>

lemma section_values:
  assumes "conf_ok conf" "0 \<notin> set name" "NCONF_get_section conf name = Some st" "p \<in> set (elems st)"
  shows "\<exists>v. p = Some v \<and> cv_section v = name \<and> NCONF_get_string conf (Some name) (cv_name v) = Some (cv_value v)"
proof -
  from assms(1) have V: "values_ok (conf_fresh conf) (conf_values conf)" and S: "sections_ok (conf_fresh conf) (conf_sections conf)"
    by (simp_all add: conf_ok_def)
  from assms(3) obtain s where s: "get_section conf name = Some s" "conf_stacks conf (cs_values s) = Some st"
    by (auto simp: NCONF_get_section_def split: option.splits)
  with get_section_eq [OF S assms(2), of s] assms(1) have "stack_of_ok (conf_values conf) name (Some st)"
    by (auto simp: conf_ok_def)
  with assms(4) obtain v where v: "p = Some v" "v \<in># stored (conf_values conf)" "cv_section v = name"
    by (auto simp: stack_of_ok_def)
  moreover have "0 \<notin> set (cv_name v)" using V v(2) by (auto simp: values_ok_def)
  ultimately show ?thesis using get_string_eq [OF V assms(2), of "cv_name v"] by blast
qed

lemma string_in_section:
  assumes "conf_ok conf" "linked conf" "0 \<notin> set sec" "0 \<notin> set nm"
  shows "NCONF_get_string conf (Some sec) nm = Some x \<longleftrightarrow>
    (\<exists>st v. NCONF_get_section conf sec = Some st \<and> Some v \<in> set (elems st) \<and> cv_name v = nm \<and> cv_value v = x)"
    (is "?l \<longleftrightarrow> ?r")
proof
  from assms(1) have V: "values_ok (conf_fresh conf) (conf_values conf)" and S: "sections_ok (conf_fresh conf) (conf_sections conf)"
    by (simp_all add: conf_ok_def)
  assume ?l
  with get_string_eq [OF V assms(3,4)] obtain v where v: "v \<in># stored (conf_values conf)" "cv_section v = sec" "cv_name v = nm" "cv_value v = x"
    by blast
  with assms(2) obtain s st where s: "s \<in># stored (conf_sections conf)" "cs_name s = sec"
      "conf_stacks conf (cs_values s) = Some st" "Some v \<in> set (elems st)" unfolding linked_def by blast
  with get_section_eq [OF S assms(3), of s] have "NCONF_get_section conf sec = Some st" by (simp add: NCONF_get_section_def)
  with s(4) v show ?r by blast
next
  assume ?r
  then show ?l using section_values [OF assms(1,3)] by fastforce
qed

text \<open>
  The contract of a line reader: \<open>size\<close> measures what it has left, and a call that takes nothing
  is at the end, returns the empty string and leaves the reader as it is.
\<close>

locale line_reader =
  fixes gets :: "'b \<Rightarrow> nat \<Rightarrow> u8 list \<times> 'b" and left :: "'b \<Rightarrow> nat"
  assumes progress: "1 < n \<Longrightarrow> gets b n = (line, b') \<Longrightarrow> left b' < left b \<or> line = [] \<and> b' = b"
begin

text \<open>One turn ends the loop, or consumes input, or shortens the line that it continues.\<close>

lemma read_chunk_progress:
  "case read_chunk A gets buff bufnum again eline bio of
      More _ bufnum' _ bio' \<Rightarrow> left bio' < left bio \<or> bio' = bio \<and> again \<and> bufnum' < bufnum
    | Line _ _ _ bio' \<Rightarrow> left bio' < left bio \<or> bio' = bio \<and> again
    | _ \<Rightarrow> True"
proof -
  obtain n b' where G: "BUF_MEM_grow A (of_nat (bufnum + CONFBUFSIZE)) buff = (n, b')"
    by (cases "BUF_MEM_grow A (of_nat (bufnum + CONFBUFSIZE)) buff")
  show ?thesis
  proof (cases "n = 0")
    case True
    then show ?thesis using G by (simp add: read_chunk_def)
  next
    case False
    obtain line bio' where l: "gets bio (CONFBUFSIZE - 1) = (line, bio')" by (cases "gets bio (CONFBUFSIZE - 1)")
    note M = progress [OF _ l, unfolded CONFBUFSIZE_def, simplified]
    define data where "data = poke (bufnum + CONFBUFSIZE - 1) [0] (poke bufnum (line @ [0]) (bm_data b'))"
    define ii where "ii = strlen (drop bufnum data)"
    define i where "i = eol_loop (drop bufnum data) ii"
    define ag where "ag = (ii \<noteq> 0 \<and> i = ii)"
    define data' where "data' = (if ag then data else poke (bufnum + i) [0] data)"
    define el where "el = (if ag then eline else eline + 1)"
    define cont where "cont = (bufnum + i \<ge> 1 \<and> is_esc (data' ! (bufnum + i - 1)) \<and>
      (bufnum + i \<le> 1 \<or> \<not> is_esc (data' ! (bufnum + i - 2))))"
    note eq = read_chunk_eq [where eline = eline and gets = gets and bio = bio,
          OF G False l data_def ii_def i_def ag_def data'_def el_def cont_def]
    show ?thesis
    proof (cases "left bio' < left bio")
      case False
      with M have "line = []" "bio' = bio" by simp_all
      then have "ii = 0" unfolding ii_def data_def CONFBUFSIZE_def
        using strlen_after_empty [of bufnum 511 "bm_data b'"] by (simp add: add.commute)
      then have "i = 0" "\<not> ag" using eol_loop_le [of "drop bufnum data" ii] by (simp_all add: i_def ag_def)
      with \<open>ii = 0\<close> \<open>bio' = bio\<close> show ?thesis unfolding eq by (auto simp: cont_def)
    qed (auto simp: eq)
  qed
qed

lemma load_loop_returns: "load_loop A gets buff bufnum again eline st bio \<noteq> None"
proof (induction "(left bio, if again then Suc bufnum else 0)" arbitrary: buff bufnum again eline st bio
    rule: wf_induct_rule [OF wf_lex_prod [OF wf_less_than wf_less_than]])
  case 1
  note R = read_chunk_progress [where A = A and buff = buff and bufnum = bufnum and again = again and eline = eline and bio = bio]
  show ?case
  proof (cases "read_chunk A gets buff bufnum again eline bio")
    case (More b n e bio')
    with R have "load_loop A gets b n True e st bio' \<noteq> None" by (intro 1) auto
    with More show ?thesis by (subst load_loop.simps) (simp del: not_None_eq)
  next
    case (Line l b e bio')
    with R have "load_loop A gets b 0 False e st' bio' \<noteq> None" for st' by (intro 1) auto
    with Line show ?thesis
      by (subst load_loop.simps) (simp del: not_None_eq split: prod.splits option.splits)
  qed (simp_all add: load_loop.simps)
qed

lemma load_returns: "NCONF_load_bio A gets conf bio \<noteq> None"
  using load_loop_returns by (simp add: NCONF_load_bio_def del: not_None_eq split: option.splits prod.splits)

end

text \<open>A memory BIO is such a reader: \<open>mem_gets\<close> takes a byte or more before the end.\<close>

interpretation mem_bio: line_reader mem_gets length
proof
  fix n :: nat and b line b' :: "u8 list"
  assume "1 < n" "mem_gets b n = (line, b')"
  from mem_gets_shorter [OF this(2,1)] show "length b' < length b \<or> line = [] \<and> b' = b" by (cases "b = []") auto
qed

text \<open>
  C28: termination. Loading returns with any line reader each of whose calls takes part of a
  finite input or is at its end, whatever the bytes are and whichever allocations fail. A turn that
  takes nothing ends the loop or finishes the line it continues, and takes off that line what
  it removes, so that only finitely many of them follow each other. \<open>mem_gets\<close> is such a reader.
\<close>

theorem NCONF_load_bio_terminates:
  assumes "line_reader gets left"
  shows "(\<exists>r eline conf'. NCONF_load_bio A gets conf bio = Some (r, eline, conf')) \<and>
    (\<exists>r eline conf'. NCONF_load_bio A mem_gets conf bytes = Some (r, eline, conf'))"
  using line_reader.load_returns [OF assms, of A conf bio] mem_bio.load_returns [of A conf bytes] by auto

text \<open>A reader that returns one byte at a time, and a file that ends in a backslash.\<close>

theorem NCONF_load_bio_terminates_witness:
  "\<exists>conf r eline conf'. NCONF_new (\<lambda>_. True) True = Some conf \<and>
     NCONF_load_bio (\<lambda>_. True) (\<lambda>b n. (take 1 b, drop 1 b)) conf [107, 61, 118, 92] = Some (r, eline, conf')"
proof -
  have "line_reader (\<lambda>b n. (take 1 b, drop 1 b :: u8 list)) length"
  proof (unfold_locales, goal_cases)
    case (1 n b line b')
    then show ?case by (cases b) auto
  qed
  note T = NCONF_load_bio_terminates [OF this]
  obtain conf where "NCONF_new (\<lambda>_. True) True = Some conf"
    by (simp add: NCONF_new_def OPENSSL_lh_new_def)
  with T [of "\<lambda>_. True" conf "[107, 61, 118, 92]"] show ?thesis by blast
qed

text \<open>
  C29: the sections and the table agree. From any well-formed configuration (the one \<open>NCONF_new\<close>
  makes is), loading any input with any line reader that respects its buffer, successful or not
  and whichever allocations fail, leaves a well-formed one: every pointer in the stack of a
  section is to a value that a look-up by its section and name finds. For a new configuration the
  converse holds too: every value that a look-up finds is in the stack of its section, so
  \<open>NCONF_get_string\<close> and \<open>NCONF_get_section\<close> give the same values. (A second load into the
  same configuration replaces its default section by an empty one.)
\<close>

theorem conf_no_dangling:
  assumes "conf_ok conf \<or> NCONF_new A' m = Some conf" "sane A" "gets_fit gets"
    and "NCONF_load_bio A gets conf bio = Some (r, eline, conf')"
  shows "conf_ok conf' \<and> (\<forall>name st p. 0 \<notin> set name \<longrightarrow> NCONF_get_section conf' name = Some st \<longrightarrow> p \<in> set (elems st) \<longrightarrow>
      (\<exists>v. p = Some v \<and> cv_section v = name \<and> NCONF_get_string conf' (Some name) (cv_name v) = Some (cv_value v))) \<and>
    (NCONF_new A' m = Some conf \<longrightarrow> (\<forall>sec nm x. 0 \<notin> set sec \<longrightarrow> 0 \<notin> set nm \<longrightarrow>
      (NCONF_get_string conf' (Some sec) nm = Some x \<longleftrightarrow>
       (\<exists>st v. NCONF_get_section conf' sec = Some st \<and> Some v \<in> set (elems st) \<and> cv_name v = nm \<and> cv_value v = x))))"
proof -
  have new: "conf_ok conf \<and> stored (conf_values conf) = {#}" if "NCONF_new A' m = Some conf"
    using NCONF_new_ok [OF that] .
  with assms(1) have "conf_ok conf" by blast
  note L = NCONF_load_bio_ok [OF this assms(2-4)]
  then have ok: "conf_ok conf'" by simp
  have "linked conf'" if "NCONF_new A' m = Some conf"
    using L new [OF that] by (simp add: linked_def)
  then show ?thesis
    using ok section_values [OF ok] string_in_section [OF ok] by blast
qed

text \<open>The file is the line \<open>k=v\<close>.\<close>

theorem conf_no_dangling_witness:
  "\<exists>conf r eline conf'. NCONF_new (\<lambda>n. n < 1000) True = Some conf \<and>
     NCONF_load_bio (\<lambda>n. n < 1000) mem_gets conf [107, 61, 118, 10] = Some (r, eline, conf') \<and> conf_ok conf'"
proof -
  let ?A = "\<lambda>n :: size_t. n < 1000"
  have A: "sane ?A" by (simp add: sane_def word_less_nat_alt)
  obtain conf where new: "NCONF_new ?A True = Some conf"
    by (simp add: NCONF_new_def OPENSSL_lh_new_def kMinNumBuckets_def)
  obtain r eline conf' where l: "NCONF_load_bio ?A mem_gets conf [107, 61, 118, 10] = Some (r, eline, conf')"
    using mem_bio.load_returns [of ?A conf] by (metis not_None_eq prod_cases3)
  from conf_no_dangling [OF _ A mem_gets_fit l] new l show ?thesis by blast
qed

end
