(* ===== verification/ConfText.thy ===== *)
theory ConfText
  imports ConfLoad
begin

text \<open>
  Reading back a configuration: a file of lines \<open>section::name = "value"\<close>, with quotes and
  backslashes of the value escaped, is loaded to exactly the map it writes down.
\<close>

section \<open>The text\<close>

definition conf_escape :: "cstr \<Rightarrow> cstr" where
  "conf_escape v = concat (map (\<lambda>c. if c = 34 \<or> c = 92 then [92, c] else [c]) v)"

definition conf_line :: "cstr \<Rightarrow> cstr \<Rightarrow> cstr \<Rightarrow> cstr" where
  "conf_line sec nm v = sec @ [58, 58] @ nm @ [32, 61, 32, 34] @ conf_escape v @ [34]"

fun conf_text :: "(cstr \<times> cstr \<times> cstr) list \<Rightarrow> u8 list" where
  "conf_text [] = []"
| "conf_text ((sec, nm, v) # es) = conf_line sec nm v @ 10 # conf_text es"

definition entry_ok :: "cstr \<times> cstr \<times> cstr \<Rightarrow> bool" where
  "entry_ok e = (case e of (sec, nm, v) \<Rightarrow> (\<forall>c \<in> set sec. is_name_char c) \<and> (\<forall>c \<in> set nm. is_name_char c) \<and>
     0 \<notin> set v \<and> 10 \<notin> set v \<and> length (conf_line sec nm v) \<le> 509)"

section \<open>Parsing one line\<close>

lemma name_char_not:
  "is_name_char c \<Longrightarrow> c \<noteq> 0 \<and> c \<noteq> 10 \<and> c \<noteq> 58 \<and> c \<noteq> 61 \<and> c \<noteq> 91 \<and> \<not> is_esc c \<and> \<not> is_quote c \<and> \<not> is_comment c \<and> \<not> is_conf_ws c"
  by (intro conjI notI; (simp add: is_esc_def is_quote_def is_comment_def is_conf_ws_def)?; (elim disjE)?;
      simp add: is_name_char_def OPENSSL_isalnum_def OPENSSL_isalpha_def OPENSSL_isdigit_def)

lemma eat_name_append: "\<forall>c \<in> set nm. is_name_char c \<Longrightarrow> eat_name (nm @ p) = eat_name p"
  by (induction nm) (auto simp: eat_name.simps [of "c # p" for c p] peek_def dest: name_char_not)

lemma eat_name_stop: "\<not> is_name_char c \<Longrightarrow> \<not> is_esc c \<Longrightarrow> eat_name (c # p) = c # p"
  by (simp add: eat_name.simps [of "c # p"] peek_def)

lemma not_name_char: "\<not> is_name_char 58" "\<not> is_name_char 32"
  by (simp_all add: is_name_char_def OPENSSL_isalnum_def OPENSSL_isalpha_def OPENSSL_isdigit_def)

lemma comments_loop_plain:
  "\<not> is_comment c \<Longrightarrow> \<not> is_quote c \<Longrightarrow> \<not> is_esc c \<Longrightarrow> comments_loop (c # p) = c # comments_loop p"
  by (simp add: comments_loop.simps [of "c # p"] peek_def)

lemma comments_loop_names: "\<forall>c \<in> set nm. is_name_char c \<Longrightarrow> comments_loop (nm @ p) = nm @ comments_loop p"
  by (induction nm) (auto simp: comments_loop_plain dest: name_char_not)

lemma quote_end_escape: "quote_end 34 (conf_escape v @ 34 # p) = p"
  by (induction v) (auto simp: conf_escape_def is_esc_def)

lemma quote_copy_escape: "quote_copy 34 (conf_escape v @ 34 # p) = (v, 34 # p)"
  by (induction v) (auto simp: conf_escape_def is_esc_def)

lemma comments_loop_quote: "comments_loop (34 # conf_escape v @ [34]) = 34 # conf_escape v @ [34]"
proof -
  have "comments_loop [] = []" by (simp add: comments_loop.simps [of "[]"] peek_def is_quote_def is_esc_def)
  then show ?thesis
    by (subst comments_loop.simps)
      (simp add: peek_def is_comment_def is_quote_def scan_quote_def quote_end_escape upto_ptr_def)
qed

lemma str_copy_loop_escape: "str_copy_loop (34 # conf_escape v @ [34]) = Some v"
proof -
  have "is_quote 34" by (simp add: is_quote_def)
  then show ?thesis by (simp add: str_copy_loop_quote quote_copy_escape peek_def)
qed

lemma trim_end_quote: "trim_end (34 # s @ [34]) = 34 # s @ [34]"
  by (simp add: trim_end_def is_conf_ws_def nth_append)

lemma load_line_conf_line:
  assumes "entry_ok (sec, nm, v)"
  shows "load_line A (conf_line sec nm v) st = store_value A sec nm (34 # conf_escape v @ [34]) st"
proof -
  let ?r = "34 # conf_escape v @ [34]"
  let ?l = "conf_line sec nm v"
  from assms have s: "\<forall>c \<in> set sec. is_name_char c" and n: "\<forall>c \<in> set nm. is_name_char c" by (simp_all add: entry_ok_def)
  have hd: "eat_ws ?l = ?l" "peek ?l \<noteq> 91" "?l \<noteq> []"
  proof -
    show "eat_ws ?l = ?l" using s name_char_not by (cases sec) (auto simp: conf_line_def is_conf_ws_def)
    show "peek ?l \<noteq> 91" using s name_char_not by (cases sec) (auto simp: conf_line_def peek_def)
  qed (simp add: conf_line_def)
  have "comments_loop ?l = ?l"
    using s n by (simp add: conf_line_def comments_loop_names comments_loop_plain comments_loop_quote
        is_comment_def is_quote_def is_esc_def)
  with hd have c: "eat_ws (clear_comments ?l) = ?l" by (simp add: clear_comments_def upto_ptr_def)
  have e: "eat_name ?l = 58 # 58 # nm @ 32 # 61 # 32 # ?r"
    using s by (simp add: conf_line_def eat_name_append eat_name_stop not_name_char is_esc_def)
  have e2: "eat_name (nm @ 32 # 61 # 32 # ?r) = 32 # 61 # 32 # ?r"
    using n by (simp add: eat_name_append eat_name_stop not_name_char is_esc_def)
  have "upto_ptr ?l (eat_name ?l) = sec" "upto_ptr (nm @ 32 # 61 # 32 # ?r) (32 # 61 # 32 # ?r) = nm"
    unfolding e by (simp_all add: upto_ptr_def conf_line_def)
  with e e2 have "load_value A ?l st = store_value A sec nm (trim_end ?r) st"
    by (simp add: load_value_eq Let_def peek_def is_conf_ws_def)
  with c hd show ?thesis by (simp add: load_line_def Let_def trim_end_quote)
qed

section \<open>With memory every operation succeeds\<close>

lemma NCONF_new_section_all:
  assumes ok: "conf_ok conf" and n: "name_ok section"
  shows "fst (NCONF_new_section (\<lambda>_. True) section conf) \<noteq> None"
proof -
  let ?s = "\<lparr>cs_name = section, cs_values = conf_fresh conf\<rparr>"
  obtain r old lh where i: "OPENSSL_lh_insert (\<lambda>_. True) 24 ?s (conf_sections conf) = (r, old, lh)" by (metis surj_pair)
  from ok have o: "lh_ok (conf_sections conf)" "hash_key (lh_hash (conf_sections conf)) (lh_comp (conf_sections conf))"
    by (simp_all add: conf_ok_def sections_ok_def section_table)
  from insert_spec [OF this i] have "r" by (cases r) auto
  with i n show ?thesis
    by (simp add: NCONF_new_section_def strdup_all name_ok_def OPENSSL_sk_new_null_def OPENSSL_sk_new_def Let_def)
qed

lemma find_section_all:
  "conf_ok conf \<Longrightarrow> name_ok section \<Longrightarrow> fst (find_section (\<lambda>_. True) section conf) \<noteq> None"
  by (simp add: find_section_def NCONF_new_section_all split: option.splits del: not_None_eq)

lemma card_set_mset_le: "card (set_mset M) \<le> size M"
  by (induction M) (auto simp: card_insert_if)

lemma section_stack_bound:
  assumes "stack_of_ok lh name (Some st)"
  shows "length (elems st) \<le> size (stored lh)"
proof -
  from assms have d: "distinct (elems st)" and s: "set (elems st) \<subseteq> Some ` set_mset (stored lh)"
    by (auto simp: stack_of_ok_def)
  have "length (elems st) = card (set (elems st))" using d by (simp add: distinct_card)
  also have "\<dots> \<le> card (Some ` set_mset (stored lh))" by (intro card_mono s) simp
  also have "\<dots> \<le> size (stored lh)" using card_image_le [of "set_mset (stored lh)" Some] card_set_mset_le [of "stored lh"] by simp
  finally show ?thesis .
qed

lemma insert_all:
  assumes "values_ok n lh" "OPENSSL_lh_insert (\<lambda>_. True) sz v lh = (r, old, lh')"
  shows "r \<and> size (stored lh') \<le> Suc (size (stored lh))"
proof -
  from assms(1) have o: "lh_ok lh" "hash_key (lh_hash lh) (lh_comp lh)" by (simp_all add: values_ok_def value_table)
  from insert_spec [OF o assms(2)] have "r" "stored lh' = add_mset v {# x \<in># stored lh. lh_comp lh x v \<noteq> 0 #}"
    by (cases r; simp)+
  then show ?thesis by (simp add: size_filter_mset_lesseq)
qed

lemma add_string_all:
  assumes ok: "conf_ok conf" and s: "s \<in># stored (conf_sections conf)"
    and room: "size (stored (conf_values conf)) < 2 ^ 31 - 1"
    and add: "add_string (\<lambda>_. True) s v conf = (r, conf')"
  shows "r = Some () \<and> size (stored (conf_values conf')) \<le> Suc (size (stored (conf_values conf)))"
proof -
  from ok s obtain st where st: "conf_stacks conf (cs_values s) = Some st" "stack_ok st"
      "stack_of_ok (conf_values conf) (cs_name s) (Some st)"
    unfolding conf_ok_def by (metis stack_of_ok_def)
  from ok s have n: "OPENSSL_strdup (\<lambda>_. True) (Some (cs_name s)) = Some (cs_name s)"
    by (auto simp: conf_ok_def sections_ok_def name_ok_def intro!: strdup_all)
  have V: "values_ok (conf_fresh conf) (conf_values conf)" using ok by (simp add: conf_ok_def)
  let ?v = "v\<lparr>cv_section := cs_name s\<rparr>"
  obtain b old lh where i: "OPENSSL_lh_insert (\<lambda>_. True) 24 ?v (conf_values conf) = (b, old, lh)" by (metis surj_pair)
  note I = insert_all [OF V i]
  from st(2) show ?thesis
  proof (cases rule: sk_push_cases [where A = "\<lambda>_. True" and p = "Some ?v", case_names full pushed])
    case full
    with section_stack_bound [OF st(3)] room show ?thesis by simp
  next
    case (pushed k st')
    with add n st(1) i I show ?thesis by (auto simp: add_string_def Let_def split: option.splits)
  qed
qed

lemma str_copy_all:
  assumes "name_ok p" "length p < 2 ^ 61"
  shows "str_copy (\<lambda>_. True) p = str_copy_loop p"
proof -
  let ?b = "\<lparr>bm_length = 0, bm_data = [], bm_max = 0\<rparr>" and ?l = "of_nat (length p) + 1 :: size_t"
  have b: "buf_ok ?b" by (simp add: buf_ok_def)
  have l: "unat ?l = length p + 1" using assms(2) unat_of_nat_size [of "length p + 1"] by (simp add: add.commute)
  then have "?l \<noteq> 0" by (metis Suc_eq_plus1 nat.distinct(1) unat_0)
  from b this have "fst (BUF_MEM_grow (\<lambda>_. True) ?l ?b) \<noteq> 0"
    by (rule BUF_MEM_grow_cases [where A = "\<lambda>_. True"]) (use l assms(2) \<open>?l \<noteq> 0\<close> in auto)
  with assms(1) show ?thesis by (simp add: str_copy_def BUF_MEM_new_def strlen_nonzero name_ok_def)
qed

lemma store_value_all:
  assumes st: "load_ok st" and n: "name_ok sec" "name_ok nm" "name_ok val" "length val < 2 ^ 61"
    and v: "str_copy_loop val = Some v" and room: "size (stored (conf_values (ld_conf st))) < 2 ^ 31 - 1"
    and l: "store_value (\<lambda>_. True) sec nm val st = (r, st')"
  shows "r = Some () \<and> size (stored (conf_values (ld_conf st'))) \<le> Suc (size (stored (conf_values (ld_conf st))))"
proof -
  let ?A = "\<lambda>_ :: size_t. True"
  let ?c = "ld_conf st\<lparr>conf_fresh := Suc (conf_fresh (ld_conf st))\<rparr>"
  from st have ok: "conf_ok ?c" by (simp add: load_ok_def conf_ok_fresh)
  have s: "str_copy ?A val = Some v" using n v by (simp add: str_copy_all)
  have d: "OPENSSL_strdup ?A (Some nm) = Some nm" using n(2) by (simp add: strdup_all name_ok_def)
  define find where "find = (if strcmp sec (ld_section st) \<noteq> 0 then find_section ?A sec ?c else (Some (ld_sv st), ?c))"
  obtain q c where f: "find = (q, c)" by (cases find)
  have "\<exists>tv. q = Some tv \<and> conf_ok c \<and> conf_values c = conf_values (ld_conf st) \<and> tv \<in># stored (conf_sections c)"
  proof (cases "strcmp sec (ld_section st) = 0")
    case True
    with f st ok show ?thesis by (auto simp: find_def load_ok_def)
  next
    case False
    with f have f': "find_section ?A sec ?c = (q, c)" by (simp add: find_def)
    from find_section_ok [OF ok n(1) f'] find_section_all [OF ok n(1)] f' show ?thesis by auto
  qed
  then obtain tv where tv: "q = Some tv" "conf_ok c" "conf_values c = conf_values (ld_conf st)"
      "tv \<in># stored (conf_sections c)" by blast
  obtain r' c' where a: "add_string ?A tv \<lparr>cv_addr = conf_fresh (ld_conf st), cv_section = [], cv_name = nm, cv_value = v\<rparr> c = (r', c')"
    by (metis surj_pair)
  from store_value_eq [of ?A, OF _ d s f [unfolded find_def]] tv(1) a l
  have "r = r'" "st' = st\<lparr>ld_conf := c'\<rparr>" by auto
  with add_string_all [OF tv(2,4) _ a] tv(3) room show ?thesis by simp
qed

section \<open>Reading the lines\<close>

lemma poke_append: "length bs \<le> n \<Longrightarrow> poke n x (bs @ r) = bs @ poke (n - length bs) x r"
  by (simp add: poke_def Suc_diff_le)

lemma poke_0: "poke 0 bs d = bs @ drop (length bs) d"
  by (simp add: poke_def)

lemma memchr_loop_append: "c \<notin> set xs \<Longrightarrow> memchr_loop c (xs @ c # ys) = Some (length xs)"
  by (induction xs) auto

lemma mem_gets_line:
  assumes "10 \<notin> set l" "length l < n - 1" "n < 1000"
  shows "mem_gets (l @ 10 # rest) n = (l @ [10], rest)"
proof -
  let ?r = "min (n - 1) (length (l @ 10 # rest))"
  have r: "unat (of_nat ?r :: size_t) = ?r" using assms(3) by (intro unat_of_nat_size) simp
  then have nz: "of_nat ?r \<noteq> (0 :: size_t)" using assms(2) by (metis gr_implies_not0 length_append length_Cons add_Suc_right min_def nat.distinct(1) unat_0)
  have "take ?r (l @ 10 # rest) = l @ 10 # take (?r - length l - 1) rest"
    using assms(2) by (simp add: take_Cons')
  with r nz assms(1) have "OPENSSL_memchr (l @ 10 # rest) 10 (of_nat ?r) = Some (length l)"
    by (simp add: OPENSSL_memchr_def memchr_loop_append del: of_nat_min)
  with assms show ?thesis by (simp add: mem_gets_def)
qed

lemma read_line:
  assumes b: "buf_ok buff" and l: "0 \<notin> set l" "10 \<notin> set l" "length l \<le> 509" "l = l' @ [34]"
  shows "\<exists>buff'. read_chunk (\<lambda>_. True) mem_gets buff 0 False eline (l @ 10 # rest) = Line l buff' (eline + 1) rest \<and> buf_ok buff'"
proof -
  have "(of_nat (0 + CONFBUFSIZE) :: size_t) \<noteq> 0" "unat (of_nat (0 + CONFBUFSIZE) :: size_t) = 512"
    by (simp_all add: CONFBUFSIZE_def)
  from b this(1) show ?thesis
  proof (cases rule: BUF_MEM_grow_cases [where A = "\<lambda>_. True", case_names none some])
    case none
    with \<open>unat _ = 512\<close> show ?thesis by simp
  next
    case (some b')
    let ?d = "bm_data b'"
    have g: "mem_gets (l @ 10 # rest) (CONFBUFSIZE - 1) = (l @ [10], rest)"
      using l(2,3) by (intro mem_gets_line) (simp_all add: CONFBUFSIZE_def)
    have ld: "512 \<le> length ?d" using some(2,3) by (simp add: buf_ok_def word_le_nat_alt CONFBUFSIZE_def)
    define Y where "Y = poke (511 - (length l + 2)) [0] (drop (length l + 2) ?d)"
    have data: "poke (0 + CONFBUFSIZE - 1) [0] (poke 0 ((l @ [10]) @ [0]) ?d) = l @ 10 # 0 # Y"
      using l(3) poke_append [of "l @ [10, 0]" 511 "[0]" "drop (length l + 2) ?d"]
      by (simp add: poke_0 CONFBUFSIZE_def Y_def)
    have len: "length (l @ 10 # 0 # Y) = length ?d"
      using ld l(3) by (simp add: Y_def poke_def)
    define ii where "ii = strlen (drop 0 (l @ 10 # 0 # Y))"
    have ii: "ii = Suc (length l)"
      using strlen_append [of "l @ [10]" Y] l(1) by (simp add: ii_def)
    define i where "i = eol_loop (drop 0 (l @ 10 # 0 # Y)) ii"
    have i: "i = length l" using l(4) by (simp add: i_def ii nth_append)
    define ag where "ag = (ii \<noteq> 0 \<and> i = ii)"
    have ag: "\<not> ag" by (simp add: ag_def ii i)
    define data' where "data' = (if ag then l @ 10 # 0 # Y else poke (0 + i) [0] (l @ 10 # 0 # Y))"
    have d': "data' = l @ 0 # 0 # Y" using poke_append [of l i "[0]" "10 # 0 # Y"] ag by (simp add: data'_def i poke_0)
    define el where "el = (if ag then eline else eline + 1)"
    define cont where "cont = (0 + i \<ge> 1 \<and> is_esc (data' ! (0 + i - 1)) \<and> (0 + i \<le> 1 \<or> \<not> is_esc (data' ! (0 + i - 2))))"
    have c: "\<not> cont" using l(4) by (simp add: cont_def i d' nth_append is_esc_def)
    have "strlen data' = length l" using strlen_append [of l] l(1) by (simp add: d')
    moreover have "buf_ok (b'\<lparr>bm_data := data'\<rparr>)" using some(2) len by (simp add: buf_ok_def d')
    ultimately show ?thesis
      unfolding read_chunk_eq [where eline = eline and gets = mem_gets and bio = "l @ 10 # rest",
          OF some(1) \<open>of_nat (0 + CONFBUFSIZE) \<noteq> 0\<close> g data [symmetric] ii_def i_def ag_def data'_def el_def cont_def]
      using ag c ii by (simp add: el_def d')
  qed
qed

lemma read_end:
  assumes b: "buf_ok buff"
  shows "read_chunk (\<lambda>_. True) mem_gets buff 0 False eline [] = Eof"
proof -
  have "(of_nat (0 + CONFBUFSIZE) :: size_t) \<noteq> 0" "unat (of_nat (0 + CONFBUFSIZE) :: size_t) = 512"
    by (simp_all add: CONFBUFSIZE_def)
  from b this(1) show ?thesis
  proof (cases rule: BUF_MEM_grow_cases [where A = "\<lambda>_. True", case_names none some])
    case none
    with \<open>unat _ = 512\<close> show ?thesis by simp
  next
    case (some b')
    have "mem_gets [] (CONFBUFSIZE - 1) = ([], [])" by (simp add: mem_gets_def CONFBUFSIZE_def Let_def OPENSSL_memchr_def)
    from read_chunk_eq [where eline = eline and gets = mem_gets and bio = "[]",
        OF some(1) \<open>of_nat (0 + CONFBUFSIZE) \<noteq> 0\<close> this refl refl refl refl refl refl refl, where again = False]
      strlen_after_empty [of 0 511 "bm_data b'"]
    show ?thesis by (simp add: CONFBUFSIZE_def)
  qed
qed

section \<open>The whole file\<close>

definition entry_map :: "(cstr \<times> cstr \<times> cstr) list \<Rightarrow> cstr \<Rightarrow> cstr \<Rightarrow> cstr option" where
  "entry_map es sec nm = map_of (rev (map (\<lambda>(s, n, v). ((s, n), v)) es)) (sec, nm)"

lemma entry_map_simps:
  "entry_map [] sec nm = None"
  "entry_map ((s, n, v) # es) sec nm =
     (case entry_map es sec nm of Some w \<Rightarrow> Some w | None \<Rightarrow> if sec = s \<and> nm = n then Some v else None)"
  by (auto simp: entry_map_def map_add_def split: option.splits)

lemma entry_line_ok:
  assumes "entry_ok (sec, nm, v)"
  defines "l \<equiv> conf_line sec nm v"
  shows "0 \<notin> set l" "10 \<notin> set l" "length l \<le> 509" "\<exists>l'. l = l' @ [34]"
    and "name_ok sec" "name_ok nm" "name_ok (34 # conf_escape v @ [34])" "length (34 # conf_escape v @ [34]) < 2 ^ 61"
proof -
  have s: "0 \<notin> set sec" "10 \<notin> set sec" and n: "0 \<notin> set nm" "10 \<notin> set nm"
    using assms(1) name_char_not by (auto simp: entry_ok_def)
  have e: "set (conf_escape v) \<subseteq> insert 92 (set v)" by (auto simp: conf_escape_def)
  have z: "0 \<notin> set (conf_escape v)" "10 \<notin> set (conf_escape v)" using e assms(1) by (auto simp: entry_ok_def)
  show "0 \<notin> set l" "10 \<notin> set l" using s n z by (simp_all add: l_def conf_line_def)
  show len: "length l \<le> 509" using assms(1) by (simp add: l_def entry_ok_def)
  show "\<exists>l'. l = l' @ [34]" by (simp add: l_def conf_line_def)
  from len show "name_ok sec" "name_ok nm" "name_ok (34 # conf_escape v @ [34])" "length (34 # conf_escape v @ [34]) < 2 ^ 61"
    using s n z by (simp_all add: l_def conf_line_def name_ok_def)
qed

lemma load_conf_text:
  assumes "buf_ok buff" "load_ok st" "\<forall>e \<in> set es. entry_ok e"
    "size (stored (conf_values (ld_conf st))) + length es < 2 ^ 31"
  shows "\<exists>st'. load_loop (\<lambda>_. True) mem_gets buff 0 False eline st (conf_text es) = Some (True, eline + length es, st') \<and>
    (\<forall>sec nm. 0 \<notin> set sec \<longrightarrow> 0 \<notin> set nm \<longrightarrow> NCONF_get_string (ld_conf st') (Some sec) nm =
       (case entry_map es sec nm of Some v \<Rightarrow> Some v | None \<Rightarrow> NCONF_get_string (ld_conf st) (Some sec) nm))"
  using assms
proof (induction es arbitrary: buff eline st)
  case Nil
  then show ?case by (subst load_loop.simps) (simp add: read_end entry_map_simps)
next
  case (Cons e es)
  obtain sec nm v where e: "e = (sec, nm, v)" by (cases e)
  with Cons.prems have eok: "entry_ok (sec, nm, v)" by simp
  let ?l = "conf_line sec nm v"
  note L = entry_line_ok [OF eok]
  from L(4) obtain l' where "?l = l' @ [34]" by blast
  from read_line [OF Cons.prems(1) L(1-3) this] obtain b where
    b: "read_chunk (\<lambda>_. True) mem_gets buff 0 False eline (?l @ 10 # conf_text es) = Line ?l b (eline + 1) (conf_text es)"
      "buf_ok b" by blast
  obtain r st1 where s: "store_value (\<lambda>_. True) sec nm (34 # conf_escape v @ [34]) st = (r, st1)"
    by (cases "store_value (\<lambda>_. True) sec nm (34 # conf_escape v @ [34]) st")
  have room: "size (stored (conf_values (ld_conf st))) < 2 ^ 31 - 1" using Cons.prems(4) by simp
  from store_value_all [OF Cons.prems(2) L(5-8) str_copy_loop_escape room s]
  have r: "r = Some ()" "size (stored (conf_values (ld_conf st1))) \<le> Suc (size (stored (conf_values (ld_conf st))))" by auto
  have v: "str_copy (\<lambda>_. True) (34 # conf_escape v @ [34]) = Some v"
    using str_copy_all [OF L(7,8)] str_copy_loop_escape by simp
  from store_value_ok [OF Cons.prems(2) L(5-7) s] r(1) v
  have st1: "load_ok st1" "\<And>sec' nm'. 0 \<notin> set sec' \<Longrightarrow> 0 \<notin> set nm' \<Longrightarrow> NCONF_get_string (ld_conf st1) (Some sec') nm' =
      (if sec' = sec \<and> nm' = nm then Some v else NCONF_get_string (ld_conf st) (Some sec') nm')" by auto
  have "size (stored (conf_values (ld_conf st1))) + length es < 2 ^ 31" using r(2) Cons.prems(4) by simp
  from Cons.IH [OF b(2) st1(1) _ this, of "eline + 1"] Cons.prems(3) obtain st' where
    st': "load_loop (\<lambda>_. True) mem_gets b 0 False (eline + 1) st1 (conf_text es) = Some (True, eline + 1 + length es, st')"
      "\<And>sec nm. 0 \<notin> set sec \<Longrightarrow> 0 \<notin> set nm \<Longrightarrow> NCONF_get_string (ld_conf st') (Some sec) nm =
       (case entry_map es sec nm of Some v \<Rightarrow> Some v | None \<Rightarrow> NCONF_get_string (ld_conf st1) (Some sec) nm)" by auto
  have "load_loop (\<lambda>_. True) mem_gets buff 0 False eline st (conf_text (e # es)) = Some (True, eline + length (e # es), st')"
    unfolding e using b(1) st'(1) r(1) s load_line_conf_line [OF eok, of "\<lambda>_. True" st]
    by (subst load_loop.simps) simp
  moreover have "NCONF_get_string (ld_conf st') (Some sec') nm' =
      (case entry_map (e # es) sec' nm' of Some v \<Rightarrow> Some v | None \<Rightarrow> NCONF_get_string (ld_conf st) (Some sec') nm')"
    if "0 \<notin> set sec'" "0 \<notin> set nm'" for sec' nm'
    using st'(2) [OF that] st1(2) [OF that] by (auto simp: e entry_map_simps split: option.splits)
  ultimately show ?case by blast
qed

text \<open>
  C30: reading back. When memory suffices, loading the text of any list of entries (sections and
  names of name characters, values of any bytes but zero and newline, lines that fit the
  buffer of the reader) into a new configuration succeeds, counts the lines, and makes
  \<open>NCONF_get_string\<close> the map that takes each section and name to the last value the list gives it.
\<close>

theorem conf_text_roundtrip:
  assumes "\<forall>e \<in> set es. entry_ok e" "length es < 2 ^ 31 - 1"
  shows "\<exists>conf conf'. NCONF_new (\<lambda>_. True) True = Some conf \<and>
    NCONF_load_bio (\<lambda>_. True) mem_gets conf (conf_text es) = Some (True, length es, conf') \<and>
    (\<forall>sec nm. 0 \<notin> set sec \<and> 0 \<notin> set nm \<longrightarrow> NCONF_get_string conf' (Some sec) nm = entry_map es sec nm)"
proof -
  obtain conf where new: "NCONF_new (\<lambda>_. True) True = Some conf"
    by (simp add: NCONF_new_def OPENSSL_lh_new_def)
  from NCONF_new_ok [OF this] have ok: "conf_ok conf" "stored (conf_values conf) = {#}" by simp_all
  obtain q c where n: "NCONF_new_section (\<lambda>_. True) kDefaultSectionName conf = (q, c)"
    by (cases "NCONF_new_section (\<lambda>_. True) kDefaultSectionName conf")
  with NCONF_new_section_all [OF ok(1) default_name_ok] obtain sv where q: "q = Some sv" by auto
  let ?b = "\<lparr>bm_length = 0, bm_data = [], bm_max = 0\<rparr>"
  let ?st = "\<lparr>ld_conf = c, ld_section = kDefaultSectionName, ld_sv = sv\<rparr>"
  from NCONF_new_section_ok [OF ok(1) default_name_ok n] q
  have st: "load_ok ?st" "conf_values c = conf_values conf" using default_name_ok by (auto simp: load_ok_def)
  have "buf_ok ?b" by (simp add: buf_ok_def)
  from load_conf_text [OF this st(1) assms(1), of 0] assms(2) ok(2) st(2) obtain st' where
    st': "load_loop (\<lambda>_. True) mem_gets ?b 0 False 0 ?st (conf_text es) = Some (True, length es, st')"
      "\<And>sec nm. 0 \<notin> set sec \<Longrightarrow> 0 \<notin> set nm \<Longrightarrow> NCONF_get_string (ld_conf st') (Some sec) nm =
       (case entry_map es sec nm of Some v \<Rightarrow> Some v | None \<Rightarrow> NCONF_get_string c (Some sec) nm)"
    by (auto cong: option.case_cong)
  have empty: "NCONF_get_string c (Some sec) nm = None" if "0 \<notin> set sec" "0 \<notin> set nm" for sec nm
    using get_string_eq [of "conf_fresh conf" conf, OF _ that] ok by (cases "NCONF_get_string conf (Some sec) nm")
      (auto simp: conf_ok_def NCONF_get_string_def st(2))
  have "OPENSSL_strdup (\<lambda>_. True) (Some kDefaultSectionName) = Some kDefaultSectionName"
    using default_name_ok by (simp add: strdup_all name_ok_def)
  with n q st'(1) have "NCONF_load_bio (\<lambda>_. True) mem_gets conf (conf_text es) = Some (True, length es, ld_conf st')"
    by (simp add: NCONF_load_bio_def BUF_MEM_new_def)
  with new st'(2) empty show ?thesis by (fastforce split: option.splits)
qed

text \<open>Two lines for the same key \<open>s::k\<close>: the values are \<open>a"\<close> and \<open>b\<close>, and the second counts.\<close>

theorem conf_text_roundtrip_witness:
  "\<exists>conf conf'. NCONF_new (\<lambda>_. True) True = Some conf \<and>
    NCONF_load_bio (\<lambda>_. True) mem_gets conf (conf_text [([115], [107], [97, 34]), ([115], [107], [98])]) = Some (True, 2, conf') \<and>
    NCONF_get_string conf' (Some [115]) [107] = Some [98]"
proof -
  have n: "is_name_char 115" "is_name_char 107"
    by (simp_all add: is_name_char_def OPENSSL_isalnum_def OPENSSL_isalpha_def)
  have "\<forall>e \<in> set [([115], [107], [97, 34]), ([115], [107], [98])]. entry_ok e"
    by (simp add: entry_ok_def n conf_line_def conf_escape_def)
  from conf_text_roundtrip [OF this] show ?thesis by (fastforce simp: entry_map_def)
qed

end
