(* ===== verification/ConfList.thy ===== *)
theory ConfList
  imports Conf
begin

text \<open>
  \<open>CONF_parse_list\<close> against its specification: split at the separator, strip the white space
  around each field if asked to, and call the callback until it says stop.
\<close>

definition space :: "u8 \<Rightarrow> bool" where
  "space c = OPENSSL_isspace (uint c)"

fun list_fields :: "u8 \<Rightarrow> cstr \<Rightarrow> cstr list" where
  "list_fields sep [] = [[]]"
| "list_fields sep (c # s) =
     (if c = sep then [] # list_fields sep s
      else (case list_fields sep s of [] \<Rightarrow> [[c]] | f # fs \<Rightarrow> (c # f) # fs))"

definition strip :: "bool \<Rightarrow> cstr \<Rightarrow> cstr" where
  "strip remove_whitespace f = (if remove_whitespace then rev (dropWhile space (rev (dropWhile space f))) else f)"

text \<open>A callback that returns 0 or less ends the calls with its result, and the end of the list is 1.\<close>

fun call_all :: "(cstr option \<Rightarrow> 'w \<Rightarrow> int \<times> 'w) \<Rightarrow> cstr list \<Rightarrow> 'w \<Rightarrow> int \<times> 'w" where
  "call_all list_cb [] w = (1, w)"
| "call_all list_cb (f # fs) w =
     (case list_cb (if f = [] then None else Some f) w of
        (r, w) \<Rightarrow> if r \<le> 0 then (r, w) else call_all list_cb fs w)"

section \<open>Splitting\<close>

lemma strchr_simps:
  "sep \<noteq> 0 \<Longrightarrow> strchr [] sep = None"
  "strchr (c # s) sep = (if c = sep then Some 0 else map_option Suc (strchr s sep))"
  by (auto simp: strchr_def Let_def)

lemma list_fields_eq: "sep \<noteq> 0 \<Longrightarrow> list_fields sep s = takeWhile (\<lambda>c. c \<noteq> sep) s #
    (case strchr s sep of None \<Rightarrow> [] | Some i \<Rightarrow> list_fields sep (drop (i + 1) s))"
  by (induction s) (auto simp: strchr_simps split: option.splits)

lemma skip_space_eq: "skip_space s = dropWhile space s"
  by (induction s) (auto simp: space_def)

lemma list_fields_Nil [simp]: "list_fields sep s \<noteq> []"
  by (cases s) (simp_all split: list.splits)

text \<open>Skipping white space does not move past a separator that is none.\<close>

lemma fields_skip:
  assumes "\<not> space sep"
  shows "list_fields sep s = (takeWhile space s @ hd (list_fields sep (dropWhile space s))) #
    tl (list_fields sep (dropWhile space s))"
  using assms by (induction s) (auto split: list.splits)

lemma strip_space_prefix: "\<forall>c \<in> set p. space c \<Longrightarrow> strip True (p @ f) = strip True f"
  by (simp add: strip_def dropWhile_append)

lemma space_loop_strip:
  "\<not> space (hd f) \<Longrightarrow> i < length f \<Longrightarrow> (\<forall>j < length f. i < j \<longrightarrow> space (f ! j)) \<Longrightarrow>
     take (Suc (space_loop (f @ r) i)) (f @ r) = rev (dropWhile space (rev f))"
proof (induction i)
  case 0
  then obtain c g where f: "f = c # g" by (cases f) auto
  with 0 have g: "\<forall>d \<in> set g. space d" by (force simp: in_set_conv_nth)
  then have "dropWhile space (rev g) = []" by simp
  with f 0 g show ?case by (simp add: dropWhile_append)
next
  case (Suc i)
  show ?case
  proof (cases "space (f ! Suc i)")
    case True
    have "\<forall>j < length f. i < j \<longrightarrow> space (f ! j)"
    proof (intro allI impI)
      fix j assume "j < length f" "i < j"
      then show "space (f ! j)" using Suc.prems(3) True by (cases "j = Suc i") auto
    qed
    then have "take (Suc (space_loop (f @ r) i)) (f @ r) = rev (dropWhile space (rev f))"
      using Suc.IH Suc.prems(1,2) by simp
    moreover have "space_loop (f @ r) (Suc i) = space_loop (f @ r) i"
      using True Suc.prems(2) by (simp add: nth_append space_def)
    ultimately show ?thesis by simp
  next
    case False
    have "\<forall>d \<in> set (rev (drop (Suc (Suc i)) f)). space d"
      using Suc.prems(2,3) by (auto simp: in_set_conv_nth)
    moreover have "rev (take (Suc (Suc i)) f) = f ! Suc i # rev (take (Suc i) f)"
      using Suc.prems(2) by (simp add: take_Suc_conv_app_nth)
    moreover have "rev f = rev (drop (Suc (Suc i)) f) @ rev (take (Suc (Suc i)) f)"
      by (simp flip: rev_append)
    ultimately have "dropWhile space (rev f) = rev (take (Suc (Suc i)) f)"
      using False by (simp add: dropWhile_append del: rev_take rev_drop)
    moreover have "space_loop (f @ r) (Suc i) = Suc i"
      using False Suc.prems(2) by (simp add: nth_append space_def)
    ultimately show ?thesis using Suc.prems(2) by simp
  qed
qed

lemma strchr_takeWhile: "sep \<noteq> 0 \<Longrightarrow> strchr s sep = (let f = takeWhile (\<lambda>c. c \<noteq> sep) s in if length f < length s then Some (length f) else None)"
  by (simp add: strchr_def Let_def)

text \<open>The first field: the code finds its end from the separator and steps back over white space.\<close>

definition tmp_end :: "u8 \<Rightarrow> cstr \<Rightarrow> nat" where
  "tmp_end sep s = (case strchr s sep of Some i \<Rightarrow> i - 1 | None \<Rightarrow> length s - 1)"

lemma field_split: "s = takeWhile (\<lambda>c. c \<noteq> sep) s @ drop (length (takeWhile (\<lambda>c. c \<noteq> sep) s)) s"
  by (metis append_take_drop_id takeWhile_eq_take)

lemma tmp_end_eq: "sep \<noteq> 0 \<Longrightarrow> tmp_end sep s = length (takeWhile (\<lambda>c. c \<noteq> sep) s) - 1"
  using length_takeWhile_le [of "\<lambda>c. c \<noteq> sep" s] by (simp add: tmp_end_def strchr_takeWhile Let_def)

lemma no_field_iff: "sep \<noteq> 0 \<Longrightarrow> strchr s sep = Some 0 \<or> s = [] \<longleftrightarrow> takeWhile (\<lambda>c. c \<noteq> sep) s = []"
  by (cases s) (auto simp: strchr_simps)

lemma field_elem:
  assumes "takeWhile (\<lambda>c. c \<noteq> sep) s \<noteq> []" "rw \<longrightarrow> dropWhile space s = s" "sep \<noteq> 0"
  shows "take ((if rw then space_loop s (tmp_end sep s) else tmp_end sep s) + 1) s =
    strip rw (takeWhile (\<lambda>c. c \<noteq> sep) s)" (is "_ = strip rw ?f")
proof (cases rw)
  case True
  have "\<not> space (hd s)" "hd ?f = hd s"
    using assms True by (cases s; auto split: if_splits dest: sym [of "dropWhile _ _"] simp: dropWhile_eq_Cons_conv)+
  moreover from this assms have "dropWhile space ?f = ?f" by (cases ?f) auto
  moreover have "\<forall>j < length ?f. length ?f - 1 < j \<longrightarrow> space (?f ! j)" by auto
  ultimately show ?thesis
    using space_loop_strip [of ?f "length ?f - 1" "drop (length ?f) s"] assms(1,3) True
    by (simp add: strip_def tmp_end_eq flip: field_split)
next
  case False
  with assms(1,3) show ?thesis by (simp add: strip_def tmp_end_eq flip: takeWhile_eq_take)
qed

lemma strip_field_empty:
  assumes "rw \<longrightarrow> dropWhile space s = s" "sep \<noteq> 0"
  shows "strip rw (takeWhile (\<lambda>c. c \<noteq> sep) s) = [] \<longleftrightarrow> takeWhile (\<lambda>c. c \<noteq> sep) s = []"
proof
  assume *: "strip rw (takeWhile (\<lambda>c. c \<noteq> sep) s) = []"
  show "takeWhile (\<lambda>c. c \<noteq> sep) s = []"
  proof (rule ccontr)
    assume "takeWhile (\<lambda>c. c \<noteq> sep) s \<noteq> []"
    with field_elem [OF this assms] * show False by auto
  qed
qed (simp add: strip_def)

lemma strip_fields:
  assumes "rw \<longrightarrow> \<not> space sep" "sep \<noteq> 0" "s = (if rw then dropWhile space lst else lst)"
  shows "map (strip rw) (list_fields sep lst) = strip rw (takeWhile (\<lambda>c. c \<noteq> sep) s) #
    (case strchr s sep of None \<Rightarrow> [] | Some i \<Rightarrow> map (strip rw) (list_fields sep (drop (i + 1) s)))"
proof (cases rw)
  case True
  then have "\<not> space sep" using assms(1) by simp
  moreover have "strip rw (takeWhile space lst @ f) = strip rw f" for f
    using True strip_space_prefix [of "takeWhile space lst" f] by (auto dest: set_takeWhileD)
  ultimately show ?thesis
    using fields_skip [of sep lst] list_fields_eq [of sep s] True assms(2,3)
    by (simp split: option.splits)
next
  case False
  then show ?thesis
    using list_fields_eq [of sep lst] assms(2,3) by (simp split: option.splits)
qed

lemma strchr_less: "sep \<noteq> 0 \<Longrightarrow> strchr s sep = Some i \<Longrightarrow> i < length s"
  by (auto simp: strchr_def Let_def split: if_splits)

lemma parse_list_fields:
  assumes sep: "sep \<noteq> 0" and ws: "remove_whitespace \<longrightarrow> \<not> OPENSSL_isspace (uint sep)"
  shows "parse_list_loop lst sep remove_whitespace list_cb w =
    Some (call_all list_cb (map (strip remove_whitespace) (list_fields sep lst)) w)"
proof (induction lst arbitrary: w rule: measure_induct_rule [of length])
  case (less lst)
  let ?rw = remove_whitespace
  define s where "s = (if ?rw then skip_space lst else lst)"
  let ?f = "takeWhile (\<lambda>c. c \<noteq> sep) s" and ?p = "strchr s sep"
  have st: "?rw \<longrightarrow> dropWhile space s = s" by (simp add: s_def skip_space_eq)
  have call: "(if ?p = Some 0 \<or> s = [] then list_cb None w
      else list_cb (Some (take ((if ?rw then space_loop s (tmp_end sep s) else tmp_end sep s) + 1) s)) w) =
      list_cb (if strip ?rw ?f = [] then None else Some (strip ?rw ?f)) w"
  proof (cases "?f = []")
    case False
    show ?thesis
      unfolding no_field_iff [OF sep] strip_field_empty [OF st sep] field_elem [OF False st sep] by simp
  qed (simp add: no_field_iff sep strip_def)
  obtain r w' where c: "list_cb (if strip ?rw ?f = [] then None else Some (strip ?rw ?f)) w = (r, w')"
    by fastforce
  have "parse_list_loop lst sep ?rw list_cb w = (if r \<le> 0 then Some (r, w') else
      (case ?p of None \<Rightarrow> Some (1, w') | Some i \<Rightarrow>
         if i < length s then parse_list_loop (drop (i + 1) s) sep ?rw list_cb w' else None))"
    unfolding parse_list_loop.simps [of lst] Let_def s_def [symmetric] tmp_end_def [symmetric]
    by (simp only: call c prod.case)
  moreover have "parse_list_loop (drop (i + 1) s) sep ?rw list_cb w' =
      Some (call_all list_cb (map (strip ?rw) (list_fields sep (drop (i + 1) s))) w')" if "?p = Some i" for i
    using less [of "drop (i + 1) s"] strchr_skip_less [of i ?rw lst] strchr_less [OF sep that] by (simp add: s_def)
  moreover have "map (strip ?rw) (list_fields sep lst) = strip ?rw ?f #
      (case ?p of None \<Rightarrow> [] | Some i \<Rightarrow> map (strip ?rw) (list_fields sep (drop (i + 1) s)))"
    using ws sep by (intro strip_fields) (simp_all add: s_def skip_space_eq space_def)
  ultimately show ?case
    using c strchr_less [OF sep, of s] by (simp split: option.splits)
qed

text \<open>
  C31: lists. For a separator that is not NUL and, with stripping, no white space, \<open>CONF_parse_list\<close>
  returns: it calls the callback with the (stripped) fields of the list in order, an empty field as
  NULL, until a call returns 0 or less, which is then its result, and otherwise returns 1. A NULL list
  is refused without a call.
\<close>

theorem CONF_parse_list_fields:
  assumes "sep \<noteq> 0" "remove_whitespace \<longrightarrow> \<not> OPENSSL_isspace (uint sep)"
  shows "CONF_parse_list (Some lst) sep remove_whitespace list_cb w =
      Some (call_all list_cb (map (strip remove_whitespace) (list_fields sep lst)) w) \<and>
    CONF_parse_list None sep remove_whitespace list_cb w = Some (0, w)"
  by (simp add: CONF_parse_list_def parse_list_fields [OF assms])

text \<open>The list \<open>a ,,b\<close> with a callback that records its calls.\<close>

theorem CONF_parse_list_fields_witness:
  "CONF_parse_list (Some [97, 32, 44, 44, 98]) 44 True (\<lambda>e w. (1, w @ [e])) [] = Some (1, [Some [97], None, Some [98]])"
proof -
  have sep: "True \<longrightarrow> \<not> OPENSSL_isspace (uint (44 :: u8))" by (simp add: OPENSSL_isspace_def)
  have "CONF_parse_list (Some [97, 32, 44, 44, 98]) 44 True (\<lambda>e w. (1, w @ [e])) [] =
    Some (call_all (\<lambda>e w. (1, w @ [e])) (map (strip True) (list_fields 44 [97, 32, 44, 44, 98])) [])"
    by (rule CONF_parse_list_fields [THEN conjunct1, OF _ sep]) simp
  also have "\<dots> = Some (1, [Some [97], None, Some [98]])" by (simp add: strip_def space_def OPENSSL_isspace_def)
  finally show ?thesis .
qed

text \<open>With the separator NUL the first call that does not stop the loop makes it leave the string.\<close>

lemma parse_list_nul:
  assumes "0 \<notin> set lst" "parse_list_loop lst 0 False list_cb w = Some (r, w')"
  shows "r \<le> 0"
proof -
  have e: "takeWhile (\<lambda>d. d \<noteq> 0) lst = lst" using assms(1) by (auto simp: takeWhile_eq_all_conv)
  have "strchr lst 0 = Some (length lst)" unfolding strchr_def Let_def e by simp
  with assms(2) show ?thesis by (subst (asm) parse_list_loop.simps) (auto simp: Let_def split: prod.splits if_splits)
qed

end
