(* ===== verification/LittleEndian.thy ===== *)
theory LittleEndian
  imports Prelude
begin

text \<open>
  The little-endian value of a byte list, its inverse, and the unaligned loads and stores of
  crypto/internal.h on a little-endian machine.
\<close>

fun le_val :: "u8 list \<Rightarrow> nat" where
  "le_val [] = 0"
| "le_val (b # bs) = unat b + 256 * le_val bs"

fun le_bytes :: "nat \<Rightarrow> nat \<Rightarrow> u8 list" where
  "le_bytes 0 v = []"
| "le_bytes (Suc n) v = of_nat v # le_bytes n (v div 256)"

definition CRYPTO_load_u32_le :: "u8 list \<Rightarrow> u32" where
  "CRYPTO_load_u32_le p = of_nat (le_val (take 4 p))"

definition CRYPTO_store_u32_le :: "u32 \<Rightarrow> u8 list" where
  "CRYPTO_store_u32_le v = le_bytes 4 (unat v)"

definition CRYPTO_load_u64_le :: "u8 list \<Rightarrow> u64" where
  "CRYPTO_load_u64_le p = of_nat (le_val (take 8 p))"

definition CRYPTO_store_u64_le :: "u64 \<Rightarrow> u8 list" where
  "CRYPTO_store_u64_le v = le_bytes 8 (unat v)"

lemma le_val_less: "le_val bs < 256 ^ length bs"
proof (induction bs)
  case (Cons b bs)
  then have "unat b + 256 * le_val bs < 256 + 256 * (256 ^ length bs - 1)"
    using unat_u8_less [of b] by (intro add_less_le_mono) auto
  also have "\<dots> \<le> 256 ^ length (b # bs)" by (simp add: right_diff_distrib')
  finally show ?case by simp
qed simp

lemma le_bytes_val: "le_bytes (length bs) (le_val bs) = bs"
  by (induction bs) (simp_all add: unat_u8_less div_add1_eq word_unat_eq_iff del: of_nat_add of_nat_mult)

lemma le_bytes_mod: "le_bytes n (v mod 256 ^ n) = le_bytes n v"
proof (induction n arbitrary: v)
  case (Suc n)
  have "v mod 256 ^ Suc n = 256 * (v div 256 mod 256 ^ n) + v mod 256"
    using mod_mult2_eq [of v 256 "256 ^ n"] by simp
  then have "v mod 256 ^ Suc n div 256 = v div 256 mod 256 ^ n" "v mod 256 ^ Suc n mod 256 = v mod 256"
    by simp_all
  moreover have "(of_nat (v mod 256 ^ Suc n) :: u8) = of_nat v"
    by (simp add: word_unat_eq_iff \<open>v mod 256 ^ Suc n mod 256 = v mod 256\<close> del: power_Suc)
  ultimately show ?case by (simp only: le_bytes.simps Suc)
qed simp

lemma length_le_bytes [simp]: "length (le_bytes n v) = n"
  by (induction n arbitrary: v) auto

lemma le_val_le_bytes: "le_val (le_bytes n v) = v mod 256 ^ n"
proof (induction n arbitrary: v)
  case (Suc n)
  then show ?case using mod_mult2_eq [of v 256 "256 ^ n"] by simp
qed simp

lemma le_val_append: "le_val (xs @ ys) = le_val xs + 256 ^ length xs * le_val ys"
  by (induction xs) (simp_all add: algebra_simps)

lemma le_val_replicate_0 [simp]: "le_val (replicate n 0) = 0"
  by (induction n) auto

lemma le_bytes_append: "le_bytes (m + n) v = le_bytes m v @ le_bytes n (v div 256 ^ m)"
  by (induction m arbitrary: v) (simp_all add: div_mult2_eq)

lemma unat_load_u32_le: "4 \<le> length p \<Longrightarrow> unat (CRYPTO_load_u32_le p) = le_val (take 4 p)"
  using le_val_less [of "take 4 p"] by (simp add: CRYPTO_load_u32_le_def unat_of_nat min_absorb2)

lemma unat_load_u64_le: "8 \<le> length p \<Longrightarrow> unat (CRYPTO_load_u64_le p) = le_val (take 8 p)"
  using le_val_less [of "take 8 p"] by (simp add: CRYPTO_load_u64_le_def unat_of_nat min_absorb2)

lemma length_stores [simp]: "length (CRYPTO_store_u32_le v) = 4" "length (CRYPTO_store_u64_le w) = 8"
  by (simp_all add: CRYPTO_store_u32_le_def CRYPTO_store_u64_le_def)

lemma store_load_le:
  "length p = 4 \<Longrightarrow> CRYPTO_store_u32_le (CRYPTO_load_u32_le p) = p"
  "length q = 8 \<Longrightarrow> CRYPTO_store_u64_le (CRYPTO_load_u64_le q) = q"
  using le_bytes_val [of p] le_bytes_val [of q]
  by (simp_all add: CRYPTO_store_u32_le_def CRYPTO_store_u64_le_def unat_load_u32_le unat_load_u64_le)

end
