(* ===== verification/PbStream.thy ===== *)
theory PbStream
  imports Prelude
begin

text \<open>
  The wire format of nanopb (pb_encode.c, pb_decode.c): streams, integers, tags, strings and
  substreams. A stream's callback and its \<open>state\<close> pointer are one value here: nothing (the
  sizing stream), the buffer of \<open>pb_ostream_from_buffer\<close> and \<open>pb_istream_from_buffer\<close>,
  or a callback of the user with its own state, which by the rules of pb_encode.h and pb_decode.h
  changes nothing else in the stream. A function of the code that returns false is an
  operation without a result (\<open>op\<close> of the prelude).
\<close>

section \<open>Output streams\<close>

text \<open>A buffer is the object and the position of the \<open>state\<close> pointer in it.\<close>

datatype 's sink =
    Sizing
  | Buffer "u8 list" nat
  | Writer "'s \<Rightarrow> u8 list \<Rightarrow> bool \<times> 's" 's

record 's pb_ostream_t =
  sink :: "'s sink"
  max_size :: size_t
  bytes_written :: size_t
  os_errmsg :: "string option"

definition os_error :: "string \<Rightarrow> ('s pb_ostream_t, 'a) op" where
  "os_error msg s =
     (None, s\<lparr>os_errmsg := (case os_errmsg s of None \<Rightarrow> Some msg | Some m \<Rightarrow> Some m)\<rparr>)"

definition buf_write :: "u8 list \<Rightarrow> nat \<Rightarrow> u8 list \<Rightarrow> u8 list \<times> nat" where
  "buf_write mem dest buf = (take dest mem @ buf @ drop (dest + length buf) mem, dest + length buf)"

definition PB_OSTREAM_SIZING :: "'s pb_ostream_t" where
  "PB_OSTREAM_SIZING = \<lparr>sink = Sizing, max_size = 0, bytes_written = 0, os_errmsg = None\<rparr>"

definition pb_ostream_from_buffer :: "u8 list \<Rightarrow> size_t \<Rightarrow> 's pb_ostream_t" where
  "pb_ostream_from_buffer buf bufsize =
     \<lparr>sink = Buffer buf 0, max_size = bufsize, bytes_written = 0, os_errmsg = None\<rparr>"

definition call_sink :: "u8 list \<Rightarrow> 's sink \<Rightarrow> bool \<times> 's sink" where
  "call_sink buf k = (case k of
       Sizing \<Rightarrow> (True, Sizing)
     | Buffer mem dest \<Rightarrow> (case buf_write mem dest buf of (mem, dest) \<Rightarrow> (True, Buffer mem dest))
     | Writer f st \<Rightarrow> (case f st buf of (ok, st) \<Rightarrow> (ok, Writer f st)))"

text \<open>The count is the length of the bytes, or a bare number where the code passes NULL to a
  sizing stream.\<close>

definition pb_write_size :: "size_t \<Rightarrow> ('s pb_ostream_t, unit) op" where
  "pb_write_size count s = (Some (), s\<lparr>bytes_written := bytes_written s + count\<rparr>)"

definition pb_write :: "u8 list \<Rightarrow> ('s pb_ostream_t, unit) op" where
  "pb_write buf s =
     (let count = of_nat (length buf) in
      if count > 0 \<and> sink s \<noteq> Sizing then
        if bytes_written s + count < bytes_written s \<or> bytes_written s + count > max_size s then
          os_error ''stream full'' s
        else case call_sink buf (sink s) of
            (False, k) \<Rightarrow> os_error ''io error'' (s\<lparr>sink := k\<rparr>)
          | (True, k) \<Rightarrow> pb_write_size count (s\<lparr>sink := k\<rparr>)
      else pb_write_size count s)"

section \<open>Writing values\<close>

function varint_buffer :: "u64 \<Rightarrow> u8 list" where
  "varint_buffer value =
     (if value = 0 then [] else ucast ((value AND 0x7F) OR 0x80) # varint_buffer (drop_bit 7 value))"
  by pat_completeness auto
termination
  by (relation "measure unat") (auto simp: unat_drop_bit unat_gt_0 intro!: div_less_dividend)

declare varint_buffer.simps [simp del]

definition pb_encode_varint :: "u64 \<Rightarrow> ('s pb_ostream_t, unit) op" where
  "pb_encode_varint value =
     (if value \<le> 0x7F then pb_write [ucast value]
      else let buffer = varint_buffer value; i = length buffer
           in pb_write (buffer[i - 1 := buffer ! (i - 1) AND 0x7F]))"

definition pb_encode_svarint :: "u64 \<Rightarrow> ('s pb_ostream_t, unit) op" where
  "pb_encode_svarint value =
     (let zigzagged = (if value <s 0 then NOT (push_bit 1 value) else push_bit 1 value)
      in pb_encode_varint zigzagged)"

definition pb_encode_fixed32 :: "u32 \<Rightarrow> ('s pb_ostream_t, unit) op" where
  "pb_encode_fixed32 val = pb_write
     [ucast (val AND 0xFF), ucast (drop_bit 8 val AND 0xFF), ucast (drop_bit 16 val AND 0xFF),
      ucast (drop_bit 24 val AND 0xFF)]"

definition pb_encode_fixed64 :: "u64 \<Rightarrow> ('s pb_ostream_t, unit) op" where
  "pb_encode_fixed64 val = pb_write
     [ucast (val AND 0xFF), ucast (drop_bit 8 val AND 0xFF), ucast (drop_bit 16 val AND 0xFF),
      ucast (drop_bit 24 val AND 0xFF), ucast (drop_bit 32 val AND 0xFF), ucast (drop_bit 40 val AND 0xFF),
      ucast (drop_bit 48 val AND 0xFF), ucast (drop_bit 56 val AND 0xFF)]"

type_synonym pb_wire_type_t = u32

abbreviation (input) "PB_WT_VARINT \<equiv> 0"
abbreviation (input) "PB_WT_64BIT \<equiv> 1"
abbreviation (input) "PB_WT_STRING \<equiv> 2"
abbreviation (input) "PB_WT_32BIT \<equiv> 5"

definition pb_encode_tag :: "pb_wire_type_t \<Rightarrow> u32 \<Rightarrow> ('s pb_ostream_t, unit) op" where
  "pb_encode_tag wiretype field_number = pb_encode_varint (push_bit 3 (ucast field_number) OR ucast wiretype)"

definition pb_encode_string :: "u8 list \<Rightarrow> ('s pb_ostream_t, unit) op" where
  "pb_encode_string buffer = step (pb_encode_varint (of_nat (length buffer))) (\<lambda>_. pb_write buffer)"

text \<open>
  Messages inside messages. The parameter \<open>enc\<close> is \<open>pb_encode\<close> on the fields and the
  struct of the inner message; it runs once on a sizing stream and once for real.
\<close>

definition pb_get_encoded_size :: "('s pb_ostream_t, unit) op \<Rightarrow> size_t option" where
  "pb_get_encoded_size enc =
     (case enc PB_OSTREAM_SIZING of (None, _) \<Rightarrow> None | (Some _, s) \<Rightarrow> Some (bytes_written s))"

definition pb_encode_submessage :: "('s pb_ostream_t, unit) op \<Rightarrow> ('s pb_ostream_t, unit) op" where
  "pb_encode_submessage enc stream =
     (case enc PB_OSTREAM_SIZING of
        (None, substream) \<Rightarrow> (None, stream\<lparr>os_errmsg := os_errmsg substream\<rparr>)
      | (Some _, substream) \<Rightarrow>
          let size = bytes_written substream in
          step (pb_encode_varint size) (\<lambda>_ stream.
            if sink stream = Sizing then pb_write_size size stream
            else if bytes_written stream + size > max_size stream then os_error ''stream full'' stream
            else case enc \<lparr>sink = sink stream, max_size = size, bytes_written = 0, os_errmsg = None\<rparr> of
              (status, substream) \<Rightarrow>
                let stream = stream\<lparr>bytes_written := bytes_written stream + bytes_written substream,
                      sink := sink substream, os_errmsg := os_errmsg substream\<rparr>
                in if bytes_written substream \<noteq> size then os_error ''submsg size changed'' stream
                else (status, stream)) stream)"

definition pb_encode_delimited :: "('s pb_ostream_t, unit) op \<Rightarrow> ('s pb_ostream_t, unit) op" where
  "pb_encode_delimited enc = pb_encode_submessage enc"

definition pb_encode_nullterminated :: "('s pb_ostream_t, unit) op \<Rightarrow> ('s pb_ostream_t, unit) op" where
  "pb_encode_nullterminated enc = step enc (\<lambda>_. pb_write [0])"

section \<open>Input streams\<close>

text \<open>A source is the rest of the buffer, or a callback that delivers the bytes asked for.\<close>

datatype 'r source =
    Bytes "u8 list"
  | Reader "'r \<Rightarrow> size_t \<Rightarrow> u8 list option \<times> 'r" 'r

record 'r pb_istream_t =
  source :: "'r source"
  bytes_left :: size_t
  is_errmsg :: "string option"

definition is_error :: "string \<Rightarrow> ('r pb_istream_t, 'a) op" where
  "is_error msg s =
     (None, s\<lparr>is_errmsg := (case is_errmsg s of None \<Rightarrow> Some msg | Some m \<Rightarrow> Some m)\<rparr>)"

definition pb_istream_from_buffer :: "u8 list \<Rightarrow> size_t \<Rightarrow> 'r pb_istream_t" where
  "pb_istream_from_buffer buf bufsize = \<lparr>source = Bytes buf, bytes_left = bufsize, is_errmsg = None\<rparr>"

definition buf_read :: "size_t \<Rightarrow> u8 list \<Rightarrow> u8 list \<times> u8 list" where
  "buf_read count mem = (take (unat count) mem, drop (unat count) mem)"

definition call_source :: "size_t \<Rightarrow> 'r source \<Rightarrow> u8 list option \<times> 'r source" where
  "call_source count k = (case k of
       Bytes mem \<Rightarrow> (case buf_read count mem of (buf, mem) \<Rightarrow> (Some buf, Bytes mem))
     | Reader f st \<Rightarrow> (case f st count of (r, st) \<Rightarrow> (r, Reader f st)))"

definition read_some :: "size_t \<Rightarrow> ('r pb_istream_t, u8 list) op" where
  "read_some count s =
     (if bytes_left s < count then is_error ''end-of-stream'' s
      else case call_source count (source s) of
          (None, k) \<Rightarrow> is_error ''io error'' (s\<lparr>source := k\<rparr>)
        | (Some buf, k) \<Rightarrow> (Some buf, s\<lparr>source := k, bytes_left := bytes_left s - count\<rparr>))"

text \<open>\<open>pb_read\<close> into a buffer, and with NULL, where a callback is asked for 16 bytes at a time.\<close>

definition pb_read :: "size_t \<Rightarrow> ('r pb_istream_t, u8 list) op" where
  "pb_read count = (if count = 0 then ret [] else read_some count)"

function skip_loop :: "size_t \<Rightarrow> ('r pb_istream_t, unit) op" where
  "skip_loop count s =
     (if count > 16 then case pb_read 16 s of (None, s) \<Rightarrow> (None, s) | (Some _, s) \<Rightarrow> skip_loop (count - 16) s
      else step (pb_read count) (\<lambda>_. ret ()) s)"
  by pat_completeness auto
termination
  by (relation "measure (\<lambda>(count, _). unat count)") (auto simp: unat_sub_if' word_less_nat_alt)

declare skip_loop.simps [simp del]

definition pb_read_null :: "size_t \<Rightarrow> ('r pb_istream_t, unit) op" where
  "pb_read_null count s = (case source s of
       Bytes mem \<Rightarrow> step (pb_read count) (\<lambda>_. ret ()) s
     | Reader f st \<Rightarrow> if count = 0 then (Some (), s) else skip_loop count s)"

definition pb_readbyte :: "('r pb_istream_t, u8) op" where
  "pb_readbyte s =
     (if bytes_left s = 0 then is_error ''end-of-stream'' s
      else case call_source 1 (source s) of
          (None, k) \<Rightarrow> is_error ''io error'' (s\<lparr>source := k\<rparr>)
        | (Some buf, k) \<Rightarrow> (Some (hd buf), s\<lparr>source := k, bytes_left := bytes_left s - 1\<rparr>))"

lemma pb_readbyte_left: "pb_readbyte s = (Some b, s') \<Longrightarrow> unat (bytes_left s') < unat (bytes_left s)"
  by (auto simp: pb_readbyte_def is_error_def unat_minus_one unat_gt_0 split: if_splits prod.splits option.splits)

lemma pb_read_1: "pb_read 1 s = (case pb_readbyte s of (None, s) \<Rightarrow> (None, s)
    | (Some _, s') \<Rightarrow> (fst (call_source 1 (source s)), s'))"
  by (auto simp: pb_read_def read_some_def pb_readbyte_def is_error_def word_less_1 split: prod.splits option.splits)

lemma pb_read_1_left: "pb_read 1 s = (Some bs, s') \<Longrightarrow> unat (bytes_left s') < unat (bytes_left s)"
  by (auto simp: pb_read_1 pb_readbyte_left split: prod.splits option.splits)

section \<open>Reading values\<close>

text \<open>
  The loop of \<open>pb_decode_varint32_eof\<close> after a first byte with its continuation bit. The bit
  position is a \<open>uint_fast8_t\<close>, 8 bits wide on the pods' platforms.
\<close>

function varint32_loop :: "u8 \<Rightarrow> u32 \<Rightarrow> ('r pb_istream_t, u32 \<times> u8 \<times> u8) op" where
  "varint32_loop bitpos result s = (case pb_readbyte s of
       (None, s) \<Rightarrow> (None, s)
     | (Some byte, s) \<Rightarrow>
         let sign_extension = (if bitpos < 63 then 0xFF else 0x01) in
         if bitpos \<ge> 32 \<and> byte AND 0x7F \<noteq> 0 \<and> (drop_bit 31 result = 0 \<or> byte \<noteq> sign_extension)
         then is_error ''varint overflow'' s
         else
           let result = (if bitpos \<ge> 32 then result
                 else result OR push_bit (unat bitpos) (ucast (byte AND 0x7F)));
               bitpos = bitpos + 7
           in if byte AND 0x80 \<noteq> 0 then varint32_loop bitpos result s
              else (Some (result, bitpos, byte), s))"
  by pat_completeness auto
termination
  by (relation "measure (\<lambda>(_, _, s). unat (bytes_left s))")
    (auto dest: pb_readbyte_left [OF sym])

declare varint32_loop.simps [simp del]

text \<open>The second component of the result is whether the code sets \<open>*eof\<close>.\<close>

definition pb_decode_varint32_eof :: "'r pb_istream_t \<Rightarrow> u32 option \<times> bool \<times> 'r pb_istream_t" where
  "pb_decode_varint32_eof s = (case pb_readbyte s of
       (None, s) \<Rightarrow> (None, bytes_left s = 0, s)
     | (Some byte, s) \<Rightarrow>
         if byte AND 0x80 = 0 then (Some (ucast byte), False, s)
         else case varint32_loop 7 (ucast (byte AND 0x7F)) s of
             (None, s) \<Rightarrow> (None, False, s)
           | (Some (result, bitpos, byte), s) \<Rightarrow>
               if bitpos = 35 \<and> byte AND 0x70 \<noteq> 0
               then (case is_error ''varint overflow'' s of (r, s) \<Rightarrow> (r, False, s))
               else (Some result, False, s))"

definition pb_decode_varint32 :: "('r pb_istream_t, u32) op" where
  "pb_decode_varint32 s = (case pb_decode_varint32_eof s of (r, _, s) \<Rightarrow> (r, s))"

function varint_loop :: "u8 \<Rightarrow> u64 \<Rightarrow> ('r pb_istream_t, u64) op" where
  "varint_loop bitpos result s =
     (if bitpos \<ge> 64 then is_error ''varint overflow'' s
      else case pb_readbyte s of
          (None, s) \<Rightarrow> (None, s)
        | (Some byte, s) \<Rightarrow>
            let result = result OR push_bit (unat bitpos) (ucast (byte AND 0x7F)); bitpos = bitpos + 7
            in if byte AND 0x80 \<noteq> 0 then varint_loop bitpos result s else (Some result, s))"
  by pat_completeness auto
termination
  by (relation "measure (\<lambda>(_, _, s). unat (bytes_left s))")
    (auto dest: pb_readbyte_left [OF sym])

declare varint_loop.simps [simp del]

definition pb_decode_varint :: "('r pb_istream_t, u64) op" where
  "pb_decode_varint = varint_loop 0 0"

definition pb_decode_svarint :: "('r pb_istream_t, u64) op" where
  "pb_decode_svarint = step pb_decode_varint (\<lambda>value.
     ret (if value AND 1 \<noteq> 0 then NOT (drop_bit 1 value) else drop_bit 1 value))"

definition pb_decode_fixed32 :: "('r pb_istream_t, u32) op" where
  "pb_decode_fixed32 = step (pb_read 4) (\<lambda>bytes. ret
     (push_bit 0 (ucast (bytes ! 0)) OR push_bit 8 (ucast (bytes ! 1)) OR
      push_bit 16 (ucast (bytes ! 2)) OR push_bit 24 (ucast (bytes ! 3))))"

definition pb_decode_fixed64 :: "('r pb_istream_t, u64) op" where
  "pb_decode_fixed64 = step (pb_read 8) (\<lambda>bytes. ret
     (push_bit 0 (ucast (bytes ! 0)) OR push_bit 8 (ucast (bytes ! 1)) OR
      push_bit 16 (ucast (bytes ! 2)) OR push_bit 24 (ucast (bytes ! 3)) OR
      push_bit 32 (ucast (bytes ! 4)) OR push_bit 40 (ucast (bytes ! 5)) OR
      push_bit 48 (ucast (bytes ! 6)) OR push_bit 56 (ucast (bytes ! 7))))"

function pb_skip_varint :: "('r pb_istream_t, unit) op" where
  "pb_skip_varint s = (case pb_read 1 s of
       (None, s) \<Rightarrow> (None, s)
     | (Some byte, s) \<Rightarrow> if hd byte AND 0x80 \<noteq> 0 then pb_skip_varint s else (Some (), s))"
  by pat_completeness auto
termination
  by (relation "measure (\<lambda>s. unat (bytes_left s))") (auto dest: pb_read_1_left [OF sym])

declare pb_skip_varint.simps [simp del]

definition pb_skip_string :: "('r pb_istream_t, unit) op" where
  "pb_skip_string = step pb_decode_varint32 (\<lambda>length. pb_read_null (ucast length))"

text \<open>\<open>pb_decode_tag\<close>: the wire type and the field number, and \<open>*eof\<close>.\<close>

definition pb_decode_tag ::
    "'r pb_istream_t \<Rightarrow> (pb_wire_type_t \<times> u32) option \<times> bool \<times> 'r pb_istream_t" where
  "pb_decode_tag s = (case pb_decode_varint32_eof s of
       (None, eof, s) \<Rightarrow> (None, eof, s)
     | (Some temp, eof, s) \<Rightarrow>
         if temp = 0 then (None, True, s)
         else (Some (temp AND 7, drop_bit 3 temp), eof, s))"

definition pb_skip_field :: "pb_wire_type_t \<Rightarrow> ('r pb_istream_t, unit) op" where
  "pb_skip_field wire_type =
     (if wire_type = PB_WT_VARINT then pb_skip_varint
      else if wire_type = PB_WT_64BIT then pb_read_null 8
      else if wire_type = PB_WT_STRING then pb_skip_string
      else if wire_type = PB_WT_32BIT then pb_read_null 4
      else is_error ''invalid wire_type'')"

text \<open>\<open>read_raw_value\<close> returns the bytes it puts into the buffer; their number is \<open>*size\<close>.\<close>

fun raw_varint_loop :: "nat \<Rightarrow> u8 list \<Rightarrow> ('r pb_istream_t, u8 list) op" where
  "raw_varint_loop 0 buf s = (None, s)"
| "raw_varint_loop (Suc n) buf s = (case pb_read 1 s of
       (None, s) \<Rightarrow> (None, s)
     | (Some byte, s) \<Rightarrow>
         if hd byte AND 0x80 \<noteq> 0 then raw_varint_loop n (buf @ byte) s
         else (Some (buf @ byte), s))"

definition read_raw_value :: "pb_wire_type_t \<Rightarrow> nat \<Rightarrow> ('r pb_istream_t, u8 list) op" where
  "read_raw_value wire_type buf_size =
     (if wire_type = PB_WT_VARINT then raw_varint_loop buf_size []
      else if wire_type = PB_WT_64BIT then pb_read 8
      else if wire_type = PB_WT_32BIT then pb_read 4
      else is_error ''invalid wire_type'')"

section \<open>Substreams\<close>

definition pb_make_string_substream :: "('r pb_istream_t, 'r pb_istream_t) op" where
  "pb_make_string_substream = step pb_decode_varint32 (\<lambda>size stream.
     if bytes_left stream < ucast size then is_error ''parent stream too short'' stream
     else (Some (stream\<lparr>bytes_left := ucast size\<rparr>),
           stream\<lparr>bytes_left := bytes_left stream - ucast size\<rparr>))"

definition pb_close_string_substream :: "'r pb_istream_t \<Rightarrow> ('r pb_istream_t, unit) op" where
  "pb_close_string_substream substream stream =
     (case (if bytes_left substream \<noteq> 0 then pb_read_null (bytes_left substream) substream
            else (Some (), substream)) of
        (None, substream) \<Rightarrow> (None, stream)
      | (Some _, substream) \<Rightarrow>
          (Some (), stream\<lparr>source := source substream, is_errmsg := is_errmsg substream\<rparr>))"

text \<open>\<open>pb_decode_delimited\<close> and \<open>pb_decode_delimited_noinit\<close>, for the parameter \<open>dec\<close> that is
  \<open>pb_decode\<close> or \<open>pb_decode_noinit\<close> on the fields and the struct. The substream is closed
  whether or not it decodes.\<close>

definition pb_decode_delimited :: "('r pb_istream_t, 'm) op \<Rightarrow> ('r pb_istream_t, 'm) op" where
  "pb_decode_delimited dec = step pb_make_string_substream (\<lambda>substream stream.
     case dec substream of
       (status, substream) \<Rightarrow>
         step (pb_close_string_substream substream) (\<lambda>_ stream. (status, stream)) stream)"

end
