(* ===== verification/PbField.thy ===== *)
theory PbField
  imports PbStream LittleEndian
begin

text \<open>
  The field encoders and decoders of nanopb (the tables PB_ENCODERS and PB_DECODERS) and the
  arrays of \<open>encode_array\<close> and \<open>decode_static_field\<close>. A member of a message struct is the list
  of its bytes in memory, least significant first on the pods' platforms; \<open>load_u\<close>, \<open>load_s\<close> and
  \<open>store\<close> are the accesses through a casted pointer. The build defines PB_FIELD_32BIT, so
  \<open>pb_size_t\<close> is 32 bits wide, and PB_ENABLE_MALLOC.
\<close>

section \<open>Struct members\<close>

definition load_u :: "nat \<Rightarrow> u8 list \<Rightarrow> u64" where
  "load_u n src = of_nat (le_val (take n src))"

definition load_s :: "nat \<Rightarrow> u8 list \<Rightarrow> u64" where
  "load_s n src = signed_take_bit (8 * n - 1) (load_u n src)"

definition store :: "nat \<Rightarrow> u64 \<Rightarrow> u8 list" where
  "store n v = le_bytes n (unat v)"

record pb_field_t =
  pf_tag :: u32
  pf_type :: u8
  pf_data_size :: u32
  pf_array_size :: u32

definition PB_LTYPE :: "u8 \<Rightarrow> u8" where "PB_LTYPE x = x AND 0x0F"
definition PB_HTYPE :: "u8 \<Rightarrow> u8" where "PB_HTYPE x = x AND 0x30"
definition PB_ATYPE :: "u8 \<Rightarrow> u8" where "PB_ATYPE x = x AND 0xC0"

abbreviation (input) "PB_LTYPE_BOOL \<equiv> 0x00"
abbreviation (input) "PB_LTYPE_VARINT \<equiv> 0x01"
abbreviation (input) "PB_LTYPE_UVARINT \<equiv> 0x02"
abbreviation (input) "PB_LTYPE_SVARINT \<equiv> 0x03"
abbreviation (input) "PB_LTYPE_FIXED32 \<equiv> 0x04"
abbreviation (input) "PB_LTYPE_FIXED64 \<equiv> 0x05"
abbreviation (input) "PB_LTYPE_LAST_PACKABLE \<equiv> 0x05"
abbreviation (input) "PB_LTYPE_BYTES \<equiv> 0x06"
abbreviation (input) "PB_LTYPE_STRING \<equiv> 0x07"
abbreviation (input) "PB_LTYPE_SUBMESSAGE \<equiv> 0x08"
abbreviation (input) "PB_LTYPE_FIXED_LENGTH_BYTES \<equiv> 0x0A"
abbreviation (input) "PB_ATYPE_STATIC \<equiv> 0x00"
abbreviation (input) "PB_ATYPE_POINTER \<equiv> 0x80"

definition pb_encode_tag_for_field :: "pb_field_t \<Rightarrow> ('s pb_ostream_t, unit) op" where
  "pb_encode_tag_for_field field =
     (let t = PB_LTYPE (pf_type field) in
      if t \<in> {PB_LTYPE_BOOL, PB_LTYPE_VARINT, PB_LTYPE_UVARINT, PB_LTYPE_SVARINT} then
        pb_encode_tag PB_WT_VARINT (pf_tag field)
      else if t = PB_LTYPE_FIXED32 then pb_encode_tag PB_WT_32BIT (pf_tag field)
      else if t = PB_LTYPE_FIXED64 then pb_encode_tag PB_WT_64BIT (pf_tag field)
      else if t \<in> {PB_LTYPE_BYTES, PB_LTYPE_STRING, PB_LTYPE_SUBMESSAGE, PB_LTYPE_FIXED_LENGTH_BYTES} then
        pb_encode_tag PB_WT_STRING (pf_tag field)
      else os_error ''invalid field type'')"

section \<open>Field encoders\<close>

text \<open>An encoder gets a pointer to the value, None for NULL.\<close>

definition safe_read_bool :: "u8 list \<Rightarrow> bool" where
  "safe_read_bool p = (\<exists>c \<in> set (take 1 p). c \<noteq> 0)"

definition pb_enc_bool :: "u8 list \<Rightarrow> ('s pb_ostream_t, unit) op" where
  "pb_enc_bool src = pb_encode_varint (if safe_read_bool src then 1 else 0)"

definition int_sizes :: "nat set" where "int_sizes = {1, 2, 4, 8}"

definition pb_enc_varint :: "pb_field_t \<Rightarrow> u8 list \<Rightarrow> ('s pb_ostream_t, unit) op" where
  "pb_enc_varint field src =
     (let n = unat (pf_data_size field) in
      if n \<in> int_sizes then pb_encode_varint (load_s n src) else os_error ''invalid data_size'')"

definition pb_enc_uvarint :: "pb_field_t \<Rightarrow> u8 list \<Rightarrow> ('s pb_ostream_t, unit) op" where
  "pb_enc_uvarint field src =
     (let n = unat (pf_data_size field) in
      if n \<in> int_sizes then pb_encode_varint (load_u n src) else os_error ''invalid data_size'')"

definition pb_enc_svarint :: "pb_field_t \<Rightarrow> u8 list \<Rightarrow> ('s pb_ostream_t, unit) op" where
  "pb_enc_svarint field src =
     (let n = unat (pf_data_size field) in
      if n \<in> int_sizes then pb_encode_svarint (load_s n src) else os_error ''invalid data_size'')"

definition pb_enc_fixed32 :: "u8 list \<Rightarrow> ('s pb_ostream_t, unit) op" where
  "pb_enc_fixed32 src = pb_encode_fixed32 (ucast (load_u 4 src))"

definition pb_enc_fixed64 :: "u8 list \<Rightarrow> ('s pb_ostream_t, unit) op" where
  "pb_enc_fixed64 src = pb_encode_fixed64 (load_u 8 src)"

text \<open>A \<open>pb_bytes_array_t\<close> is its size, in four bytes, and then the bytes.\<close>

definition pb_enc_bytes :: "pb_field_t \<Rightarrow> u8 list option \<Rightarrow> ('s pb_ostream_t, unit) op" where
  "pb_enc_bytes field src = (case src of
       None \<Rightarrow> pb_encode_string []
     | Some bytes \<Rightarrow>
         let sz = load_u 4 bytes in
         if PB_ATYPE (pf_type field) = PB_ATYPE_STATIC \<and> sz > ucast (pf_data_size field) - 4
         then os_error ''bytes size exceeded''
         else pb_encode_string (take (unat sz) (drop 4 bytes)))"

fun string_loop :: "nat \<Rightarrow> u8 list \<Rightarrow> nat" where
  "string_loop (Suc n) (c # p) = (if c \<noteq> 0 then Suc (string_loop n p) else 0)"
| "string_loop _ _ = 0"

definition pb_enc_string :: "pb_field_t \<Rightarrow> u8 list option \<Rightarrow> ('s pb_ostream_t, unit) op" where
  "pb_enc_string field src =
     (let max_size = (if PB_ATYPE (pf_type field) = PB_ATYPE_POINTER then unat (- 1 :: size_t)
            else unat (pf_data_size field))
      in case src of
           None \<Rightarrow> pb_encode_string []
         | Some p \<Rightarrow> pb_encode_string (take (string_loop max_size p) p))"

definition pb_enc_fixed_length_bytes :: "pb_field_t \<Rightarrow> u8 list \<Rightarrow> ('s pb_ostream_t, unit) op" where
  "pb_enc_fixed_length_bytes field src = pb_encode_string (take (unat (pf_data_size field)) src)"

text \<open>The encoder table, without submessages and extensions.\<close>

definition PB_ENCODERS :: "pb_field_t \<Rightarrow> u8 list \<Rightarrow> ('s pb_ostream_t, unit) op" where
  "PB_ENCODERS field src =
     (let t = PB_LTYPE (pf_type field) in
      if t = PB_LTYPE_BOOL then pb_enc_bool src
      else if t = PB_LTYPE_VARINT then pb_enc_varint field src
      else if t = PB_LTYPE_UVARINT then pb_enc_uvarint field src
      else if t = PB_LTYPE_SVARINT then pb_enc_svarint field src
      else if t = PB_LTYPE_FIXED32 then pb_enc_fixed32 src
      else if t = PB_LTYPE_FIXED64 then pb_enc_fixed64 src
      else if t = PB_LTYPE_BYTES then pb_enc_bytes field (Some src)
      else if t = PB_LTYPE_STRING then pb_enc_string field (Some src)
      else pb_enc_fixed_length_bytes field src)"

text \<open>The array data is the list of its elements, each as the bytes the encoder is called on.\<close>

fun enc_loop :: "('s pb_ostream_t, unit) op \<Rightarrow> (u8 list \<Rightarrow> ('s pb_ostream_t, unit) op) \<Rightarrow> u8 list list \<Rightarrow>
    ('s pb_ostream_t, unit) op" where
  "enc_loop before func [] = ret ()"
| "enc_loop before func (p # ps) = step before (\<lambda>_. step (func p) (\<lambda>_. enc_loop before func ps))"

definition encode_array :: "pb_field_t \<Rightarrow> u8 list list \<Rightarrow> (u8 list \<Rightarrow> ('s pb_ostream_t, unit) op) \<Rightarrow>
    ('s pb_ostream_t, unit) op" where
  "encode_array field pData func stream =
     (let count = length pData; t = PB_LTYPE (pf_type field) in
      if count = 0 then (Some (), stream)
      else if PB_ATYPE (pf_type field) \<noteq> PB_ATYPE_POINTER \<and> count > unat (pf_array_size field) then
        os_error ''array max size exceeded'' stream
      else if t \<le> PB_LTYPE_LAST_PACKABLE then
        step (pb_encode_tag PB_WT_STRING (pf_tag field)) (\<lambda>_ stream.
          case (if t = PB_LTYPE_FIXED32 then Some (4 * of_nat count)
                else if t = PB_LTYPE_FIXED64 then Some (8 * of_nat count)
                else pb_get_encoded_size (enc_loop (ret ()) func pData)) of
            None \<Rightarrow> (None, stream)
          | Some sz \<Rightarrow>
              step (pb_encode_varint sz) (\<lambda>_ stream.
                if sink stream = Sizing then pb_write_size sz stream
                else enc_loop (ret ()) func pData stream) stream) stream
      else enc_loop (pb_encode_tag_for_field field) func pData stream)"

section \<open>Field decoders\<close>

text \<open>A decoder returns the bytes it stores at its destination; what it has stored when it fails is
  left open.\<close>

definition pb_dec_bool :: "('r pb_istream_t, u8 list) op" where
  "pb_dec_bool = step pb_decode_varint32 (\<lambda>value. ret [if value \<noteq> 0 then 1 else 0])"

definition pb_dec_varint :: "pb_field_t \<Rightarrow> ('r pb_istream_t, u8 list) op" where
  "pb_dec_varint field = step pb_decode_varint (\<lambda>value.
     let n = unat (pf_data_size field);
         svalue = (if n = 8 then value else signed_take_bit 31 value);
         clamped = signed_take_bit (8 * n - 1) svalue
     in if n \<notin> int_sizes then is_error ''invalid data_size''
        else if clamped \<noteq> svalue then is_error ''integer too large''
        else ret (store n clamped))"

definition pb_dec_uvarint :: "pb_field_t \<Rightarrow> ('r pb_istream_t, u8 list) op" where
  "pb_dec_uvarint field = step pb_decode_varint (\<lambda>value.
     let n = unat (pf_data_size field); clamped = take_bit (8 * n) value
     in if n \<notin> int_sizes then is_error ''invalid data_size''
        else if clamped \<noteq> value then is_error ''integer too large''
        else ret (store n clamped))"

definition pb_dec_svarint :: "pb_field_t \<Rightarrow> ('r pb_istream_t, u8 list) op" where
  "pb_dec_svarint field = step pb_decode_svarint (\<lambda>value.
     let n = unat (pf_data_size field); clamped = signed_take_bit (8 * n - 1) value
     in if n \<notin> int_sizes then is_error ''invalid data_size''
        else if clamped \<noteq> value then is_error ''integer too large''
        else ret (store n clamped))"

definition pb_dec_fixed32 :: "('r pb_istream_t, u8 list) op" where
  "pb_dec_fixed32 = step pb_decode_fixed32 (\<lambda>value. ret (store 4 (ucast value)))"

definition pb_dec_fixed64 :: "('r pb_istream_t, u8 list) op" where
  "pb_dec_fixed64 = step pb_decode_fixed64 (\<lambda>value. ret (store 8 value))"

text \<open>\<open>allocate_field\<close>: the parameter says whether \<open>pb_realloc\<close> serves a request of that size.\<close>

definition allocate_field :: "(size_t \<Rightarrow> bool) \<Rightarrow> size_t \<Rightarrow> size_t \<Rightarrow> ('r pb_istream_t, unit) op" where
  "allocate_field A data_size array_size =
     (let check_limit = push_bit 32 1; size_max = - 1 in
      if data_size = 0 \<or> array_size = 0 then is_error ''invalid size''
      else if (data_size \<ge> check_limit \<or> array_size \<ge> check_limit) \<and> size_max div array_size < data_size
      then is_error ''size too large''
      else if \<not> A (array_size * data_size) then is_error ''realloc failed''
      else ret ())"

definition pb_dec_bytes :: "(size_t \<Rightarrow> bool) \<Rightarrow> pb_field_t \<Rightarrow> ('r pb_istream_t, u8 list) op" where
  "pb_dec_bytes A field = step pb_decode_varint32 (\<lambda>sz s.
     let alloc_size = ucast sz + 4 in
     step (if PB_ATYPE (pf_type field) = PB_ATYPE_POINTER then
             if bytes_left s < ucast sz then is_error ''end-of-stream'' else allocate_field A alloc_size 1
           else if alloc_size > ucast (pf_data_size field) then is_error ''bytes overflow'' else ret ())
       (\<lambda>_. step (pb_read (ucast sz)) (\<lambda>bytes. ret (store 4 (ucast sz) @ bytes))) s)"

definition pb_dec_string :: "(size_t \<Rightarrow> bool) \<Rightarrow> pb_field_t \<Rightarrow> ('r pb_istream_t, u8 list) op" where
  "pb_dec_string A field = step pb_decode_varint32 (\<lambda>sz s.
     let alloc_size = ucast (sz + 1) in
     step (if alloc_size < ucast sz then is_error ''size too large''
           else if PB_ATYPE (pf_type field) = PB_ATYPE_POINTER then
             if bytes_left s < ucast sz then is_error ''end-of-stream'' else allocate_field A alloc_size 1
           else if alloc_size > ucast (pf_data_size field) then is_error ''string overflow'' else ret ())
       (\<lambda>_. step (pb_read (ucast sz)) (\<lambda>bytes. ret (bytes @ [0]))) s)"

definition pb_dec_fixed_length_bytes :: "pb_field_t \<Rightarrow> ('r pb_istream_t, u8 list) op" where
  "pb_dec_fixed_length_bytes field = step pb_decode_varint32 (\<lambda>sz.
     if sz = 0 then ret (replicate (unat (pf_data_size field)) 0)
     else if sz \<noteq> pf_data_size field then is_error ''incorrect fixed length bytes size''
     else pb_read (ucast (pf_data_size field)))"

definition PB_DECODERS :: "(size_t \<Rightarrow> bool) \<Rightarrow> pb_field_t \<Rightarrow> ('r pb_istream_t, u8 list) op" where
  "PB_DECODERS A field =
     (let t = PB_LTYPE (pf_type field) in
      if t = PB_LTYPE_BOOL then pb_dec_bool
      else if t = PB_LTYPE_VARINT then pb_dec_varint field
      else if t = PB_LTYPE_UVARINT then pb_dec_uvarint field
      else if t = PB_LTYPE_SVARINT then pb_dec_svarint field
      else if t = PB_LTYPE_FIXED32 then pb_dec_fixed32
      else if t = PB_LTYPE_FIXED64 then pb_dec_fixed64
      else if t = PB_LTYPE_BYTES then pb_dec_bytes A field
      else if t = PB_LTYPE_STRING then pb_dec_string A field
      else pb_dec_fixed_length_bytes field)"

text \<open>
  A repeated field of static allocation: the elements stored so far, whose number is
  \<open>*size\<close>. The loop of the packed branch ends when the substream is empty, the array is
  full or an element is not accepted; the bound \<open>array_size\<close> makes it structural.
\<close>

fun packed_loop :: "nat \<Rightarrow> ('r pb_istream_t, u8 list) op \<Rightarrow> u8 list list \<Rightarrow> 'r pb_istream_t \<Rightarrow>
    bool \<times> u8 list list \<times> 'r pb_istream_t" where
  "packed_loop 0 func items substream = (True, items, substream)"
| "packed_loop (Suc n) func items substream =
     (if bytes_left substream > 0 then
        case func substream of
          (None, substream) \<Rightarrow> (False, items, substream)
        | (Some item, substream) \<Rightarrow> packed_loop n func (items @ [item]) substream
      else (True, items, substream))"

text \<open>
  The result is the status, \<open>*size\<close> and the elements decoded. The branch for one element counts it
  before it looks for room and decodes it, so that after an error \<open>*size\<close> is one more than the elements.
\<close>

definition decode_repeated_field ::
    "pb_field_t \<Rightarrow> ('r pb_istream_t, u8 list) op \<Rightarrow> pb_wire_type_t \<Rightarrow> u8 list list \<Rightarrow> 'r pb_istream_t \<Rightarrow>
     bool \<times> u32 \<times> u8 list list \<times> 'r pb_istream_t" where
  "decode_repeated_field field func wire_type items stream =
    (let num = of_nat (length items) in
     if wire_type = PB_WT_STRING \<and> PB_LTYPE (pf_type field) \<le> PB_LTYPE_LAST_PACKABLE then
        case pb_make_string_substream stream of
          (None, stream) \<Rightarrow> (False, num, items, stream)
        | (Some substream, stream) \<Rightarrow>
            (case packed_loop (unat (pf_array_size field) - length items) func items substream of
               (status, items, substream) \<Rightarrow>
                 let num = of_nat (length items) in
                 if bytes_left substream \<noteq> 0 then
                   (case is_error ''array overflow'' stream :: unit option \<times> _ of (_, stream) \<Rightarrow> (False, num, items, stream))
                 else case pb_close_string_substream substream stream of
                     (None, stream) \<Rightarrow> (False, num, items, stream)
                   | (Some _, stream) \<Rightarrow> (status, num, items, stream))
      else if num \<ge> pf_array_size field then
        (case is_error ''array overflow'' stream :: unit option \<times> _ of (_, stream) \<Rightarrow> (False, num + 1, items, stream))
      else case func stream of
          (None, stream) \<Rightarrow> (False, num + 1, items, stream)
        | (Some item, stream) \<Rightarrow> (True, num + 1, items @ [item], stream))"

end
