(* ===== verification/PbWire.thy ===== *)
theory PbWire
  imports PbField
begin

text \<open>
  What the nanopb coders write and read. \<open>writes e bs\<close>: the encoder \<open>e\<close> appends exactly \<open>bs\<close>
  to every stream that has room for them; \<open>reads d bs x\<close>: the decoder \<open>d\<close> takes exactly
  \<open>bs\<close> from a buffer that begins with them and returns \<open>x\<close>. Both compose along \<open>step\<close>, and
  the locale \<open>wire_codec\<close> is the contract of an encoder and a decoder that agree on the bytes.
\<close>

section \<open>Writing\<close>

definition os_room :: "nat \<Rightarrow> 's pb_ostream_t \<Rightarrow> bool" where
  "os_room n s \<longleftrightarrow> os_errmsg s = None \<and> (case sink s of
      Sizing \<Rightarrow> True
    | Buffer mem dest \<Rightarrow> dest + n \<le> length mem \<and> unat (bytes_written s) + n \<le> unat (max_size s)
    | Writer f st \<Rightarrow> False)"

definition put :: "u8 list \<Rightarrow> 's pb_ostream_t \<Rightarrow> 's pb_ostream_t" where
  "put bs s = s\<lparr>sink := snd (call_sink bs (sink s)), bytes_written := bytes_written s + of_nat (length bs)\<rparr>"

definition writes :: "('s pb_ostream_t, unit) op \<Rightarrow> u8 list \<Rightarrow> bool" where
  "writes e bs \<longleftrightarrow> (\<forall>s. os_room (length bs) s \<longrightarrow> e s = (Some (), put bs s))"

lemma unat_size_less: "unat (a :: size_t) < 2 ^ 64"
  using unsigned_less [of a] by simp

lemma unat_of_nat_fits: "n \<le> unat (b :: size_t) \<Longrightarrow> unat (of_nat n :: size_t) = n"
  using unat_size_less [of b] by (simp add: unat_of_nat)

lemma unat_add_fits: "unat (a :: size_t) + n \<le> unat (b :: size_t) \<Longrightarrow> unat (a + of_nat n) = unat a + n"
  using unat_size_less [of b] unat_of_nat_fits [of n b] by (simp add: unat_word_ariths del: unat_of_nat)

lemma put_Nil: "os_room 0 s \<Longrightarrow> put [] s = s"
  by (auto simp: put_def os_room_def call_sink_def buf_write_def split: sink.splits)

lemma room_mono: "os_room n s \<Longrightarrow> m \<le> n \<Longrightarrow> os_room m s"
  by (auto simp: os_room_def split: sink.splits)

lemma room_put: "os_room (length bs + n) s \<Longrightarrow> os_room n (put bs s)"
  by (auto simp: os_room_def put_def call_sink_def buf_write_def unat_add_fits [where b = "max_size s"]
      split: sink.splits)

lemma put_append: "os_room (length bs + length cs) s \<Longrightarrow> put cs (put bs s) = put (bs @ cs) s"
  by (auto simp: os_room_def put_def call_sink_def buf_write_def ac_simps min_def split: sink.splits)

lemma writes_ret: "writes (ret ()) []"
  by (simp add: writes_def put_Nil)

lemma writes_pb_write: "writes (pb_write bs) bs"
  unfolding writes_def
proof (intro allI impI)
  fix s :: "'a pb_ostream_t"
  assume r: "os_room (length bs) s"
  show "pb_write bs s = (Some (), put bs s)"
  proof (cases "sink s")
    case (Buffer mem dest)
    with r have fits: "unat (bytes_written s + of_nat (length bs)) = unat (bytes_written s) + length bs"
        "unat (bytes_written s) + length bs \<le> unat (max_size s)"
      by (auto simp: os_room_def unat_add_fits)
    show ?thesis
    proof (cases "bs = []")
      case True
      with r show ?thesis by (simp add: pb_write_def pb_write_size_def put_Nil)
    next
      case False
      have "(of_nat (length bs) :: size_t) > 0"
        using False fits(2) unat_of_nat_fits [of "length bs" "max_size s"] by (simp add: word_less_nat_alt)
      moreover have "\<not> bytes_written s + of_nat (length bs) < bytes_written s"
          "\<not> bytes_written s + of_nat (length bs) > max_size s"
        using fits by (simp_all add: word_less_nat_alt)
      ultimately show ?thesis
        using Buffer by (simp add: pb_write_def pb_write_size_def put_def call_sink_def buf_write_def Let_def)
    qed
  qed (use r in \<open>auto simp: os_room_def pb_write_def pb_write_size_def put_def call_sink_def\<close>)
qed

lemma writes_step:
  assumes "writes e bs" "writes f cs"
  shows "writes (step e (\<lambda>_. f)) (bs @ cs)"
  unfolding writes_def
proof (intro allI impI)
  fix s :: "'a pb_ostream_t"
  assume r: "os_room (length (bs @ cs)) s"
  then have "e s = (Some (), put bs s)" using assms(1) room_mono [OF r] by (simp add: writes_def)
  moreover have "f (put bs s) = (Some (), put cs (put bs s))"
    using assms(2) r room_put [of bs "length cs" s] by (simp add: writes_def)
  ultimately show "step e (\<lambda>_. f) s = (Some (), put (bs @ cs) s)"
    using r by (simp add: step_def put_append)
qed

section \<open>Reading\<close>

definition reads :: "('r pb_istream_t, 'a) op \<Rightarrow> u8 list \<Rightarrow> 'a \<Rightarrow> bool" where
  "reads d bs x \<longleftrightarrow> (\<forall>s rest. source s = Bytes (bs @ rest) \<and> length bs \<le> unat (bytes_left s) \<longrightarrow>
     d s = (Some x, s\<lparr>source := Bytes rest, bytes_left := bytes_left s - of_nat (length bs)\<rparr>))"

lemma unat_sub_fits: "n \<le> unat (a :: size_t) \<Longrightarrow> unat (a - of_nat n) = unat a - n"
  using unat_of_nat_fits [of n a] by (simp add: unat_sub_if' del: unat_of_nat)

lemma reads_ret: "reads (ret x) [] x"
  by (auto simp: reads_def)

lemma reads_step:
  assumes "reads d bs x" "reads (f x) cs y"
  shows "reads (step d f) (bs @ cs) y"
  unfolding reads_def
proof (intro allI impI)
  fix s :: "'a pb_istream_t" and rest
  assume s: "source s = Bytes ((bs @ cs) @ rest) \<and> length (bs @ cs) \<le> unat (bytes_left s)"
  let ?t = "s\<lparr>source := Bytes (cs @ rest), bytes_left := bytes_left s - of_nat (length bs)\<rparr>"
  have "d s = (Some x, ?t)" using assms(1) s by (simp add: reads_def)
  moreover have "f x ?t = (Some y, s\<lparr>source := Bytes rest, bytes_left := bytes_left s - of_nat (length (bs @ cs))\<rparr>)"
  proof -
    have "length cs \<le> unat (bytes_left ?t)"
      using s unat_sub_fits [of "length bs" "bytes_left s"] by (simp add: le_diff_conv2)
    with assms(2) have "f x ?t = (Some y, ?t\<lparr>source := Bytes rest, bytes_left := bytes_left ?t - of_nat (length cs)\<rparr>)"
      by (simp add: reads_def)
    then show ?thesis by (simp add: algebra_simps)
  qed
  ultimately show "step d f s = (Some y, s\<lparr>source := Bytes rest, bytes_left := bytes_left s - of_nat (length (bs @ cs))\<rparr>)"
    by (simp add: step_def)
qed

lemma reads_step_ret: "reads d bs x \<Longrightarrow> f x = ret y \<Longrightarrow> reads (step d f) bs y"
  using reads_step [of d bs x f "[]" y] by (simp add: reads_ret)

lemma reads_pb_readbyte: "reads pb_readbyte [b] b"
  by (auto simp: reads_def pb_readbyte_def call_source_def buf_read_def)

lemma reads_pb_read: "unat n = length bs \<Longrightarrow> reads (pb_read n) bs bs"
  by (auto simp: reads_def pb_read_def read_some_def call_source_def buf_read_def word_less_nat_alt
      simp flip: word_unat_eq_iff) (metis of_nat_unat)+

section \<open>Varints\<close>

fun varint :: "nat \<Rightarrow> u8 list" where
  "varint n = (if n < 128 then [of_nat n] else of_nat (n mod 128 + 128) # varint (n div 128))"

declare varint.simps [simp del]

lemma low7: "unat (v AND 0x7F :: 'a::len word) = unat v mod 128" if "8 \<le> LENGTH('a)"
proof -
  have "(0x7F :: 'a word) = mask 7" by (simp add: mask_eq_exp_minus_1)
  then have "v AND 0x7F = take_bit 7 v" by (simp only: take_bit_eq_mask)
  moreover have "unat (take_bit 7 v) = take_bit 7 (unat v)" by (simp only: unsigned_take_bit_eq)
  ultimately show ?thesis by (simp only: take_bit_eq_mod) simp
qed

lemma cont_byte: "ucast ((v AND 0x7F) OR 0x80 :: u64) = (of_nat (unat v mod 128 + 128) :: u8)"
proof -
  have "unat ((v AND 0x7F) OR 0x80) = (unat v mod 128) OR 128"
    by (simp add: unsigned_or_eq low7)
  also have "\<dots> = unat v mod 128 + 128"
    using nat_push_bit_or [of "unat v mod 128" 7 1] by (simp add: push_bit_eq_mult ac_simps)
  finally have "of_nat (unat ((v AND 0x7F) OR 0x80)) = (of_nat (unat v mod 128 + 128) :: u8)" by (rule arg_cong)
  then show ?thesis by (simp del: of_nat_add)
qed

lemma cont_byte_low: "of_nat (n mod 128 + 128) AND (0x7F :: u8) = of_nat (n mod 128)"
  by (rule word_unat_eq_iff [THEN iffD2]) (simp add: low7 del: of_nat_add)

lemma low_byte: "n < 128 \<Longrightarrow> (of_nat n :: u8) AND 0x7F = of_nat n"
  by (rule word_unat_eq_iff [THEN iffD2]) (simp add: low7)

lemma cont_byte_low1: "n < 128 \<Longrightarrow> of_nat (n + 128) AND (0x7F :: u8) = of_nat n"
  using cont_byte_low [of n] by simp

lemma high_bit: "b AND 0x80 \<noteq> 0 \<longleftrightarrow> 128 \<le> unat (b :: u8)"
proof -
  have "b AND 0x80 \<noteq> 0 \<longleftrightarrow> bit b 7"
    by (simp add: bit_iff_and_push_bit_not_eq_0)
  also have "\<dots> \<longleftrightarrow> bit (unat b) 7" by (simp add: bit_unsigned_iff)
  also have "\<dots> \<longleftrightarrow> odd (unat b div 128)" by (simp add: bit_iff_odd)
  also have "unat b div 128 = (if 128 \<le> unat b then 1 else 0)"
    using unat_u8_less [of b] by (simp add: div_nat_eqI)
  finally show ?thesis by simp
qed

lemma varint_buffer_last:
  "value \<noteq> 0 \<Longrightarrow> varint_buffer value \<noteq> [] \<and>
     (let b = varint_buffer value in butlast b @ [last b AND 0x7F]) = varint (unat value)"
proof (induction "value" rule: varint_buffer.induct)
  case (1 "value")
  have z: "drop_bit 7 value = 0 \<longleftrightarrow> unat value < 128"
    using div_eq_0_iff [of "unat value" 128] by (simp only: unat_eq_0 [symmetric] unat_drop_bit) simp
  show ?case
  proof (cases "unat value < 128")
    case True
    with 1(2) z show ?thesis
      by (simp add: varint_buffer.simps [of "value"] varint_buffer.simps [of 0] cont_byte Let_def
          varint.simps [of "unat value"] cont_byte_low1 del: of_nat_add)
  next
    case False
    with 1 z have "varint_buffer (drop_bit 7 value) \<noteq> []"
        "(let b = varint_buffer (drop_bit 7 value) in butlast b @ [last b AND 0x7F]) = varint (unat value div 128)"
      by (simp_all add: unat_drop_bit)
    with False 1(2) show ?thesis
      by (simp add: varint_buffer.simps [of "value"] cont_byte Let_def varint.simps [of "unat value"] del: of_nat_add)
  qed
qed

lemma update_last: "b \<noteq> [] \<Longrightarrow> b[length b - 1 := x] = butlast b @ [x]"
  by (cases b rule: rev_cases) (auto simp: list_update_append)

lemma writes_varint: "writes (pb_encode_varint v) (varint (unat v))"
proof (cases "v \<le> 0x7F")
  case True
  then have "unat v < 128" by (simp add: word_le_nat_alt)
  then have "[ucast v] = varint (unat v)" by (simp add: varint.simps)
  with True show ?thesis using writes_pb_write [of "[ucast v]"] by (simp add: pb_encode_varint_def)
next
  case False
  then have "v \<noteq> 0" by auto
  let ?b = "varint_buffer v"
  have "?b \<noteq> []" and "butlast ?b @ [last ?b AND 0x7F] = varint (unat v)"
    using varint_buffer_last [OF \<open>v \<noteq> 0\<close>] by (simp_all add: Let_def)
  then have "?b[length ?b - 1 := ?b ! (length ?b - 1) AND 0x7F] = varint (unat v)"
    by (metis update_last last_conv_nth)
  with False writes_pb_write [of "varint (unat v)"] show ?thesis
    by (simp only: pb_encode_varint_def Let_def if_False)
qed


lemma bitpos_7: "k < 10 \<Longrightarrow> unat (of_nat (7 * k) :: u8) = 7 * k"
  by (simp only: unat_of_nat_u8) simp

lemma reads_byte_then:
  assumes "\<And>s. d s = (case pb_readbyte s of (None, s) \<Rightarrow> (None, s) | (Some b, s) \<Rightarrow> f b s)"
    and "reads (f b) bs x"
  shows "reads d (b # bs) x"
proof -
  have "d = step pb_readbyte f" by (rule ext) (simp add: assms(1) step_def)
  with reads_step [where d = pb_readbyte and f = f, OF reads_pb_readbyte assms(2)] show ?thesis by simp
qed

text \<open>One step of accumulating seven bits.\<close>

lemma acc7:
  fixes r :: "'a::len word"
  assumes "unat r < 2 ^ k" "m * 2 ^ k < 2 ^ LENGTH('a)" "m < 128" "8 \<le> LENGTH('a)"
  shows "unat (r OR push_bit k (ucast (of_nat m :: u8))) = unat r + m * 2 ^ k"
proof -
  have "unat (ucast (of_nat m :: u8) :: 'a word) = m"
    using assms(3,4) by (simp add: unat_ucast_up)
  with unat_push_bit_or [of "ucast (of_nat m :: u8)" k r] assms(1,2) show ?thesis
    by (simp add: or.commute)
qed

lemma split7: "n * 2 ^ (7 * k) = n mod 128 * 2 ^ (7 * k) + n div 128 * 2 ^ (7 * Suc k)" for n :: nat
proof -
  have p: "2 ^ (7 * Suc k) = 128 * (2 ^ (7 * k) :: nat)" by (simp add: power_add)
  have "n * 2 ^ (7 * k) = (n mod 128 + n div 128 * 128) * 2 ^ (7 * k)" by simp
  also have "\<dots> = n mod 128 * 2 ^ (7 * k) + n div 128 * 2 ^ (7 * Suc k)"
    unfolding p by (simp only: distrib_right mult.assoc)
  finally show ?thesis .
qed

lemma acc7_less: "x < 2 ^ (7 * k) \<Longrightarrow> x + n mod 128 * 2 ^ (7 * k) < 2 ^ (7 * Suc k)" for n :: nat
proof -
  assume "x < 2 ^ (7 * k)"
  then have "x + n mod 128 * 2 ^ (7 * k) < 2 ^ (7 * k) + 127 * 2 ^ (7 * k)"
    by (intro add_less_le_mono) simp_all
  then show ?thesis by (simp add: power_add)
qed

lemma reads_varint_loop:
  "unat r < 2 ^ (7 * k) \<Longrightarrow> n * 2 ^ (7 * k) + unat r < 2 ^ 64 \<Longrightarrow> k < 10 \<Longrightarrow>
     reads (varint_loop (of_nat (7 * k)) r :: ('r pb_istream_t, _) op) (varint n) (of_nat (unat r + n * 2 ^ (7 * k)))"
proof (induction n arbitrary: k r rule: varint.induct)
  case (1 n)
  let ?b = "of_nat (7 * k) :: u8"
  let ?m = "n mod 128"
  let ?r = "r OR push_bit (7 * k) (ucast (of_nat ?m :: u8))"
  have le: "?m * 2 ^ (7 * k) \<le> n * 2 ^ (7 * k)" by simp
  have r: "unat ?r = unat r + ?m * 2 ^ (7 * k)"
    using 1(2,3) le by (intro acc7 order.strict_trans1 [OF le]) simp_all
  have "\<not> ?b \<ge> 64" using 1(4) bitpos_7 [of k] by (simp add: word_le_nat_alt del: of_nat_mult)
  moreover have "7 * k mod 256 = 7 * k" using 1(4) by simp
  ultimately have loop: "varint_loop ?b r s = (case pb_readbyte s of (None, s) \<Rightarrow> (None, s)
      | (Some byte, s) \<Rightarrow> if byte AND 0x80 \<noteq> 0
          then varint_loop (of_nat (7 * Suc k)) (r OR push_bit (7 * k) (ucast (byte AND 0x7F))) s
          else ret (r OR push_bit (7 * k) (ucast (byte AND 0x7F))) s)" for s :: "'r pb_istream_t"
    by (subst varint_loop.simps)
      (simp add: Let_def bitpos_7 [OF 1(4)] add.commute del: of_nat_mult split: prod.split option.split)
  show ?case
  proof (cases "n < 128")
    case True
    have "unat (of_nat (unat r + n * 2 ^ (7 * k)) :: u64) = unat r + n * 2 ^ (7 * k)"
      using 1(3) by (simp add: unat_of_nat del: of_nat_add of_nat_mult)
    then have "r OR push_bit (7 * k) (ucast (of_nat n :: u8)) = of_nat (unat r + n * 2 ^ (7 * k))"
      using r True by (metis mod_less word_unat_eq_iff)
    moreover have "varint n = [of_nat n]" using True by (simp add: varint.simps)
    ultimately show ?thesis
      using True by (auto intro!: reads_byte_then [OF loop] simp: high_bit low_byte reads_ret
          simp del: of_nat_add of_nat_mult ret_simp)
  next
    case False
    note split = split7 [of n k]
    have "k < 9"
    proof (rule ccontr)
      assume "\<not> k < 9"
      with 1(4) have "k = 9" by simp
      with 1(3) False show False by simp
    qed
    have "unat ?r < 2 ^ (7 * Suc k)" unfolding r using 1(2) by (rule acc7_less)
    moreover have "n div 128 * 2 ^ (7 * Suc k) + unat ?r < 2 ^ 64"
      using 1(3) split r by simp
    ultimately have "reads (varint_loop (of_nat (7 * Suc k)) ?r :: ('r pb_istream_t, _) op) (varint (n div 128))
        (of_nat (unat ?r + n div 128 * 2 ^ (7 * Suc k)))"
      using \<open>k < 9\<close> by - (rule 1(1) [OF False], simp_all)
    moreover have "unat ?r + n div 128 * 2 ^ (7 * Suc k) = unat r + n * 2 ^ (7 * k)"
      using split r by simp
    ultimately show ?thesis
      using False
      by (subst varint.simps, simp only: if_False, intro reads_byte_then [OF loop])
        (simp add: high_bit cont_byte_low del: of_nat_add of_nat_mult mult_Suc_right)
  qed
qed

lemma reads_varint: "reads pb_decode_varint (varint (unat v)) v"
  using reads_varint_loop [of 0 0 "unat v"] unat_size_less [of v] by (simp add: pb_decode_varint_def)

text \<open>
  The 32-bit reader. A first byte without its continuation bit is the value; otherwise the
  loop runs from bit 7, and the five-byte form has only four bits in its last byte.
\<close>

lemma reads_varint32_loop:
  "unat r < 2 ^ (7 * k) \<Longrightarrow> n * 2 ^ (7 * k) + unat r < 2 ^ 32 \<Longrightarrow> k < 5 \<Longrightarrow>
     \<exists>b. reads (varint32_loop (of_nat (7 * k)) r :: ('r pb_istream_t, _) op) (varint n)
         (of_nat (unat r + n * 2 ^ (7 * k)), of_nat (7 * (k + length (varint n))), b) \<and>
       (k + length (varint n) = 5 \<longrightarrow> unat b < 16)"
proof (induction n arbitrary: k r rule: varint.induct)
  case (1 n)
  let ?b = "of_nat (7 * k) :: u8"
  let ?m = "n mod 128"
  let ?r = "r OR push_bit (7 * k) (ucast (of_nat ?m :: u8))"
  have le: "?m * 2 ^ (7 * k) \<le> n * 2 ^ (7 * k)" by simp
  have r: "unat ?r = unat r + ?m * 2 ^ (7 * k)"
    using 1(2,3) le by (intro acc7 order.strict_trans1 [OF le]) simp_all
  have "\<not> ?b \<ge> 32" using 1(4) bitpos_7 [of k] by (simp add: word_le_nat_alt del: of_nat_mult)
  moreover have "7 * k mod 256 = 7 * k" using 1(4) by simp
  moreover have "unat ?b = 7 * k" using 1(4) by (simp add: bitpos_7 del: of_nat_mult)
  ultimately have loop: "varint32_loop ?b r s = (case pb_readbyte s of (None, s) \<Rightarrow> (None, s)
      | (Some byte, s) \<Rightarrow> if byte AND 0x80 \<noteq> 0
          then varint32_loop (of_nat (7 * Suc k)) (r OR push_bit (7 * k) (ucast (byte AND 0x7F))) s
          else ret (r OR push_bit (7 * k) (ucast (byte AND 0x7F)), of_nat (7 * Suc k), byte) s)"
      for s :: "'r pb_istream_t"
    by (subst varint32_loop.simps)
      (simp add: Let_def add.commute del: of_nat_mult split: prod.split option.split)
  show ?case
  proof (cases "n < 128")
    case True
    have "unat (of_nat (unat r + n * 2 ^ (7 * k)) :: u32) = unat r + n * 2 ^ (7 * k)"
      using 1(3) by (simp add: unat_of_nat del: of_nat_add of_nat_mult)
    then have v: "r OR push_bit (7 * k) (ucast (of_nat n :: u8)) = of_nat (unat r + n * 2 ^ (7 * k))"
      using r True by (metis mod_less word_unat_eq_iff)
    have "reads (varint32_loop ?b r :: ('r pb_istream_t, _) op) (varint n) (?r, of_nat (7 * Suc k), of_nat n)"
    proof -
      have "varint n = [of_nat n]" using True by (simp add: varint.simps)
      then show ?thesis
        using True by (auto intro!: reads_byte_then [OF loop] simp: high_bit low_byte reads_ret
            simp del: of_nat_mult mult_Suc_right ret_simp)
    qed
    moreover have "unat (of_nat n :: u8) < 16" if "k = 4"
      using 1(3) that by simp
    ultimately show ?thesis
      using True by (intro exI [of _ "of_nat n"]) (simp add: v varint.simps del: of_nat_mult of_nat_add)
  next
    case False
    note split = split7 [of n k]
    have "k < 4"
    proof (rule ccontr)
      assume "\<not> k < 4"
      with 1(4) have "k = 4" by simp
      with 1(3) False show False by simp
    qed
    have "unat ?r < 2 ^ (7 * Suc k)" unfolding r using 1(2) by (rule acc7_less)
    moreover have "n div 128 * 2 ^ (7 * Suc k) + unat ?r < 2 ^ 32"
      using 1(3) split r by simp
    ultimately obtain b where b: "reads (varint32_loop (of_nat (7 * Suc k)) ?r :: ('r pb_istream_t, _) op) (varint (n div 128))
        (of_nat (unat ?r + n div 128 * 2 ^ (7 * Suc k)), of_nat (7 * (Suc k + length (varint (n div 128)))), b)"
        "Suc k + length (varint (n div 128)) = 5 \<longrightarrow> unat b < 16"
      using 1(1) [OF False, where k = "Suc k" and r = ?r] \<open>k < 4\<close>
      by (auto simp del: of_nat_mult of_nat_add mult_Suc_right)
    have "unat ?r + n div 128 * 2 ^ (7 * Suc k) = unat r + n * 2 ^ (7 * k)"
      using split r by simp
    moreover have "length (varint n) = Suc (length (varint (n div 128)))"
      using False by (subst varint.simps) simp
    moreover have "reads (varint32_loop ?b r :: ('r pb_istream_t, _) op) (varint n)
        (of_nat (unat ?r + n div 128 * 2 ^ (7 * Suc k)), of_nat (7 * (Suc k + length (varint (n div 128)))), b)"
      using False b(1)
      by (subst varint.simps, simp only: if_False, intro reads_byte_then [OF loop])
        (simp add: high_bit cont_byte_low del: of_nat_add of_nat_mult mult_Suc_right add_Suc)
    ultimately show ?thesis using b(2) by auto
  qed
qed

end
