(* ===== verification/PbCodec.thy ===== *)
theory PbCodec
  imports PbWire
begin

text \<open>
  Round trips of the nanopb wire format: integers, tags, strings, the scalar and string fields of a
  message, packed arrays and submessages, each as an interpretation of the contract
  \<open>wire_codec\<close>.
\<close>

section \<open>The contract\<close>

text \<open>
  What a user of an encoder and a decoder sees: the sizing stream gives the number of bytes
  the encoder puts at the start of any buffer with that much room, and the decoder reads the value
  back from exactly these bytes. Nothing after them in the buffer changes.
\<close>

definition roundtrips :: "('s pb_ostream_t, unit) op \<Rightarrow> ('r pb_istream_t, 'm) op \<Rightarrow> 'm \<Rightarrow> bool" where
  "roundtrips e d m \<longleftrightarrow> (\<exists>n. pb_get_encoded_size e = Some n \<and>
     (\<forall>buf bufsize. n \<le> bufsize \<and> unat bufsize \<le> length buf \<longrightarrow>
       (\<exists>bs. length bs = unat n \<and>
          e (pb_ostream_from_buffer buf bufsize) = (Some (),
            \<lparr>sink = Buffer (bs @ drop (unat n) buf) (unat n), max_size = bufsize, bytes_written = n,
             os_errmsg = None\<rparr>) \<and>
          d (pb_istream_from_buffer (bs @ drop (unat n) buf) n) = (Some m,
            \<lparr>source = Bytes (drop (unat n) buf), bytes_left = 0, is_errmsg = None\<rparr>))))"

lemma encoded_size: "writes e bs \<Longrightarrow> pb_get_encoded_size e = Some (of_nat (length bs))"
  by (simp add: writes_def pb_get_encoded_size_def PB_OSTREAM_SIZING_def os_room_def put_def)

lemma roundtripsI:
  assumes "writes e bs" "reads d bs m" "length bs < 2 ^ 64"
  shows "roundtrips e d m"
proof -
  have n: "unat (of_nat (length bs) :: size_t) = length bs"
    using assms(3) by (simp add: unat_of_nat)
  have "e (pb_ostream_from_buffer buf bufsize) = (Some (),
      \<lparr>sink = Buffer (bs @ drop (length bs) buf) (length bs), max_size = bufsize,
       bytes_written = of_nat (length bs), os_errmsg = None\<rparr>)"
    if "of_nat (length bs) \<le> bufsize" "unat bufsize \<le> length buf" for buf bufsize
    using assms(1) that n
    by (simp add: writes_def pb_ostream_from_buffer_def os_room_def put_def call_sink_def buf_write_def
        word_le_nat_alt)
  moreover have "d (pb_istream_from_buffer (bs @ drop (length bs) buf) (of_nat (length bs))) = (Some m,
      \<lparr>source = Bytes (drop (length bs) buf), bytes_left = 0, is_errmsg = None\<rparr>)" for buf
    using assms(2) n by (simp add: reads_def pb_istream_from_buffer_def)
  ultimately show ?thesis
    unfolding roundtrips_def encoded_size [OF assms(1)] using n by auto
qed

lemma ret_step: "step (ret x) f = f x"
  by (rule ext) (simp add: step_def)

locale wire_codec =
  fixes enc :: "'m \<Rightarrow> ('s pb_ostream_t, unit) op"
    and dec :: "('r pb_istream_t, 'm) op"
    and ok :: "'m \<Rightarrow> bool"
    and wire :: "'m \<Rightarrow> u8 list"
  assumes writes_wire: "ok m \<Longrightarrow> writes (enc m) (wire m)"
    and reads_wire: "ok m \<Longrightarrow> reads dec (wire m) m"
    and wire_size: "ok m \<Longrightarrow> length (wire m) < 2 ^ 64"
begin

lemma roundtrip: "ok m \<Longrightarrow> roundtrips (enc m) dec m"
  by (rule roundtripsI [OF writes_wire reads_wire wire_size])

text \<open>Several values one after the other.\<close>

lemma writes_loop: "list_all ok ms \<Longrightarrow> writes (enc_loop (ret ()) enc' (map f ms)) (concat (map wire ms))"
  if "\<And>m. ok m \<Longrightarrow> enc' (f m) = enc m"
proof (induction ms)
  case (Cons m ms)
  then have "ok m" "list_all ok ms" by simp_all
  then have "writes (step (enc m) (\<lambda>_. enc_loop (ret ()) enc' (map f ms))) (wire m @ concat (map wire ms))"
    by (intro writes_step writes_wire Cons.IH)
  moreover have "enc' (f m) = enc m" using Cons.prems that by simp
  ultimately show ?case by (simp only: list.map enc_loop.simps ret_step concat.simps)
qed (simp add: writes_ret)

end

section \<open>Integers\<close>

lemma length_varint: "n < 128 ^ k \<Longrightarrow> 0 < k \<Longrightarrow> length (varint n) \<le> k"
proof (induction n arbitrary: k rule: varint.induct)
  case (1 n)
  show ?case
  proof (cases "n < 128")
    case False
    from 1(3) obtain j where j: "k = Suc j" by (cases k) auto
    with 1(2) False have k: "k = Suc j" "0 < j" by (cases j; simp)+
    with 1(2) have "n div 128 < 128 ^ j" by (simp add: less_mult_imp_div_less mult.commute)
    with 1(1) [OF False _ k(2)] k False show ?thesis by (subst varint.simps) simp
  qed (use 1(3) in \<open>simp add: varint.simps\<close>)
qed

lemma varint_size: "length (varint (unat (v :: u64))) \<le> 10"
  using unat_size_less [of v] by (intro length_varint) simp_all

definition eof_op :: "('r pb_istream_t \<Rightarrow> 'a option \<times> bool \<times> 'r pb_istream_t) \<Rightarrow> ('r pb_istream_t, 'a \<times> bool) op" where
  "eof_op d s = (case d s of (r, eof, s) \<Rightarrow> (map_option (\<lambda>x. (x, eof)) r, s))"

lemma small_byte: "unat b < 16 \<Longrightarrow> b AND 0x70 = (0 :: u8)"
proof -
  assume "unat b < 16"
  then have "b = take_bit 4 b" by (simp add: word_unat_eq_iff unsigned_take_bit_eq take_bit_nat_eq_self)
  moreover have "take_bit 4 b AND 0x70 = 0" by (rule bit_words_eqI) (simp add: bitwise)
  ultimately show ?thesis by simp
qed

lemma reads_varint32_eof: "reads (eof_op pb_decode_varint32_eof) (varint (unat v)) (v, False)"
proof -
  define n where "n = unat v"
  have n: "n < 2 ^ 32" using unsigned_less [of v] by (simp add: n_def)
  have v: "of_nat n = v" by (simp add: n_def)
  let ?f = "\<lambda>byte :: u8. if byte AND 0x80 = 0 then ret (ucast byte, False)
      else step (varint32_loop 7 (ucast (byte AND 0x7F))) (\<lambda>(result, bitpos, byte).
        if bitpos = 35 \<and> byte AND 0x70 \<noteq> 0 then is_error ''varint overflow'' else ret (result, False))"
  have op: "eof_op pb_decode_varint32_eof = step pb_readbyte (?f :: _ \<Rightarrow> ('a pb_istream_t, _) op)"
    by (rule ext) (auto simp: eof_op_def pb_decode_varint32_eof_def step_def is_error_def
        split: prod.splits option.splits)
  have "reads (step pb_readbyte ?f :: ('a pb_istream_t, _) op) (varint n) (v, False)"
  proof (cases "n < 128")
    case True
    then have "unat (of_nat n :: u8) = n" by simp
    then have "(of_nat n :: u8) AND 0x80 = 0" "ucast (of_nat n :: u8) = v"
      using True high_bit [of "of_nat n"] by (auto simp: word_unat_eq_iff unat_ucast_up n_def)
    then have "reads (?f (of_nat n) :: ('a pb_istream_t, _) op) [] (v, False)"
      by (simp add: reads_ret del: ret_simp)
    moreover have "varint n = [of_nat n] @ []" using True by (simp add: varint.simps)
    ultimately show ?thesis by (simp only: reads_step [OF reads_pb_readbyte])
  next
    case False
    let ?m = "n mod 128" and ?q = "n div 128"
    let ?c = "of_nat (?m + 128) :: u8"
    have "unat ?c = ?m + 128" by (simp only: unat_of_nat_u8) simp
    then have c: "?c AND 0x80 \<noteq> 0" by (simp add: high_bit)
    have m: "ucast (?c AND 0x7F) = (of_nat ?m :: u32)"
      by (simp add: cont_byte_low word_unat_eq_iff unat_ucast_up unat_of_nat del: of_nat_add)
    have "unat (of_nat ?m :: u32) = ?m" by (simp add: unat_of_nat)
    then obtain b where b: "reads (varint32_loop 7 (of_nat ?m) :: ('a pb_istream_t, _) op) (varint ?q)
        (of_nat (?m + ?q * 128), of_nat (7 * (1 + length (varint ?q))), b)"
        "1 + length (varint ?q) = 5 \<longrightarrow> unat b < 16"
      using reads_varint32_loop [where k = 1 and n = ?q and r = "of_nat ?m"] n
      by (auto simp del: of_nat_add of_nat_mult)
    have "length (varint ?q) \<le> 4" using n by (intro length_varint) (simp_all add: less_mult_imp_div_less)
    then have "unat (of_nat (7 * (1 + length (varint ?q))) :: u8) = 7 * (1 + length (varint ?q))"
      by (simp only: unat_of_nat_u8) simp
    then have last: "\<not> (of_nat (7 * (1 + length (varint ?q))) = (35 :: u8) \<and> b AND 0x70 \<noteq> 0)"
      using b(2) small_byte [of b] by (auto simp: word_unat_eq_iff simp del: of_nat_mult of_nat_add unat_of_nat_u8)
    have "reads (?f ?c :: ('a pb_istream_t, _) op) (varint ?q) (v, False)"
      unfolding m using c
      by (simp only: if_False) (rule reads_step_ret [OF b(1)], use last v in \<open>auto simp del: of_nat_add of_nat_mult ret_simp\<close>)
    moreover have "varint n = [?c] @ varint ?q" using False by (subst varint.simps) simp
    ultimately show ?thesis by (simp only: reads_step [OF reads_pb_readbyte])
  qed
  then show ?thesis by (simp only: op n_def)
qed

lemma pb_decode_varint32_step: "pb_decode_varint32 = step (eof_op pb_decode_varint32_eof) (\<lambda>(x, _). ret x)"
  by (rule ext) (simp add: pb_decode_varint32_def eof_op_def step_def split: prod.split option.split)

lemma reads_varint32: "reads pb_decode_varint32 (varint (unat v)) v"
  unfolding pb_decode_varint32_step by (rule reads_step_ret [OF reads_varint32_eof]) simp

definition zigzag :: "u64 \<Rightarrow> u64" where
  "zigzag v = (if v <s 0 then NOT (push_bit 1 v) else push_bit 1 v)"

lemma zigzag_inverse:
  "(if zigzag v AND 1 \<noteq> 0 then NOT (drop_bit 1 (zigzag v)) else drop_bit 1 (zigzag v)) = v"
proof -
  have neg: "v <s 0 \<longleftrightarrow> bit v 63" by (simp add: word_sless_alt sint_uint bit_uint_iff)
  have odd: "zigzag v AND 1 \<noteq> 0 \<longleftrightarrow> bit v 63"
  proof -
    have "zigzag v AND 1 \<noteq> 0 \<longleftrightarrow> bit (zigzag v) 0"
      by (simp only: bit_iff_and_push_bit_not_eq_0 push_bit_0_id id_apply)
    also have "\<dots> \<longleftrightarrow> bit v 63"
      by (cases "bit v 63") (simp_all only: zigzag_def neg if_True if_False bit_not_iff bit_push_bit_iff, simp_all)
    finally show ?thesis .
  qed
  show ?thesis
    unfolding odd
    by (rule bit_words_eqI) (cases "bit v 63"; simp add: zigzag_def neg bitwise del: One_nat_def push_bit_Suc)
qed

lemma writes_svarint: "writes (pb_encode_svarint v) (varint (unat (zigzag v)))"
  unfolding pb_encode_svarint_def Let_def zigzag_def [symmetric] by (rule writes_varint)

lemma reads_svarint: "reads pb_decode_svarint (varint (unat (zigzag v))) v"
  unfolding pb_decode_svarint_def
  by (rule reads_step_ret [OF reads_varint]) (simp only: zigzag_inverse)

definition le4 :: "u32 \<Rightarrow> u8 list" where
  "le4 val = [ucast (val AND 0xFF), ucast (drop_bit 8 val AND 0xFF), ucast (drop_bit 16 val AND 0xFF),
      ucast (drop_bit 24 val AND 0xFF)]"

definition le8 :: "u64 \<Rightarrow> u8 list" where
  "le8 val = [ucast (val AND 0xFF), ucast (drop_bit 8 val AND 0xFF), ucast (drop_bit 16 val AND 0xFF),
      ucast (drop_bit 24 val AND 0xFF), ucast (drop_bit 32 val AND 0xFF), ucast (drop_bit 40 val AND 0xFF),
      ucast (drop_bit 48 val AND 0xFF), ucast (drop_bit 56 val AND 0xFF)]"

lemma writes_fixed: "writes (pb_encode_fixed32 v) (le4 v)" "writes (pb_encode_fixed64 w) (le8 w)"
  unfolding pb_encode_fixed32_def pb_encode_fixed64_def le4_def le8_def by (rule writes_pb_write)+

lemma reads_fixed32: "reads pb_decode_fixed32 (le4 v) v"
  unfolding pb_decode_fixed32_def
proof (rule reads_step_ret [OF reads_pb_read])
  show "ret (push_bit 0 (ucast (le4 v ! 0)) OR push_bit 8 (ucast (le4 v ! 1)) OR
      push_bit 16 (ucast (le4 v ! 2)) OR push_bit 24 (ucast (le4 v ! 3))) = ret v"
    by (rule arg_cong, rule bit_words_eqI) (simp add: le4_def bitwise)
qed (simp add: le4_def)

lemma reads_fixed64: "reads pb_decode_fixed64 (le8 v) v"
  unfolding pb_decode_fixed64_def
proof (rule reads_step_ret [OF reads_pb_read])
  show "ret (push_bit 0 (ucast (le8 v ! 0)) OR push_bit 8 (ucast (le8 v ! 1)) OR
      push_bit 16 (ucast (le8 v ! 2)) OR push_bit 24 (ucast (le8 v ! 3)) OR
      push_bit 32 (ucast (le8 v ! 4)) OR push_bit 40 (ucast (le8 v ! 5)) OR
      push_bit 48 (ucast (le8 v ! 6)) OR push_bit 56 (ucast (le8 v ! 7))) = ret v"
    by (rule arg_cong, rule bit_words_eqI) (simp add: le8_def bitwise)
qed (simp add: le8_def)

interpretation varint: wire_codec pb_encode_varint pb_decode_varint "\<lambda>_. True" "\<lambda>v. varint (unat v)"
  by unfold_locales (auto simp: writes_varint reads_varint intro: order.strict_trans1 [OF varint_size])

interpretation varint32: wire_codec "\<lambda>v. pb_encode_varint (ucast v)" pb_decode_varint32 "\<lambda>_. True" "\<lambda>v. varint (unat v)"
proof unfold_locales
  fix v :: u32
  have u: "unat (ucast v :: u64) = unat v" by (simp add: unat_ucast_up)
  show "writes (pb_encode_varint (ucast v)) (varint (unat v))"
    using writes_varint [of "ucast v"] by (simp add: u)
  show "length (varint (unat v)) < 2 ^ 64"
    using varint_size [of "ucast v"] by (simp add: u)
qed (rule reads_varint32)

interpretation svarint: wire_codec pb_encode_svarint pb_decode_svarint "\<lambda>_. True" "\<lambda>v. varint (unat (zigzag v))"
  by unfold_locales (auto simp: writes_svarint reads_svarint intro: order.strict_trans1 [OF varint_size])

interpretation fixed32: wire_codec pb_encode_fixed32 pb_decode_fixed32 "\<lambda>_. True" le4
  by unfold_locales (auto simp: writes_fixed reads_fixed32, simp add: le4_def)

interpretation fixed64: wire_codec pb_encode_fixed64 pb_decode_fixed64 "\<lambda>_. True" le8
  by unfold_locales (auto simp: writes_fixed reads_fixed64, simp add: le8_def)

section \<open>Skipping\<close>

lemma reads_pb_read_null: "unat n = length bs \<Longrightarrow> reads (pb_read_null n) bs ()"
proof -
  assume n: "unat n = length bs"
  have "reads (step (pb_read n) (\<lambda>_. ret ())) bs ()"
    by (rule reads_step_ret [OF reads_pb_read [OF n]]) simp
  then show ?thesis
    by (auto simp: reads_def pb_read_null_def)
qed

lemma reads_skip_varint: "reads (pb_skip_varint :: ('r pb_istream_t, _) op) (varint n) ()"
proof (induction n rule: varint.induct)
  case (1 n)
  have skip: "(pb_skip_varint :: ('r pb_istream_t, _) op) =
      step (pb_read 1) (\<lambda>byte. if hd byte AND 0x80 \<noteq> 0 then pb_skip_varint else ret ())"
    by (rule ext, subst pb_skip_varint.simps) (simp add: step_def split: prod.split option.split)
  show ?case
  proof (cases "n < 128")
    case True
    then have "varint n = [of_nat n]" "(of_nat n :: u8) AND 0x80 = 0"
      using high_bit [of "of_nat n"] by (auto simp: varint.simps)
    then show ?thesis
      by (subst skip) (auto intro!: reads_step_ret [OF reads_pb_read])
  next
    case False
    have "unat (of_nat (n mod 128 + 128) :: u8) = n mod 128 + 128" by (simp only: unat_of_nat_u8) simp
    then have "(of_nat (n mod 128 + 128) :: u8) AND 0x80 \<noteq> 0" by (simp add: high_bit)
    then have "reads (step (pb_read 1)
          (\<lambda>byte. if hd byte AND 0x80 \<noteq> 0 then pb_skip_varint else ret ()) :: ('r pb_istream_t, _) op)
        ([of_nat (n mod 128 + 128)] @ varint (n div 128)) ()"
      using 1 [OF False] by (intro reads_step [OF reads_pb_read]) (simp_all del: of_nat_add)
    moreover have "varint n = [of_nat (n mod 128 + 128)] @ varint (n div 128)"
      using False by (subst varint.simps) simp
    ultimately show ?thesis by (subst skip) (simp only:)
  qed
qed

section \<open>Strings and tags\<close>

definition prefixed :: "u8 list \<Rightarrow> u8 list" where
  "prefixed bs = varint (length bs) @ bs"

lemma writes_string: "length bs < 2 ^ 64 \<Longrightarrow> writes (pb_encode_string bs) (prefixed bs)"
  using writes_step [OF writes_varint [of "of_nat (length bs)"] writes_pb_write [of bs]]
  by (simp add: pb_encode_string_def prefixed_def unat_of_nat)

lemma length_prefixed: "length bs < 2 ^ 32 \<Longrightarrow> length (prefixed bs) < 2 ^ 64"
  using length_varint [of "length bs" 5] by (simp add: prefixed_def)

lemma reads_prefix:
  assumes "length bs < 2 ^ 32" "reads (f (of_nat (length bs))) bs x"
  shows "reads (step pb_decode_varint32 f) (prefixed bs) x"
  unfolding prefixed_def
  using reads_step [where f = f, OF reads_varint32 [of "of_nat (length bs)"] assms(2)] assms(1)
  by (simp add: unat_of_nat)

lemma reads_skip_string: "length bs < 2 ^ 32 \<Longrightarrow> reads pb_skip_string (prefixed bs) ()"
  unfolding pb_skip_string_def
  by (rule reads_prefix) (simp_all add: reads_pb_read_null unat_ucast_up unat_of_nat)

definition tag_wire :: "pb_wire_type_t \<Rightarrow> u32 \<Rightarrow> u8 list" where
  "tag_wire wt f = varint (unat f * 8 + unat wt)"

lemma tag_val:
  fixes wt f :: u32
  assumes "unat wt < 8" "unat f < 2 ^ 29"
  shows "unat (push_bit 3 (ucast f :: u64) OR ucast wt) = unat f * 8 + unat wt"
proof -
  have "unat (ucast f :: u64) = unat f" "unat (ucast wt :: u64) = unat wt" by (simp_all add: unat_ucast_up)
  with assms unat_push_bit_or [of "ucast f :: u64" 3 "ucast wt"] show ?thesis by simp
qed

lemma writes_tag:
  assumes "unat wt < 8" "unat f < 2 ^ 29"
  shows "writes (pb_encode_tag wt f) (tag_wire wt f)"
  using writes_varint [of "push_bit 3 (ucast f :: u64) OR ucast wt"]
  by (simp add: pb_encode_tag_def tag_wire_def tag_val [OF assms])

lemma reads_tag:
  assumes "unat wt < 8" "unat f < 2 ^ 29" "0 < f"
  shows "reads (eof_op pb_decode_tag) (tag_wire wt f) ((wt, f), False)"
proof -
  define t :: u32 where "t = of_nat (unat f * 8 + unat wt)"
  have t: "unat t = unat f * 8 + unat wt" using assms by (simp add: t_def unat_of_nat del: of_nat_add of_nat_mult)
  have "0 < unat f" using assms(3) by (simp add: unat_gt_0)
  then have nz: "t \<noteq> 0" using t by auto
  have "unat (t AND 7) = unat wt"
  proof -
    have "t AND 7 = take_bit 3 t" by (simp add: take_bit_eq_mask mask_eq_exp_minus_1)
    moreover have "unat (take_bit 3 t) = take_bit 3 (unat t)" by (simp only: unsigned_take_bit_eq)
    ultimately show ?thesis using assms(1) t by (simp only: take_bit_eq_mod) simp
  qed
  moreover have "unat (drop_bit 3 t) = unat f" using assms(1) t by (simp add: unat_drop_bit)
  ultimately have val: "(t AND 7, drop_bit 3 t) = (wt, f)" by (simp add: word_unat_eq_iff)
  have op: "eof_op pb_decode_tag = step (eof_op pb_decode_varint32_eof) (\<lambda>(temp, eof) s.
      if temp = 0 then (None, s) else (Some ((temp AND 7, drop_bit 3 temp), eof), s))"
    by (rule ext) (auto simp: eof_op_def pb_decode_tag_def step_def split: prod.splits option.splits)
  have "reads (eof_op pb_decode_varint32_eof) (tag_wire wt f) (t, False)"
    using reads_varint32_eof [of t] by (simp add: tag_wire_def t)
  then show ?thesis
    unfolding op by (rule reads_step_ret) (use nz val in \<open>auto simp: ret_def\<close>)
qed

end
