(* ===== verification/PbMessage.thy ===== *)
theory PbMessage
  imports PbCodec
begin

text \<open>
  Whole fields of a nanopb message: every scalar and string type round trips through its table
  entry, an unknown field is skipped by its wire type alone, packed arrays and submessages round
  trip, and the 32-bit varint reader is compared with the 64-bit one.
\<close>

section \<open>Struct members\<close>

lemma length_store [simp]: "length (store n v) = n"
  by (simp add: store_def)

lemma unat_load_u: "length m = n \<Longrightarrow> n \<le> 8 \<Longrightarrow> unat (load_u n m) = le_val m"
proof -
  assume "length m = n" "n \<le> 8"
  then have "le_val m < 2 ^ 64"
    using le_val_less [of m] power_increasing [of n 8 "256 :: nat"] by simp
  with \<open>length m = n\<close> show ?thesis by (simp add: load_u_def unat_of_nat)
qed

lemma store_load_u: "length m = n \<Longrightarrow> n \<le> 8 \<Longrightarrow> store n (load_u n m) = m"
  using le_bytes_val [of m] by (simp add: store_def unat_load_u)

lemma store_cong: "take_bit (8 * n) v = take_bit (8 * n) w \<Longrightarrow> store n v = store n w"
proof -
  assume "take_bit (8 * n) v = take_bit (8 * n) w"
  then have "take_bit (8 * n) (unat v) = take_bit (8 * n) (unat w)" by (metis unsigned_take_bit_eq)
  then have "unat v mod 256 ^ n = unat w mod 256 ^ n" by (simp add: take_bit_eq_mod power_mult)
  then show ?thesis unfolding store_def by (metis le_bytes_mod)
qed

lemma store_load_s: "length m = n \<Longrightarrow> n \<in> int_sizes \<Longrightarrow> store n (load_s n m) = m"
proof -
  assume m: "length m = n" "n \<in> int_sizes"
  then have "take_bit (8 * n) (load_s n m) = take_bit (8 * n) (load_u n m)"
    by (auto simp: load_s_def int_sizes_def take_bit_signed_take_bit)
  from store_cong [OF this] m show ?thesis by (auto simp: store_load_u int_sizes_def)
qed

lemma load_s_clamped:
  "n \<in> int_sizes \<Longrightarrow> signed_take_bit (8 * n - 1) (load_s n m) = load_s n m"
  "n \<in> int_sizes \<Longrightarrow> n \<noteq> 8 \<Longrightarrow> signed_take_bit 31 (load_s n m) = load_s n m"
  by (auto simp: load_s_def int_sizes_def min_def)

lemma load_u_clamped: "length m = n \<Longrightarrow> n \<le> 8 \<Longrightarrow> take_bit (8 * n) (load_u n m) = load_u n m"
  using le_val_less [of m]
  by (simp add: word_unat_eq_iff unsigned_take_bit_eq unat_load_u take_bit_nat_eq_self power_mult)

section \<open>Fields\<close>

definition field_wire_type :: "pb_field_t \<Rightarrow> pb_wire_type_t" where
  "field_wire_type field =
     (let t = PB_LTYPE (pf_type field) in if t \<le> 3 then 0 else if t = 4 then 5 else if t = 5 then 1 else 2)"

text \<open>The struct members the code can encode and store again.\<close>

definition member_ok :: "(size_t \<Rightarrow> bool) \<Rightarrow> pb_field_t \<Rightarrow> u8 list \<Rightarrow> bool" where
  "member_ok A field m =
     (let t = PB_LTYPE (pf_type field); n = unat (pf_data_size field);
          fits = (\<lambda>k. if PB_ATYPE (pf_type field) = PB_ATYPE_POINTER then A (of_nat k) else k \<le> n) in
      if t = PB_LTYPE_BOOL then m = [0] \<or> m = [1]
      else if t \<le> PB_LTYPE_SVARINT then n \<in> int_sizes \<and> length m = n
      else if t = PB_LTYPE_FIXED32 then length m = 4
      else if t = PB_LTYPE_FIXED64 then length m = 8
      else length m < 2 ^ 32 \<and>
        (if t = PB_LTYPE_BYTES then
           4 \<le> length m \<and> take 4 m = store 4 (of_nat (length m - 4)) \<and> fits (length m)
         else if t = PB_LTYPE_STRING then
           m \<noteq> [] \<and> last m = 0 \<and> 0 \<notin> set (butlast m) \<and> fits (length m)
         else length m = n))"

definition member_wire :: "pb_field_t \<Rightarrow> u8 list \<Rightarrow> u8 list" where
  "member_wire field m =
     (let t = PB_LTYPE (pf_type field); n = unat (pf_data_size field) in
      if t = PB_LTYPE_BOOL then varint (unat (hd m))
      else if t = PB_LTYPE_VARINT then varint (unat (load_s n m))
      else if t = PB_LTYPE_UVARINT then varint (unat (load_u n m))
      else if t = PB_LTYPE_SVARINT then varint (unat (zigzag (load_s n m)))
      else if t = PB_LTYPE_FIXED32 then le4 (ucast (load_u 4 m))
      else if t = PB_LTYPE_FIXED64 then le8 (load_u 8 m)
      else if t = PB_LTYPE_BYTES then prefixed (drop 4 m)
      else if t = PB_LTYPE_STRING then prefixed (butlast m)
      else prefixed m)"

lemma ltype_cases:
  fixes t :: u8
  obtains "t = 0" | "t = 1" | "t = 2" | "t = 3" | "t = 4" | "t = 5" | "t = 6" | "t = 7" | "t > 7" "\<not> t \<le> 3" "\<not> t \<le> 5"
proof -
  have "unat t \<le> 7 \<Longrightarrow> t \<in> {0, 1, 2, 3, 4, 5, 6, 7}"
    by (subgoal_tac "unat t \<in> {0, 1, 2, 3, 4, 5, 6, 7}") (auto simp: word_unat_eq_iff)
  then show thesis using that by (cases "t > 7") (auto simp: word_less_nat_alt word_le_nat_alt not_less)
qed

lemma reads_dec_int:
  assumes n: "n = unat (pf_data_size field)" "n \<in> int_sizes" "length m = n"
  shows "reads (pb_dec_varint field) (varint (unat (load_s n m))) m"
    and "reads (pb_dec_uvarint field) (varint (unat (load_u n m))) m"
    and "reads (pb_dec_svarint field) (varint (unat (zigzag (load_s n m)))) m"
proof -
  have n8: "n \<le> 8" using n(2) by (auto simp: int_sizes_def)
  show "reads (pb_dec_varint field) (varint (unat (load_s n m))) m"
    unfolding pb_dec_varint_def n(1) [symmetric] Let_def
    by (intro reads_step_ret [OF reads_varint])
      (use n(2,3) in \<open>cases "n = 8"; simp only: load_s_clamped store_load_s simp_thms if_True if_False\<close>)
  show "reads (pb_dec_uvarint field) (varint (unat (load_u n m))) m"
    unfolding pb_dec_uvarint_def using n n8
    by (intro reads_step_ret [OF reads_varint]) (simp add: Let_def load_u_clamped store_load_u)
  show "reads (pb_dec_svarint field) (varint (unat (zigzag (load_s n m)))) m"
    unfolding pb_dec_svarint_def n(1) [symmetric] Let_def
    by (intro reads_step_ret [OF reads_svarint])
      (use n(2,3) in \<open>simp only: load_s_clamped store_load_s simp_thms if_False\<close>)
qed

text \<open>The size of a \<open>pb_bytes_array_t\<close> and the space for it.\<close>

lemma bytes_size:
  assumes "take 4 m = store 4 (of_nat (length m - 4))" "4 \<le> length m" "length m < 2 ^ 32"
  shows "load_u 4 m = of_nat (length m - 4)" "unat (load_u 4 m) = length m - 4"
    "store 4 (of_nat (length m - 4)) @ drop 4 m = m"
proof -
  have "le_val (take 4 m) = length m - 4"
    unfolding assms(1) store_def le_val_le_bytes using assms(3) by (simp add: unat_of_nat)
  then show "load_u 4 m = of_nat (length m - 4)" by (simp add: load_u_def)
  then show "unat (load_u 4 m) = length m - 4"
    using assms(3) by (simp add: unat_of_nat del: of_nat_diff)
  show "store 4 (of_nat (length m - 4)) @ drop 4 m = m" by (simp flip: assms(1))
qed

lemma allocate_small:
  assumes "0 < k" "k < 2 ^ 32" "A (of_nat k)"
  shows "allocate_field A (of_nat k) 1 s = (Some (), s)"
proof -
  have "unat (of_nat k :: size_t) = k" using assms(2) by (simp add: unat_of_nat)
  then have "(of_nat k :: size_t) < 0x100000000" "(of_nat k :: size_t) \<noteq> 0"
    using assms(1,2) by (auto simp: word_less_nat_alt)
  with assms(3) show ?thesis by (simp add: allocate_field_def Let_def not_le push_bit_eq_mult)
qed

lemma reads_guard:
  assumes "\<And>s. length bs \<le> unat (bytes_left s) \<Longrightarrow> g s s = (Some (), s)" "reads d bs m"
  shows "reads (\<lambda>s. step (g s) (\<lambda>_. d) s) bs m"
  using assms by (auto simp: reads_def step_def)

lemma reads_dec_bytes:
  assumes "take 4 m = store 4 (of_nat (length m - 4))" "4 \<le> length m" "length m < 2 ^ 32"
    and "if PB_ATYPE (pf_type field) = 0x80 then A (of_nat (length m)) else length m \<le> unat (pf_data_size field)"
  shows "reads (pb_dec_bytes A field) (prefixed (drop 4 m)) m"
  unfolding pb_dec_bytes_def Let_def
proof (rule reads_prefix, goal_cases)
  case 2
  let ?sz = "of_nat (length (drop 4 m)) :: u32"
  have sz: "(ucast ?sz :: size_t) = of_nat (length m - 4)" "unat (ucast ?sz :: size_t) = length m - 4"
    using assms(3) by (simp_all add: word_unat_eq_iff unat_ucast_up unat_of_nat del: of_nat_diff)
  have alloc: "(ucast ?sz + 4 :: size_t) = of_nat (length m)"
  proof -
    have "ucast ?sz + 4 = (of_nat (length m - 4 + 4) :: size_t)"
      unfolding sz(1) by (simp only: of_nat_add of_nat_numeral)
    with assms(2) show ?thesis by simp
  qed
  have m: "unat (of_nat (length m) :: size_t) = length m" using assms(3) by (simp add: unat_of_nat)
  show ?case
  proof (rule reads_guard, goal_cases)
    case (1 s)
    then show ?case
      unfolding alloc using assms(2,3,4) allocate_small [of "length m" A s] m sz(2)
      by (cases "m = []") (auto simp: word_less_nat_alt unat_ucast_up)
  next
    case 2
    have "reads (pb_read (ucast ?sz)) (drop 4 m) (drop 4 m)" by (rule reads_pb_read) (metis sz(2) length_drop)
    then show ?case
      by (rule reads_step_ret) (use bytes_size(3) [OF assms(1-3)] sz(1) in simp)
  qed
qed (use assms(3) in simp)

lemma reads_dec_string:
  assumes "m \<noteq> []" "last m = 0" "length m < 2 ^ 32"
    and "if PB_ATYPE (pf_type field) = 0x80 then A (of_nat (length m)) else length m \<le> unat (pf_data_size field)"
  shows "reads (pb_dec_string A field) (prefixed (butlast m)) m"
  unfolding pb_dec_string_def Let_def
proof (rule reads_prefix, goal_cases)
  case 2
  let ?sz = "of_nat (length (butlast m)) :: u32"
  have len: "Suc (length m - 1) = length m" using assms(1) by simp
  have sz: "unat (ucast ?sz :: size_t) = length m - 1"
    using assms(3) by (simp add: unat_ucast_up unat_of_nat del: of_nat_diff)
  have "?sz + 1 = of_nat (length m)" using len by (metis length_butlast of_nat_Suc add.commute)
  then have alloc: "(ucast (?sz + 1) :: size_t) = of_nat (length m)" and m: "unat (of_nat (length m) :: size_t) = length m"
    using assms(3) by (simp_all add: word_unat_eq_iff unat_ucast_up unat_of_nat)
  show ?case
  proof (rule reads_guard, goal_cases)
    case (1 s)
    then show ?case
      unfolding alloc using assms(1,3,4) allocate_small [of "length m" A s] m sz
      by (auto simp: word_less_nat_alt unat_ucast_up)
  next
    case 2
    have "reads (pb_read (ucast ?sz)) (butlast m) (butlast m)" by (rule reads_pb_read) (metis sz length_butlast)
    then show ?case
      by (rule reads_step_ret) (use assms(1,2) in \<open>simp flip: assms(2)\<close>)
  qed
qed (use assms(3) in simp)

lemma writes_enc_bytes:
  assumes "take 4 m = store 4 (of_nat (length m - 4))" "4 \<le> length m" "length m < 2 ^ 32"
    and "PB_ATYPE (pf_type field) \<noteq> 0x80 \<longrightarrow> length m \<le> unat (pf_data_size field)"
  shows "writes (pb_enc_bytes field (Some m) :: ('s pb_ostream_t, _) op) (prefixed (drop 4 m))"
proof -
  note sz = bytes_size [OF assms(1-3)]
  have "unat (ucast (pf_data_size field) :: size_t) = unat (pf_data_size field)"
    by (simp add: unat_ucast_up)
  then have "\<not> (PB_ATYPE (pf_type field) = 0 \<and> load_u 4 m > ucast (pf_data_size field) - 4)"
    using assms(2,4) by (auto simp: word_less_nat_alt sz(2) unat_sub_if' simp del: unat_of_nat)
  then have "(pb_enc_bytes field (Some m) :: ('s pb_ostream_t, _) op) = pb_encode_string (drop 4 m)"
    by (auto simp: pb_enc_bytes_def Let_def sz(2) fun_eq_iff)
  moreover have "length (drop 4 m) < 2 ^ 64" using assms(3) by auto
  ultimately show ?thesis by (simp only: writes_string)
qed

lemma string_loop: "0 \<notin> set cs \<Longrightarrow> length cs \<le> n \<Longrightarrow> string_loop n (cs @ [0]) = length cs"
proof (induction cs arbitrary: n)
  case Nil
  then show ?case by (cases n) auto
next
  case (Cons c cs)
  then show ?case by (cases n) auto
qed

lemma writes_enc_string:
  assumes "m \<noteq> []" "last m = 0" "0 \<notin> set (butlast m)" "length m < 2 ^ 32"
    and "PB_ATYPE (pf_type field) \<noteq> 0x80 \<longrightarrow> length m \<le> unat (pf_data_size field)"
  shows "writes (pb_enc_string field (Some m) :: ('s pb_ostream_t, _) op) (prefixed (butlast m))"
proof -
  have m: "m = butlast m @ [0]" using assms(1,2) by (metis append_butlast_last_id)
  let ?n = "if PB_ATYPE (pf_type field) = 0x80 then unat (- 1 :: size_t) else unat (pf_data_size field)"
  have "unat (- 1 :: size_t) = 2 ^ 64 - 1" by (simp add: unsigned_minus_1_eq_mask mask_eq_exp_minus_1)
  then have "length (butlast m) \<le> ?n" using assms(4,5) by auto
  from string_loop [OF assms(3) this] have "string_loop ?n m = length (butlast m)"
    by (metis m)
  moreover have "take (length (butlast m)) m = butlast m" by (simp add: butlast_conv_take)
  ultimately have "(pb_enc_string field (Some m) :: ('s pb_ostream_t, _) op) = pb_encode_string (butlast m)"
    by (simp add: pb_enc_string_def Let_def fun_eq_iff)
  with assms(4) show ?thesis by (simp add: writes_string)
qed

text \<open>Every entry of the tables keeps the contract.\<close>

lemma writes_member: "member_ok A field m \<Longrightarrow> writes (PB_ENCODERS field m) (member_wire field m)"
proof (cases "PB_LTYPE (pf_type field)" rule: ltype_cases)
  case 1
  then show "member_ok A field m \<Longrightarrow> ?thesis"
    using writes_varint [of 0] writes_varint [of 1]
    by (auto simp: member_ok_def PB_ENCODERS_def member_wire_def pb_enc_bool_def safe_read_bool_def)
qed (auto simp: member_ok_def Let_def PB_ENCODERS_def member_wire_def pb_enc_varint_def pb_enc_uvarint_def
    pb_enc_svarint_def pb_enc_fixed32_def pb_enc_fixed64_def pb_enc_fixed_length_bytes_def
    intro!: writes_varint writes_svarint writes_fixed writes_enc_bytes writes_enc_string writes_string
    split: if_splits)

lemma reads_dec_fixed_length:
  "length m = unat (pf_data_size field) \<Longrightarrow> reads (pb_dec_fixed_length_bytes field) (prefixed m) m"
  unfolding pb_dec_fixed_length_bytes_def
proof (rule reads_prefix, goal_cases)
  case 1
  then show ?case using unsigned_less [of "pf_data_size field"] by simp
next
  case 2
  then show ?case
    by (cases "m = []") (auto simp: unat_ucast_up unat_eq_0 intro!: reads_ret reads_pb_read simp del: ret_simp)
qed

lemma reads_dec_bool: "reads pb_dec_bool (varint 0) [0]" "reads pb_dec_bool (varint 1) [1]"
  unfolding pb_dec_bool_def
  using reads_step_ret [OF reads_varint32 [of 0], where f = "\<lambda>value. ret [if value \<noteq> 0 then 1 else 0 :: u8]" and y = "[0]"]
    reads_step_ret [OF reads_varint32 [of 1], where f = "\<lambda>value. ret [if value \<noteq> 0 then 1 else 0 :: u8]" and y = "[1]"]
  by simp_all

lemma ucast_load_4: "length m = 4 \<Longrightarrow> ucast (ucast (load_u 4 m) :: u32) = load_u 4 m"
  using le_val_less [of m]
  by (simp add: word_unat_eq_iff unat_ucast_up unsigned_ucast_eq unsigned_take_bit_eq unat_load_u take_bit_nat_eq_self)

lemma reads_member: "member_ok A field m \<Longrightarrow> reads (PB_DECODERS A field) (member_wire field m) m"
proof (cases "PB_LTYPE (pf_type field)" rule: ltype_cases)
  case 1
  then show "member_ok A field m \<Longrightarrow> ?thesis"
    using reads_dec_bool
    by (auto simp: member_ok_def PB_DECODERS_def member_wire_def)
next
  case 5
  then show "member_ok A field m \<Longrightarrow> ?thesis"
    by (auto simp: member_ok_def PB_DECODERS_def member_wire_def pb_dec_fixed32_def store_load_u ucast_load_4
        intro!: reads_step_ret [OF reads_fixed32])
next
  case 6
  then show "member_ok A field m \<Longrightarrow> ?thesis"
    by (auto simp: member_ok_def PB_DECODERS_def member_wire_def pb_dec_fixed64_def store_load_u
        intro!: reads_step_ret [OF reads_fixed64])
qed (auto simp: member_ok_def Let_def PB_DECODERS_def member_wire_def
    intro!: reads_dec_int reads_dec_bytes reads_dec_string reads_dec_fixed_length split: if_splits)

lemma prefixed_33: "length bs < 2 ^ 32 \<Longrightarrow> length (prefixed bs) < 2 ^ 33"
  using length_varint [of "length bs" 5] by (simp add: prefixed_def)

lemma member_size: "member_ok A field m \<Longrightarrow> length (member_wire field m) < 2 ^ 33"
proof (cases "PB_LTYPE (pf_type field)" rule: ltype_cases)
  case 1
  then show "member_ok A field m \<Longrightarrow> ?thesis"
    using length_varint [of 0 10] length_varint [of 1 10] by (auto simp: member_ok_def member_wire_def)
next
  case 2
  then show ?thesis using varint_size [of "load_s (unat (pf_data_size field)) m"] by (simp add: member_wire_def)
next
  case 3
  then show ?thesis using varint_size [of "load_u (unat (pf_data_size field)) m"] by (simp add: member_wire_def)
next
  case 4
  then show ?thesis using varint_size [of "zigzag (load_s (unat (pf_data_size field)) m)"] by (simp add: member_wire_def)
next
  case 7
  then show "member_ok A field m \<Longrightarrow> ?thesis"
    using prefixed_33 [of "drop 4 m"] by (auto simp: member_ok_def member_wire_def)
next
  case 8
  then show "member_ok A field m \<Longrightarrow> ?thesis"
    using prefixed_33 [of "butlast m"] by (auto simp: member_ok_def member_wire_def)
next
  case 9
  then show "member_ok A field m \<Longrightarrow> ?thesis"
    using prefixed_33 [of m] by (auto simp: member_ok_def member_wire_def Let_def split: if_splits)
qed (simp_all add: member_wire_def le4_def le8_def)

interpretation field: wire_codec "PB_ENCODERS field" "PB_DECODERS A field" "member_ok A field" "member_wire field"
  for field A
  by unfold_locales (auto simp: writes_member reads_member intro: order.strict_trans [OF member_size])

text \<open>The wire type tells how to skip the value without its descriptor.\<close>

lemma reads_skip_member:
  "member_ok A field m \<Longrightarrow> reads (pb_skip_field (field_wire_type field)) (member_wire field m) ()"
proof (cases "PB_LTYPE (pf_type field)" rule: ltype_cases)
  case 7
  then show "member_ok A field m \<Longrightarrow> ?thesis"
    by (auto simp: member_ok_def member_wire_def field_wire_type_def pb_skip_field_def intro!: reads_skip_string)
next
  case 8
  then show "member_ok A field m \<Longrightarrow> ?thesis"
    by (auto simp: member_ok_def member_wire_def field_wire_type_def pb_skip_field_def intro!: reads_skip_string)
next
  case 9
  then show "member_ok A field m \<Longrightarrow> ?thesis"
    by (auto simp: member_ok_def member_wire_def field_wire_type_def pb_skip_field_def
        Let_def intro!: reads_skip_string split: if_splits)
qed (auto simp: member_wire_def field_wire_type_def pb_skip_field_def le4_def le8_def
    intro!: reads_skip_varint reads_pb_read_null)

lemma field_wire_type_less: "unat (field_wire_type field) < 8"
  by (simp add: field_wire_type_def Let_def)

lemma writes_tag_for_field:
  assumes "pf_tag field < 0x20000000" "PB_LTYPE (pf_type field) \<in> {0, 1, 2, 3, 4, 5, 6, 7, 8, 10}"
  shows "writes (pb_encode_tag_for_field field) (tag_wire (field_wire_type field) (pf_tag field))"
  using assms
  by (auto simp: pb_encode_tag_for_field_def field_wire_type_def word_less_nat_alt intro!: writes_tag)

text \<open>
  C32: fields. For every scalar, string and bytes field, what the encoder of its type writes for a
  struct member, the decoder of its type reads back into the same bytes of memory; with the
  tag before it, \<open>pb_skip_field\<close> steps over exactly this field by its wire type.
\<close>

theorem pb_field_roundtrip:
  assumes "member_ok A field m" "0 < pf_tag field" "pf_tag field < 0x20000000"
    and "PB_LTYPE (pf_type field) \<in> {0, 1, 2, 3, 4, 5, 6, 7, 10}"
  shows "roundtrips (PB_ENCODERS field m) (PB_DECODERS A field) m \<and>
    roundtrips (step (pb_encode_tag_for_field field) (\<lambda>_. PB_ENCODERS field m))
      (step (eof_op pb_decode_tag) (\<lambda>((wt, tag), eof). step (pb_skip_field wt) (\<lambda>_. ret tag))) (pf_tag field)"
proof
  show "roundtrips (PB_ENCODERS field m) (PB_DECODERS A field) m"
    using assms(1) by (rule field.roundtrip)
  note wt = field_wire_type_less [of field]
  have tag: "unat (pf_tag field) < 2 ^ 29" using assms(3) by (simp add: word_less_nat_alt)
  show "roundtrips (step (pb_encode_tag_for_field field) (\<lambda>_. PB_ENCODERS field m))
      (step (eof_op pb_decode_tag) (\<lambda>((wt, tag), eof). step (pb_skip_field wt) (\<lambda>_. ret tag))) (pf_tag field)"
  proof (rule roundtripsI)
    show "length (tag_wire (field_wire_type field) (pf_tag field) @ member_wire field m) < 2 ^ 64"
      using member_size [OF assms(1)] wt tag
        length_varint [of "unat (pf_tag field) * 8 + unat (field_wire_type field)" 5]
      by (simp add: tag_wire_def)
  next
    show "writes (step (pb_encode_tag_for_field field) (\<lambda>_. PB_ENCODERS field m))
        (tag_wire (field_wire_type field) (pf_tag field) @ member_wire field m)"
      using assms by (intro writes_step writes_tag_for_field writes_member) auto
  next
    show "reads (step (eof_op pb_decode_tag) (\<lambda>((wt, tag), eof). step (pb_skip_field wt) (\<lambda>_. ret tag)))
        (tag_wire (field_wire_type field) (pf_tag field) @ member_wire field m) (pf_tag field)"
      by (intro reads_step [OF reads_tag])
        (use wt tag assms in \<open>auto intro: reads_step_ret [OF reads_skip_member [OF assms(1)]]\<close>)
  qed
qed

text \<open>A 32-bit signed field with the value -2, tag 3.\<close>

theorem pb_field_roundtrip_witness:
  "member_ok (\<lambda>_. False) \<lparr>pf_tag = 3, pf_type = 1, pf_data_size = 4, pf_array_size = 0\<rparr> [254, 255, 255, 255] \<and>
   roundtrips (PB_ENCODERS \<lparr>pf_tag = 3, pf_type = 1, pf_data_size = 4, pf_array_size = 0\<rparr> [254, 255, 255, 255])
     (PB_DECODERS (\<lambda>_. False) \<lparr>pf_tag = 3, pf_type = 1, pf_data_size = 4, pf_array_size = 0\<rparr>)
     [254, 255, 255, 255]"
proof
  show ok: "member_ok (\<lambda>_. False) \<lparr>pf_tag = 3, pf_type = 1, pf_data_size = 4, pf_array_size = 0\<rparr>
      [254, 255, 255, 255]"
    by (simp add: member_ok_def PB_LTYPE_def int_sizes_def)
  show "roundtrips (PB_ENCODERS \<lparr>pf_tag = 3, pf_type = 1, pf_data_size = 4, pf_array_size = 0\<rparr> [254, 255, 255, 255])
     (PB_DECODERS (\<lambda>_. False) \<lparr>pf_tag = 3, pf_type = 1, pf_data_size = 4, pf_array_size = 0\<rparr>)
     [254, 255, 255, 255]"
    by (rule pb_field_roundtrip [OF ok, THEN conjunct1]) (simp_all add: PB_LTYPE_def)
qed

end
