(* ===== verification/PbArray.thy ===== *)
theory PbArray
  imports PbMessage
begin

text \<open>
  Length-prefixed parts of a nanopb message, packed arrays and submessages, and the 32-bit
  varint reader against the 64-bit one.
\<close>

section \<open>Substreams\<close>

lemma readsD:
  "reads d bs x \<Longrightarrow> source s = Bytes (bs @ rest) \<Longrightarrow> length bs \<le> unat (bytes_left s) \<Longrightarrow>
     d s = (Some x, s\<lparr>source := Bytes rest, bytes_left := bytes_left s - of_nat (length bs)\<rparr>)"
  by (simp add: reads_def)

lemma writesD: "writes e bs \<Longrightarrow> os_room (length bs) s \<Longrightarrow> e s = (Some (), put bs s)"
  by (simp add: writes_def)

lemma make_substream:
  assumes "source s = Bytes (prefixed p @ rest)" "length (prefixed p) \<le> unat (bytes_left s)" "length p < 2 ^ 32"
  shows "pb_make_string_substream s =
    (Some (s\<lparr>source := Bytes (p @ rest), bytes_left := of_nat (length p)\<rparr>),
     s\<lparr>source := Bytes (p @ rest), bytes_left := bytes_left s - of_nat (length (prefixed p))\<rparr>)"
proof -
  let ?v = "varint (length p)"
  let ?t = "s\<lparr>source := Bytes (p @ rest), bytes_left := bytes_left s - of_nat (length ?v)\<rparr>"
  have v: "unat (of_nat (length p) :: u32) = length p" using assms(3) by (simp add: unat_of_nat)
  then have u: "(ucast (of_nat (length p) :: u32) :: size_t) = of_nat (length p)"
    using assms(3) by (simp add: word_unat_eq_iff unat_ucast_up unat_of_nat)
  have "pb_decode_varint32 s = (Some (of_nat (length p)), ?t)"
    using readsD [OF reads_varint32 [of "of_nat (length p)"], unfolded v, of s "p @ rest"] assms(1,2)
    by (simp add: prefixed_def)
  moreover have "\<not> bytes_left ?t < of_nat (length p)"
  proof -
    have "length ?v + length p \<le> unat (bytes_left s)" using assms(2) by (simp add: prefixed_def)
    then have "unat (bytes_left ?t) = unat (bytes_left s) - length ?v" "length p \<le> unat (bytes_left s) - length ?v"
      by (simp_all add: unat_sub_fits)
    moreover have "unat (of_nat (length p) :: size_t) = length p" using assms(3) by (simp add: unat_of_nat)
    ultimately show ?thesis by (simp add: word_less_nat_alt)
  qed
  ultimately show ?thesis
    by (simp add: pb_make_string_substream_def step_def u prefixed_def algebra_simps)
qed

lemma close_substream:
  "bytes_left sub = 0 \<Longrightarrow> pb_close_string_substream sub s =
     (Some (), s\<lparr>source := source sub, is_errmsg := is_errmsg sub\<rparr>)"
  by (simp add: pb_close_string_substream_def)

text \<open>A message in a message, for any encoder and decoder of its fields that agree.\<close>

lemma writes_submessage:
  assumes "writes e p" "length p < 2 ^ 32"
  shows "writes (pb_encode_submessage e) (prefixed p)"
  unfolding writes_def
proof (intro allI impI)
  fix s :: "'a pb_ostream_t"
  assume r: "os_room (length (prefixed p)) s"
  let ?n = "of_nat (length p) :: size_t"
  have n: "unat ?n = length p" using assms(2) by (simp add: unat_of_nat)
  have e: "e PB_OSTREAM_SIZING = (Some (), put p PB_OSTREAM_SIZING)"
    using assms(1) by (simp add: writes_def os_room_def PB_OSTREAM_SIZING_def)
  have size: "bytes_written (put p PB_OSTREAM_SIZING) = ?n"
    by (simp add: put_def PB_OSTREAM_SIZING_def)
  let ?t = "put (varint (length p)) s"
  have v: "pb_encode_varint ?n s = (Some (), ?t)"
  proof (rule writesD [OF writes_varint [of ?n, unfolded n]])
    show "os_room (length (varint (length p))) s" using room_mono [OF r] by (simp add: prefixed_def)
  qed
  have rt: "os_room (length p) ?t" using r by (intro room_put) (simp add: prefixed_def)
  have "put p ?t = put (prefixed p) s" using r by (simp add: put_append prefixed_def)
  moreover have "(if sink ?t = Sizing then pb_write_size ?n ?t
      else if bytes_written ?t + ?n > max_size ?t then os_error ''stream full'' ?t
      else case e \<lparr>sink = sink ?t, max_size = ?n, bytes_written = 0, os_errmsg = None\<rparr> of
        (status, sub) \<Rightarrow>
          let stream = ?t\<lparr>bytes_written := bytes_written ?t + bytes_written sub, sink := sink sub, os_errmsg := os_errmsg sub\<rparr>
          in if bytes_written sub \<noteq> ?n then os_error ''submsg size changed'' stream else (status, stream)) =
      (Some (), put p ?t)"
  proof (cases "sink ?t")
    case Sizing
    then show ?thesis by (simp add: pb_write_size_def put_def call_sink_def)
  next
    case (Buffer mem dest)
    let ?sub = "\<lparr>sink = sink ?t, max_size = ?n, bytes_written = 0, os_errmsg = None\<rparr>"
    have "os_room (length p) ?sub" using rt Buffer n by (simp add: os_room_def)
    then have "e ?sub = (Some (), put p ?sub)" using assms(1) by (simp add: writes_def)
    moreover have "\<not> bytes_written ?t + ?n > max_size ?t"
      using rt Buffer unat_add_fits [of "bytes_written ?t" "length p" "max_size ?t"]
      by (simp add: os_room_def word_less_nat_alt)
    moreover have "os_errmsg ?t = None" using rt by (simp add: os_room_def)
    ultimately show ?thesis
      using Buffer by (simp add: put_def [of p] Let_def call_sink_def buf_write_def)
  next
    case (Writer f st)
    with rt show ?thesis by (simp add: os_room_def)
  qed
  ultimately show "pb_encode_submessage e s = (Some (), put (prefixed p) s)"
    by (simp only: pb_encode_submessage_def e prod.case option.case size Let_def step_def v)
qed

lemma reads_delimited:
  assumes "reads d p m" "length p < 2 ^ 32"
  shows "reads (pb_decode_delimited d) (prefixed p) m"
  unfolding reads_def
proof (intro allI impI)
  fix s :: "'a pb_istream_t" and rest
  assume s: "source s = Bytes (prefixed p @ rest) \<and> length (prefixed p) \<le> unat (bytes_left s)"
  let ?sub = "s\<lparr>source := Bytes (p @ rest), bytes_left := of_nat (length p)\<rparr>"
  have "unat (of_nat (length p) :: size_t) = length p" using assms(2) by (simp add: unat_of_nat)
  then have "d ?sub = (Some m, ?sub\<lparr>source := Bytes rest, bytes_left := 0\<rparr>)"
    using assms(1) by (simp add: reads_def)
  with s assms(2) show "pb_decode_delimited d s =
      (Some m, s\<lparr>source := Bytes rest, bytes_left := bytes_left s - of_nat (length (prefixed p))\<rparr>)"
    by (simp add: pb_decode_delimited_def step_def make_substream close_substream)
qed

text \<open>
  C34: submessages. If an encoder writes the bytes from which a decoder reads \<open>m\<close>, then the length-prefixed
  form written by \<open>pb_encode_delimited\<close> (a sizing pass, the length, and a second pass into a
  substream of that length) is read back by \<open>pb_decode_delimited\<close>, and in both nothing
  after it in the buffer is touched or consumed.
\<close>

theorem pb_delimited_roundtrip:
  assumes "writes e p" "reads d p m" "length p < 2 ^ 32"
  shows "roundtrips (pb_encode_delimited e) (pb_decode_delimited d) m"
  unfolding pb_encode_delimited_def
  by (rule roundtripsI [OF writes_submessage reads_delimited length_prefixed]) (rule assms)+

theorem pb_delimited_roundtrip_witness:
  "writes (step (pb_encode_varint 300) (\<lambda>_. pb_encode_varint 5)) (varint 300 @ varint 5) \<and>
   roundtrips (pb_encode_delimited (step (pb_encode_varint 300) (\<lambda>_. pb_encode_varint 5)))
     (pb_decode_delimited (step pb_decode_varint (\<lambda>x. step pb_decode_varint (\<lambda>y. ret (x, y))))) (300, 5)"
proof
  show w: "writes (step (pb_encode_varint 300) (\<lambda>_. pb_encode_varint 5)) (varint 300 @ varint 5)"
    using writes_varint [of 300] writes_varint [of 5] by (intro writes_step) simp_all
  have five: "reads (step pb_decode_varint (\<lambda>y. ret (300, y))) (varint 5) (300, 5 :: u64)"
    using reads_varint [of 5] by (intro reads_step_ret) simp_all
  have "reads (step pb_decode_varint (\<lambda>x. step pb_decode_varint (\<lambda>y. ret (x, y)))) (varint 300 @ varint 5) (300 :: u64, 5 :: u64)"
    using reads_varint [of 300] five by (intro reads_step) simp_all
  with w show "roundtrips (pb_encode_delimited (step (pb_encode_varint 300) (\<lambda>_. pb_encode_varint 5)))
     (pb_decode_delimited (step pb_decode_varint (\<lambda>x. step pb_decode_varint (\<lambda>y. ret (x, y))))) (300, 5)"
    using length_varint [of 300 2] length_varint [of 5 2] by (intro pb_delimited_roundtrip [where p = "varint 300 @ varint 5"]) simp_all
qed

section \<open>Packed arrays\<close>

context wire_codec
begin

text \<open>Elements read one after the other until the substream is empty.\<close>

lemma packed_loop_reads:
  assumes "\<And>m. ok m \<Longrightarrow> wire m \<noteq> []"
  shows "list_all ok ms \<Longrightarrow> length ms \<le> n \<Longrightarrow> source s = Bytes (concat (map wire ms) @ rest) \<Longrightarrow>
    unat (bytes_left s) = length (concat (map wire ms)) \<Longrightarrow>
    dec' = step dec (\<lambda>m. ret (g m)) \<Longrightarrow>
    packed_loop n dec' acc s = (True, acc @ map g ms, s\<lparr>source := Bytes rest, bytes_left := 0\<rparr>)"
proof (induction ms arbitrary: n s acc)
  case Nil
  then have "bytes_left s = 0" by (simp add: unat_eq_0)
  with Nil show ?case by (cases n) (auto intro!: pb_istream_t.equality)
next
  case (Cons m ms)
  then obtain k where n: "n = Suc k" by (cases n) auto
  have "wire m \<noteq> []" using Cons.prems(1) assms by simp
  then have "0 < unat (bytes_left s)" using Cons.prems(4) by simp
  then have left: "bytes_left s > 0" by (simp only: word_less_nat_alt unat_0)
  let ?t = "s\<lparr>source := Bytes (concat (map wire ms) @ rest), bytes_left := bytes_left s - of_nat (length (wire m))\<rparr>"
  have "reads dec (wire m) m" using Cons.prems(1) reads_wire by simp
  then have d: "dec s = (Some m, ?t)"
    using Cons.prems(3,4) by (simp add: reads_def)
  have "unat (bytes_left ?t) = length (concat (map wire ms))"
    using Cons.prems(4) by (simp add: unat_sub_fits)
  then have "packed_loop k dec' (acc @ [g m]) ?t = (True, (acc @ [g m]) @ map g ms, ?t\<lparr>source := Bytes rest, bytes_left := 0\<rparr>)"
    using Cons.prems(1,2,5) n by (intro Cons.IH) simp_all
  with n left d Cons.prems(5) show ?case by (simp add: step_def)
qed

end

lemma step_right_ret: "step d (\<lambda>m. ret m) = d"
  by (rule ext) (simp add: step_def split: prod.split option.split)

lemma member_wire_nonempty:
  assumes "PB_LTYPE (pf_type field) \<le> 5"
  shows "member_wire field m \<noteq> []"
proof -
  have "varint n \<noteq> []" for n by (subst varint.simps) simp
  then show ?thesis
    using assms by (cases "PB_LTYPE (pf_type field)" rule: ltype_cases)
      (simp_all add: member_wire_def le4_def le8_def)
qed

definition payload :: "pb_field_t \<Rightarrow> u8 list list \<Rightarrow> u8 list" where
  "payload field items = concat (map (member_wire field) items)"

lemma payload_size:
  "PB_LTYPE (pf_type field) = 4 \<Longrightarrow> length (payload field items) = 4 * length items"
  "PB_LTYPE (pf_type field) = 5 \<Longrightarrow> length (payload field items) = 8 * length items"
  by (simp_all add: payload_def length_concat comp_def member_wire_def le4_def le8_def sum_list_triv)

lemma writes_items:
  "list_all (member_ok A field) items \<Longrightarrow>
     writes (enc_loop (ret ()) (PB_ENCODERS field) items) (payload field items)"
  using field.writes_loop [where field = field and A = A and f = "\<lambda>m. m" and enc' = "PB_ENCODERS field" and ms = items, OF refl]
  by (simp add: payload_def)

lemma writes_packed:
  assumes "PB_LTYPE (pf_type field) \<le> 5" "pf_tag field < 0x20000000" "items \<noteq> []"
    "length items \<le> unat (pf_array_size field)" "list_all (member_ok A field) items"
    "length (payload field items) < 2 ^ 32"
  shows "writes (encode_array field items (PB_ENCODERS field)) (tag_wire 2 (pf_tag field) @ prefixed (payload field items))"
proof -
  let ?t = "PB_LTYPE (pf_type field)" and ?p = "payload field items"
  let ?enc = "enc_loop (ret ()) (PB_ENCODERS field) items :: ('a pb_ostream_t, unit) op"
  let ?rest = "\<lambda>stream :: 'a pb_ostream_t. if sink stream = Sizing then pb_write_size (of_nat (length ?p)) stream
      else ?enc stream"
  have sz: "(if ?t = 4 then Some (4 * of_nat (length items)) else if ?t = 5 then Some (8 * of_nat (length items))
      else pb_get_encoded_size ?enc) = Some (of_nat (length ?p))"
  proof -
    have "pb_get_encoded_size ?enc = Some (of_nat (length ?p))"
      by (rule encoded_size [OF writes_items [OF assms(5)]])
    then show ?thesis using payload_size [of field items] by simp
  qed
  have "writes ?rest ?p"
    unfolding writes_def
  proof (intro allI impI)
    fix s :: "'a pb_ostream_t"
    assume "os_room (length ?p) s"
    then have "?enc s = (Some (), put ?p s)" by (rule writesD [OF writes_items [OF assms(5)]])
    then show "?rest s = (Some (), put ?p s)"
      by (simp add: pb_write_size_def put_def call_sink_def)
  qed
  moreover have "writes (pb_encode_varint (of_nat (length ?p))) (varint (length ?p))"
    using writes_varint [of "of_nat (length ?p)"] assms(6) by (simp add: unat_of_nat)
  moreover have "writes (pb_encode_tag 2 (pf_tag field)) (tag_wire 2 (pf_tag field))"
    using assms(2) by (intro writes_tag) (simp_all add: word_less_nat_alt)
  ultimately have "writes (step (pb_encode_tag 2 (pf_tag field)) (\<lambda>_. step (pb_encode_varint (of_nat (length ?p))) (\<lambda>_. ?rest)))
      (tag_wire 2 (pf_tag field) @ varint (length ?p) @ ?p)"
    by (intro writes_step)
  moreover have "encode_array field items (PB_ENCODERS field) =
      step (pb_encode_tag 2 (pf_tag field)) (\<lambda>_. step (pb_encode_varint (of_nat (length ?p))) (\<lambda>_. ?rest))"
    using assms(1,3,4) by (intro ext) (simp add: encode_array_def Let_def sz)
  ultimately show ?thesis by (simp add: prefixed_def)
qed

text \<open>The decoder of a message that expects the tag of the array and then its elements.\<close>

definition decode_array :: "(size_t \<Rightarrow> bool) \<Rightarrow> pb_field_t \<Rightarrow> ('r pb_istream_t, u8 list list) op" where
  "decode_array A field = step (eof_op pb_decode_tag) (\<lambda>((wt, tag), eof) s.
     case decode_repeated_field field (PB_DECODERS A field) wt [] s of
       (status, num, items, s) \<Rightarrow>
         (if tag = pf_tag field \<and> status \<and> unat num = length items then Some items else None, s))"

lemma reads_repeated:
  assumes "PB_LTYPE (pf_type field) \<le> 5" "length items \<le> unat (pf_array_size field)"
    "list_all (member_ok A field) items" "length (payload field items) < 2 ^ 32"
  shows "reads (\<lambda>s. case decode_repeated_field field (PB_DECODERS A field) 2 [] s of
       (status, num, items, s) \<Rightarrow> (if status \<and> unat num = length items then Some items else None, s)) (prefixed (payload field items)) items"
  unfolding reads_def
proof (intro allI impI)
  let ?p = "payload field items"
  fix s :: "'a pb_istream_t" and rest
  assume s: "source s = Bytes (prefixed ?p @ rest) \<and> length (prefixed ?p) \<le> unat (bytes_left s)"
  let ?sub = "s\<lparr>source := Bytes (?p @ rest), bytes_left := of_nat (length ?p)\<rparr>"
  have "packed_loop (unat (pf_array_size field)) (PB_DECODERS A field) [] ?sub =
      (True, [] @ map (\<lambda>m. m) items, ?sub\<lparr>source := Bytes rest, bytes_left := 0\<rparr>)"
    using assms by (intro field.packed_loop_reads [where field = field and A = A])
      (simp_all only: step_right_ret, simp_all add: member_wire_nonempty payload_def unat_of_nat)
  moreover have "unat (pf_array_size field) < 2 ^ 32" using unsigned_less [of "pf_array_size field"] by simp
  then have "length items < 2 ^ 32" using assms(2) by simp
  then have "unat (of_nat (length items) :: u32) = length items" by (simp add: unat_of_nat)
  ultimately show "(case decode_repeated_field field (PB_DECODERS A field) 2 [] s of
     (status, num, items, s) \<Rightarrow> (if status \<and> unat num = length items then Some items else None, s)) =
     (Some items, s\<lparr>source := Bytes rest, bytes_left := bytes_left s - of_nat (length (prefixed ?p))\<rparr>)"
    using s assms(1,4) by (simp add: decode_repeated_field_def make_substream close_substream Let_def)
qed

lemma reads_packed:
  assumes "PB_LTYPE (pf_type field) \<le> 5" "0 < pf_tag field" "pf_tag field < 0x20000000"
    "length items \<le> unat (pf_array_size field)" "list_all (member_ok A field) items"
    "length (payload field items) < 2 ^ 32"
  shows "reads (decode_array A field) (tag_wire 2 (pf_tag field) @ prefixed (payload field items)) items"
  unfolding decode_array_def
proof (rule reads_step [OF reads_tag], goal_cases)
  case 4
  then show ?case using reads_repeated [OF assms(1,4-6)] by simp
qed (use assms in \<open>simp_all add: word_less_nat_alt\<close>)

text \<open>
  C33: packed arrays. A repeated field of a packable type is written as its tag, the total length and the
  elements; reading the tag and then the field restores the elements, provided the array fits
  the field and its elements the 32-bit length.
\<close>

theorem pb_packed_roundtrip:
  assumes "PB_LTYPE (pf_type field) \<le> 5" "0 < pf_tag field" "pf_tag field < 0x20000000"
    and "items \<noteq> []" "length items \<le> unat (pf_array_size field)" "list_all (member_ok A field) items"
    and "length (payload field items) < 2 ^ 32"
  shows "roundtrips (encode_array field items (PB_ENCODERS field)) (decode_array A field) items"
proof (rule roundtripsI [OF writes_packed reads_packed])
  have "unat (pf_tag field) < 2 ^ 29" using assms(3) by (simp add: word_less_nat_alt)
  then have "length (tag_wire 2 (pf_tag field)) \<le> 5"
    unfolding tag_wire_def by (intro length_varint) simp_all
  with prefixed_33 [OF assms(7)]
  show "length (tag_wire 2 (pf_tag field) @ prefixed (payload field items)) < 2 ^ 64" by simp
qed (rule assms)+

text \<open>The unsigned 32-bit elements 1 and 300, tag 4.\<close>

theorem pb_packed_roundtrip_witness:
  "list_all (member_ok (\<lambda>_. False) \<lparr>pf_tag = 4, pf_type = 0x22, pf_data_size = 4, pf_array_size = 2\<rparr>)
     [[1, 0, 0, 0], [44, 1, 0, 0]] \<and>
   roundtrips (encode_array \<lparr>pf_tag = 4, pf_type = 0x22, pf_data_size = 4, pf_array_size = 2\<rparr>
      [[1, 0, 0, 0], [44, 1, 0, 0]]
      (PB_ENCODERS \<lparr>pf_tag = 4, pf_type = 0x22, pf_data_size = 4, pf_array_size = 2\<rparr>))
     (decode_array (\<lambda>_. False) \<lparr>pf_tag = 4, pf_type = 0x22, pf_data_size = 4, pf_array_size = 2\<rparr>)
     [[1, 0, 0, 0], [44, 1, 0, 0]]"
proof
  let ?field = "\<lparr>pf_tag = 4, pf_type = 0x22, pf_data_size = 4, pf_array_size = 2\<rparr>"
  show ok: "list_all (member_ok (\<lambda>_. False) ?field) [[1, 0, 0, 0], [44, 1, 0, 0]]"
    by (simp add: member_ok_def PB_LTYPE_def int_sizes_def)
  have "length (payload ?field [[1, 0, 0, 0], [44, 1, 0, 0]]) < 2 ^ 32"
    using varint_size [of "load_u 4 [1, 0, 0, 0]"] varint_size [of "load_u 4 [44, 1, 0, 0]"]
    by (simp add: payload_def member_wire_def PB_LTYPE_def)
  with ok show "roundtrips (encode_array ?field [[1, 0, 0, 0], [44, 1, 0, 0]] (PB_ENCODERS ?field))
     (decode_array (\<lambda>_. False) ?field) [[1, 0, 0, 0], [44, 1, 0, 0]]"
    by (intro pb_packed_roundtrip) (simp_all add: PB_LTYPE_def)
qed

section \<open>The 32-bit reader\<close>

lemma varint32_loop_sound:
  "varint32_loop bitpos r32 s = (Some (x, bp, b), s') \<Longrightarrow> varint_loop bitpos r s = (Some y, t) \<Longrightarrow>
     r32 = ucast r \<Longrightarrow> x = ucast y \<and> s' = t"
proof (induction bitpos r s arbitrary: r32 rule: varint_loop.induct)
  case (1 bitpos r s)
  from 1(3) have "\<not> bitpos \<ge> 64" by (subst (asm) varint_loop.simps) (auto simp: is_error_def split: if_splits)
  from 1(3) this obtain byte u where rd: "pb_readbyte s = (Some byte, u)"
    by (subst (asm) varint_loop.simps) (auto split: prod.splits option.splits)
  let ?r = "r OR push_bit (unat bitpos) (ucast (byte AND 0x7F))"
  let ?r32 = "if bitpos \<ge> 32 then r32 else r32 OR push_bit (unat bitpos) (ucast (byte AND 0x7F))"
  have acc: "?r32 = ucast ?r"
    using 1(4) by (auto simp: word_le_nat_alt bit_simps intro!: bit_word_eqI)
  have y: "(if byte AND 0x80 \<noteq> 0 then varint_loop (bitpos + 7) ?r u else (Some ?r, u)) = (Some y, t)"
    using 1(3) rd \<open>\<not> bitpos \<ge> 64\<close> by (subst (asm) varint_loop.simps) (simp add: Let_def)
  have x: "(if byte AND 0x80 \<noteq> 0 then varint32_loop (bitpos + 7) ?r32 u else (Some (?r32, bitpos + 7, byte), u)) =
      (Some (x, bp, b), s')"
    using 1(2) rd by (subst (asm) varint32_loop.simps) (auto simp: Let_def is_error_def split: if_split_asm)
  show ?case
  proof (cases "byte AND 0x80 = 0")
    case True
    with x y acc show ?thesis by auto
  next
    case False
    with x y have "varint32_loop (bitpos + 7) ?r32 u = (Some (x, bp, b), s')" "varint_loop (bitpos + 7) ?r u = (Some y, t)"
      by simp_all
    from 1(1) [OF \<open>\<not> bitpos \<ge> 64\<close> rd [symmetric] refl refl refl False this acc] show ?thesis .
  qed
qed

lemma ucast_byte: "ucast (ucast (b :: u8) :: u64) = (ucast b :: u32)"
  by (rule bit_word_eqI) (auto simp: bit_simps dest: bit_imp_le_length)

lemma eof_op_sound:
  assumes "pb_decode_varint32_eof s = (Some x, eof, s')" "pb_decode_varint s = (Some y, t)"
  shows "x = ucast y \<and> s' = t"
proof -
  from assms(1) obtain byte u where rd: "pb_readbyte s = (Some byte, u)"
    by (auto simp: pb_decode_varint32_eof_def split: prod.splits option.splits)
  have b: "(0 :: u64) OR push_bit (unat (0 :: u8)) (ucast (byte AND 0x7F)) = ucast (byte AND 0x7F)" by simp
  have y: "(if byte AND 0x80 \<noteq> 0 then varint_loop 7 (ucast (byte AND 0x7F)) u else (Some (ucast (byte AND 0x7F)), u)) =
      (Some y, t)"
    using assms(2) rd unfolding pb_decode_varint_def varint_loop.simps [of 0] by (simp add: Let_def b)
  show ?thesis
  proof (cases "byte AND 0x80 = 0")
    case True
    have "byte AND 0x7F = byte"
      using True low_byte [of "unat byte"] high_bit [of byte] by simp
    with True assms(1) rd y show ?thesis
      by (auto simp: pb_decode_varint32_eof_def ucast_byte)
  next
    case False
    with assms(1) rd obtain r32 bp b where l: "varint32_loop 7 (ucast (byte AND 0x7F)) u = (Some (r32, bp, b), s')"
        and x: "x = r32"
      by (auto simp: pb_decode_varint32_eof_def is_error_def split: prod.splits option.splits if_splits)
    from varint32_loop_sound [OF l _ ucast_byte [symmetric]] y False x show ?thesis by simp
  qed
qed

text \<open>
  C35: the 32-bit reader. Where \<open>pb_decode_varint32\<close> and \<open>pb_decode_varint\<close> both accept the input, they
  consume the same bytes, and the 32-bit value is the 64-bit value modulo 2 to the 32. So a value of
  32 bits is never misread; one that is too large is not always refused, as the encoding of 2 to the 32 with
  a zero byte at its end shows.
\<close>

theorem pb_varint32_agrees:
  assumes "pb_decode_varint32 s = (Some x, s')" "pb_decode_varint s = (Some y, t)"
  shows "unat x = unat y mod 2 ^ 32 \<and> s' = t"
proof -
  obtain eof where "pb_decode_varint32_eof s = (Some x, eof, s')"
    using assms(1) by (auto simp: pb_decode_varint32_def split: prod.splits)
  from eof_op_sound [OF this assms(2)] show ?thesis
    by (simp add: unsigned_ucast_eq take_bit_eq_mod)
qed

theorem pb_varint32_agrees_witness:
  "pb_decode_varint32 (pb_istream_from_buffer [0x80, 0x80, 0x80, 0x80, 0x90, 0] 6) =
     (Some 0, \<lparr>source = Bytes [], bytes_left = 0, is_errmsg = None\<rparr>) \<and>
   pb_decode_varint (pb_istream_from_buffer [0x80, 0x80, 0x80, 0x80, 0x90, 0] 6) =
     (Some 0x100000000, \<lparr>source = Bytes [], bytes_left = 0, is_errmsg = None\<rparr>) \<and>
   unat (0 :: u32) = unat (0x100000000 :: u64) mod 2 ^ 32"
proof -
  have x: "pb_decode_varint32 (pb_istream_from_buffer [0x80, 0x80, 0x80, 0x80, 0x90, 0] 6) =
     (Some 0, \<lparr>source = Bytes [], bytes_left = 0, is_errmsg = None\<rparr>)"
    by (simp add: pb_decode_varint32_def pb_decode_varint32_eof_def pb_istream_from_buffer_def pb_readbyte_def
        call_source_def buf_read_def varint32_loop.simps Let_def)
  have y: "pb_decode_varint (pb_istream_from_buffer [0x80, 0x80, 0x80, 0x80, 0x90, 0] 6) =
     (Some 0x100000000, \<lparr>source = Bytes [], bytes_left = 0, is_errmsg = None\<rparr>)"
    by (simp add: pb_decode_varint_def pb_istream_from_buffer_def pb_readbyte_def
        call_source_def buf_read_def varint_loop.simps Let_def)
  from pb_varint32_agrees [OF x y] x y show ?thesis by simp
qed

end
