(* ===== verification/Poly1305.thy ===== *)
theory Poly1305
  imports LittleEndian
begin

text \<open>
  The one-time authenticator of crypto/poly1305/poly1305.c, the portable version that all targets
  without 128-bit integers or outside x86-64 use. The accumulator and the key are held in five
  limbs of 26 bits, with room above them that the carries have to fit in. The state pointer is
  the aligned struct; counters of the 16 byte buffer are naturals, and a length is the length
  of the input list.
\<close>

section \<open>The code\<close>

definition mul32x32_64 :: "u32 \<Rightarrow> u32 \<Rightarrow> u64" where
  "mul32x32_64 a b = ucast a * ucast b"

record poly1305_state_st =
  st_r0 :: u32
  st_r1 :: u32
  st_r2 :: u32
  st_r3 :: u32
  st_r4 :: u32
  st_s1 :: u32
  st_s2 :: u32
  st_s3 :: u32
  st_s4 :: u32
  st_h0 :: u32
  st_h1 :: u32
  st_h2 :: u32
  st_h3 :: u32
  st_h4 :: u32
  st_buf :: "u8 list"
  st_buf_used :: nat
  st_key :: "u8 list"

text \<open>Adding a block: \<open>hibit\<close> is the bit above the 16 bytes, absent for a padded last block.\<close>

definition donna_add :: "u32 \<Rightarrow> u8 list \<Rightarrow> poly1305_state_st \<Rightarrow> poly1305_state_st" where
  "donna_add hibit inp st =
    (let t0 = CRYPTO_load_u32_le inp; t1 = CRYPTO_load_u32_le (drop 4 inp);
         t2 = CRYPTO_load_u32_le (drop 8 inp); t3 = CRYPTO_load_u32_le (drop 12 inp)
     in st\<lparr>st_h0 := st_h0 st + (t0 AND 0x3ffffff),
           st_h1 := st_h1 st + ucast (drop_bit 26 (push_bit 32 (ucast t1 :: u64) OR ucast t0) AND 0x3ffffff),
           st_h2 := st_h2 st + ucast (drop_bit 20 (push_bit 32 (ucast t2 :: u64) OR ucast t1) AND 0x3ffffff),
           st_h3 := st_h3 st + ucast (drop_bit 14 (push_bit 32 (ucast t3 :: u64) OR ucast t2) AND 0x3ffffff),
           st_h4 := st_h4 st + (drop_bit 8 t3 OR hibit)\<rparr>)"

definition donna_products :: "poly1305_state_st \<Rightarrow> u64 \<times> u64 \<times> u64 \<times> u64 \<times> u64" where
  "donna_products st =
    (mul32x32_64 (st_h0 st) (st_r0 st) + mul32x32_64 (st_h1 st) (st_s4 st) +
       mul32x32_64 (st_h2 st) (st_s3 st) + mul32x32_64 (st_h3 st) (st_s2 st) +
       mul32x32_64 (st_h4 st) (st_s1 st),
     mul32x32_64 (st_h0 st) (st_r1 st) + mul32x32_64 (st_h1 st) (st_r0 st) +
       mul32x32_64 (st_h2 st) (st_s4 st) + mul32x32_64 (st_h3 st) (st_s3 st) +
       mul32x32_64 (st_h4 st) (st_s2 st),
     mul32x32_64 (st_h0 st) (st_r2 st) + mul32x32_64 (st_h1 st) (st_r1 st) +
       mul32x32_64 (st_h2 st) (st_r0 st) + mul32x32_64 (st_h3 st) (st_s4 st) +
       mul32x32_64 (st_h4 st) (st_s3 st),
     mul32x32_64 (st_h0 st) (st_r3 st) + mul32x32_64 (st_h1 st) (st_r2 st) +
       mul32x32_64 (st_h2 st) (st_r1 st) + mul32x32_64 (st_h3 st) (st_r0 st) +
       mul32x32_64 (st_h4 st) (st_s4 st),
     mul32x32_64 (st_h0 st) (st_r4 st) + mul32x32_64 (st_h1 st) (st_r3 st) +
       mul32x32_64 (st_h2 st) (st_r2 st) + mul32x32_64 (st_h3 st) (st_r1 st) +
       mul32x32_64 (st_h4 st) (st_r0 st))"

definition poly1305_donna_mul :: "poly1305_state_st \<Rightarrow> poly1305_state_st" where
  "poly1305_donna_mul st =
    (let (t0, t1, t2, t3, t4) = donna_products st;
         h0 = ucast t0 AND 0x3ffffff; c = drop_bit 26 t0;
         t1 = t1 + c; h1 = ucast t1 AND 0x3ffffff; b = (ucast (drop_bit 26 t1) :: u32);
         t2 = t2 + ucast b; h2 = ucast t2 AND 0x3ffffff; b = (ucast (drop_bit 26 t2) :: u32);
         t3 = t3 + ucast b; h3 = ucast t3 AND 0x3ffffff; b = (ucast (drop_bit 26 t3) :: u32);
         t4 = t4 + ucast b; h4 = ucast t4 AND 0x3ffffff; b = (ucast (drop_bit 26 t4) :: u32)
     in st\<lparr>st_h0 := h0 + b * 5, st_h1 := h1, st_h2 := h2, st_h3 := h3, st_h4 := h4\<rparr>)"

definition poly1305_donna_16bytes :: "u8 list \<Rightarrow> poly1305_state_st \<Rightarrow> poly1305_state_st" where
  "poly1305_donna_16bytes inp st = poly1305_donna_mul (donna_add (push_bit 24 1) inp st)"

definition poly1305_donna_atmost15bytes :: "u8 list \<Rightarrow> poly1305_state_st \<Rightarrow> poly1305_state_st" where
  "poly1305_donna_atmost15bytes inp st =
    (if inp = [] then st
     else let mp = inp @ [1] @ replicate (15 - length inp) 0 in poly1305_donna_mul (donna_add 0 mp st))"

function poly1305_update :: "poly1305_state_st \<Rightarrow> u8 list \<Rightarrow> poly1305_state_st" where
  "poly1305_update st inp =
    (if length inp < 16 then poly1305_donna_atmost15bytes inp st
     else poly1305_update (poly1305_donna_16bytes inp st) (drop 16 inp))"
  by pat_completeness auto
termination by (relation "measure (\<lambda>(st, inp). length inp)") auto

declare poly1305_update.simps [simp del]

definition CRYPTO_poly1305_init :: "poly1305_state_st \<Rightarrow> u8 list \<Rightarrow> poly1305_state_st" where
  "CRYPTO_poly1305_init st key =
    (let t0 = CRYPTO_load_u32_le key; t1 = CRYPTO_load_u32_le (drop 4 key);
         t2 = CRYPTO_load_u32_le (drop 8 key); t3 = CRYPTO_load_u32_le (drop 12 key);
         r0 = t0 AND 0x3ffffff;
         t0 = drop_bit 26 t0 OR push_bit 6 t1; r1 = t0 AND 0x3ffff03;
         t1 = drop_bit 20 t1 OR push_bit 12 t2; r2 = t1 AND 0x3ffc0ff;
         t2 = drop_bit 14 t2 OR push_bit 18 t3; r3 = t2 AND 0x3f03fff;
         t3 = drop_bit 8 t3; r4 = t3 AND 0x00fffff
     in st\<lparr>st_r0 := r0, st_r1 := r1, st_r2 := r2, st_r3 := r3, st_r4 := r4,
           st_s1 := r1 * 5, st_s2 := r2 * 5, st_s3 := r3 * 5, st_s4 := r4 * 5,
           st_h0 := 0, st_h1 := 0, st_h2 := 0, st_h3 := 0, st_h4 := 0,
           st_buf_used := 0, st_key := take 16 (drop 16 key)\<rparr>)"

text \<open>The loop that copies \<open>inp\<close> into the buffer from the index \<open>i\<close> on.\<close>

definition fill_buf :: "nat \<Rightarrow> u8 list \<Rightarrow> poly1305_state_st \<Rightarrow> poly1305_state_st" where
  "fill_buf i inp st =
    st\<lparr>st_buf := take i (st_buf st) @ inp @ drop (i + length inp) (st_buf st), st_buf_used := i + length inp\<rparr>"

definition CRYPTO_poly1305_update :: "poly1305_state_st \<Rightarrow> u8 list \<Rightarrow> poly1305_state_st" where
  "CRYPTO_poly1305_update st inp =
    (if length inp = 0 then st
     else let
       (st, inp) =
         (if st_buf_used st \<noteq> 0 then
            let todo = min (16 - st_buf_used st) (length inp);
                st = fill_buf (st_buf_used st) (take todo inp) st;
                st = (if st_buf_used st = 16
                      then (poly1305_update st (st_buf st))\<lparr>st_buf_used := 0\<rparr> else st)
            in (st, drop todo inp)
          else (st, inp));
       (st, inp) =
         (if 16 \<le> length inp then
            let todo = length inp div 16 * 16 in (poly1305_update st (take todo inp), drop todo inp)
          else (st, inp))
     in if inp \<noteq> [] then fill_buf 0 inp st else st)"

text \<open>The three parts of the final computation: carries, selection, output.\<close>

definition donna_carry :: "poly1305_state_st \<Rightarrow> poly1305_state_st" where
  "donna_carry st =
    (let h0 = st_h0 st; h1 = st_h1 st; h2 = st_h2 st; h3 = st_h3 st; h4 = st_h4 st;
         b = drop_bit 26 h0; h0 = h0 AND 0x3ffffff;
         h1 = h1 + b; b = drop_bit 26 h1; h1 = h1 AND 0x3ffffff;
         h2 = h2 + b; b = drop_bit 26 h2; h2 = h2 AND 0x3ffffff;
         h3 = h3 + b; b = drop_bit 26 h3; h3 = h3 AND 0x3ffffff;
         h4 = h4 + b; b = drop_bit 26 h4; h4 = h4 AND 0x3ffffff;
         h0 = h0 + b * 5
     in st\<lparr>st_h0 := h0, st_h1 := h1, st_h2 := h2, st_h3 := h3, st_h4 := h4\<rparr>)"

definition donna_freeze :: "poly1305_state_st \<Rightarrow> poly1305_state_st" where
  "donna_freeze st =
    (let h0 = st_h0 st; h1 = st_h1 st; h2 = st_h2 st; h3 = st_h3 st; h4 = st_h4 st;
         g0 = h0 + 5; b = drop_bit 26 g0; g0 = g0 AND 0x3ffffff;
         g1 = h1 + b; b = drop_bit 26 g1; g1 = g1 AND 0x3ffffff;
         g2 = h2 + b; b = drop_bit 26 g2; g2 = g2 AND 0x3ffffff;
         g3 = h3 + b; b = drop_bit 26 g3; g3 = g3 AND 0x3ffffff;
         g4 = h4 + b - push_bit 26 1;
         b = drop_bit 31 g4 - 1; nb = NOT b
     in st\<lparr>st_h0 := (h0 AND nb) OR (g0 AND b), st_h1 := (h1 AND nb) OR (g1 AND b),
           st_h2 := (h2 AND nb) OR (g2 AND b), st_h3 := (h3 AND nb) OR (g3 AND b),
           st_h4 := (h4 AND nb) OR (g4 AND b)\<rparr>)"

definition donna_output :: "poly1305_state_st \<Rightarrow> u8 list" where
  "donna_output st =
    (let h0 = st_h0 st; h1 = st_h1 st; h2 = st_h2 st; h3 = st_h3 st; h4 = st_h4 st; key = st_key st;
         f0 = ucast (h0 OR push_bit 26 h1) + (ucast (CRYPTO_load_u32_le key) :: u64);
         f1 = ucast (drop_bit 6 h1 OR push_bit 20 h2) + (ucast (CRYPTO_load_u32_le (drop 4 key)) :: u64);
         f2 = ucast (drop_bit 12 h2 OR push_bit 14 h3) + (ucast (CRYPTO_load_u32_le (drop 8 key)) :: u64);
         f3 = ucast (drop_bit 18 h3 OR push_bit 8 h4) + (ucast (CRYPTO_load_u32_le (drop 12 key)) :: u64);
         f1 = f1 + drop_bit 32 f0;
         f2 = f2 + drop_bit 32 f1;
         f3 = f3 + drop_bit 32 f2
     in CRYPTO_store_u32_le (ucast f0) @ CRYPTO_store_u32_le (ucast f1) @
        CRYPTO_store_u32_le (ucast f2) @ CRYPTO_store_u32_le (ucast f3))"

definition CRYPTO_poly1305_finish :: "poly1305_state_st \<Rightarrow> u8 list \<times> poly1305_state_st" where
  "CRYPTO_poly1305_finish st =
    (let st = (if st_buf_used st \<noteq> 0 then poly1305_update st (take (st_buf_used st) (st_buf st)) else st);
         st = donna_freeze (donna_carry st)
     in (donna_output st, st))"

section \<open>The specification (RFC 8439, section 2.5)\<close>

definition poly1305_prime :: nat where
  "poly1305_prime = 2 ^ 130 - 5"

function poly_eval :: "nat \<Rightarrow> nat \<Rightarrow> u8 list \<Rightarrow> nat" where
  "poly_eval r a m =
    (if m = [] then a
     else poly_eval r ((a + le_val (take 16 m @ [1])) * r mod poly1305_prime) (drop 16 m))"
  by pat_completeness auto
termination by (relation "measure (\<lambda>(r, a, m). length m)") auto

declare poly_eval.simps [simp del]

definition poly_r :: "u8 list \<Rightarrow> nat" where
  "poly_r key = le_val (take 16 key) AND 0x0ffffffc0ffffffc0ffffffc0fffffff"

definition poly1305_tag :: "u8 list \<Rightarrow> u8 list \<Rightarrow> u8 list" where
  "poly1305_tag key m = le_bytes 16 (poly_eval (poly_r key) 0 m + le_val (take 16 (drop 16 key)))"

end
