(* ===== verification/Poly1305Limbs.thy ===== *)
theory Poly1305Limbs
  imports Poly1305
begin

text \<open>
  The limb arithmetic of poly1305.c: what a state means as a number (\<open>acc_val\<close>, \<open>key_r\<close>), the bounds of
  the limbs between blocks (\<open>h_ok\<close>) and inside one (\<open>loaded_ok\<close>), and that a block is a multiplication
  modulo the prime whose 32-bit carries never lose a bit.
\<close>


definition limbs :: "nat \<Rightarrow> nat \<Rightarrow> nat \<Rightarrow> nat \<Rightarrow> nat \<Rightarrow> nat" where
  "limbs a0 a1 a2 a3 a4 = a0 + 2 ^ 26 * a1 + 2 ^ 52 * a2 + 2 ^ 78 * a3 + 2 ^ 104 * a4"

definition acc_val :: "poly1305_state_st \<Rightarrow> nat" where
  "acc_val st = limbs (unat (st_h0 st)) (unat (st_h1 st)) (unat (st_h2 st)) (unat (st_h3 st)) (unat (st_h4 st))"

definition key_r :: "poly1305_state_st \<Rightarrow> nat" where
  "key_r st = limbs (unat (st_r0 st)) (unat (st_r1 st)) (unat (st_r2 st)) (unat (st_r3 st)) (unat (st_r4 st))"

definition r_ok :: "poly1305_state_st \<Rightarrow> bool" where
  "r_ok st \<longleftrightarrow> unat (st_r0 st) < 2 ^ 26 \<and> unat (st_r1 st) < 2 ^ 26 \<and> unat (st_r2 st) < 2 ^ 26 \<and>
     unat (st_r3 st) < 2 ^ 26 \<and> unat (st_r4 st) < 2 ^ 20 \<and>
     unat (st_s1 st) = 5 * unat (st_r1 st) \<and> unat (st_s2 st) = 5 * unat (st_r2 st) \<and>
     unat (st_s3 st) = 5 * unat (st_r3 st) \<and> unat (st_s4 st) = 5 * unat (st_r4 st)"

definition h_ok :: "poly1305_state_st \<Rightarrow> bool" where
  "h_ok st \<longleftrightarrow> unat (st_h0 st) < 42 * 2 ^ 26 \<and> unat (st_h1 st) < 2 ^ 26 \<and> unat (st_h2 st) < 2 ^ 26 \<and>
     unat (st_h3 st) < 2 ^ 26 \<and> unat (st_h4 st) < 2 ^ 26"

definition loaded_ok :: "poly1305_state_st \<Rightarrow> bool" where
  "loaded_ok st \<longleftrightarrow> unat (st_h0 st) < 43 * 2 ^ 26 \<and> unat (st_h1 st) < 2 ^ 27 \<and> unat (st_h2 st) < 2 ^ 27 \<and>
     unat (st_h3 st) < 2 ^ 27 \<and> unat (st_h4 st) < 3 * 2 ^ 25"

section \<open>Products and carries\<close>

lemma unat_mul32x32_64: "unat (mul32x32_64 a b) = unat a * unat b"
proof -
  have "unat a * unat b < 2 ^ 32 * 2 ^ 32"
    using unsigned_less [of a] unsigned_less [of b] by (intro mult_strict_mono) auto
  then show ?thesis
    using unat_mult_lem [of "ucast a :: u64" "ucast b"] by (simp add: mul32x32_64_def unat_ucast_up)
qed

lemma unat_and_mask: "unat (w AND mask n) = unat w mod 2 ^ n"
  by (simp flip: take_bit_eq_mask take_bit_eq_mod add: unsigned_take_bit_eq)

lemma low26: "unat (w AND 0x3ffffff) = unat w mod 2 ^ 26" for w :: "'a::len word"
  using unat_and_mask [of w 26] by (simp add: mask_numeral)

lemma mult_less: "a < A \<Longrightarrow> b < B \<Longrightarrow> a * b < A * (B :: nat)"
  by (rule mult_strict_mono) auto

lemma unat_ucast_32: "unat (ucast (t :: u64) :: u32) = unat t mod 2 ^ 32"
  by (simp add: unsigned_ucast_eq take_bit_eq_mod)

lemma product_bounds:
  assumes "loaded_ok st" "r_ok st" "donna_products st = (t0, t1, t2, t3, t4)"
  shows "unat t0 = unat (st_h0 st) * unat (st_r0 st) + 5 * (unat (st_h1 st) * unat (st_r4 st) +
           unat (st_h2 st) * unat (st_r3 st) + unat (st_h3 st) * unat (st_r2 st) + unat (st_h4 st) * unat (st_r1 st))"
    and "unat t1 = unat (st_h0 st) * unat (st_r1 st) + unat (st_h1 st) * unat (st_r0 st) +
           5 * (unat (st_h2 st) * unat (st_r4 st) + unat (st_h3 st) * unat (st_r3 st) + unat (st_h4 st) * unat (st_r2 st))"
    and "unat t2 = unat (st_h0 st) * unat (st_r2 st) + unat (st_h1 st) * unat (st_r1 st) +
           unat (st_h2 st) * unat (st_r0 st) + 5 * (unat (st_h3 st) * unat (st_r4 st) + unat (st_h4 st) * unat (st_r3 st))"
    and "unat t3 = unat (st_h0 st) * unat (st_r3 st) + unat (st_h1 st) * unat (st_r2 st) +
           unat (st_h2 st) * unat (st_r1 st) + unat (st_h3 st) * unat (st_r0 st) + 5 * (unat (st_h4 st) * unat (st_r4 st))"
    and "unat t4 = unat (st_h0 st) * unat (st_r4 st) + unat (st_h1 st) * unat (st_r3 st) +
           unat (st_h2 st) * unat (st_r2 st) + unat (st_h3 st) * unat (st_r1 st) + unat (st_h4 st) * unat (st_r0 st)"
    and "unat t0 < 36 * 2 ^ 53" "unat t1 + 2 ^ 33 < 2 ^ 58" "unat t2 + 2 ^ 32 < 2 ^ 58" "unat t3 + 2 ^ 32 < 2 ^ 58"
    and "unat t4 + 2 ^ 32 < 524 * 2 ^ 46"
proof -
  note b = assms(1) [unfolded loaded_ok_def] assms(2) [unfolded r_ok_def]
  have m: "unat (st_h0 st) * unat (st_r0 st) < 43 * 2 ^ 26 * 2 ^ 26" "unat (st_h0 st) * unat (st_r1 st) < 43 * 2 ^ 26 * 2 ^ 26"
    "unat (st_h0 st) * unat (st_r2 st) < 43 * 2 ^ 26 * 2 ^ 26" "unat (st_h0 st) * unat (st_r3 st) < 43 * 2 ^ 26 * 2 ^ 26"
    "unat (st_h0 st) * unat (st_r4 st) < 43 * 2 ^ 26 * 2 ^ 20"
    "unat (st_h1 st) * unat (st_r0 st) < 2 ^ 27 * 2 ^ 26" "unat (st_h1 st) * unat (st_r1 st) < 2 ^ 27 * 2 ^ 26"
    "unat (st_h1 st) * unat (st_r2 st) < 2 ^ 27 * 2 ^ 26" "unat (st_h1 st) * unat (st_r3 st) < 2 ^ 27 * 2 ^ 26"
    "unat (st_h1 st) * unat (st_r4 st) < 2 ^ 27 * 2 ^ 20"
    "unat (st_h2 st) * unat (st_r0 st) < 2 ^ 27 * 2 ^ 26" "unat (st_h2 st) * unat (st_r1 st) < 2 ^ 27 * 2 ^ 26"
    "unat (st_h2 st) * unat (st_r2 st) < 2 ^ 27 * 2 ^ 26" "unat (st_h2 st) * unat (st_r3 st) < 2 ^ 27 * 2 ^ 26"
    "unat (st_h2 st) * unat (st_r4 st) < 2 ^ 27 * 2 ^ 20"
    "unat (st_h3 st) * unat (st_r0 st) < 2 ^ 27 * 2 ^ 26" "unat (st_h3 st) * unat (st_r1 st) < 2 ^ 27 * 2 ^ 26"
    "unat (st_h3 st) * unat (st_r2 st) < 2 ^ 27 * 2 ^ 26" "unat (st_h3 st) * unat (st_r3 st) < 2 ^ 27 * 2 ^ 26"
    "unat (st_h3 st) * unat (st_r4 st) < 2 ^ 27 * 2 ^ 20"
    "unat (st_h4 st) * unat (st_r0 st) < 3 * 2 ^ 25 * 2 ^ 26" "unat (st_h4 st) * unat (st_r1 st) < 3 * 2 ^ 25 * 2 ^ 26"
    "unat (st_h4 st) * unat (st_r2 st) < 3 * 2 ^ 25 * 2 ^ 26" "unat (st_h4 st) * unat (st_r3 st) < 3 * 2 ^ 25 * 2 ^ 26"
    "unat (st_h4 st) * unat (st_r4 st) < 3 * 2 ^ 25 * 2 ^ 20"
    by (rule mult_less; use b in simp)+
  have s: "x * unat (st_s1 st) = 5 * (x * unat (st_r1 st))" "x * unat (st_s2 st) = 5 * (x * unat (st_r2 st))"
    "x * unat (st_s3 st) = 5 * (x * unat (st_r3 st))" "x * unat (st_s4 st) = 5 * (x * unat (st_r4 st))" for x
    using b by simp_all
  note t = assms(3) [unfolded donna_products_def prod.inject, THEN conjunct1, symmetric]
  note t' = assms(3) [unfolded donna_products_def prod.inject]
  show 0: "unat t0 = unat (st_h0 st) * unat (st_r0 st) + 5 * (unat (st_h1 st) * unat (st_r4 st) +
           unat (st_h2 st) * unat (st_r3 st) + unat (st_h3 st) * unat (st_r2 st) + unat (st_h4 st) * unat (st_r1 st))"
    unfolding t using m by (simp add: unat_add_u64 unat_mul32x32_64 s)
  show 1: "unat t1 = unat (st_h0 st) * unat (st_r1 st) + unat (st_h1 st) * unat (st_r0 st) +
           5 * (unat (st_h2 st) * unat (st_r4 st) + unat (st_h3 st) * unat (st_r3 st) + unat (st_h4 st) * unat (st_r2 st))"
    unfolding t'[THEN conjunct2, THEN conjunct1, symmetric] using m by (simp add: unat_add_u64 unat_mul32x32_64 s)
  show 2: "unat t2 = unat (st_h0 st) * unat (st_r2 st) + unat (st_h1 st) * unat (st_r1 st) +
           unat (st_h2 st) * unat (st_r0 st) + 5 * (unat (st_h3 st) * unat (st_r4 st) + unat (st_h4 st) * unat (st_r3 st))"
    unfolding t'[THEN conjunct2, THEN conjunct2, THEN conjunct1, symmetric] using m by (simp add: unat_add_u64 unat_mul32x32_64 s)
  show 3: "unat t3 = unat (st_h0 st) * unat (st_r3 st) + unat (st_h1 st) * unat (st_r2 st) +
           unat (st_h2 st) * unat (st_r1 st) + unat (st_h3 st) * unat (st_r0 st) + 5 * (unat (st_h4 st) * unat (st_r4 st))"
    unfolding t'[THEN conjunct2, THEN conjunct2, THEN conjunct2, THEN conjunct1, symmetric] using m by (simp add: unat_add_u64 unat_mul32x32_64 s)
  show 4: "unat t4 = unat (st_h0 st) * unat (st_r4 st) + unat (st_h1 st) * unat (st_r3 st) +
           unat (st_h2 st) * unat (st_r2 st) + unat (st_h3 st) * unat (st_r1 st) + unat (st_h4 st) * unat (st_r0 st)"
    unfolding t'[THEN conjunct2, THEN conjunct2, THEN conjunct2, THEN conjunct2, symmetric] using m by (simp add: unat_add_u64 unat_mul32x32_64 s)
  show "unat t0 < 36 * 2 ^ 53" using m unfolding 0 by simp
  show "unat t1 + 2 ^ 33 < 2 ^ 58" using m unfolding 1 by simp
  show "unat t2 + 2 ^ 32 < 2 ^ 58" using m unfolding 2 by simp
  show "unat t3 + 2 ^ 32 < 2 ^ 58" using m unfolding 3 by simp
  show "unat t4 + 2 ^ 32 < 524 * 2 ^ 46" using m unfolding 4 by simp
qed

lemma unat_ucast_u32: "unat (ucast (b :: u32) :: u64) = unat b"
  by (simp add: unat_ucast_up)

lemma low26_32: "unat (ucast (t :: u64) AND 0x3ffffff :: u32) = unat t mod 2 ^ 26"
  by (simp only: low26 unat_ucast_32) (simp add: mod_mod_cancel)

lemma carry_32: "unat (t :: u64) < 2 ^ 58 \<Longrightarrow> unat (ucast (drop_bit 26 t) :: u32) = unat t div 2 ^ 26"
  by (simp add: unat_ucast_32 unat_drop_bit div_less_iff_less_mult)

lemma limbs_carry_linear:
  assumes "m0 + 2 ^ 26 * q0 = t0" "m1 + 2 ^ 26 * q1 = t1 + q0" "m2 + 2 ^ 26 * q2 = t2 + q1"
    "m3 + 2 ^ 26 * q3 = t3 + q2" "m4 + 2 ^ 26 * q4 = t4 + q3"
  shows "limbs (m0 + q4 * 5) m1 m2 m3 m4 + q4 * poly1305_prime = limbs t0 t1 t2 t3 t4"
  unfolding limbs_def poly1305_prime_def using assms by simp

lemma limbs_carry:
  assumes "u1 = t1 + t0 div 2 ^ 26" "u2 = t2 + u1 div 2 ^ 26" "u3 = t3 + u2 div 2 ^ 26" "u4 = t4 + u3 div 2 ^ 26"
  shows "limbs (t0 mod 2 ^ 26 + u4 div 2 ^ 26 * 5) (u1 mod 2 ^ 26) (u2 mod 2 ^ 26) (u3 mod 2 ^ 26) (u4 mod 2 ^ 26) +
      u4 div 2 ^ 26 * poly1305_prime = limbs t0 t1 t2 t3 t4"
proof -
  have m: "t mod 2 ^ 26 + 2 ^ 26 * (t div 2 ^ 26) = t" for t :: nat by simp
  show ?thesis
    by (rule limbs_carry_linear [where ?q0.0 = "t0 div 2 ^ 26" and ?q1.0 = "u1 div 2 ^ 26" and
          ?q2.0 = "u2 div 2 ^ 26" and ?q3.0 = "u3 div 2 ^ 26"]) (simp_all only: m assms)
qed

lemma mult_poly5:
  fixes B :: int
  shows "(h0 + B * h1 + B ^ 2 * h2 + B ^ 3 * h3 + B ^ 4 * h4) * (r0 + B * r1 + B ^ 2 * r2 + B ^ 3 * r3 + B ^ 4 * r4) =
    (h0 * r0 + 5 * (h1 * r4 + h2 * r3 + h3 * r2 + h4 * r1)) +
    B * (h0 * r1 + h1 * r0 + 5 * (h2 * r4 + h3 * r3 + h4 * r2)) +
    B ^ 2 * (h0 * r2 + h1 * r1 + h2 * r0 + 5 * (h3 * r4 + h4 * r3)) +
    B ^ 3 * (h0 * r3 + h1 * r2 + h2 * r1 + h3 * r0 + 5 * (h4 * r4)) +
    B ^ 4 * (h0 * r4 + h1 * r3 + h2 * r2 + h3 * r1 + h4 * r0) +
    (B ^ 5 - 5) * ((h1 * r4 + h2 * r3 + h3 * r2 + h4 * r1) + B * (h2 * r4 + h3 * r3 + h4 * r2) +
       B ^ 2 * (h3 * r4 + h4 * r3) + B ^ 3 * (h4 * r4))"
  by algebra

lemma limbs_mult:
  "limbs h0 h1 h2 h3 h4 * limbs r0 r1 r2 r3 r4 =
     limbs (h0 * r0 + 5 * (h1 * r4 + h2 * r3 + h3 * r2 + h4 * r1))
       (h0 * r1 + h1 * r0 + 5 * (h2 * r4 + h3 * r3 + h4 * r2))
       (h0 * r2 + h1 * r1 + h2 * r0 + 5 * (h3 * r4 + h4 * r3))
       (h0 * r3 + h1 * r2 + h2 * r1 + h3 * r0 + 5 * (h4 * r4))
       (h0 * r4 + h1 * r3 + h2 * r2 + h3 * r1 + h4 * r0) +
     poly1305_prime * limbs (h1 * r4 + h2 * r3 + h3 * r2 + h4 * r1) (h2 * r4 + h3 * r3 + h4 * r2)
       (h3 * r4 + h4 * r3) (h4 * r4) 0"
proof -
  have i: "int (limbs a0 a1 a2 a3 a4) = int a0 + 2 ^ 26 * int a1 + (2 ^ 26) ^ 2 * int a2 +
      (2 ^ 26) ^ 3 * int a3 + (2 ^ 26) ^ 4 * int a4" for a0 a1 a2 a3 a4
    by (simp add: limbs_def)
  have i0: "int (limbs a0 a1 a2 a3 0) = int a0 + 2 ^ 26 * int a1 + (2 ^ 26) ^ 2 * int a2 +
      (2 ^ 26) ^ 3 * int a3" for a0 a1 a2 a3
    by (simp add: limbs_def)
  have p: "int poly1305_prime = (2 ^ 26) ^ 5 - 5" by (simp add: poly1305_prime_def)
  show ?thesis unfolding of_nat_eq_iff [where 'a = int, symmetric] of_nat_add of_nat_mult i0 p
    by (simp only: i of_nat_add of_nat_mult of_nat_numeral mult_poly5)
qed

lemma donna_mul_ok:
  assumes "loaded_ok st" "r_ok st"
  shows "h_ok (poly1305_donna_mul st)"
    and "acc_val (poly1305_donna_mul st) mod poly1305_prime = acc_val st * key_r st mod poly1305_prime"
proof -
  obtain t0 t1 t2 t3 t4 where t: "donna_products st = (t0, t1, t2, t3, t4)" by (metis prod_cases5)
  note p = product_bounds [OF assms t]
  define u1 where "u1 = t1 + drop_bit 26 t0"
  define u2 where "u2 = t2 + ucast (ucast (drop_bit 26 u1) :: u32)"
  define u3 where "u3 = t3 + ucast (ucast (drop_bit 26 u2) :: u32)"
  define u4 where "u4 = t4 + ucast (ucast (drop_bit 26 u3) :: u32)"
  have c0: "unat t0 div 2 ^ 26 < 2 ^ 33" using p(6) by (simp add: div_less_iff_less_mult)
  then have u1: "unat u1 = unat t1 + unat t0 div 2 ^ 26" "unat u1 < 2 ^ 58"
    unfolding u1_def using p(7) by (simp_all add: unat_add_u64 unat_drop_bit)
  have c: "unat u div 2 ^ 26 < 2 ^ 32" if "unat (u :: u64) < 2 ^ 58" for u
    using that by (simp add: div_less_iff_less_mult)
  have up: "unat (t + ucast (ucast (drop_bit 26 u) :: u32)) = unat t + unat u div 2 ^ 26"
    if "unat u < 2 ^ 58" "unat t + 2 ^ 32 < 2 ^ 58" for t u :: u64
  proof -
    have "unat t + unat u div 2 ^ 26 < 2 ^ 64" using that(2) c [OF that(1)] by simp
    then show ?thesis by (subst unat_add_u64) (simp_all only: unat_ucast_u32 carry_32 [OF that(1)])
  qed
  have u2: "unat u2 = unat t2 + unat u1 div 2 ^ 26" "unat u2 < 2 ^ 58"
    using up [OF u1(2) p(8)] c [OF u1(2)] p(8) by (simp_all add: u2_def)
  have u3: "unat u3 = unat t3 + unat u2 div 2 ^ 26" "unat u3 < 2 ^ 58"
    using up [OF u2(2) p(9)] c [OF u2(2)] p(9) by (simp_all add: u3_def)
  have t4: "unat t4 + 2 ^ 32 < 2 ^ 58" using p(10) by simp
  have u4: "unat u4 = unat t4 + unat u3 div 2 ^ 26" "unat u4 < 524 * 2 ^ 46" "unat u4 < 2 ^ 58"
    using up [OF u3(2) t4] c [OF u3(2)] p(10) by (simp_all add: u4_def)
  define b where "b = (ucast (drop_bit 26 u4) :: u32)"
  have b: "unat b = unat u4 div 2 ^ 26" "unat b < 524 * 2 ^ 20"
    using carry_32 [OF u4(3)] u4(2) by (simp_all add: b_def div_less_iff_less_mult)
  then have "unat (b * 5) = unat b * 5"
    by (subst unat_mult_lem [THEN iffD1]) auto
  moreover have "unat (ucast t0 AND 0x3ffffff :: u32) < 2 ^ 26" by (simp add: low26_32)
  ultimately have h0: "unat ((ucast t0 AND 0x3ffffff :: u32) + b * 5) = unat t0 mod 2 ^ 26 + unat u4 div 2 ^ 26 * 5"
    "unat ((ucast t0 AND 0x3ffffff :: u32) + b * 5) < 42 * 2 ^ 26"
    using b mod_less_divisor [of "2 ^ 26" "unat t0"] by (subst unat_add_lem [THEN iffD1]; simp add: low26_32)+
  have st': "poly1305_donna_mul st = st\<lparr>st_h0 := (ucast t0 AND 0x3ffffff) + b * 5,
      st_h1 := ucast u1 AND 0x3ffffff, st_h2 := ucast u2 AND 0x3ffffff,
      st_h3 := ucast u3 AND 0x3ffffff, st_h4 := ucast u4 AND 0x3ffffff\<rparr>"
    by (simp add: poly1305_donna_mul_def t Let_def u1_def u2_def u3_def u4_def b_def)
  show "h_ok (poly1305_donna_mul st)"
    unfolding h_ok_def st' using h0(2) by (simp add: low26_32)
  have "acc_val (poly1305_donna_mul st) + unat u4 div 2 ^ 26 * poly1305_prime =
      limbs (unat t0) (unat t1) (unat t2) (unat t3) (unat t4)"
    using limbs_carry [OF u1(1) u2(1) u3(1) u4(1)] h0(1) by (simp add: st' acc_val_def low26_32)
  moreover have "acc_val st * key_r st mod poly1305_prime =
      limbs (unat t0) (unat t1) (unat t2) (unat t3) (unat t4) mod poly1305_prime"
    unfolding acc_val_def key_r_def limbs_mult p(1-5) by simp
  ultimately show "acc_val (poly1305_donna_mul st) mod poly1305_prime = acc_val st * key_r st mod poly1305_prime"
    by (metis mod_mult_self1)
qed

section \<open>Loading a block\<close>

lemma word_digit:
  assumes "lo < 2 ^ 32" "6 \<le> k" "k \<le> 26"
  shows "(hi * 2 ^ 32 + lo) div 2 ^ k mod 2 ^ 26 = lo div 2 ^ k + 2 ^ (32 - k) * (hi mod 2 ^ (k - 6) :: nat)"
proof -
  have e: "(2 :: nat) ^ 32 = 2 ^ (32 - k) * 2 ^ k" "(2 :: nat) ^ 26 = 2 ^ (32 - k) * 2 ^ (k - 6)"
    using assms by (simp_all flip: power_add)
  have l: "lo div 2 ^ k < 2 ^ (32 - k)"
    using assms by (simp add: div_less_iff_less_mult flip: power_add)
  have "(hi * 2 ^ 32 + lo) div 2 ^ k = hi * 2 ^ (32 - k) + lo div 2 ^ k"
    unfolding e(1) mult.assoc [symmetric] by simp
  then show ?thesis unfolding e(2) mod_mult2_eq using l by simp
qed

lemma digit_less:
  assumes "lo < 2 ^ 32" "6 \<le> k" "k \<le> 26"
  shows "lo div 2 ^ k + 2 ^ (32 - k) * (hi mod 2 ^ (k - 6)) < (2 ^ 26 :: nat)"
  unfolding word_digit [OF assms, symmetric] by (rule mod_less_divisor) simp

lemma unat_two_words: "unat (push_bit 32 (ucast (hi :: u32) :: u64) OR ucast (lo :: u32)) = unat hi * 2 ^ 32 + unat lo"
  using unsigned_less [of hi] unsigned_less [of lo]
  by (subst unat_push_bit_or) (simp_all add: unat_ucast_u32)

lemma limb_of_words:
  assumes "6 \<le> k" "k \<le> 26"
  shows "unat (ucast (drop_bit k (push_bit 32 (ucast (hi :: u32) :: u64) OR ucast (lo :: u32)) AND 0x3ffffff) :: u32) =
    unat lo div 2 ^ k + 2 ^ (32 - k) * (unat hi mod 2 ^ (k - 6))"
proof -
  let ?x = "drop_bit k (push_bit 32 (ucast hi :: u64) OR ucast lo)"
  have "unat (ucast (?x AND 0x3ffffff) :: u32) = unat ?x mod 2 ^ 26 mod 2 ^ 32"
    by (simp only: unat_ucast_32 low26)
  also have "\<dots> = unat ?x mod 2 ^ 26"
    by (rule mod_less) (rule order_less_le_trans [OF mod_less_divisor], simp_all)
  also have "\<dots> = (unat hi * 2 ^ 32 + unat lo) div 2 ^ k mod 2 ^ 26"
    by (simp only: unat_drop_bit unat_two_words)
  finally show ?thesis using word_digit [OF _ assms, of "unat lo" "unat hi"] unsigned_less [of lo] by simp
qed

lemma limbs_of_words_linear:
  assumes "r0 + 2 ^ 26 * q0 = t0" "r1 + 2 ^ 20 * q1 = t1" "r2 + 2 ^ 14 * q2 = t2" "r3 + 2 ^ 8 * q3 = t3"
  shows "limbs r0 (q0 + 2 ^ 6 * r1) (q1 + 2 ^ 12 * r2) (q2 + 2 ^ 18 * r3) (q3 + hi) =
    t0 + 2 ^ 32 * t1 + 2 ^ 64 * t2 + 2 ^ 96 * t3 + 2 ^ 104 * hi"
  unfolding limbs_def using assms by simp

lemma limbs_of_words:
  "limbs (t0 mod 2 ^ 26) (t0 div 2 ^ 26 + 2 ^ 6 * (t1 mod 2 ^ 20)) (t1 div 2 ^ 20 + 2 ^ 12 * (t2 mod 2 ^ 14))
      (t2 div 2 ^ 14 + 2 ^ 18 * (t3 mod 2 ^ 8)) (t3 div 2 ^ 8 + hi) =
    t0 + 2 ^ 32 * t1 + 2 ^ 64 * t2 + 2 ^ 96 * t3 + 2 ^ 104 * hi"
  by (rule limbs_of_words_linear) simp_all

lemma le_val_words:
  assumes "length p = 16"
  shows "le_val p = unat (CRYPTO_load_u32_le p) + 2 ^ 32 * unat (CRYPTO_load_u32_le (drop 4 p)) +
    2 ^ 64 * unat (CRYPTO_load_u32_le (drop 8 p)) + 2 ^ 96 * unat (CRYPTO_load_u32_le (drop 12 p))"
proof -
  have t: "take 8 p = take 4 p @ take 4 (drop 4 p)" "take 12 p = take 8 p @ take 4 (drop 8 p)"
    "p = take 12 p @ take 4 (drop 12 p)"
    using assms by (simp_all flip: take_add)
  show ?thesis
    by (subst t(3), subst t(2), subst t(1))
      (simp add: le_val_append unat_load_u32_le assms min_def del: take_append)
qed

lemma load_u32_take: "n + 4 \<le> m \<Longrightarrow> CRYPTO_load_u32_le (drop n (take m p)) = CRYPTO_load_u32_le (drop n p)"
  by (simp add: CRYPTO_load_u32_le_def drop_take min_def)


lemma top_limb:
  assumes "hibit = 0 \<or> hibit = push_bit 24 1"
  shows "unat (drop_bit 8 (t :: u32) OR hibit) = unat t div 2 ^ 8 + unat hibit"
proof -
  have l: "unat t div 2 ^ 8 < 2 ^ 24"
    using unsigned_less [of t] by (simp add: div_less_iff_less_mult)
  then have "unat (push_bit 24 (1 :: u32) OR drop_bit 8 t) = unat (1 :: u32) * 2 ^ 24 + unat (drop_bit 8 t)"
    by (intro unat_push_bit_or) (simp_all add: unat_drop_bit)
  then have "unat (drop_bit 8 t OR push_bit 24 1) = unat t div 2 ^ 8 + 2 ^ 24"
    unfolding or.commute [of "push_bit 24 1"] by (simp add: unat_drop_bit)
  then show ?thesis using assms by (auto simp: unat_drop_bit)
qed

lemma unat_add_u32: "unat x + unat y < 2 ^ 32 \<Longrightarrow> unat (x + y :: u32) = unat x + unat y"
  using unat_add_lem [of x y] by simp

lemma donna_add_ok:
  assumes "h_ok st" "length p = 16" "hibit = 0 \<or> hibit = push_bit 24 1"
  shows "loaded_ok (donna_add hibit p st)"
    and "acc_val (donna_add hibit p st) = acc_val st + le_val p + 2 ^ 104 * unat hibit"
proof -
  define t0 where "t0 = CRYPTO_load_u32_le p"
  define t1 where "t1 = CRYPTO_load_u32_le (drop 4 p)"
  define t2 where "t2 = CRYPTO_load_u32_le (drop 8 p)"
  define t3 where "t3 = CRYPTO_load_u32_le (drop 12 p)"
  define w0 where "w0 = t0 AND 0x3ffffff"
  define w1 where "w1 = (ucast (drop_bit 26 (push_bit 32 (ucast t1 :: u64) OR ucast t0) AND 0x3ffffff) :: u32)"
  define w2 where "w2 = (ucast (drop_bit 20 (push_bit 32 (ucast t2 :: u64) OR ucast t1) AND 0x3ffffff) :: u32)"
  define w3 where "w3 = (ucast (drop_bit 14 (push_bit 32 (ucast t3 :: u64) OR ucast t2) AND 0x3ffffff) :: u32)"
  define w4 where "w4 = drop_bit 8 t3 OR hibit"
  have w: "unat w0 = unat t0 mod 2 ^ 26"
    "unat w1 = unat t0 div 2 ^ 26 + 2 ^ 6 * (unat t1 mod 2 ^ 20)"
    "unat w2 = unat t1 div 2 ^ 20 + 2 ^ 12 * (unat t2 mod 2 ^ 14)"
    "unat w3 = unat t2 div 2 ^ 14 + 2 ^ 18 * (unat t3 mod 2 ^ 8)"
    "unat w4 = unat t3 div 2 ^ 8 + unat hibit"
    unfolding w0_def w1_def w2_def w3_def w4_def
    by (simp_all only: low26 top_limb [OF assms(3)])
      (subst limb_of_words; simp)+
  have t: "unat t0 < 2 ^ 32" "unat t1 < 2 ^ 32" "unat t2 < 2 ^ 32" "unat t3 < 2 ^ 32"
    using unsigned_less [of t0] unsigned_less [of t1] unsigned_less [of t2] unsigned_less [of t3] by simp_all
  have b: "unat w0 < 2 ^ 26" "unat w1 < 2 ^ 26" "unat w2 < 2 ^ 26" "unat w3 < 2 ^ 26"
    unfolding w
    using digit_less [OF t(1), of 26] digit_less [OF t(2), of 20] digit_less [OF t(3), of 14] by simp_all
  have b4: "unat w4 < 2 ^ 25"
    unfolding w using t(4) assms(3) by (auto simp: div_less_iff_less_mult)
  have s: "unat (st_h0 (donna_add hibit p st)) = unat (st_h0 st) + unat w0"
    "unat (st_h1 (donna_add hibit p st)) = unat (st_h1 st) + unat w1"
    "unat (st_h2 (donna_add hibit p st)) = unat (st_h2 st) + unat w2"
    "unat (st_h3 (donna_add hibit p st)) = unat (st_h3 st) + unat w3"
    "unat (st_h4 (donna_add hibit p st)) = unat (st_h4 st) + unat w4"
    unfolding donna_add_def Let_def t0_def [symmetric] t1_def [symmetric] t2_def [symmetric] t3_def [symmetric]
      w0_def [symmetric] w1_def [symmetric] w2_def [symmetric] w3_def [symmetric] w4_def [symmetric]
    using assms(1) b b4 by (simp_all add: h_ok_def unat_add_u32)
  show "loaded_ok (donna_add hibit p st)"
    unfolding loaded_ok_def s using assms(1) b b4 by (simp add: h_ok_def)
  have "limbs (unat w0) (unat w1) (unat w2) (unat w3) (unat w4) = le_val p + 2 ^ 104 * unat hibit"
    unfolding w limbs_of_words le_val_words [OF assms(2)] by (simp add: t0_def t1_def t2_def t3_def)
  then show "acc_val (donna_add hibit p st) = acc_val st + le_val p + 2 ^ 104 * unat hibit"
    unfolding acc_val_def s by (simp add: limbs_def algebra_simps)
qed


section \<open>Blocks\<close>

text \<open>Everything but the accumulator.\<close>

definition poly_frame :: "poly1305_state_st \<Rightarrow> poly1305_state_st" where
  "poly_frame st = st\<lparr>st_h0 := 0, st_h1 := 0, st_h2 := 0, st_h3 := 0, st_h4 := 0\<rparr>"

lemma poly_frame_eq:
  assumes "poly_frame st' = poly_frame st"
  shows "r_ok st' = r_ok st" "key_r st' = key_r st" "st_key st' = st_key st" "st_buf st' = st_buf st"
    "st_buf_used st' = st_buf_used st"
  using assms by (cases st; cases st'; simp add: poly_frame_def r_ok_def key_r_def)+

lemma poly_frame_donna: "poly_frame (poly1305_donna_mul st) = poly_frame st" "poly_frame (donna_add hibit p st) = poly_frame st"
  by (simp_all add: poly_frame_def poly1305_donna_mul_def donna_add_def Let_def split: prod.splits)

lemma donna_block:
  assumes "h_ok st" "r_ok st" "length p = 16" "hibit = 0 \<or> hibit = push_bit 24 1"
  shows "h_ok (poly1305_donna_mul (donna_add hibit p st))"
    and "acc_val (poly1305_donna_mul (donna_add hibit p st)) mod poly1305_prime =
      (acc_val st mod poly1305_prime + (le_val p + 2 ^ 104 * unat hibit)) * key_r st mod poly1305_prime"
proof -
  note a = donna_add_ok [OF assms(1,3,4)]
  have r: "r_ok (donna_add hibit p st)" "key_r (donna_add hibit p st) = key_r st"
    using poly_frame_eq [OF poly_frame_donna(2)] assms(2) by simp_all
  show "h_ok (poly1305_donna_mul (donna_add hibit p st))" by (rule donna_mul_ok [OF a(1) r(1)])
  show "acc_val (poly1305_donna_mul (donna_add hibit p st)) mod poly1305_prime =
      (acc_val st mod poly1305_prime + (le_val p + 2 ^ 104 * unat hibit)) * key_r st mod poly1305_prime"
    unfolding donna_mul_ok(2) [OF a(1) r(1)] r(2) a(2) add.assoc
    by (metis mod_add_left_eq mod_mult_left_eq)
qed

lemma poly_eval_Nil [simp]: "poly_eval r a [] = a"
  by (simp add: poly_eval.simps)

lemma poly_eval_step:
  "m \<noteq> [] \<Longrightarrow> poly_eval r a m = poly_eval r ((a + le_val (take 16 m @ [1])) * r mod poly1305_prime) (drop 16 m)"
  by (subst poly_eval.simps) simp

lemma donna_16bytes_ok:
  assumes "h_ok st" "r_ok st" "16 \<le> length inp"
  shows "h_ok (poly1305_donna_16bytes inp st)" "poly_frame (poly1305_donna_16bytes inp st) = poly_frame st"
    and "acc_val (poly1305_donna_16bytes inp st) mod poly1305_prime =
      (acc_val st mod poly1305_prime + le_val (take 16 inp @ [1])) * key_r st mod poly1305_prime"
proof -
  have e: "donna_add hibit inp st = donna_add hibit (take 16 inp) st" for hibit
    unfolding donna_add_def using load_u32_take [of 0 16 inp] load_u32_take [of 4 16 inp]
      load_u32_take [of 8 16 inp] load_u32_take [of 12 16 inp] by simp
  note b = donna_block [OF assms(1,2), of "take 16 inp" "push_bit 24 1"]
  show "h_ok (poly1305_donna_16bytes inp st)" "poly_frame (poly1305_donna_16bytes inp st) = poly_frame st"
    "acc_val (poly1305_donna_16bytes inp st) mod poly1305_prime =
      (acc_val st mod poly1305_prime + le_val (take 16 inp @ [1])) * key_r st mod poly1305_prime"
    unfolding poly1305_donna_16bytes_def e using b assms(3)
    by (simp_all add: poly_frame_donna le_val_append min_absorb2)
qed

lemma donna_atmost15_ok:
  assumes "h_ok st" "r_ok st" "length inp < 16"
  shows "h_ok (poly1305_donna_atmost15bytes inp st)" "poly_frame (poly1305_donna_atmost15bytes inp st) = poly_frame st"
    and "acc_val (poly1305_donna_atmost15bytes inp st) mod poly1305_prime = poly_eval (key_r st) (acc_val st mod poly1305_prime) inp"
proof -
  define mp where "mp = inp @ [1 :: u8] @ replicate (15 - length inp) 0"
  have mp: "length mp = 16" "le_val mp = le_val (inp @ [1])"
    using assms(3) by (simp_all add: mp_def le_val_append)
  note b = donna_block [OF assms(1,2) mp(1), of 0]
  have d: "poly1305_donna_atmost15bytes inp st = poly1305_donna_mul (donna_add 0 mp st)" if "inp \<noteq> []"
    using that by (simp add: poly1305_donna_atmost15bytes_def mp_def)
  have e: "poly_eval r a inp = (a + le_val (inp @ [1])) * r mod poly1305_prime" if "inp \<noteq> []" for r a
    using that assms(3) by (simp add: poly_eval_step)
  show "h_ok (poly1305_donna_atmost15bytes inp st)" "poly_frame (poly1305_donna_atmost15bytes inp st) = poly_frame st"
    "acc_val (poly1305_donna_atmost15bytes inp st) mod poly1305_prime = poly_eval (key_r st) (acc_val st mod poly1305_prime) inp"
    using b assms(1) by (cases "inp = []"; simp add: poly1305_donna_atmost15bytes_def [of "[]"] d e mp(2) poly_frame_donna)+
qed

lemma poly1305_update_ok:
  assumes "h_ok st" "r_ok st"
  shows "h_ok (poly1305_update st inp) \<and> poly_frame (poly1305_update st inp) = poly_frame st \<and>
    acc_val (poly1305_update st inp) mod poly1305_prime = poly_eval (key_r st) (acc_val st mod poly1305_prime) inp"
  using assms
proof (induction st inp rule: poly1305_update.induct)
  case (1 st inp)
  show ?case
  proof (cases "length inp < 16")
    case True
    then show ?thesis using donna_atmost15_ok [OF 1(2,3) True] by (simp add: poly1305_update.simps [of st])
  next
    case False
    then have l: "16 \<le> length inp" by simp
    note b = donna_16bytes_ok [OF 1(2,3) l]
    have r: "r_ok (poly1305_donna_16bytes inp st)" using 1(3) poly_frame_eq(1) [OF b(2)] by simp
    note i = 1(1) [OF False b(1) r]
    have "inp \<noteq> []" using l by auto
    then show ?thesis using False i b(2,3) poly_frame_eq(2) [OF b(2)]
      by (simp add: poly1305_update.simps [of st] poly_eval_step)
  qed
qed

lemma poly_eval_append: "16 dvd length xs \<Longrightarrow> poly_eval r a (xs @ ys) = poly_eval r (poly_eval r a xs) ys"
proof (induction r a xs rule: poly_eval.induct)
  case (1 r a xs)
  show ?case
  proof (cases "xs = []")
    case False
    then have "16 \<le> length xs" using 1(2) by (simp add: dvd_imp_le)
    moreover have "16 dvd length (drop 16 xs)" using 1(2) by (simp add: dvd_diff_nat)
    ultimately show ?thesis using 1(1) [OF False] False by (simp add: poly_eval_step)
  qed simp
qed
end
