(* ===== verification/Streaming.thy ===== *)
theory Streaming
  imports Prelude
begin

text \<open>
  The contract of a hash or authenticator that takes its input in pieces: \<open>absorbed s m\<close> says that
  the state \<open>s\<close> has taken in the bytes \<open>m\<close>. Clients rest on two laws only, that an update appends
  and that the final value depends on the bytes absorbed, wherever the pieces end.
\<close>

locale streaming =
  fixes absorbed :: "'s \<Rightarrow> u8 list \<Rightarrow> bool"
    and update :: "'s \<Rightarrow> u8 list \<Rightarrow> 's"
  assumes update_absorbs: "absorbed s m \<Longrightarrow> absorbed (update s x) (m @ x)"
begin

lemma chunks_absorbed: "absorbed s m \<Longrightarrow> absorbed (foldl update s xs) (m @ concat xs)"
proof (induction xs arbitrary: s m)
  case (Cons x xs)
  from Cons.IH [OF update_absorbs [OF Cons.prems]] show ?case by simp
qed simp

end

locale digest = streaming absorbed update
  for absorbed :: "'s \<Rightarrow> u8 list \<Rightarrow> bool" and update :: "'s \<Rightarrow> u8 list \<Rightarrow> 's" +
  fixes final :: "'s \<Rightarrow> 'd" and spec :: "u8 list \<Rightarrow> 'd" and good :: "u8 list \<Rightarrow> bool"
  assumes final_spec: "absorbed s m \<Longrightarrow> good m \<Longrightarrow> final s = spec m"
begin

lemma digest_of_chunks: "absorbed s [] \<Longrightarrow> good (concat xs) \<Longrightarrow> final (foldl update s xs) = spec (concat xs)"
  using chunks_absorbed [of s "[]" xs] by (auto intro: final_spec)

lemma chunks_irrelevant:
  "absorbed s [] \<Longrightarrow> good (concat xs) \<Longrightarrow> concat ys = concat xs \<Longrightarrow>
   final (foldl update s ys) = final (foldl update s xs)"
  by (metis digest_of_chunks)

end

end
