(* ===== verification/Poly1305Finish.thy ===== *)
theory Poly1305Finish
  imports Poly1305Limbs
begin

text \<open>
  The two ends of poly1305.c: the clamped key that \<open>CRYPTO_poly1305_init\<close> splits into limbs, and the
  final reduction and addition of \<open>CRYPTO_poly1305_finish\<close>, which yields the tag of RFC 8439 unless
  the residue is one of those in \<open>collides\<close>.
\<close>

section \<open>The key\<close>

lemma and_digits:
  assumes "a < 2 ^ k" "c < 2 ^ k"
  shows "(a + 2 ^ k * b) AND (c + 2 ^ k * d) = (a AND c) + 2 ^ k * (b AND (d :: nat))"
proof -
  have l: "(a AND c) < 2 ^ k"
    using assms(1) by (metis take_bit_and take_bit_nat_eq_self_iff and.right_idem assms(2))
  have e: "x + 2 ^ k * y = push_bit k y OR x" if "x < 2 ^ k" for x y :: nat
    using nat_push_bit_or [OF that, of y] by (simp add: push_bit_eq_mult mult.commute)
  have s: "\<not> bit x n" if "x < 2 ^ k" "k \<le> n" for x n :: nat
    using that by (metis bit_take_bit_iff not_le take_bit_nat_eq_self_iff)
  show ?thesis unfolding e [OF assms(1)] e [OF assms(2)] e [OF l]
    by (rule bit_eqI) (auto simp: bit_simps dest: s [OF assms(1)] s [OF assms(2)])
qed

lemma limbs_nested: "limbs a0 a1 a2 a3 a4 = a0 + 2 ^ 26 * (a1 + 2 ^ 26 * (a2 + 2 ^ 26 * (a3 + 2 ^ 26 * a4)))"
  by (simp add: limbs_def)

lemma limbs_and:
  assumes "a0 < 2 ^ 26" "a1 < 2 ^ 26" "a2 < 2 ^ 26" "a3 < 2 ^ 26"
    and "b0 < 2 ^ 26" "b1 < 2 ^ 26" "b2 < 2 ^ 26" "b3 < 2 ^ 26"
  shows "limbs a0 a1 a2 a3 a4 AND limbs b0 b1 b2 b3 b4 =
    limbs (a0 AND b0) (a1 AND b1) (a2 AND b2) (a3 AND b3) (a4 AND b4)"
  unfolding limbs_nested using assms by (simp only: and_digits)

lemma clamp_limbs:
  "0x0ffffffc0ffffffc0ffffffc0fffffff = limbs 0x3ffffff 0x3ffff03 0x3ffc0ff 0x3f03fff 0x00fffff"
  by (simp add: limbs_def)

lemma clamped_words:
  fixes t0 t1 :: u32
  shows "(drop_bit 26 t0 OR push_bit 6 t1) AND 0x3ffff03 =
      ucast (drop_bit 26 (push_bit 32 (ucast t1 :: u64) OR ucast t0) AND 0x3ffffff) AND 0x3ffff03"
    and "(drop_bit 20 t0 OR push_bit 12 t1) AND 0x3ffc0ff =
      ucast (drop_bit 20 (push_bit 32 (ucast t1 :: u64) OR ucast t0) AND 0x3ffffff) AND 0x3ffc0ff"
    and "(drop_bit 14 t0 OR push_bit 18 t1) AND 0x3f03fff =
      ucast (drop_bit 14 (push_bit 32 (ucast t1 :: u64) OR ucast t0) AND 0x3ffffff) AND 0x3f03fff"
  by (rule bit_words_eqI; simp add: bitwise disj_commute)+

lemma clamped_limb:
  assumes "6 \<le> k" "k \<le> 26"
  shows "unat (ucast (drop_bit k (push_bit 32 (ucast (hi :: u32) :: u64) OR ucast (lo :: u32)) AND 0x3ffffff) AND (m :: u32)) =
    (unat lo div 2 ^ k + 2 ^ (32 - k) * (unat hi mod 2 ^ (k - 6))) AND unat m"
  by (subst unsigned_and_eq) (simp only: limb_of_words [OF assms])

lemma unat_and_le: "unat (x AND y) \<le> unat y"
  by (metis word_and_le1 word_le_nat_alt)

lemma times5: "unat (w :: u32) < 2 ^ 26 \<Longrightarrow> unat (w * 5) = 5 * unat w"
  by (subst unat_mult_lem [THEN iffD1]) auto

lemma init_ok:
  assumes "16 \<le> length key"
  shows "r_ok (CRYPTO_poly1305_init st key)" "h_ok (CRYPTO_poly1305_init st key)"
    "acc_val (CRYPTO_poly1305_init st key) = 0" "key_r (CRYPTO_poly1305_init st key) = poly_r key"
    "st_key (CRYPTO_poly1305_init st key) = take 16 (drop 16 key)"
    "st_buf_used (CRYPTO_poly1305_init st key) = 0" "st_buf (CRYPTO_poly1305_init st key) = st_buf st"
proof -
  define t0 where "t0 = CRYPTO_load_u32_le key"
  define t1 where "t1 = CRYPTO_load_u32_le (drop 4 key)"
  define t2 where "t2 = CRYPTO_load_u32_le (drop 8 key)"
  define t3 where "t3 = CRYPTO_load_u32_le (drop 12 key)"
  define r0 where "r0 = t0 AND 0x3ffffff"
  define r1 where "r1 = (drop_bit 26 t0 OR push_bit 6 t1) AND 0x3ffff03"
  define r2 where "r2 = (drop_bit 20 t1 OR push_bit 12 t2) AND 0x3ffc0ff"
  define r3 where "r3 = (drop_bit 14 t2 OR push_bit 18 t3) AND 0x3f03fff"
  define r4 where "r4 = drop_bit 8 t3 AND 0x00fffff"
  have i: "CRYPTO_poly1305_init st key = st\<lparr>st_r0 := r0, st_r1 := r1, st_r2 := r2, st_r3 := r3, st_r4 := r4,
      st_s1 := r1 * 5, st_s2 := r2 * 5, st_s3 := r3 * 5, st_s4 := r4 * 5,
      st_h0 := 0, st_h1 := 0, st_h2 := 0, st_h3 := 0, st_h4 := 0,
      st_buf_used := 0, st_key := take 16 (drop 16 key)\<rparr>"
    by (simp add: CRYPTO_poly1305_init_def Let_def t0_def t1_def t2_def t3_def r0_def r1_def r2_def r3_def r4_def)
  have b: "unat r0 < 2 ^ 26" "unat r1 < 2 ^ 26" "unat r2 < 2 ^ 26" "unat r3 < 2 ^ 26" "unat r4 < 2 ^ 20"
    unfolding r0_def r1_def r2_def r3_def r4_def
    by (rule order_le_less_trans [OF unat_and_le]; simp)+
  show "r_ok (CRYPTO_poly1305_init st key)"
    unfolding r_ok_def i using b times5 by simp
  have t: "unat t0 < 2 ^ 32" "unat t1 < 2 ^ 32" "unat t2 < 2 ^ 32" "unat t3 < 2 ^ 32"
    using unsigned_less [of t0] unsigned_less [of t1] unsigned_less [of t2] unsigned_less [of t3] by simp_all
  have "unat t0 mod 2 ^ 26 AND mask 26 = unat t0 mod 2 ^ 26"
    by (simp only: take_bit_eq_mod mod_mod_trivial flip: take_bit_eq_mask)
  then have r0: "unat r0 = unat t0 mod 2 ^ 26 AND 0x3ffffff"
    unfolding r0_def low26 by (simp add: mask_numeral)
  have r1: "unat r1 = (unat t0 div 2 ^ 26 + 2 ^ 6 * (unat t1 mod 2 ^ 20)) AND 0x3ffff03"
    unfolding r1_def clamped_words using clamped_limb [where k = 26 and hi = t1 and lo = t0 and m = "0x3ffff03"] by simp
  have r2: "unat r2 = (unat t1 div 2 ^ 20 + 2 ^ 12 * (unat t2 mod 2 ^ 14)) AND 0x3ffc0ff"
    unfolding r2_def clamped_words using clamped_limb [where k = 20 and hi = t2 and lo = t1 and m = "0x3ffc0ff"] by simp
  have r3: "unat r3 = (unat t2 div 2 ^ 14 + 2 ^ 18 * (unat t3 mod 2 ^ 8)) AND 0x3f03fff"
    unfolding r3_def clamped_words using clamped_limb [where k = 14 and hi = t3 and lo = t2 and m = "0x3f03fff"] by simp
  have r4: "unat r4 = (unat t3 div 2 ^ 8 + 0) AND 0x00fffff"
    unfolding r4_def by (simp add: unsigned_and_eq unat_drop_bit)
  note r = r0 r1 r2 r3 r4
  have "le_val (take 16 key) = limbs (unat t0 mod 2 ^ 26) (unat t0 div 2 ^ 26 + 2 ^ 6 * (unat t1 mod 2 ^ 20))
      (unat t1 div 2 ^ 20 + 2 ^ 12 * (unat t2 mod 2 ^ 14)) (unat t2 div 2 ^ 14 + 2 ^ 18 * (unat t3 mod 2 ^ 8))
      (unat t3 div 2 ^ 8 + 0)"
    unfolding limbs_of_words using assms load_u32_take [of 0 16 key] load_u32_take [of 4 16 key]
      load_u32_take [of 8 16 key] load_u32_take [of 12 16 key]
    by (simp add: le_val_words t0_def t1_def t2_def t3_def)
  then have "poly_r key = limbs (unat r0) (unat r1) (unat r2) (unat r3) (unat r4)"
    unfolding poly_r_def clamp_limbs r
    using digit_less [OF t(1), of 26] digit_less [OF t(2), of 20] digit_less [OF t(3), of 14]
    by (simp add: limbs_and)
  then show "key_r (CRYPTO_poly1305_init st key) = poly_r key" by (simp add: key_r_def i)
qed (simp_all add: CRYPTO_poly1305_init_def Let_def h_ok_def acc_val_def limbs_def)

section \<open>The final reduction\<close>

definition carried_ok :: "poly1305_state_st \<Rightarrow> bool" where
  "carried_ok st \<longleftrightarrow> unat (st_h0 st) < 2 ^ 26 + 5 \<and> unat (st_h1 st) < 2 ^ 26 \<and> unat (st_h2 st) < 2 ^ 26 \<and>
     unat (st_h3 st) < 2 ^ 26 \<and> unat (st_h4 st) < 2 ^ 26 \<and>
     (2 ^ 26 \<le> unat (st_h0 st) \<longrightarrow>
        unat (st_h1 st) < 42 \<and> unat (st_h2 st) = 0 \<and> unat (st_h3 st) = 0 \<and> unat (st_h4 st) = 0)"

lemma carry_top:
  fixes u1 u2 u3 u4 h1 h2 h3 h4 b :: nat
  assumes "h1 < 2 ^ 26" "h2 < 2 ^ 26" "h3 < 2 ^ 26" "h4 < 2 ^ 26" "b < 42"
    and "u1 = h1 + b" "u2 = h2 + u1 div 2 ^ 26" "u3 = h3 + u2 div 2 ^ 26" "u4 = h4 + u3 div 2 ^ 26"
  shows "u1 div 2 ^ 26 \<le> 1" "u2 div 2 ^ 26 \<le> 1" "u3 div 2 ^ 26 \<le> 1" "u4 div 2 ^ 26 \<le> 1"
    and "u4 div 2 ^ 26 = 1 \<Longrightarrow> u1 mod 2 ^ 26 < 42 \<and> u2 mod 2 ^ 26 = 0 \<and> u3 mod 2 ^ 26 = 0 \<and> u4 mod 2 ^ 26 = 0"
proof -
  have c: "(h + x) div 2 ^ 26 \<le> (1 :: nat) \<and> ((h + x) div 2 ^ 26 = 1 \<longrightarrow> 0 < x \<and> (h + x) mod 2 ^ 26 < x)"
    if "h < 2 ^ 26" "x < 2 ^ 26" for h x :: nat
  proof (cases "h + x < 2 ^ 26")
    case False
    then have "(h + x) div 2 ^ 26 = 1" "(h + x) mod 2 ^ 26 = h + x - 2 ^ 26"
      using that by (simp_all add: div_if mod_if)
    then show ?thesis using that False by auto
  qed simp
  have c1: "u1 div 2 ^ 26 \<le> 1" "u1 div 2 ^ 26 = 1 \<Longrightarrow> u1 mod 2 ^ 26 < 42"
    using c [OF assms(1), of b] assms(5) unfolding assms(6) by auto
  have c2: "u2 div 2 ^ 26 \<le> 1" "u2 div 2 ^ 26 = 1 \<Longrightarrow> u1 div 2 ^ 26 = 1 \<and> u2 mod 2 ^ 26 = 0"
    using c [OF assms(2), of "u1 div 2 ^ 26"] c1(1) unfolding assms(7) by auto
  have c3: "u3 div 2 ^ 26 \<le> 1" "u3 div 2 ^ 26 = 1 \<Longrightarrow> u2 div 2 ^ 26 = 1 \<and> u3 mod 2 ^ 26 = 0"
    using c [OF assms(3), of "u2 div 2 ^ 26"] c2(1) unfolding assms(8) by auto
  have c4: "u4 div 2 ^ 26 \<le> 1" "u4 div 2 ^ 26 = 1 \<Longrightarrow> u3 div 2 ^ 26 = 1 \<and> u4 mod 2 ^ 26 = 0"
    using c [OF assms(4), of "u3 div 2 ^ 26"] c3(1) unfolding assms(9) by auto
  show "u1 div 2 ^ 26 \<le> 1" "u2 div 2 ^ 26 \<le> 1" "u3 div 2 ^ 26 \<le> 1" "u4 div 2 ^ 26 \<le> 1"
    by fact+
  show "u4 div 2 ^ 26 = 1 \<Longrightarrow> u1 mod 2 ^ 26 < 42 \<and> u2 mod 2 ^ 26 = 0 \<and> u3 mod 2 ^ 26 = 0 \<and> u4 mod 2 ^ 26 = 0"
    using c1(2) c2(2) c3(2) c4(2) by blast
qed

lemma carry_word:
  assumes "unat (x :: u32) < 2 ^ 26"
  shows "unat (x + drop_bit 26 w) = unat x + unat w div 2 ^ 26"
proof -
  have "unat w div 2 ^ 26 < 64" using unsigned_less [of w] by (simp add: div_less_iff_less_mult)
  with assms show ?thesis by (simp add: unat_add_u32 unat_drop_bit)
qed

lemma freeze_linear:
  assumes "m0 + 2 ^ 26 * q0 = h0 + 5" "m1 + 2 ^ 26 * q1 = h1 + q0" "m2 + 2 ^ 26 * q2 = h2 + q1"
    "m3 + 2 ^ 26 * q3 = h3 + q2"
  shows "limbs h0 h1 h2 h3 h4 + 5 = limbs m0 m1 m2 m3 (h4 + q3)"
  unfolding limbs_def using assms by simp

lemma top_bit_borrow:
  assumes "unat (v :: u32) < 2 ^ 26"
  shows "drop_bit 31 (v - push_bit 26 1) = 1"
proof -
  have "v < push_bit 26 1" using assms by (simp add: word_less_nat_alt)
  then have "unat (v - push_bit 26 1) = 2 ^ 32 + unat v - 2 ^ 26"
    using unat_sub_if' [of v "push_bit 26 1"] assms by (simp add: word_le_nat_alt)
  then have "unat (drop_bit 31 (v - push_bit 26 1)) = (2 ^ 32 + unat v - 2 ^ 26) div 2 ^ 31"
    by (simp add: unat_drop_bit)
  also have "\<dots> = 1" using assms by (simp add: div_if)
  finally show ?thesis by (simp add: word_unat_eq_iff)
qed

lemma donna_carry_ok:
  assumes "h_ok st"
  shows "carried_ok (donna_carry st)" "poly_frame (donna_carry st) = poly_frame st"
    "acc_val (donna_carry st) mod poly1305_prime = acc_val st mod poly1305_prime"
proof -
  define b0 where "b0 = drop_bit 26 (st_h0 st)"
  define u1 where "u1 = st_h1 st + b0"
  define u2 where "u2 = st_h2 st + drop_bit 26 u1"
  define u3 where "u3 = st_h3 st + drop_bit 26 u2"
  define u4 where "u4 = st_h4 st + drop_bit 26 u3"
  note h = assms [unfolded h_ok_def]
  have b0: "unat b0 = unat (st_h0 st) div 2 ^ 26" "unat b0 < 42"
    using h by (simp_all add: b0_def unat_drop_bit div_less_iff_less_mult)
  have u: "unat u1 = unat (st_h1 st) + unat b0" "unat u2 = unat (st_h2 st) + unat u1 div 2 ^ 26"
    "unat u3 = unat (st_h3 st) + unat u2 div 2 ^ 26" "unat u4 = unat (st_h4 st) + unat u3 div 2 ^ 26"
    using h carry_word [of "st_h1 st" "st_h0 st"] carry_word [of "st_h2 st" u1] carry_word [of "st_h3 st" u2] carry_word [of "st_h4 st" u3]
    by (simp_all only: u1_def [symmetric] u2_def [symmetric] u3_def [symmetric] u4_def [symmetric] b0(1) b0_def [symmetric] simp_thms)
  note t = carry_top [OF _ _ _ _ b0(2) u]
  have t4: "unat u4 div 2 ^ 26 \<le> 1" using t(4) h by blast
  have top: "unat u1 mod 2 ^ 26 < 42 \<and> unat u2 mod 2 ^ 26 = 0 \<and> unat u3 mod 2 ^ 26 = 0 \<and> unat u4 mod 2 ^ 26 = 0"
    if "unat u4 div 2 ^ 26 \<noteq> 0"
    using t(5) t4 h that by (metis One_nat_def le_Suc_eq le_zero_eq)
  have "unat (drop_bit 26 u4 * 5) = unat u4 div 2 ^ 26 * 5"
    using t4 by (subst unat_mult_lem [THEN iffD1]) (auto simp: unat_drop_bit)
  then have h0: "unat ((st_h0 st AND 0x3ffffff) + drop_bit 26 u4 * 5) = unat (st_h0 st) mod 2 ^ 26 + unat u4 div 2 ^ 26 * 5"
    using t4 mod_less_divisor [of "2 ^ 26" "unat (st_h0 st)"] by (simp add: unat_add_u32 low26)
  have c: "donna_carry st = st\<lparr>st_h0 := (st_h0 st AND 0x3ffffff) + drop_bit 26 u4 * 5, st_h1 := u1 AND 0x3ffffff,
      st_h2 := u2 AND 0x3ffffff, st_h3 := u3 AND 0x3ffffff, st_h4 := u4 AND 0x3ffffff\<rparr>"
    by (simp add: donna_carry_def Let_def b0_def u1_def u2_def u3_def u4_def)
  show "poly_frame (donna_carry st) = poly_frame st" by (simp add: c poly_frame_def)
  have m: "unat (st_h0 st) mod 2 ^ 26 < 2 ^ 26 + 5"
    by (rule order_less_trans [OF mod_less_divisor]) simp_all
  show "carried_ok (donna_carry st)"
    unfolding carried_ok_def c using h0 t4 top m
    by (cases "unat u4 div 2 ^ 26 = 0") (simp_all add: low26 div_eq_0_iff)
  have "acc_val (donna_carry st) + unat u4 div 2 ^ 26 * poly1305_prime = acc_val st"
    unfolding acc_val_def c using limbs_carry [OF u(1) [unfolded b0(1)] u(2-4)] h0 by (simp add: low26)
  then show "acc_val (donna_carry st) mod poly1305_prime = acc_val st mod poly1305_prime"
    by (metis mod_mult_self1)
qed

lemma limbs_less:
  "a0 < 2 ^ 26 \<Longrightarrow> a1 < 2 ^ 26 \<Longrightarrow> a2 < 2 ^ 26 \<Longrightarrow> a3 < 2 ^ 26 \<Longrightarrow> limbs a0 a1 a2 a3 a4 < 2 ^ 130 \<longleftrightarrow> a4 < 2 ^ 26"
  by (simp add: limbs_def) linarith

lemma donna_freeze_cases:
  assumes "carried_ok st"
  shows "(acc_val st < poly1305_prime \<longrightarrow> donna_freeze st = st) \<and>
    (poly1305_prime \<le> acc_val st \<longrightarrow> (\<exists>g0 g1 g2 g3 g4. donna_freeze st = st\<lparr>st_h0 := g0, st_h1 := g1, st_h2 := g2, st_h3 := g3, st_h4 := g4\<rparr> \<and>
       unat g0 < 2 ^ 26 \<and> unat g1 < 2 ^ 26 \<and> unat g2 < 2 ^ 26 \<and> unat g3 < 2 ^ 26 \<and> unat g4 < 2 ^ 26 \<and>
       limbs (unat g0) (unat g1) (unat g2) (unat g3) (unat g4) = acc_val st - poly1305_prime))"
proof -
  note h = assms [unfolded carried_ok_def]
  define v0 where "v0 = st_h0 st + 5"
  define v1 where "v1 = st_h1 st + drop_bit 26 v0"
  define v2 where "v2 = st_h2 st + drop_bit 26 v1"
  define v3 where "v3 = st_h3 st + drop_bit 26 v2"
  define v4 where "v4 = st_h4 st + drop_bit 26 v3"
  have v0: "unat v0 = unat (st_h0 st) + 5" "unat v0 div 2 ^ 26 < 42"
    unfolding v0_def using h by (simp_all add: unat_add_u32 div_less_iff_less_mult)
  have v: "unat v1 = unat (st_h1 st) + unat v0 div 2 ^ 26" "unat v2 = unat (st_h2 st) + unat v1 div 2 ^ 26"
    "unat v3 = unat (st_h3 st) + unat v2 div 2 ^ 26" "unat v4 = unat (st_h4 st) + unat v3 div 2 ^ 26"
    using h carry_word [of "st_h1 st" v0] carry_word [of "st_h2 st" v1] carry_word [of "st_h3 st" v2] carry_word [of "st_h4 st" v3]
    by (simp_all only: v1_def [symmetric] v2_def [symmetric] v3_def [symmetric] v4_def [symmetric] simp_thms)
  have t: "unat v3 div 2 ^ 26 \<le> 1" by (rule carry_top(3) [OF _ _ _ _ v0(2) v]) (use h in auto)
  then have v4: "unat v4 \<le> 2 ^ 26" unfolding v(4) using h by linarith
  have e: "acc_val st + 5 = limbs (unat v0 mod 2 ^ 26) (unat v1 mod 2 ^ 26) (unat v2 mod 2 ^ 26) (unat v3 mod 2 ^ 26) (unat v4)"
    unfolding acc_val_def v(4)
    by (rule freeze_linear [where ?q0.0 = "unat v0 div 2 ^ 26" and ?q1.0 = "unat v1 div 2 ^ 26" and
          ?q2.0 = "unat v2 div 2 ^ 26"]) (simp_all only: mod_mult_div_eq v(1-3) v0(1))
  have less: "unat v4 < 2 ^ 26 \<longleftrightarrow> acc_val st < poly1305_prime"
  proof -
    have "acc_val st + 5 < 2 ^ 130 \<longleftrightarrow> unat v4 < 2 ^ 26"
      unfolding e by (rule limbs_less) simp_all
    then show ?thesis by (simp add: poly1305_prime_def less_diff_conv)
  qed
  have d: "donna_freeze st =
      (let b = drop_bit 31 (v4 - push_bit 26 1) - 1; nb = NOT b
       in st\<lparr>st_h0 := (st_h0 st AND nb) OR ((v0 AND 0x3ffffff) AND b), st_h1 := (st_h1 st AND nb) OR ((v1 AND 0x3ffffff) AND b),
           st_h2 := (st_h2 st AND nb) OR ((v2 AND 0x3ffffff) AND b), st_h3 := (st_h3 st AND nb) OR ((v3 AND 0x3ffffff) AND b),
           st_h4 := (st_h4 st AND nb) OR ((v4 - push_bit 26 1) AND b)\<rparr>)"
    by (simp add: donna_freeze_def Let_def v0_def v1_def v2_def v3_def v4_def)
  show ?thesis
  proof (cases "unat v4 < 2 ^ 26")
    case True
    have "drop_bit 31 (v4 - push_bit 26 1) = 1"
      by (rule top_bit_borrow [OF True])
    then show ?thesis using True less unfolding d Let_def by (simp only:) simp
  next
    case False
    then have v4: "v4 = push_bit 26 1" using v4 by (simp add: word_unat_eq_iff)
    have n: "\<not> acc_val st < poly1305_prime" using False less by simp
    have d': "donna_freeze st = st\<lparr>st_h0 := v0 AND 0x3ffffff, st_h1 := v1 AND 0x3ffffff, st_h2 := v2 AND 0x3ffffff,
        st_h3 := v3 AND 0x3ffffff, st_h4 := 0\<rparr>"
      unfolding d v4 Let_def by simp
    have "limbs (unat v0 mod 2 ^ 26) (unat v1 mod 2 ^ 26) (unat v2 mod 2 ^ 26) (unat v3 mod 2 ^ 26) 0 = acc_val st - poly1305_prime"
      using e n unfolding v4 by (simp add: limbs_def poly1305_prime_def)
    then have "limbs (unat (v0 AND 0x3ffffff)) (unat (v1 AND 0x3ffffff)) (unat (v2 AND 0x3ffffff)) (unat (v3 AND 0x3ffffff)) (unat (0 :: u32)) =
        acc_val st - poly1305_prime" by (simp add: low26)
    moreover have "unat (w AND 0x3ffffff) < 2 ^ 26" for w :: u32 by (simp add: low26)
    ultimately show ?thesis using n d' by (intro conjI impI) (blast, metis unsigned_0 zero_less_numeral zero_less_power)
  qed
qed

section \<open>The tag\<close>

lemma unat_or_shift:
  assumes "unat (lo :: u32) < 2 ^ k" "k < 32"
  shows "unat (lo OR push_bit k hi) = unat lo + 2 ^ k * (unat hi mod 2 ^ (32 - k))"
proof -
  have "unat (push_bit k hi) = push_bit k (unat hi mod 2 ^ (32 - k))"
    using assms(2) by (simp add: unsigned_push_bit_eq push_bit_take_bit flip: take_bit_eq_mod)
  then show ?thesis
    using nat_push_bit_or [OF assms(1), of "unat hi mod 2 ^ (32 - k)"]
    by (simp add: unsigned_or_eq or.commute [of lo] push_bit_eq_mult)
qed

lemma unat_or_collision:
  assumes "2 ^ 26 \<le> unat (h0 :: u32)" "unat h0 < 2 ^ 26 + 5" "unat h1 < 42" "even (unat h1)"
  shows "unat (h0 OR push_bit 26 h1) = unat h0 + 2 ^ 26 * unat h1"
proof -
  define j where "j = h0 - push_bit 26 1"
  have j: "unat j = unat h0 - 2 ^ 26" "unat j < 2 ^ 26"
    unfolding j_def using assms(1,2) by (simp_all add: unat_sub word_le_nat_alt)
  then have "h0 = j OR push_bit 26 1"
    using unat_or_shift [of j 26 1] assms(1) by (simp add: word_unat_eq_iff)
  then have "h0 OR push_bit 26 h1 = j OR push_bit 26 (1 OR h1)"
    by (simp only: push_bit_or or.assoc)
  moreover have "unat (1 OR h1) = unat h1 + 1"
    using assms(4) one_or_eq [of "unat h1"] by (simp only: unsigned_or_eq unsigned_1) simp
  ultimately show ?thesis using unat_or_shift [OF j(2), of "1 OR h1"] j(1) assms(1,3) by simp
qed

lemma sum_words:
  assumes "n3 = w3 + k3 + f2 div 2 ^ 32" "f2 = w2 + k2 + f1 div 2 ^ 32" "f1 = w1 + k1 + f0 div 2 ^ 32" "f0 = w0 + k0"
  shows "le_bytes 16 ((w0 + 2 ^ 32 * w1 + 2 ^ 64 * w2 + 2 ^ 96 * w3) + (k0 + 2 ^ 32 * k1 + 2 ^ 64 * k2 + 2 ^ 96 * k3)) =
    le_bytes 4 f0 @ le_bytes 4 f1 @ le_bytes 4 f2 @ le_bytes 4 n3"
proof -
  have s: "le_bytes (4 + n) (f + 2 ^ 32 * r) = le_bytes 4 f @ le_bytes n (f div 2 ^ 32 + r)" for n f r
    using le_bytes_mod [of 4 "f + 2 ^ 32 * r"] le_bytes_mod [of 4 f] le_bytes_append [of 4 n "f + 2 ^ 32 * r"]
    by (simp add: add.commute)
  have s12: "le_bytes 16 (f + 2 ^ 32 * r) = le_bytes 4 f @ le_bytes 12 (f div 2 ^ 32 + r)" for f r
    using s [of 12 f r] by simp
  have s8: "le_bytes 12 (f + 2 ^ 32 * r) = le_bytes 4 f @ le_bytes 8 (f div 2 ^ 32 + r)" for f r
    using s [of 8 f r] by simp
  have s4: "le_bytes 8 (f + 2 ^ 32 * r) = le_bytes 4 f @ le_bytes 4 (f div 2 ^ 32 + r)" for f r
    using s [of 4 f r] by simp
  have e: "(w0 + 2 ^ 32 * w1 + 2 ^ 64 * w2 + 2 ^ 96 * w3) + (k0 + 2 ^ 32 * k1 + 2 ^ 64 * k2 + 2 ^ 96 * k3) =
      f0 + 2 ^ 32 * ((w1 + k1) + 2 ^ 32 * ((w2 + k2) + 2 ^ 32 * (w3 + k3)))"
    by (simp add: assms(4))
  have e1: "f0 div 2 ^ 32 + ((w1 + k1) + r) = f1 + r" "f1 div 2 ^ 32 + ((w2 + k2) + r) = f2 + r"
    "f2 div 2 ^ 32 + (w3 + k3) = n3" for r
    by (simp_all only: assms(1,2,3) ac_simps)
  show ?thesis by (simp only: e s12 e1 s8 s4)
qed

lemma unat_u32_less: "unat (x :: u32) < 2 ^ 32"
  using unsigned_less [of x] by simp

lemma repack_linear:
  assumes "m1 + 2 ^ 6 * q1 = h1" "m2 + 2 ^ 12 * q2 = h2" "m3 + 2 ^ 18 * q3 = h3" "m4 + 2 ^ 24 * q4 = h4"
  shows "limbs h0 h1 h2 h3 h4 =
    (h0 + 2 ^ 26 * m1) + 2 ^ 32 * (q1 + 2 ^ 20 * m2) + 2 ^ 64 * (q2 + 2 ^ 14 * m3) + 2 ^ 96 * (q3 + 2 ^ 8 * m4) + 2 ^ 128 * q4"
  unfolding limbs_def using assms by simp

lemma unat_store_low: "CRYPTO_store_u32_le (ucast (f :: u64)) = le_bytes 4 (unat f)"
  using le_bytes_mod [of 4 "unat f"] by (simp add: CRYPTO_store_u32_le_def unat_ucast_32)

lemma le_bytes_16_cong: "le_bytes 16 (a + 2 ^ 128 * q + k) = le_bytes 16 (a + k)"
proof -
  have "(a + 2 ^ 128 * q + k) mod 256 ^ 16 = (a + k + 2 ^ 128 * q) mod 2 ^ 128" by (simp add: ac_simps)
  then have "(a + 2 ^ 128 * q + k) mod 256 ^ 16 = (a + k) mod 256 ^ 16" unfolding mod_mult_self2 by simp
  then show ?thesis by (metis le_bytes_mod)
qed

lemma donna_output_ok:
  assumes "unat (st_h1 st) < 2 ^ 26" "unat (st_h2 st) < 2 ^ 26" "unat (st_h3 st) < 2 ^ 26" "unat (st_h4 st) < 2 ^ 26"
    and "unat (st_h0 st OR push_bit 26 (st_h1 st)) = unat (st_h0 st) + 2 ^ 26 * (unat (st_h1 st) mod 2 ^ 6)"
    and "length (st_key st) = 16"
  shows "donna_output st = le_bytes 16 (acc_val st + le_val (st_key st))"
proof -
  define w0 where "w0 = st_h0 st OR push_bit 26 (st_h1 st)"
  define w1 where "w1 = drop_bit 6 (st_h1 st) OR push_bit 20 (st_h2 st)"
  define w2 where "w2 = drop_bit 12 (st_h2 st) OR push_bit 14 (st_h3 st)"
  define w3 where "w3 = drop_bit 18 (st_h3 st) OR push_bit 8 (st_h4 st)"
  define k0 where "k0 = CRYPTO_load_u32_le (st_key st)"
  define k1 where "k1 = CRYPTO_load_u32_le (drop 4 (st_key st))"
  define k2 where "k2 = CRYPTO_load_u32_le (drop 8 (st_key st))"
  define k3 where "k3 = CRYPTO_load_u32_le (drop 12 (st_key st))"
  define f0 where "f0 = (ucast w0 :: u64) + ucast k0"
  define f1 where "f1 = (ucast w1 :: u64) + ucast k1 + drop_bit 32 f0"
  define f2 where "f2 = (ucast w2 :: u64) + ucast k2 + drop_bit 32 f1"
  define f3 where "f3 = (ucast w3 :: u64) + ucast k3 + drop_bit 32 f2"
  have w: "unat w0 = unat (st_h0 st) + 2 ^ 26 * (unat (st_h1 st) mod 2 ^ 6)"
    "unat w1 = unat (st_h1 st) div 2 ^ 6 + 2 ^ 20 * (unat (st_h2 st) mod 2 ^ 12)"
    "unat w2 = unat (st_h2 st) div 2 ^ 12 + 2 ^ 14 * (unat (st_h3 st) mod 2 ^ 18)"
    "unat w3 = unat (st_h3 st) div 2 ^ 18 + 2 ^ 8 * (unat (st_h4 st) mod 2 ^ 24)"
    unfolding w0_def w1_def w2_def w3_def using assms(1-5)
    by (simp_all add: unat_or_shift unat_drop_bit div_less_iff_less_mult)
  have add3: "unat ((ucast x :: u64) + ucast y + drop_bit 32 f) = unat x + unat y + unat f div 2 ^ 32"
    for x y :: u32 and f :: u64
  proof -
    have "unat f div 2 ^ 32 < 2 ^ 32" using unsigned_less [of f] by (simp add: div_less_iff_less_mult)
    then show ?thesis using unat_u32_less [of x] unat_u32_less [of y]
      by (simp add: unat_add_u64 unat_ucast_u32 unat_drop_bit)
  qed
  have f: "unat f3 = unat w3 + unat k3 + unat f2 div 2 ^ 32" "unat f2 = unat w2 + unat k2 + unat f1 div 2 ^ 32"
    "unat f1 = unat w1 + unat k1 + unat f0 div 2 ^ 32" "unat f0 = unat w0 + unat k0"
    unfolding f3_def f2_def f1_def by (simp_all only: add3)
      (use unat_u32_less [of w0] unat_u32_less [of k0] in \<open>simp add: f0_def unat_add_u64 unat_ucast_u32\<close>)
  have "donna_output st = le_bytes 4 (unat f0) @ le_bytes 4 (unat f1) @ le_bytes 4 (unat f2) @ le_bytes 4 (unat f3)"
    unfolding donna_output_def Let_def unat_store_low
    by (simp only: f3_def f2_def f1_def f0_def w0_def w1_def w2_def w3_def k0_def k1_def k2_def k3_def add.assoc)
  also have "\<dots> = le_bytes 16 ((unat w0 + 2 ^ 32 * unat w1 + 2 ^ 64 * unat w2 + 2 ^ 96 * unat w3) + le_val (st_key st))"
    unfolding sum_words [OF f, symmetric] le_val_words [OF assms(6)] k0_def k1_def k2_def k3_def ..
  also have "\<dots> = le_bytes 16 (acc_val st + le_val (st_key st))"
  proof -
    have "acc_val st = unat w0 + 2 ^ 32 * unat w1 + 2 ^ 64 * unat w2 + 2 ^ 96 * unat w3 + 2 ^ 128 * (unat (st_h4 st) div 2 ^ 24)"
      unfolding acc_val_def w by (rule repack_linear) simp_all
    then show ?thesis by (simp only: le_bytes_16_cong)
  qed
  finally show ?thesis .
qed

text \<open>
  The residues for which the code goes wrong: \<open>h0\<close> keeps a carry that \<open>donna_output\<close> merges with the
  lowest bit of \<open>h1\<close>.
\<close>

definition collides :: "nat \<Rightarrow> bool" where
  "collides a \<longleftrightarrow> 2 ^ 27 \<le> a \<and> a < 2 ^ 32 \<and> a mod 2 ^ 26 < 5 \<and> even (a div 2 ^ 26)"

lemma collidesI:
  assumes "j < 5" "n < 42" "odd n"
  shows "collides (j + 2 ^ 26 * (n + 1))"
proof -
  have j: "j < 2 ^ 26" using assms(1) by simp
  have "(j + 2 ^ 26 * (n + 1)) mod 2 ^ 26 = j"
    unfolding mod_mult_self2 by (rule mod_less) (rule j)
  moreover have "(j + 2 ^ 26 * (n + 1)) div 2 ^ 26 = n + 1"
    using div_mult_self2 [of "2 ^ 26" j "n + 1"] j by simp
  moreover have "2 ^ 26 * 2 \<le> 2 ^ 26 * (n + 1)" "2 ^ 26 * (n + 1) < 2 ^ 26 * 43"
    using assms(2) odd_pos [OF assms(3)] by simp_all
  ultimately show ?thesis unfolding collides_def using assms by simp
qed

lemma finish_ok:
  assumes "h_ok st" "length (st_key st) = 16" "\<not> collides (acc_val st mod poly1305_prime)"
  shows "donna_output (donna_freeze (donna_carry st)) =
    le_bytes 16 (acc_val st mod poly1305_prime + le_val (st_key st))"
proof -
  let ?c = "donna_carry st"
  note c = donna_carry_ok [OF assms(1)]
  note h = c(1) [unfolded carried_ok_def]
  have key: "st_key ?c = st_key st" by (rule poly_frame_eq(3) [OF c(2)])
  show ?thesis
  proof (cases "acc_val ?c < poly1305_prime")
    case True
    then have f: "donna_freeze ?c = ?c" and a: "acc_val ?c = acc_val st mod poly1305_prime"
      using donna_freeze_cases [OF c(1)] c(3) by simp_all
    have "unat (st_h0 ?c OR push_bit 26 (st_h1 ?c)) = unat (st_h0 ?c) + 2 ^ 26 * (unat (st_h1 ?c) mod 2 ^ 6)"
    proof (cases "unat (st_h0 ?c) < 2 ^ 26")
      case True
      then show ?thesis using unat_or_shift [OF True, of "st_h1 ?c"] by simp
    next
      case False
      define j where "j = unat (st_h0 ?c) - 2 ^ 26"
      have j: "unat (st_h0 ?c) = 2 ^ 26 + j" using False by (simp add: j_def)
      then have "acc_val ?c = j + 2 ^ 26 * (unat (st_h1 ?c) + 1)" "j < 5" "unat (st_h1 ?c) < 42"
        using h by (simp_all add: acc_val_def limbs_def)
      then have "even (unat (st_h1 ?c))"
        using assms(3) collidesI [of j "unat (st_h1 ?c)"] unfolding a [symmetric] by auto
      then show ?thesis using unat_or_collision [of "st_h0 ?c" "st_h1 ?c"] h False by simp
    qed
    then show ?thesis unfolding f using donna_output_ok [of ?c] h assms(2) key a by simp
  next
    case False
    then obtain g0 g1 g2 g3 g4 where g: "donna_freeze ?c = ?c\<lparr>st_h0 := g0, st_h1 := g1, st_h2 := g2, st_h3 := g3, st_h4 := g4\<rparr>"
      "unat g0 < 2 ^ 26" "unat g1 < 2 ^ 26" "unat g2 < 2 ^ 26" "unat g3 < 2 ^ 26" "unat g4 < 2 ^ 26"
      "limbs (unat g0) (unat g1) (unat g2) (unat g3) (unat g4) = acc_val ?c - poly1305_prime"
      using donna_freeze_cases [OF c(1)] by auto
    have "acc_val ?c < 2 * poly1305_prime"
      using h by (simp add: acc_val_def limbs_def poly1305_prime_def)
    then have "acc_val ?c - poly1305_prime < poly1305_prime" using False by linarith
    then have a: "acc_val ?c - poly1305_prime = acc_val st mod poly1305_prime"
      using False c(3) by (metis le_mod_geq mod_less not_less)
    show ?thesis unfolding g(1) using g a key assms(2)
      by (subst donna_output_ok) (simp_all add: unat_or_shift acc_val_def)
  qed
qed

end
