(* ===== verification/Poly1305Props.thy ===== *)
theory Poly1305Props
  imports Poly1305Finish Streaming
begin

text \<open>
  Poly1305 on messages that arrive in pieces: the 16 byte buffer, the \<open>digest\<close> contract, and the
  properties of the whole interface.
\<close>

section \<open>Messages in pieces\<close>

text \<open>The state without its buffer, and the state that a key starts with.\<close>

definition poly_core :: "poly1305_state_st \<Rightarrow> poly1305_state_st" where
  "poly_core st = st\<lparr>st_buf := [], st_buf_used := 0\<rparr>"

definition key_state :: "u8 list \<Rightarrow> poly1305_state_st" where
  "key_state key = poly_core (CRYPTO_poly1305_init
     \<lparr>st_r0 = 0, st_r1 = 0, st_r2 = 0, st_r3 = 0, st_r4 = 0, st_s1 = 0, st_s2 = 0, st_s3 = 0, st_s4 = 0,
      st_h0 = 0, st_h1 = 0, st_h2 = 0, st_h3 = 0, st_h4 = 0, st_buf = [], st_buf_used = 0, st_key = []\<rparr> key)"

lemma poly_core_init: "poly_core (CRYPTO_poly1305_init st key) = key_state key"
  by (simp add: key_state_def poly_core_def CRYPTO_poly1305_init_def Let_def)

lemma core_fields:
  "h_ok (poly_core st) = h_ok st" "r_ok (poly_core st) = r_ok st" "key_r (poly_core st) = key_r st"
  "acc_val (poly_core st) = acc_val st" "st_key (poly_core st) = st_key st"
  by (simp_all add: poly_core_def h_ok_def r_ok_def key_r_def acc_val_def)

lemma core_donna:
  "poly_core (donna_add hibit p st) = donna_add hibit p (poly_core st)"
  "poly_core (poly1305_donna_mul st) = poly1305_donna_mul (poly_core st)"
  by (simp_all add: poly_core_def donna_add_def poly1305_donna_mul_def donna_products_def Let_def)

lemma core_update: "poly_core (poly1305_update st inp) = poly1305_update (poly_core st) inp"
proof (induction st inp rule: poly1305_update.induct)
  case (1 st inp)
  then show ?case
    by (subst (1 2) poly1305_update.simps)
      (simp add: poly1305_donna_atmost15bytes_def poly1305_donna_16bytes_def core_donna Let_def)
qed

lemma core_final: "donna_output (donna_freeze (donna_carry (poly_core st))) = donna_output (donna_freeze (donna_carry st))"
  by (simp add: poly_core_def donna_carry_def donna_freeze_def donna_output_def Let_def)

lemma update_Nil: "poly1305_update st [] = st"
  by (simp add: poly1305_update.simps poly1305_donna_atmost15bytes_def)

lemma poly1305_update_append:
  "16 dvd length xs \<Longrightarrow> poly1305_update st (xs @ ys) = poly1305_update (poly1305_update st xs) ys"
proof (induction st xs rule: poly1305_update.induct)
  case (1 st xs)
  show ?case
  proof (cases "length xs < 16")
    case True
    then have "xs = []" using 1(2) by (auto dest: dvd_imp_le)
    then show ?thesis by (simp add: update_Nil)
  next
    case False
    then have "16 dvd length (drop 16 xs)" using 1(2) by (simp add: dvd_diff_nat)
    moreover have "poly1305_donna_16bytes (xs @ ys) st = poly1305_donna_16bytes xs st"
      using False by (simp add: poly1305_donna_16bytes_def donna_add_def CRYPTO_load_u32_le_def Let_def)
    ultimately show ?thesis using False 1(1) by (simp add: poly1305_update.simps [of st])
  qed
qed

definition blocks_tail :: "u8 list \<Rightarrow> poly1305_state_st \<Rightarrow> u8 list \<Rightarrow> u8 list \<Rightarrow> bool" where
  "blocks_tail key st full tail \<longleftrightarrow> poly_core st = poly1305_update (key_state key) full \<and>
     16 dvd length full \<and> length (st_buf st) = 16 \<and> length tail < 16 \<and> st_buf_used st = length tail \<and>
     take (length tail) (st_buf st) = tail"

definition poly_absorbed :: "u8 list \<Rightarrow> poly1305_state_st \<Rightarrow> u8 list \<Rightarrow> bool" where
  "poly_absorbed key st m \<longleftrightarrow> (\<exists>full tail. m = full @ tail \<and> blocks_tail key st full tail)"

lemma update_buf: "st_buf (poly1305_update st x) = st_buf st" "st_buf_used (poly1305_update st x) = st_buf_used st"
proof -
  have a: "st_buf (donna_add hibit p st) = st_buf st" "st_buf_used (donna_add hibit p st) = st_buf_used st"
    "st_buf (poly1305_donna_mul st) = st_buf st" "st_buf_used (poly1305_donna_mul st) = st_buf_used st" for hibit p st
    using poly_frame_eq(4,5) [OF poly_frame_donna(1)] poly_frame_eq(4,5) [OF poly_frame_donna(2)] by simp_all
  have "st_buf (poly1305_update st x) = st_buf st \<and> st_buf_used (poly1305_update st x) = st_buf_used st"
    by (induction st x rule: poly1305_update.induct)
      (subst (1 2) poly1305_update.simps, simp add: poly1305_donna_atmost15bytes_def poly1305_donna_16bytes_def a Let_def)
  then show "st_buf (poly1305_update st x) = st_buf st" "st_buf_used (poly1305_update st x) = st_buf_used st" by simp_all
qed

lemma absorb_blocks:
  assumes "blocks_tail key st full []" "16 dvd length x"
  shows "blocks_tail key (poly1305_update st x) (full @ x) []"
  using assms by (simp add: blocks_tail_def core_update poly1305_update_append update_buf)

lemma fill_buf_fields: "poly_core (fill_buf i x st) = poly_core st" "st_buf_used (fill_buf i x st) = i + length x"
  by (simp_all add: fill_buf_def poly_core_def)

lemma absorb_tail:
  assumes "blocks_tail key st full tail" "length tail + length x < 16"
  shows "blocks_tail key (fill_buf (length tail) x st) full (tail @ x)"
  using assms by (simp add: blocks_tail_def fill_buf_fields) (simp add: fill_buf_def)

lemma complete_block:
  assumes "blocks_tail key st full tail" "length tail + length x = 16"
  defines "st' \<equiv> fill_buf (length tail) x st"
  shows "blocks_tail key ((poly1305_update st' (st_buf st'))\<lparr>st_buf_used := 0\<rparr>) (full @ tail @ x) []"
proof -
  note s = assms(1) [unfolded blocks_tail_def]
  have b: "st_buf st' = tail @ x" using s assms(2) by (simp add: st'_def fill_buf_def)
  have "poly_core ((poly1305_update st' (tail @ x))\<lparr>st_buf_used := 0\<rparr>) = poly_core (poly1305_update st' (tail @ x))"
    by (simp add: poly_core_def)
  then show ?thesis using s assms(2)
    by (simp add: b blocks_tail_def core_update poly1305_update_append update_buf) (simp add: st'_def fill_buf_fields)
qed

lemma update_without_tail:
  assumes "blocks_tail key st full []"
  shows "poly_absorbed key (CRYPTO_poly1305_update st x) (full @ x)"
proof -
  define todo where "todo = length x div 16 * 16"
  have u: "st_buf_used st = 0" using assms by (simp add: blocks_tail_def)
  have "todo \<le> length x" by (simp add: todo_def)
  then have t: "16 dvd length (take todo x)" "length (drop todo x) < 16"
    by (simp_all only: length_take length_drop min_absorb2) (simp_all add: todo_def minus_div_mult_eq_mod)
  note b = absorb_blocks [OF assms t(1)]
  have b': "blocks_tail key (if 16 \<le> length x then poly1305_update st (take todo x) else st) (full @ take todo x) []"
    using b assms by (auto simp: todo_def)
  have e: "CRYPTO_poly1305_update st x =
      (let st' = (if 16 \<le> length x then poly1305_update st (take todo x) else st)
       in if drop todo x \<noteq> [] then fill_buf 0 (drop todo x) st' else st')"
    by (cases "x = []") (auto simp: CRYPTO_poly1305_update_def Let_def u todo_def)
  show ?thesis
  proof (cases "drop todo x = []")
    case True
    then show ?thesis unfolding e Let_def poly_absorbed_def using b'
      by (intro exI [of _ "full @ take todo x"] exI [of _ "[]"]) simp
  next
    case False
    have "blocks_tail key (CRYPTO_poly1305_update st x) (full @ take todo x) ([] @ drop todo x)"
      unfolding e Let_def using False absorb_tail [OF b', of "drop todo x"] t(2) by simp
    then show ?thesis unfolding poly_absorbed_def by (metis append.assoc append_Nil append_take_drop_id)
  qed
qed

lemma update_with_tail:
  assumes "blocks_tail key st full tail" "tail \<noteq> []"
  shows "poly_absorbed key (CRYPTO_poly1305_update st x) (full @ tail @ x)"
proof -
  have u: "st_buf_used st = length tail" "length tail < 16" using assms(1) by (simp_all add: blocks_tail_def)
  show ?thesis
  proof (cases "length tail + length x < 16")
    case True
    then have "CRYPTO_poly1305_update st x = fill_buf (length tail) x st" if "x \<noteq> []"
      using that u assms(2) by (simp add: CRYPTO_poly1305_update_def Let_def fill_buf_fields)
    moreover have "CRYPTO_poly1305_update st [] = st" by (simp add: CRYPTO_poly1305_update_def)
    ultimately show ?thesis unfolding poly_absorbed_def using absorb_tail [OF assms(1) True] assms(1)
      by (cases "x = []") auto
  next
    case False
    define todo where "todo = 16 - length tail"
    have t: "length tail + length (take todo x) = 16" "min (16 - length tail) (length x) = todo" "x \<noteq> []"
      using False u(2) by (auto simp: todo_def)
    define st' where "st' = fill_buf (length tail) (take todo x) st"
    define st2 where "st2 = (poly1305_update st' (st_buf st'))\<lparr>st_buf_used := 0\<rparr>"
    have b: "blocks_tail key st2 (full @ tail @ take todo x) []"
      unfolding st2_def st'_def by (rule complete_block [OF assms(1) t(1)])
    have c: "st_buf_used st' = 16" using t(1) by (simp add: st'_def fill_buf_fields)
    have u2: "st_buf_used st2 = 0" by (simp add: st2_def)
    have "CRYPTO_poly1305_update st x =
        (let st = st2; inp = drop todo x;
           (st, inp) = (if 16 \<le> length inp then
              let todo = length inp div 16 * 16 in (poly1305_update st (take todo inp), drop todo inp) else (st, inp))
         in if inp \<noteq> [] then fill_buf 0 inp st else st)"
      unfolding CRYPTO_poly1305_update_def u(1) t(2) Let_def st'_def [symmetric] using assms(2) t(3) c
      by (simp only: st2_def [symmetric] length_0_conv simp_thms if_True if_False prod.case)
    also have "\<dots> = CRYPTO_poly1305_update st2 (drop todo x)"
      by (cases "length x \<le> todo") (simp_all add: CRYPTO_poly1305_update_def u2)
    finally have "CRYPTO_poly1305_update st x = CRYPTO_poly1305_update st2 (drop todo x)" .
    moreover have "full @ tail @ x = (full @ tail @ take todo x) @ drop todo x" by simp
    ultimately show ?thesis using update_without_tail [OF b, of "drop todo x"] by (simp only:)
  qed
qed

lemma update_absorbed: "poly_absorbed key st m \<Longrightarrow> poly_absorbed key (CRYPTO_poly1305_update st x) (m @ x)"
  using update_with_tail update_without_tail unfolding poly_absorbed_def [of key st]
  by (metis append.assoc append_Nil2)

text \<open>The tag as a function of the bytes, and when it is the one of RFC 8439.\<close>

definition poly1305_mac :: "u8 list \<Rightarrow> u8 list \<Rightarrow> u8 list" where
  "poly1305_mac key m = donna_output (donna_freeze (donna_carry (poly1305_update (key_state key) m)))"

lemma finish_absorbed:
  assumes "poly_absorbed key st m"
  shows "fst (CRYPTO_poly1305_finish st) = poly1305_mac key m"
proof -
  obtain full tail where m: "m = full @ tail" and s: "blocks_tail key st full tail"
    using assms by (auto simp: poly_absorbed_def)
  note s' = s [unfolded blocks_tail_def]
  have "fst (CRYPTO_poly1305_finish st) = donna_output (donna_freeze (donna_carry (poly1305_update st tail)))"
    using s' by (cases "tail = []") (simp_all add: CRYPTO_poly1305_finish_def Let_def update_Nil)
  also have "\<dots> = donna_output (donna_freeze (donna_carry (poly_core (poly1305_update st tail))))"
    by (rule core_final [symmetric])
  also have "poly_core (poly1305_update st tail) = poly1305_update (key_state key) m"
    using s' by (simp add: core_update m poly1305_update_append)
  finally show ?thesis by (simp add: poly1305_mac_def)
qed

lemma key_state_ok:
  assumes "length key = 32"
  shows "r_ok (key_state key)" "h_ok (key_state key)" "acc_val (key_state key) = 0" "key_r (key_state key) = poly_r key"
    "st_key (key_state key) = drop 16 key"
  using init_ok [of key] assms by (simp_all add: poly_core_init [symmetric, of key undefined] core_fields)

lemma mac_tag:
  assumes "length key = 32" "\<not> collides (poly_eval (poly_r key) 0 m)"
  shows "poly1305_mac key m = poly1305_tag key m"
proof -
  note k = key_state_ok [OF assms(1)]
  define st where "st = poly1305_update (key_state key) m"
  have h: "h_ok st" and f: "poly_frame st = poly_frame (key_state key)"
    and a: "acc_val st mod poly1305_prime = poly_eval (poly_r key) 0 m"
    using poly1305_update_ok [OF k(2,1), of m] k by (simp_all add: st_def)
  show ?thesis
    using finish_ok [OF h] poly_frame_eq(3) [OF f] a assms k(5) by (simp add: poly1305_mac_def st_def poly1305_tag_def)
qed

lemma init_absorbed:
  "length (st_buf st) = 16 \<Longrightarrow> poly_absorbed key (CRYPTO_poly1305_init st key) []"
  unfolding poly_absorbed_def blocks_tail_def
  by (simp add: poly_core_init update_Nil) (simp add: CRYPTO_poly1305_init_def Let_def)

interpretation poly1305: digest "poly_absorbed key" CRYPTO_poly1305_update
  "\<lambda>st. fst (CRYPTO_poly1305_finish st)" "poly1305_mac key" "\<lambda>m. True"
  for key
  by unfold_locales (simp_all add: update_absorbed finish_absorbed)

section \<open>Evaluation\<close>

lemma le_bytes_numeral: "le_bytes (numeral n) v = of_nat v # le_bytes (pred_numeral n) (v div 256)"
  by (subst numeral_eq_Suc [of n]) (rule le_bytes.simps)

lemmas poly1305_eval = Let_def mul32x32_64_def donna_add_def donna_products_def poly1305_donna_mul_def
  poly1305_donna_16bytes_def poly1305_donna_atmost15bytes_def poly1305_update.simps
  CRYPTO_poly1305_init_def fill_buf_def CRYPTO_poly1305_update_def CRYPTO_load_u32_le_def
  CRYPTO_store_u32_le_def le_bytes_numeral

lemmas poly1305_spec_eval = poly1305_tag_def poly_eval.simps poly_r_def poly1305_prime_def le_bytes_numeral

definition collision_key :: "u8 list" where
  "collision_key =
    [0xa2, 0x2a, 0xcd, 0x06, 0x0c, 0x25, 0x03, 0xb2, 0x59, 0x1f, 0x8c, 0xd9, 0x98, 0xfb, 0xfe, 0x65,
     0x28, 0x5b, 0x5d, 0xe1, 0x92, 0xc1, 0xde, 0x12, 0x4d, 0x5a, 0x2c, 0x54, 0x95, 0xdb, 0x68, 0xf2]"

definition collision_message :: "u8 list" where
  "collision_message =
    [0x31, 0xb3, 0xe5, 0xa6, 0x2e, 0x07, 0xd3, 0x82, 0xf5, 0xdb, 0x2d, 0x0d, 0xa7, 0x5d, 0x68, 0xc2]"

definition rfc_key :: "u8 list" where
  "rfc_key =
    [0x85, 0xd6, 0xbe, 0x78, 0x57, 0x55, 0x6d, 0x33, 0x7f, 0x44, 0x52, 0xfe, 0x42, 0xd5, 0x06, 0xa8,
     0x01, 0x03, 0x80, 0x8a, 0xfb, 0x0d, 0xb2, 0xfd, 0x4a, 0xbf, 0xf6, 0xaf, 0x41, 0x49, 0xf5, 0x1b]"

definition rfc_message :: "u8 list" where
  "rfc_message =
    [0x43, 0x72, 0x79, 0x70, 0x74, 0x6f, 0x67, 0x72, 0x61, 0x70, 0x68, 0x69, 0x63, 0x20, 0x46, 0x6f,
     0x72, 0x75, 0x6d, 0x20, 0x52, 0x65, 0x73, 0x65, 0x61, 0x72, 0x63, 0x68, 0x20, 0x47, 0x72, 0x6f,
     0x75, 0x70]"

definition fresh_poly1305 :: poly1305_state_st where
  "fresh_poly1305 = \<lparr>st_r0 = 0, st_r1 = 0, st_r2 = 0, st_r3 = 0, st_r4 = 0, st_s1 = 0, st_s2 = 0, st_s3 = 0,
     st_s4 = 0, st_h0 = 0, st_h1 = 0, st_h2 = 0, st_h3 = 0, st_h4 = 0, st_buf = replicate 16 0,
     st_buf_used = 0, st_key = []\<rparr>"

lemma rfc_lengths: "length rfc_key = 32" "length (take 16 rfc_message) = 16" "length (st_buf fresh_poly1305) = 16"
  by (simp_all add: rfc_key_def rfc_message_def fresh_poly1305_def)

text \<open>The states of the collision, with everything but the accumulator in \<open>collision_state\<close>.\<close>

definition collision_state :: "poly1305_state_st \<Rightarrow> poly1305_state_st" where
  "collision_state st = st\<lparr>st_r0 := 47000226, st_r1 := 13189889, st_r2 := 32866336, st_r3 := 39855664,
     st_r4 := 392955, st_s1 := 65949445, st_s2 := 164331680, st_s3 := 199278320, st_s4 := 1964775,
     st_buf_used := 0, st_key := drop 16 collision_key\<rparr>"

lemma collision_init:
  "CRYPTO_poly1305_init st collision_key =
     (collision_state st)\<lparr>st_h0 := 0, st_h1 := 0, st_h2 := 0, st_h3 := 0, st_h4 := 0\<rparr>"
  by (simp add: poly1305_eval collision_key_def collision_state_def)

lemma collision_loaded:
  "donna_add (push_bit 24 1) collision_message (CRYPTO_poly1305_init st collision_key) =
     (collision_state st)\<lparr>st_h0 := 48608049, st_h1 := 12700585, st_h2 := 29317165, st_h3 := 43791543, st_h4 := 29517917\<rparr>"
  unfolding collision_init by (simp add: donna_add_def Let_def CRYPTO_load_u32_le_def collision_message_def)

lemma collision_block:
  "poly1305_update (CRYPTO_poly1305_init st collision_key) collision_message =
     (collision_state st)\<lparr>st_h0 := 268435455, st_h1 := 67108862, st_h2 := 67108863, st_h3 := 67108863, st_h4 := 67108863\<rparr>"
proof -
  have "poly1305_update (CRYPTO_poly1305_init st collision_key) collision_message =
      poly1305_donna_mul (donna_add (push_bit 24 1) collision_message (CRYPTO_poly1305_init st collision_key))"
    by (simp add: poly1305_update.simps poly1305_donna_16bytes_def poly1305_donna_atmost15bytes_def collision_message_def)
  then show ?thesis unfolding collision_loaded
    by (simp add: poly1305_donna_mul_def donna_products_def mul32x32_64_def Let_def collision_state_def)
qed

section \<open>Properties\<close>

text \<open>
  C36: Poly1305 computes the tag of RFC 8439 however the message is cut into pieces, unless the
  residue of the message is one of the few that \<open>collides\<close> names.
\<close>

theorem poly1305_tag_of_chunks:
  assumes "length key = 32" "length (st_buf st) = 16"
    and "\<not> collides (poly_eval (poly_r key) 0 (concat ms))"
  shows "fst (CRYPTO_poly1305_finish (foldl CRYPTO_poly1305_update (CRYPTO_poly1305_init st key) ms)) =
    poly1305_tag key (concat ms)"
  using poly1305.digest_of_chunks [OF init_absorbed [OF assms(2)]] mac_tag [OF assms(1,3)] by simp

theorem poly1305_tag_of_chunks_witness:
  "fst (CRYPTO_poly1305_finish (foldl CRYPTO_poly1305_update (CRYPTO_poly1305_init fresh_poly1305 rfc_key)
      [take 5 rfc_message, [], drop 5 rfc_message])) =
    [0xa8, 0x06, 0x1d, 0xc1, 0x30, 0x51, 0x36, 0xc6, 0xc2, 0x2b, 0x8b, 0xaf, 0x0c, 0x01, 0x27, 0xa9]"
proof -
  have e: "poly_eval (poly_r rfc_key) 0 rfc_message = 0x28d31b7caff946c77c8844335369d03a7"
    by (simp add: poly1305_spec_eval rfc_key_def rfc_message_def)
  have "\<not> collides (poly_eval (poly_r rfc_key) 0 (concat [take 5 rfc_message, [], drop 5 rfc_message]))"
    by (simp add: e collides_def)
  moreover have "poly1305_tag rfc_key rfc_message =
    [0xa8, 0x06, 0x1d, 0xc1, 0x30, 0x51, 0x36, 0xc6, 0xc2, 0x2b, 0x8b, 0xaf, 0x0c, 0x01, 0x27, 0xa9]"
    by (simp add: poly1305_tag_def e) (simp add: rfc_key_def le_bytes_numeral)
  ultimately show ?thesis
    using poly1305_tag_of_chunks [of rfc_key fresh_poly1305 "[take 5 rfc_message, [], drop 5 rfc_message]"]
    by (simp add: fresh_poly1305_def rfc_key_def)
qed

text \<open>
  There are a key and a message of 16 bytes whose tag is wrong: the last carry into \<open>h0\<close> is
  lost when \<open>h0\<close> and \<open>h1\<close> are joined by a bitwise or.
\<close>

theorem poly1305_lost_carry:
  "fst (CRYPTO_poly1305_finish (CRYPTO_poly1305_update (CRYPTO_poly1305_init st collision_key) collision_message)) =
     [0x2c, 0x5b, 0x5d, 0xe5, 0x92, 0xc1, 0xde, 0x12, 0x4d, 0x5a, 0x2c, 0x54, 0x95, 0xdb, 0x68, 0xf2] \<and>
   poly1305_tag collision_key collision_message =
     [0x2c, 0x5b, 0x5d, 0xe9, 0x92, 0xc1, 0xde, 0x12, 0x4d, 0x5a, 0x2c, 0x54, 0x95, 0xdb, 0x68, 0xf2]"
proof
  show "fst (CRYPTO_poly1305_finish (CRYPTO_poly1305_update (CRYPTO_poly1305_init st collision_key) collision_message)) =
     [0x2c, 0x5b, 0x5d, 0xe5, 0x92, 0xc1, 0xde, 0x12, 0x4d, 0x5a, 0x2c, 0x54, 0x95, 0xdb, 0x68, 0xf2]"
  proof -
    have "CRYPTO_poly1305_update (CRYPTO_poly1305_init st collision_key) collision_message =
        poly1305_update (CRYPTO_poly1305_init st collision_key) collision_message"
      by (simp add: CRYPTO_poly1305_update_def Let_def collision_init collision_state_def)
        (simp add: collision_message_def)
    then show ?thesis unfolding collision_block CRYPTO_poly1305_finish_def Let_def
      by (simp add: donna_carry_def donna_freeze_def donna_output_def Let_def collision_state_def collision_key_def
          CRYPTO_load_u32_le_def CRYPTO_store_u32_le_def le_bytes_numeral)
  qed
  show "poly1305_tag collision_key collision_message =
     [0x2c, 0x5b, 0x5d, 0xe9, 0x92, 0xc1, 0xde, 0x12, 0x4d, 0x5a, 0x2c, 0x54, 0x95, 0xdb, 0x68, 0xf2]"
    by (simp add: poly1305_spec_eval collision_key_def collision_message_def)
qed

text \<open>
  Whatever was absorbed, the limbs stay below their bounds, the buffer holds less than a block,
  and in the next block no product overflows and each carry that is cast to 32 bits fits.
\<close>

theorem poly1305_limbs_bounded:
  assumes "length key = 32" "length (st_buf st) = 16" "length p = 16"
    and "st' = foldl CRYPTO_poly1305_update (CRYPTO_poly1305_init st key) ms"
    and "donna_products (donna_add (push_bit 24 1) p st') = (t0, t1, t2, t3, t4)"
  shows "unat (st_h0 st') < 42 * 2 ^ 26 \<and> unat (st_h1 st') < 2 ^ 26 \<and> unat (st_h2 st') < 2 ^ 26 \<and>
     unat (st_h3 st') < 2 ^ 26 \<and> unat (st_h4 st') < 2 ^ 26 \<and> st_buf_used st' < 16 \<and>
     unat t0 div 2 ^ 26 < 2 ^ 33 \<and> unat t1 + 2 ^ 33 < 2 ^ 58 \<and> unat t2 + 2 ^ 32 < 2 ^ 58 \<and>
     unat t3 + 2 ^ 32 < 2 ^ 58 \<and> unat t4 + 2 ^ 32 < 2 ^ 58"
proof -
  have "poly_absorbed key st' (concat ms)"
    using poly1305.chunks_absorbed [OF init_absorbed [OF assms(2)], of key ms] assms(4) by simp
  then obtain full tail where s: "blocks_tail key st' full tail" by (auto simp: poly_absorbed_def)
  then have c: "poly_core st' = poly1305_update (key_state key) full" and u: "st_buf_used st' < 16"
    by (simp_all add: blocks_tail_def)
  have "h_ok (poly_core st')" and f: "poly_frame (poly_core st') = poly_frame (key_state key)"
    using poly1305_update_ok [OF key_state_ok(2,1) [OF assms(1)], of full] by (simp_all only: c)
  then have h: "h_ok st'" "r_ok st'"
    using poly_frame_eq(1) [OF f] key_state_ok(1) [OF assms(1)] by (simp_all only: core_fields)
  have l: "loaded_ok (donna_add (push_bit 24 1) p st')" by (rule donna_add_ok [OF h(1) assms(3)]) simp
  have "r_ok (donna_add (push_bit 24 1) p st')" using poly_frame_eq(1) [OF poly_frame_donna(2)] h(2) by simp
  note b = product_bounds(6-10) [OF l this assms(5)]
  have "unat t0 div 2 ^ 26 < 2 ^ 33" using b(1) by (simp add: div_less_iff_less_mult)
  moreover have "unat t4 + 2 ^ 32 < 2 ^ 58" using b(5) by simp
  ultimately show ?thesis using b(2-4) h(1) u unfolding h_ok_def by blast
qed

theorem poly1305_limbs_bounded_witness:
  "unat (st_h0 (foldl CRYPTO_poly1305_update (CRYPTO_poly1305_init fresh_poly1305 rfc_key) [rfc_message])) < 42 * 2 ^ 26"
proof -
  obtain t0 t1 t2 t3 t4 where "donna_products (donna_add (push_bit 24 1) (take 16 rfc_message)
      (foldl CRYPTO_poly1305_update (CRYPTO_poly1305_init fresh_poly1305 rfc_key) [rfc_message])) = (t0, t1, t2, t3, t4)"
    by (rule prod_cases5)
  from poly1305_limbs_bounded [OF rfc_lengths(1,3,2) refl this] show ?thesis by blast
qed

end
