(* ===== verification/TlsCbc.thy ===== *)
theory TlsCbc
  imports ConstTime
begin

text \<open>
  Padding and MAC of TLS records in CBC mode, crypto/cipher_extra/tls_cbc.c, written without branches
  on secret data. The record is a list of bytes, and \<open>in_len\<close> is its length; lengths are
  \<open>size_t\<close> words where they enter a mask and naturals where they index an array.
\<close>

section \<open>The code\<close>

text \<open>The result is absent when the record is publicly invalid, else \<open>(*out_padding_ok, *out_len)\<close>.\<close>

definition EVP_tls_cbc_remove_padding :: "u8 list \<Rightarrow> size_t \<Rightarrow> (crypto_word_t \<times> size_t) option" where
  "EVP_tls_cbc_remove_padding inp mac_size =
    (let in_len = (of_nat (length inp) :: size_t); overhead = 1 + mac_size in
     if overhead > in_len then None
     else let padding_length = (ucast (inp ! (length inp - 1)) :: size_t);
              good = constant_time_ge_w in_len (overhead + padding_length);
              to_check = (if 256 > in_len then in_len else 256);
              good = foldl (\<lambda>good i.
                let msk = constant_time_ge_8 padding_length (of_nat i);
                    b = inp ! (length inp - 1 - i)
                in good AND NOT (ucast msk AND (padding_length XOR ucast b))) good [0..<unat to_check];
              good = constant_time_eq_w 0xff (good AND 0xff);
              padding_length = good AND (padding_length + 1)
          in Some (good, in_len - padding_length))"

text \<open>The scan: one turn for the index \<open>i\<close>; \<open>j\<close> is the position in the rotated MAC.\<close>

record mac_scan =
  ms_j :: nat
  ms_mac_started :: u8
  ms_rotated_mac :: "u8 list"
  ms_rotate_offset :: size_t

definition scan_step :: "nat \<Rightarrow> size_t \<Rightarrow> size_t \<Rightarrow> u8 list \<Rightarrow> mac_scan \<Rightarrow> nat \<Rightarrow> mac_scan" where
  "scan_step md_size mac_start mac_end inp s i =
    (let j = (if ms_j s \<ge> md_size then ms_j s - md_size else ms_j s);
         is_mac_start = constant_time_eq_w (of_nat i) mac_start;
         mac_started = ms_mac_started s OR ucast is_mac_start;
         mac_ended = constant_time_ge_8 (of_nat i) mac_end
     in \<lparr>ms_j = j + 1, ms_mac_started = mac_started,
         ms_rotated_mac = (ms_rotated_mac s)[j := ms_rotated_mac s ! j OR (inp ! i AND mac_started AND NOT mac_ended)],
         ms_rotate_offset = ms_rotate_offset s OR (of_nat j AND is_mac_start)\<rparr>)"

definition rotate_step :: "nat \<Rightarrow> nat \<Rightarrow> size_t \<Rightarrow> u8 list \<Rightarrow> u8 list" where
  "rotate_step md_size offset rotate_offset rotated_mac =
    (let skip_rotate = (ucast ((rotate_offset AND 1) - 1) :: u8)
     in map (\<lambda>i. let j = (if offset + i \<ge> md_size then offset + i - md_size else offset + i)
                 in constant_time_select_8 (ucast skip_rotate) (rotated_mac ! i) (rotated_mac ! j)) [0..<md_size])"

function rotate_loop :: "nat \<Rightarrow> nat \<Rightarrow> size_t \<Rightarrow> u8 list \<Rightarrow> u8 list" where
  "rotate_loop md_size offset rotate_offset rotated_mac =
    (if 0 < offset \<and> offset < md_size
     then rotate_loop md_size (2 * offset) (drop_bit 1 rotate_offset)
            (rotate_step md_size offset rotate_offset rotated_mac)
     else rotated_mac)"
  by pat_completeness auto
termination by (relation "measure (\<lambda>(m, o', _, _). m - o')") auto

declare rotate_loop.simps [simp del]

definition EVP_tls_cbc_copy_mac :: "nat \<Rightarrow> u8 list \<Rightarrow> nat \<Rightarrow> u8 list" where
  "EVP_tls_cbc_copy_mac md_size inp in_len =
    (let orig_len = length inp; mac_end = in_len; mac_start = mac_end - md_size;
         scan_start = (if orig_len > md_size + 255 + 1 then orig_len - (md_size + 255 + 1) else 0);
         s = foldl (scan_step md_size (of_nat mac_start) (of_nat mac_end) inp)
               \<lparr>ms_j = 0, ms_mac_started = 0, ms_rotated_mac = replicate md_size 0, ms_rotate_offset = 0\<rparr>
               [scan_start..<orig_len]
     in rotate_loop md_size 1 (ms_rotate_offset s) (ms_rotated_mac s))"

section \<open>Padding\<close>

definition padding_of :: "u8 list \<Rightarrow> nat" where
  "padding_of inp = unat (inp ! (length inp - 1))"

definition padding_valid :: "u8 list \<Rightarrow> nat \<Rightarrow> bool" where
  "padding_valid inp mac_size \<longleftrightarrow>
     (\<exists>body. inp = body @ replicate (padding_of inp + 1) (of_nat (padding_of inp)) \<and> mac_size \<le> length body)"

lemma unat_of_nat_u64: "n < 2 ^ 64 \<Longrightarrow> unat (of_nat n :: u64) = n"
  by (simp add: unat_of_nat)

lemma ge_w_eq: "constant_time_ge_w a b = (if b \<le> a then CONSTTIME_TRUE_W else CONSTTIME_FALSE_W)"
  using not_less [of a b] by (auto simp: constant_time_ge_w_def lt_w_eq CONSTTIME_TRUE_W_def CONSTTIME_FALSE_W_def)

lemma ge_8_eq: "constant_time_ge_8 a b = (if b \<le> a then CONSTTIME_TRUE_8 else CONSTTIME_FALSE_8)"
  by (simp add: constant_time_ge_8_def ge_w_eq masks_8)

lemma low_byte_ones: "0xff = x AND 0xff \<longleftrightarrow> (\<forall>n<8. bit (x :: u64) n)"
proof -
  have m: "(0xff :: u64) = mask 8" by (simp add: mask_numeral)
  show ?thesis
  proof
    assume e: "0xff = x AND 0xff"
    have "bit (0xff :: u64) n" if "n < 8" for n using that by (simp add: m bit_simps)
    then show "\<forall>n<8. bit x n" by (subst (asm) e) (simp add: bit_and_iff)
  qed (auto simp: m bit_eq_iff bit_simps)
qed

lemma foldl_and_not:
  "n < LENGTH('a) \<Longrightarrow> bit (foldl (\<lambda>g i. g AND NOT (v i)) g xs) n \<longleftrightarrow> bit (g :: 'a::len word) n \<and> (\<forall>i\<in>set xs. \<not> bit (v i) n)"
  by (induction xs arbitrary: g) (auto simp: bit_simps)

lemma no_low_bits:
  "(\<forall>n<8. \<not> bit (ucast m AND (ucast x XOR ucast y) :: u64) n) \<longleftrightarrow> m AND (x XOR y) = (0 :: u8)"
  by (auto simp: bit_eq_iff bit_simps)

lemma mask_and_xor: "(if P then CONSTTIME_TRUE_8 else CONSTTIME_FALSE_8) AND (x XOR y) = 0 \<longleftrightarrow> (P \<longrightarrow> x = y)"
proof -
  have T: "CONSTTIME_TRUE_8 = - 1" by code_simp
  have "x XOR y = 0 \<longleftrightarrow> x = y" by (auto simp: bit_eq_iff bit_simps)
  then show ?thesis by (simp add: T CONSTTIME_FALSE_8_def)
qed

lemma foldl_low_byte:
  "0xff = foldl (\<lambda>g i. g AND NOT (v i)) g xs AND 0xff \<longleftrightarrow>
   (\<forall>n<8. bit (g :: u64) n) \<and> (\<forall>i\<in>set xs. \<forall>n<8. \<not> bit (v i) n)"
  unfolding low_byte_ones by (auto simp: foldl_and_not)

lemma padding_check:
  fixes pl :: u8 and in_len :: nat
  shows "0xff = foldl (\<lambda>good i. good AND NOT (ucast (constant_time_ge_8 (ucast pl) (of_nat i)) AND
            (ucast pl XOR ucast (inp ! (length inp - 1 - i)))))
          (if P then CONSTTIME_TRUE_W else CONSTTIME_FALSE_W) xs AND (0xff :: u64) \<longleftrightarrow>
    P \<and> (\<forall>i\<in>set xs. of_nat i \<le> (ucast pl :: u64) \<longrightarrow> pl = inp ! (length inp - 1 - i))"
    (is "0xff = foldl (\<lambda>good i. good AND NOT (?v i)) ?g xs AND 0xff \<longleftrightarrow> _")
proof -
  have v: "(\<forall>n<8. \<not> bit (?v i) n) \<longleftrightarrow> (of_nat i \<le> (ucast pl :: u64) \<longrightarrow> pl = inp ! (length inp - 1 - i))" for i
    unfolding no_low_bits ge_8_eq mask_and_xor ..
  have g: "(\<forall>n<8. bit ?g n) \<longleftrightarrow> P"
    by (auto simp: CONSTTIME_TRUE_W_def CONSTTIME_FALSE_W_def intro: exI [of _ 0])
  show ?thesis unfolding foldl_low_byte v g ..
qed

lemma padding_valid_iff:
  assumes "inp \<noteq> []"
  shows "padding_valid inp mac_size \<longleftrightarrow> mac_size + 1 + padding_of inp \<le> length inp \<and>
    (\<forall>i<256. i < length inp \<longrightarrow> i \<le> padding_of inp \<longrightarrow> inp ! (length inp - 1 - i) = of_nat (padding_of inp))"
    (is "_ \<longleftrightarrow> ?len \<and> ?bytes")
proof
  assume "padding_valid inp mac_size"
  then obtain body where b: "inp = body @ replicate (padding_of inp + 1) (of_nat (padding_of inp))"
    and l: "mac_size \<le> length body" by (auto simp: padding_valid_def)
  then have n: "length inp = length body + (padding_of inp + 1)" by (metis length_append length_replicate)
  have "inp ! (length inp - 1 - i) = of_nat (padding_of inp)" if "i \<le> padding_of inp" for i
  proof -
    have "length inp - 1 - i = length body + (padding_of inp - i)" using n that by simp
    then show ?thesis by (subst b) (simp add: nth_append del: replicate_Suc)
  qed
  then show "?len \<and> ?bytes" using n l by simp
next
  assume h: "?len \<and> ?bytes"
  define k where "k = length inp - (padding_of inp + 1)"
  define body where "body = take k inp"
  have p: "padding_of inp < 256" by (simp add: padding_of_def unat_u8_less)
  have k: "length inp = k + (padding_of inp + 1)" using h unfolding k_def by linarith
  have "inp ! (k + i) = of_nat (padding_of inp)" if "i < padding_of inp + 1" for i
  proof -
    have "inp ! (length inp - 1 - (padding_of inp - i)) = of_nat (padding_of inp)"
      by (rule h [THEN conjunct2, rule_format]) (use p k in auto)
    moreover have "length inp - 1 - (padding_of inp - i) = k + i" using k that by simp
    ultimately show ?thesis by (simp only:)
  qed
  then have "drop k inp = replicate (padding_of inp + 1) (of_nat (padding_of inp))"
    by (intro nth_equalityI) (simp_all add: k del: replicate_Suc)
  then have "inp = body @ replicate (padding_of inp + 1) (of_nat (padding_of inp))"
    unfolding body_def by (metis append_take_drop_id)
  moreover have "mac_size \<le> length body" using h k by (simp add: body_def)
  ultimately show "padding_valid inp mac_size" unfolding padding_valid_def by blast
qed

lemma remove_padding:
  assumes "mac_size < 2 ^ 32" "length inp < 2 ^ 63"
  shows "EVP_tls_cbc_remove_padding inp (of_nat mac_size) =
    (if length inp < mac_size + 1 then None
     else if padding_valid inp mac_size then Some (CONSTTIME_TRUE_W, of_nat (length inp - (padding_of inp + 1)))
     else Some (CONSTTIME_FALSE_W, of_nat (length inp)))"
proof (cases "length inp < mac_size + 1")
  case True
  then have "1 + of_nat mac_size > (of_nat (length inp) :: size_t)"
    using assms by (simp add: word_less_nat_alt unat_of_nat_u64 unat_add_u64)
  then show ?thesis using True by (simp add: EVP_tls_cbc_remove_padding_def Let_def)
next
  case False
  define pl where "pl = inp ! (length inp - 1)"
  have p: "unat pl < 256" "padding_of inp = unat pl" by (simp_all add: unat_u8_less padding_of_def pl_def)
  have u: "unat (1 + of_nat mac_size :: size_t) = 1 + mac_size" "unat (of_nat (length inp) :: size_t) = length inp"
    using assms by (simp_all add: unat_of_nat_u64 unat_add_u64)
  then have n: "\<not> 1 + of_nat mac_size > (of_nat (length inp) :: size_t)"
    using False by (simp add: word_less_nat_alt)
  have ge: "1 + of_nat mac_size + ucast pl \<le> (of_nat (length inp) :: size_t) \<longleftrightarrow> mac_size + 1 + padding_of inp \<le> length inp"
    using u p assms(1) by (simp add: word_le_nat_alt unat_add_u64)
  have c: "unat (if 256 > (of_nat (length inp) :: size_t) then of_nat (length inp) else 256 :: size_t) = min 256 (length inp)"
    using u(2) by (auto simp: word_less_nat_alt)
  have i: "of_nat i \<le> (ucast pl :: size_t) \<longleftrightarrow> i \<le> padding_of inp" if "i < min 256 (length inp)" for i
    using that p by (simp add: word_le_nat_alt unat_of_nat_u64)
  define good where "good = constant_time_eq_w 0xff (foldl (\<lambda>good i. good AND NOT (ucast (constant_time_ge_8 (ucast pl) (of_nat i)) AND
            (ucast pl XOR ucast (inp ! (length inp - 1 - i)))))
          (if 1 + of_nat mac_size + ucast pl \<le> (of_nat (length inp) :: size_t) then CONSTTIME_TRUE_W else CONSTTIME_FALSE_W) [0..<min 256 (length inp)] AND 0xff)"
  have e: "EVP_tls_cbc_remove_padding inp (of_nat mac_size) = Some (good, of_nat (length inp) - (good AND (ucast pl + 1)))"
    unfolding EVP_tls_cbc_remove_padding_def Let_def c good_def ge_w_eq using n by (simp add: pl_def)
  have inp: "inp \<noteq> []" using False by auto
  have "good = (if padding_valid inp mac_size then CONSTTIME_TRUE_W else CONSTTIME_FALSE_W)"
    unfolding good_def eq_w_eq padding_check ge padding_valid_iff [OF inp] using i p by auto
  moreover have "(of_nat (length inp) - (ucast pl + 1) :: size_t) = of_nat (length inp - (padding_of inp + 1))"
    if "padding_valid inp mac_size"
    using that p(2) unfolding padding_valid_iff [OF inp] by (simp add: of_nat_diff)
  ultimately show ?thesis unfolding e using False by (simp add: CONSTTIME_TRUE_W_def CONSTTIME_FALSE_W_def)
qed

section \<open>The MAC\<close>

definition scanned :: "nat \<Rightarrow> nat \<Rightarrow> nat \<Rightarrow> u8 list \<Rightarrow> nat \<Rightarrow> mac_scan \<Rightarrow> bool" where
  "scanned md start d inp n s \<longleftrightarrow>
     (ms_j s = n mod md \<or> (ms_j s = md \<and> n mod md = 0)) \<and>
     ms_mac_started s = (if d < n then CONSTTIME_TRUE_8 else 0) \<and>
     length (ms_rotated_mac s) = md \<and>
     (\<forall>k. d \<le> k \<longrightarrow> k < d + md \<longrightarrow> ms_rotated_mac s ! (k mod md) = (if k < n then inp ! (start + k) else 0)) \<and>
     ms_rotate_offset s = (if d < n then of_nat (d mod md) else 0)"

lemma window_mod_inj:
  assumes "d \<le> k" "k < d + md" "d \<le> n" "n < d + (md :: nat)" "k mod md = n mod md"
  shows "k = n"
proof -
  have w: "k = n" if "k \<le> n" "n - k < md" "k mod md = n mod md" for k n :: nat
  proof -
    have "md dvd n - k" using that mod_eq_dvd_iff_nat [of k n md] by simp
    then show ?thesis using that by (auto dest: nat_dvd_not_less)
  qed
  show ?thesis
  proof (cases "k \<le> n")
    case True
    then show ?thesis by (rule w) (use assms in linarith, rule assms(5))
  next
    case False
    then have "n = k" by (intro w [OF _ _ assms(5) [symmetric]]) (use assms in linarith)+
    then show ?thesis ..
  qed
qed

lemma scan_step_ok:
  assumes s: "scanned md start d inp n s" and md: "0 < md"
    and len: "start + n < 2 ^ 64" "start + d + md < 2 ^ 64"
  shows "scanned md start d inp (Suc n) (scan_step md (of_nat (start + d)) (of_nat (start + d + md)) inp s (start + n))"
proof -
  define j where "j = n mod md"
  note i = s [unfolded scanned_def]
  have jl: "j < md" using md by (simp add: j_def)
  have j: "(if ms_j s \<ge> md then ms_j s - md else ms_j s) = j"
    using i jl by (auto simp: j_def)
  have eq: "constant_time_eq_w (of_nat (start + n)) (of_nat (start + d)) = (if n = d then CONSTTIME_TRUE_W else CONSTTIME_FALSE_W)"
  proof -
    have "(of_nat (start + n) :: u64) = of_nat (start + d) \<longleftrightarrow> start + n = start + d"
      using len unat_of_nat_u64 [of "start + n"] unat_of_nat_u64 [of "start + d"] by (auto simp: word_unat_eq_iff)
    then show ?thesis by (simp add: eq_w_eq)
  qed
  have ge: "constant_time_ge_8 (of_nat (start + n)) (of_nat (start + d + md)) = (if d + md \<le> n then CONSTTIME_TRUE_8 else CONSTTIME_FALSE_8)"
    using len unat_of_nat_u64 [of "start + n"] unat_of_nat_u64 [of "start + d + md"]
    by (simp only: ge_8_eq word_le_nat_alt) simp
  have T: "CONSTTIME_TRUE_8 = - 1" "CONSTTIME_TRUE_W = - 1" by code_simp+
  have st: "ms_mac_started s OR ucast (if n = d then CONSTTIME_TRUE_W else CONSTTIME_FALSE_W) =
      (if d < Suc n then CONSTTIME_TRUE_8 else 0)"
    using i by (auto simp: masks_8 CONSTTIME_FALSE_8_def T(1) less_Suc_eq)
  define s' where "s' = scan_step md (of_nat (start + d)) (of_nat (start + d + md)) inp s (start + n)"
  have s': "s' = \<lparr>ms_j = j + 1, ms_mac_started = (if d < Suc n then CONSTTIME_TRUE_8 else 0),
      ms_rotated_mac = (ms_rotated_mac s)[j := ms_rotated_mac s ! j OR
         (inp ! (start + n) AND (if d < Suc n then CONSTTIME_TRUE_8 else 0) AND
          NOT (if d + md \<le> n then CONSTTIME_TRUE_8 else CONSTTIME_FALSE_8))],
      ms_rotate_offset = ms_rotate_offset s OR (of_nat j AND (if n = d then CONSTTIME_TRUE_W else CONSTTIME_FALSE_W))\<rparr>"
    unfolding s'_def scan_step_def Let_def j eq ge st ..
  have "ms_j s' = Suc n mod md \<or> (ms_j s' = md \<and> Suc n mod md = 0)"
    using jl by (simp add: s' j_def mod_Suc)
  moreover have "ms_rotate_offset s' = (if d < Suc n then of_nat (d mod md) else 0)"
    using i by (auto simp: s' j_def T CONSTTIME_FALSE_W_def less_Suc_eq)
  moreover have "ms_rotated_mac s' ! (k mod md) = (if k < Suc n then inp ! (start + k) else 0)"
    if k: "d \<le> k" "k < d + md" for k
  proof (cases "d \<le> n \<and> n < d + md")
    case True
    show ?thesis
    proof (cases "k mod md = j")
      case e: True
      then have "k = n" using window_mod_inj [OF k, of n] True by (simp add: j_def)
      moreover from this have "ms_rotated_mac s ! j = 0" using i k e by auto
      ultimately show ?thesis using i jl True e by (simp add: s' T CONSTTIME_FALSE_8_def)
    next
      case False
      then have "k \<noteq> n" by (auto simp: j_def)
      then show ?thesis using i k False by (auto simp: s')
    qed
  next
    case False
    then have "ms_rotated_mac s' = ms_rotated_mac s" by (auto simp: s' T)
    then show ?thesis using i k False by auto
  qed
  ultimately show ?thesis using i unfolding scanned_def s'_def [symmetric] by (simp add: s')
qed

lemma scan_ok:
  assumes "0 < md" "start + d + md < 2 ^ 64"
  shows "start + n < 2 ^ 64 \<Longrightarrow> scanned md start d inp n
    (foldl (scan_step md (of_nat (start + d)) (of_nat (start + d + md)) inp)
       \<lparr>ms_j = 0, ms_mac_started = 0, ms_rotated_mac = replicate md 0, ms_rotate_offset = 0\<rparr> [start..<start + n])"
proof (induction n)
  case 0
  then show ?case using assms(1) by (simp add: scanned_def)
next
  case (Suc n)
  then show ?case using scan_step_ok [OF _ assms(1) _ assms(2), of inp n] by simp
qed

lemma rotate_step:
  assumes "length r = md" "offset < md"
  shows "rotate_step md offset ro r = (if odd ro then rotate offset r else r)"
proof -
  have ff: "ucast (ucast (- 1 :: u64) :: u8) = (0xff :: u64)" by code_simp
  have skip: "(ucast (ucast ((ro AND 1) - 1) :: u8) :: u64) = ucast (if even ro then CONSTTIME_TRUE_8 else CONSTTIME_FALSE_8)"
    by (cases "even ro")
      (simp_all add: and_one_eq even_iff_mod_2_eq_zero odd_iff_mod_2_eq_one CONSTTIME_FALSE_8_def CONSTTIME_TRUE_8_def ff)
  have m: "(offset + i) mod md = (if md \<le> offset + i then offset + i - md else offset + i)" if "i < md" for i
    using that assms(2) by (simp add: mod_if)
  show ?thesis unfolding rotate_step_def Let_def skip select_8_if_8
    by (rule nth_equalityI) (simp_all add: assms nth_rotate m)
qed

lemma odd_unat: "odd (unat w) \<longleftrightarrow> odd (w :: 'a::len word)"
  by (simp flip: bit_0 add: bit_unsigned_iff)

lemma rotate_loop:
  "length r = md \<Longrightarrow> 0 < offset \<Longrightarrow> unat ro * offset < md \<Longrightarrow> rotate_loop md offset ro r = rotate (unat ro * offset) r"
proof (induction md offset ro r rule: rotate_loop.induct)
  case (1 md offset ro r)
  show ?case
  proof (cases "offset < md")
    case True
    have h: "unat (drop_bit 1 ro) = unat ro div 2" by (simp add: unat_drop_bit)
    have "unat ro div 2 * (2 * offset) \<le> unat ro * offset"
      using mult_right_mono [of "unat ro div 2 * 2" "unat ro" offset] by (simp add: ac_simps)
    then have "unat ro div 2 * (2 * offset) < md" using 1(4) by linarith
    then have "rotate_loop md (2 * offset) (drop_bit 1 ro) (rotate_step md offset ro r) =
        rotate (unat ro div 2 * (2 * offset)) (rotate_step md offset ro r)"
      using 1 True h by (subst 1(1)) (simp_all add: rotate_step)
    also have "\<dots> = rotate (unat ro * offset) r"
    proof -
      have "unat ro mod 2 = (if odd ro then 1 else 0)"
        by (simp add: odd_unat [symmetric] odd_iff_mod_2_eq_one)
      then have "unat ro = unat ro div 2 * 2 + (if odd ro then 1 else 0)"
        using div_mult_mod_eq [of "unat ro" 2] by (simp only:)
      then have "unat ro * offset = (unat ro div 2 * 2 + (if odd ro then 1 else 0)) * offset" by simp
      then have "unat ro * offset = unat ro div 2 * (2 * offset) + (if odd ro then offset else 0)"
        by (simp only: add_mult_distrib mult.assoc if_distrib [of "\<lambda>x. x * offset"] mult_1 mult_0)
      then show ?thesis using 1 True by (simp add: rotate_step rotate_rotate)
    qed
    finally show ?thesis using True 1(3) by (simp add: rotate_loop.simps [of md offset])
  next
    case False
    then have "unat ro = 0" using 1(4) by (cases "unat ro") auto
    then show ?thesis using False by (simp add: rotate_loop.simps [of md offset])
  qed
qed

lemma copy_mac:
  assumes "0 < md" "md \<le> in_len" "in_len \<le> length inp" "length inp \<le> in_len + 256" "length inp < 2 ^ 63"
  shows "EVP_tls_cbc_copy_mac md inp in_len = take md (drop (in_len - md) inp)"
proof -
  define start where "start = (if length inp > md + 255 + 1 then length inp - (md + 255 + 1) else 0)"
  define d where "d = in_len - md - start"
  define n where "n = length inp - start"
  define s where "s = foldl (scan_step md (of_nat (start + d)) (of_nat (start + d + md)) inp)
     \<lparr>ms_j = 0, ms_mac_started = 0, ms_rotated_mac = replicate md 0, ms_rotate_offset = 0\<rparr> [start..<start + n]"
  have e: "in_len - md = start + d" "in_len = start + d + md" "length inp = start + n" "d + md \<le> n"
    using assms by (auto simp: start_def d_def n_def)
  have "scanned md start d inp n s"
  proof -
    have b: "start + n < 2 ^ 64" using assms(5) e(3) by simp
    then show ?thesis unfolding s_def by (intro scan_ok assms(1)) (use e(4) in linarith)
  qed
  note s = this [unfolded scanned_def]
  have ro: "unat (ms_rotate_offset s) = d mod md"
  proof -
    have "d < n" "d mod md < 2 ^ 64" using assms(1,2,5) e mod_less_divisor [OF assms(1), of d] by auto
    then show ?thesis using s by (simp add: unat_of_nat_u64)
  qed
  have "EVP_tls_cbc_copy_mac md inp in_len = rotate_loop md 1 (ms_rotate_offset s) (ms_rotated_mac s)"
    unfolding EVP_tls_cbc_copy_mac_def Let_def unfolding start_def [symmetric] unfolding e(1) s_def
    by (simp only: e(2,3) [symmetric])
  also have "\<dots> = rotate (d mod md) (ms_rotated_mac s)"
    using rotate_loop [of "ms_rotated_mac s" md 1 "ms_rotate_offset s"] s ro assms(1) by simp
  also have "\<dots> = take md (drop (in_len - md) inp)"
  proof (rule nth_equalityI)
    fix i
    assume "i < length (rotate (d mod md) (ms_rotated_mac s))"
    then have i: "i < md" using s by simp
    have "(d mod md + i) mod md = (d + i) mod md" by (simp add: mod_add_left_eq)
    then have "rotate (d mod md) (ms_rotated_mac s) ! i = ms_rotated_mac s ! ((d + i) mod md)"
      using s i by (simp add: nth_rotate)
    also have "\<dots> = inp ! (start + (d + i))" using s i e(4) by auto
    finally show "rotate (d mod md) (ms_rotated_mac s) ! i = take md (drop (in_len - md) inp) ! i"
      using i e assms(3) by (simp add: ac_simps)
  qed (use s e in simp)
  finally show ?thesis .
qed

section \<open>Properties\<close>

lemma padding_valid_mac: "padding_valid inp mac_size \<Longrightarrow> mac_size \<le> length inp - (padding_of inp + 1)"
  unfolding padding_valid_def by (metis add_diff_cancel_right' length_append length_replicate)

lemma padding_examples: "padding_valid [1, 2, 3, 9, 2, 2, 2] 3" "\<not> padding_valid [1, 2, 3, 9, 2, 1, 2] 3"
proof -
  have p: "padding_of [1, 2, 3, 9, 2, 2, 2] = 2" by (simp add: padding_of_def)
  have "[1, 2, 3, 9, 2, 2, 2] = [1, 2, 3, 9] @ replicate (2 + 1) (of_nat 2 :: u8)" by (simp add: numeral_3_eq_3)
  then show "padding_valid [1, 2, 3, 9, 2, 2, 2] 3"
    unfolding padding_valid_def p by (intro exI [of _ "[1, 2, 3, 9]"]) simp
  show "\<not> padding_valid [1, 2, 3, 9, 2, 1, 2] 3"
    by (simp add: padding_valid_iff padding_of_def) (intro exI [of _ 1], simp)
qed

text \<open>
  The padding check without branches decides exactly the padding rule of TLS: a record is publicly
  invalid when it cannot hold a MAC and a length byte; otherwise the mask is all ones and the
  padding is cut off when the record ends in \<open>p + 1\<close> bytes of value \<open>p\<close> that leave room for the MAC,
  and the mask is zero and nothing is cut off when not.
\<close>

theorem EVP_tls_cbc_remove_padding_iff:
  assumes "mac_size < 2 ^ 32" "length inp < 2 ^ 63"
  shows "EVP_tls_cbc_remove_padding inp (of_nat mac_size) =
      (if length inp < mac_size + 1 then None
       else if padding_valid inp mac_size then Some (- 1, of_nat (length inp - (padding_of inp + 1)))
       else Some (0, of_nat (length inp)))"
  unfolding remove_padding [OF assms] by (simp add: CONSTTIME_TRUE_W_def CONSTTIME_FALSE_W_def)

theorem EVP_tls_cbc_remove_padding_iff_witness:
  "EVP_tls_cbc_remove_padding [1, 2, 3, 9, 2, 2, 2] 3 = Some (- 1, 4) \<and>
   EVP_tls_cbc_remove_padding [1, 2, 3, 9, 2, 1, 2] 3 = Some (0, 7)"
  using EVP_tls_cbc_remove_padding_iff [of 3 "[1, 2, 3, 9, 2, 2, 2]"] EVP_tls_cbc_remove_padding_iff [of 3 "[1, 2, 3, 9, 2, 1, 2]"]
  by (simp add: padding_examples) (simp add: padding_of_def)

text \<open>
  C39: after the padding check the copy without branches on the secret length returns the MAC, the last
  \<open>md_size\<close> bytes of what the check left, whether the padding was valid or not; the check
  always leaves room for it.
\<close>

theorem EVP_tls_cbc_mac_extracted:
  assumes "EVP_tls_cbc_remove_padding inp (of_nat md_size) = Some (good, out_len)"
    and "0 < md_size" "md_size < 2 ^ 32" "length inp < 2 ^ 63"
  shows "md_size \<le> unat out_len \<and>
    EVP_tls_cbc_copy_mac md_size inp (unat out_len) = take md_size (drop (unat out_len - md_size) inp)"
proof -
  have p: "padding_of inp < 256" by (simp add: padding_of_def unat_u8_less)
  have n: "\<not> length inp < md_size + 1"
    and o: "out_len = of_nat (if padding_valid inp md_size then length inp - (padding_of inp + 1) else length inp)"
    using assms(1) unfolding remove_padding [OF assms(3,4)] by (auto split: if_splits)
  have u: "unat out_len = (if padding_valid inp md_size then length inp - (padding_of inp + 1) else length inp)"
    unfolding o using assms(4) by (subst unat_of_nat_u64) auto
  have m: "md_size \<le> unat out_len" using n padding_valid_mac [of inp md_size] by (simp add: u)
  have "unat out_len \<le> length inp" "length inp \<le> unat out_len + 256" using p by (auto simp: u)
  with m show ?thesis using copy_mac [OF assms(2) m] assms(4) by simp
qed

theorem EVP_tls_cbc_mac_extracted_witness:
  "EVP_tls_cbc_copy_mac 3 [1, 2, 3, 9, 2, 1, 2] (unat (7 :: size_t)) = [2, 1, 2]"
  using EVP_tls_cbc_mac_extracted [of "[1, 2, 3, 9, 2, 1, 2]" 3 0 7] remove_padding [of 3 "[1, 2, 3, 9, 2, 1, 2]"]
  by (simp add: padding_examples CONSTTIME_FALSE_W_def)

end
