(* ===== verification/ChaCha.thy ===== *)
theory ChaCha
  imports ConstTime LittleEndian
begin

text \<open>
  The stream cipher of crypto/chacha/chacha.c. The state is the list of its 16 words. The portable
  \<open>CRYPTO_chacha_20\<close> and the driver for the assembly kernels are both modelled; the kernel itself
  is not C and is a parameter, whose contract is the locale \<open>ctr32_kernel\<close>.
\<close>

section \<open>The code\<close>

definition sigma :: "u8 list" where
  "sigma = map (\<lambda>c. of_nat (of_char c)) ''expand 32-byte k''"

definition QUARTERROUND :: "nat \<Rightarrow> nat \<Rightarrow> nat \<Rightarrow> nat \<Rightarrow> u32 list \<Rightarrow> u32 list" where
  "QUARTERROUND a b c d x =
    (let x = x[a := x ! a + x ! b]; x = x[d := CRYPTO_rotl_u32 (x ! d XOR x ! a) 16];
         x = x[c := x ! c + x ! d]; x = x[b := CRYPTO_rotl_u32 (x ! b XOR x ! c) 12];
         x = x[a := x ! a + x ! b]; x = x[d := CRYPTO_rotl_u32 (x ! d XOR x ! a) 8];
         x = x[c := x ! c + x ! d]; x = x[b := CRYPTO_rotl_u32 (x ! b XOR x ! c) 7]
     in x)"

definition double_round :: "u32 list \<Rightarrow> u32 list" where
  "double_round x =
    (let x = QUARTERROUND 0 4 8 12 x; x = QUARTERROUND 1 5 9 13 x;
         x = QUARTERROUND 2 6 10 14 x; x = QUARTERROUND 3 7 11 15 x;
         x = QUARTERROUND 0 5 10 15 x; x = QUARTERROUND 1 6 11 12 x;
         x = QUARTERROUND 2 7 8 13 x; x = QUARTERROUND 3 4 9 14 x
     in x)"

text \<open>The words of a byte array copied by \<open>memcpy\<close> or loaded one by one.\<close>

definition load_words :: "nat \<Rightarrow> u8 list \<Rightarrow> u32 list" where
  "load_words n p = map (\<lambda>i. CRYPTO_load_u32_le (drop (4 * i) p)) [0..<n]"

lemma length_load_words [simp]: "length (load_words n p) = n"
  by (simp add: load_words_def)

definition CRYPTO_hchacha20 :: "u8 list \<Rightarrow> u8 list \<Rightarrow> u8 list" where
  "CRYPTO_hchacha20 key nonce =
    (let x = load_words 4 sigma @ load_words 8 key @ load_words 4 nonce;
         x = (double_round ^^ 10) x
     in concat (map CRYPTO_store_u32_le (take 4 x)) @ concat (map CRYPTO_store_u32_le (take 4 (drop 12 x))))"

definition chacha_core :: "u32 list \<Rightarrow> u8 list" where
  "chacha_core inp =
    (let x = (double_round ^^ 10) inp;
         x = map (\<lambda>i. x ! i + inp ! i) [0..<16]
     in concat (map CRYPTO_store_u32_le x))"

function chacha_loop :: "u32 list \<Rightarrow> u8 list \<Rightarrow> u8 list" where
  "chacha_loop input inp =
    (if inp = [] then []
     else let todo = min 64 (length inp); buf = chacha_core input
          in map2 (XOR) (take todo inp) (take todo buf) @
             chacha_loop (input[12 := input ! 12 + 1]) (drop todo inp))"
  by pat_completeness auto
termination by (relation "measure (\<lambda>(_, inp). length inp)") auto

declare chacha_loop.simps [simp del]

definition CRYPTO_chacha_20 :: "u8 list \<Rightarrow> u8 list \<Rightarrow> u8 list \<Rightarrow> u32 \<Rightarrow> u8 list" where
  "CRYPTO_chacha_20 inp key nonce counter =
     chacha_loop (load_words 4 sigma @ load_words 8 key @ [counter] @ load_words 3 nonce) inp"

text \<open>The driver: \<open>ctr32\<close> is called on pieces that end where the counter would wrap around.\<close>

definition until_wrap :: "u32 \<Rightarrow> u64" where
  "until_wrap c = 64 * (push_bit 32 1 - ucast c)"

lemma until_wrap: "unat (until_wrap c) = 64 * (2 ^ 32 - unat c)"
proof -
  have c: "unat c < 2 ^ 32" using unsigned_less [of c] by simp
  have "unat (push_bit 32 1 - (ucast c :: u64)) = 2 ^ 32 - unat c"
    using c by (subst unat_sub) (simp_all add: word_le_nat_alt unat_ucast_up)
  then show ?thesis using c unfolding until_wrap_def by (subst unat_mult_lem [THEN iffD1]) auto
qed

function ctr32_loop :: "(u8 list \<Rightarrow> u32 list \<Rightarrow> u32 list \<Rightarrow> u8 list) \<Rightarrow> u32 list \<Rightarrow> u32 list \<Rightarrow> u8 list \<Rightarrow> u8 list" where
  "ctr32_loop ctr32 key_ptr counter_nonce inp =
    (if inp = [] then []
     else let todo = unat (until_wrap (counter_nonce ! 0));
              todo = (if todo > length inp then length inp else todo)
          in ctr32 (take todo inp) key_ptr counter_nonce @
             ctr32_loop ctr32 key_ptr (counter_nonce[0 := 0]) (drop todo inp))"
  by pat_completeness auto
termination
proof (relation "measure (\<lambda>(_, _, _, inp). length inp)", goal_cases)
  case (2 ctr32 key_ptr counter_nonce inp)
  have "0 < 2 ^ 32 - unat (counter_nonce ! 0)" using unsigned_less [of "counter_nonce ! 0"] by simp
  with 2 show ?case by (auto simp: until_wrap)
qed simp

declare ctr32_loop.simps [simp del]

definition chacha_20_driver :: "(u8 list \<Rightarrow> u32 list \<Rightarrow> u32 list \<Rightarrow> u8 list) \<Rightarrow> u8 list \<Rightarrow> u8 list \<Rightarrow> u8 list \<Rightarrow> u32 \<Rightarrow> u8 list" where
  "chacha_20_driver ctr32 inp key nonce counter = ctr32_loop ctr32 (load_words 8 key) (counter # load_words 3 nonce) inp"

section \<open>The key stream\<close>

lemma length_QUARTERROUND [simp]: "length (QUARTERROUND a b c d x) = length x"
  by (simp add: QUARTERROUND_def Let_def)

lemma length_chacha_core [simp]: "length (chacha_core inp) = 64"
  by (simp add: chacha_core_def Let_def length_concat comp_def sum_list_triv)

definition block_at :: "u32 list \<Rightarrow> nat \<Rightarrow> u8 list" where
  "block_at input n = chacha_core (input[12 := input ! 12 + of_nat n])"

definition key_byte :: "u32 list \<Rightarrow> nat \<Rightarrow> u8" where
  "key_byte input i = block_at input (i div 64) ! (i mod 64)"

lemma block_at_Suc: "12 < length input \<Longrightarrow> block_at (input[12 := input ! 12 + 1]) n = block_at input (Suc n)"
  by (simp add: block_at_def ac_simps)

lemma key_byte_Suc: "12 < length input \<Longrightarrow> 64 \<le> i \<Longrightarrow> key_byte (input[12 := input ! 12 + 1]) (i - 64) = key_byte input i"
  by (simp add: key_byte_def block_at_Suc le_div_geq le_mod_geq)

lemma chacha_loop_stream:
  "12 < length input \<Longrightarrow> length (chacha_loop input inp) = length inp \<and>
     (\<forall>i<length inp. chacha_loop input inp ! i = inp ! i XOR key_byte input i)"
proof (induction input inp rule: chacha_loop.induct)
  case (1 input inp)
  show ?case
  proof (cases "inp = []")
    case False
    define todo where "todo = min 64 (length inp)"
    have e: "chacha_loop input inp = map2 (XOR) (take todo inp) (take todo (chacha_core input)) @
        chacha_loop (input[12 := input ! 12 + 1]) (drop todo inp)"
      using False by (subst chacha_loop.simps) (simp add: todo_def Let_def)
    have i: "length (chacha_loop (input[12 := input ! 12 + 1]) (drop todo inp)) = length inp - todo"
      "\<And>i. i < length inp - todo \<Longrightarrow> chacha_loop (input[12 := input ! 12 + 1]) (drop todo inp) ! i =
         inp ! (todo + i) XOR key_byte (input[12 := input ! 12 + 1]) i"
      using 1(1) [OF False todo_def refl] 1(2) by (simp_all add: todo_def)
    have l: "length (map2 (XOR) (take todo inp) (take todo (chacha_core input))) = todo" by (simp add: todo_def)
    have "chacha_loop input inp ! i = inp ! i XOR key_byte input i" if "i < length inp" for i
    proof (cases "i < todo")
      case True
      then have "i < 64" by (simp add: todo_def)
      then show ?thesis unfolding e nth_append l using True that
        by (simp add: key_byte_def block_at_def)
    next
      case False
      then have "todo = 64" "64 \<le> i" using that by (auto simp: todo_def)
      then show ?thesis unfolding e nth_append l using i(2) [of "i - todo"] False that 1(2)
        by (simp add: key_byte_Suc)
    qed
    moreover have "length (chacha_loop input inp) = length inp"
      unfolding e length_append l i(1) by (simp add: todo_def)
    ultimately show ?thesis by blast
  qed (simp add: chacha_loop.simps)
qed

lemma chacha_loop_map:
  "12 < length input \<Longrightarrow> chacha_loop input inp = map2 (XOR) inp (map (key_byte input) [0..<length inp])"
  using chacha_loop_stream [of input inp] by (intro nth_equalityI) simp_all

lemma key_byte_shift:
  assumes "12 < length input"
  shows "key_byte (input[12 := input ! 12 + of_nat n]) i = key_byte input (64 * n + i)"
proof -
  have "block_at (input[12 := input ! 12 + of_nat n]) k = block_at input (n + k)" for k
    using assms by (simp add: block_at_def ac_simps)
  then show ?thesis by (simp add: key_byte_def)
qed

lemma chacha_loop_append:
  assumes "12 < length input" "length xs = 64 * n"
  shows "chacha_loop input (xs @ ys) = chacha_loop input xs @ chacha_loop (input[12 := input ! 12 + of_nat n]) ys"
  using assms chacha_loop_stream [OF assms(1), of "xs @ ys"] chacha_loop_stream [OF assms(1), of xs]
    chacha_loop_stream [of "input[12 := input ! 12 + of_nat n]" ys]
  by (intro nth_equalityI) (auto simp: nth_append key_byte_shift)

section \<open>The assembly driver\<close>

text \<open>What a kernel promises: the key stream, as long as the 32-bit counter does not wrap around.\<close>

locale ctr32_kernel =
  fixes ctr32 :: "u8 list \<Rightarrow> u32 list \<Rightarrow> u32 list \<Rightarrow> u8 list"
  assumes kernel: "length key_ptr = 8 \<Longrightarrow> length counter_nonce = 4 \<Longrightarrow> inp \<noteq> [] \<Longrightarrow>
    length inp \<le> 64 * (2 ^ 32 - unat (counter_nonce ! 0)) \<Longrightarrow>
    ctr32 inp key_ptr counter_nonce = chacha_loop (load_words 4 sigma @ key_ptr @ counter_nonce) inp"
begin

lemma ctr32_loop_stream:
  "length key_ptr = 8 \<Longrightarrow> length counter_nonce = 4 \<Longrightarrow>
   ctr32_loop ctr32 key_ptr counter_nonce inp = chacha_loop (load_words 4 sigma @ key_ptr @ counter_nonce) inp"
proof (induction "length inp" arbitrary: counter_nonce inp rule: less_induct)
  case less
  let ?state = "load_words 4 sigma @ key_ptr @ counter_nonce"
  define c where "c = counter_nonce ! 0"
  define n where "n = 2 ^ 32 - unat c"
  have c: "unat c < 2 ^ 32" using unsigned_less [of c] by simp
  have at: "?state ! 12 = c" "length ?state = 16" "?state[12 := x] = load_words 4 sigma @ key_ptr @ counter_nonce[0 := x]" for x
    using less.prems by (simp_all add: c_def nth_append list_update_append)
  show ?case
  proof (cases "inp = [] \<or> length inp \<le> 64 * n")
    case True
    then show ?thesis using kernel [OF less.prems, of inp] c
      by (cases "inp = []")
        (auto simp: ctr32_loop.simps [of _ _ _ inp] ctr32_loop.simps [of _ _ _ "[]"] chacha_loop.simps [of _ "[]"]
          until_wrap Let_def n_def c_def not_less)
  next
    case False
    define xs where "xs = take (64 * n) inp"
    define ys where "ys = drop (64 * n) inp"
    have xy: "inp = xs @ ys" "length xs = 64 * n" "length ys < length inp" "xs \<noteq> []"
      using False c by (auto simp: xs_def ys_def n_def)
    have "ctr32_loop ctr32 key_ptr counter_nonce inp =
        ctr32 xs key_ptr counter_nonce @ ctr32_loop ctr32 key_ptr (counter_nonce[0 := 0]) ys"
      using False by (subst ctr32_loop.simps) (auto simp: until_wrap n_def c_def xs_def ys_def Let_def)
    also have "ctr32 xs key_ptr counter_nonce = chacha_loop ?state xs"
      by (rule kernel [OF less.prems xy(4)]) (simp add: xy(2) n_def c_def)
    also have "ctr32_loop ctr32 key_ptr (counter_nonce[0 := 0]) ys = chacha_loop (?state[12 := c + of_nat n]) ys"
    proof -
      have "c + of_nat n = 0"
        using c by (simp add: n_def of_nat_diff word_unat_eq_iff)
      then show ?thesis unfolding at(3) using less.hyps [OF xy(3)] less.prems by simp
    qed
    also have "chacha_loop ?state xs @ chacha_loop (?state[12 := c + of_nat n]) ys = chacha_loop ?state inp"
      unfolding xy(1) using chacha_loop_append [of ?state xs n ys] xy(2) at(1,2) by simp
    finally show ?thesis .
  qed
qed

lemma driver_portable: "chacha_20_driver ctr32 inp key nonce counter = CRYPTO_chacha_20 inp key nonce counter"
  unfolding chacha_20_driver_def CRYPTO_chacha_20_def by (subst ctr32_loop_stream) simp_all

end

text \<open>The portable loop is such a kernel.\<close>

definition portable_ctr32 :: "u8 list \<Rightarrow> u32 list \<Rightarrow> u32 list \<Rightarrow> u8 list" where
  "portable_ctr32 inp key_ptr counter_nonce = chacha_loop (load_words 4 sigma @ key_ptr @ counter_nonce) inp"

interpretation portable: ctr32_kernel portable_ctr32
  by unfold_locales (simp add: portable_ctr32_def)

section \<open>Properties\<close>

lemma chacha_20_stream:
  "CRYPTO_chacha_20 inp key nonce counter =
     map2 (XOR) inp (map (key_byte (load_words 4 sigma @ load_words 8 key @ [counter] @ load_words 3 nonce)) [0..<length inp])"
  unfolding CRYPTO_chacha_20_def by (rule chacha_loop_map) simp

lemma length_chacha_20 [simp]: "length (CRYPTO_chacha_20 inp key nonce counter) = length inp"
  by (simp add: chacha_20_stream)

lemma chacha_20_inverse: "CRYPTO_chacha_20 (CRYPTO_chacha_20 inp key nonce counter) key nonce counter = inp"
  unfolding chacha_20_stream by (auto intro!: nth_equalityI simp: xor.assoc)

text \<open>Encryption keeps the length and is its own inverse.\<close>

theorem CRYPTO_chacha_20_involution:
  "length (CRYPTO_chacha_20 inp key nonce counter) = length inp \<and>
   CRYPTO_chacha_20 (CRYPTO_chacha_20 inp key nonce counter) key nonce counter = inp"
  by (simp add: chacha_20_inverse)

text \<open>
  A message may be encrypted in pieces of whole blocks, with the counter of each piece moved on by
  the blocks before it, also past the wrap-around of the 32-bit counter.
\<close>

theorem CRYPTO_chacha_20_pieces:
  assumes "length xs = 64 * n"
  shows "CRYPTO_chacha_20 (xs @ ys) key nonce counter =
    CRYPTO_chacha_20 xs key nonce counter @ CRYPTO_chacha_20 ys key nonce (counter + of_nat n)"
  using chacha_loop_append [OF _ assms, of "load_words 4 sigma @ load_words 8 key @ [counter] @ load_words 3 nonce" ys]
  by (simp add: CRYPTO_chacha_20_def nth_append list_update_append)

theorem CRYPTO_chacha_20_pieces_witness:
  "CRYPTO_chacha_20 (replicate 128 7 @ [1, 2]) (replicate 32 1) (replicate 12 0) 0xffffffff =
   CRYPTO_chacha_20 (replicate 128 7) (replicate 32 1) (replicate 12 0) 0xffffffff @
   CRYPTO_chacha_20 [1, 2] (replicate 32 1) (replicate 12 0) 1"
proof -
  have "(0xffffffff :: u32) + of_nat 2 = 1" by code_simp
  then show ?thesis
    using CRYPTO_chacha_20_pieces [of "replicate 128 7" 2 "[1, 2]" "replicate 32 1" "replicate 12 0" "0xffffffff"]
    by (simp only: length_replicate) simp
qed

text \<open>
  With any kernel that yields the key stream while the counter does not wrap around, the driver
  yields what the portable loop does: it cuts the input where the counter wraps.
\<close>

theorem chacha_20_driver_portable:
  assumes "ctr32_kernel ctr32"
  shows "chacha_20_driver ctr32 inp key nonce counter = CRYPTO_chacha_20 inp key nonce counter"
  by (rule ctr32_kernel.driver_portable [OF assms])

theorem chacha_20_driver_portable_witness:
  "chacha_20_driver portable_ctr32 [1, 2, 3] (replicate 32 1) (replicate 12 0) 0xffffffff =
   CRYPTO_chacha_20 [1, 2, 3] (replicate 32 1) (replicate 12 0) 0xffffffff"
  by (rule chacha_20_driver_portable) (rule portable.ctr32_kernel_axioms)

end
