(* ===== verification/Blake2.thy ===== *)
theory Blake2
  imports ConstTime LittleEndian Streaming
begin

text \<open>
  BLAKE2b-256, crypto/blake2/blake2.c. The chaining value is a list of eight words; the last block
  is kept back in \<open>b2_block\<close> until it is known to be the last, so a full block may be buffered.
\<close>

section \<open>The code\<close>

definition kIV :: "u64 list" where
  "kIV = [0x6a09e667f3bcc908, 0xbb67ae8584caa73b, 0x3c6ef372fe94f82b, 0xa54ff53a5f1d36f1,
          0x510e527fade682d1, 0x9b05688c2b3e6c1f, 0x1f83d9abfb41bd6b, 0x5be0cd19137e2179]"

definition kSigma :: "nat list" where
  "kSigma =
    [0, 1, 2, 3, 4, 5, 6, 7, 8, 9, 10, 11, 12, 13, 14, 15,
     14, 10, 4, 8, 9, 15, 13, 6, 1, 12, 0, 2, 11, 7, 5, 3,
     11, 8, 12, 0, 5, 2, 15, 13, 10, 14, 3, 6, 7, 1, 9, 4,
     7, 9, 3, 1, 13, 12, 11, 14, 2, 6, 5, 10, 4, 0, 15, 8,
     9, 0, 5, 7, 2, 4, 10, 15, 14, 1, 11, 12, 6, 8, 3, 13,
     2, 12, 6, 10, 0, 11, 8, 3, 4, 13, 7, 5, 15, 14, 1, 9,
     12, 5, 1, 15, 14, 13, 4, 10, 0, 7, 6, 3, 9, 2, 8, 11,
     13, 11, 7, 14, 12, 1, 3, 9, 5, 0, 15, 4, 8, 6, 2, 10,
     6, 15, 14, 9, 11, 3, 0, 8, 12, 2, 13, 7, 1, 4, 10, 5,
     10, 2, 8, 4, 7, 6, 1, 5, 15, 11, 9, 14, 3, 12, 13, 0]"

definition blake2b_mix :: "nat \<Rightarrow> nat \<Rightarrow> nat \<Rightarrow> nat \<Rightarrow> u64 \<Rightarrow> u64 \<Rightarrow> u64 list \<Rightarrow> u64 list" where
  "blake2b_mix a b c d x y v =
    (let v = v[a := v ! a + v ! b + x]; v = v[d := CRYPTO_rotr_u64 (v ! d XOR v ! a) 32];
         v = v[c := v ! c + v ! d]; v = v[b := CRYPTO_rotr_u64 (v ! b XOR v ! c) 24];
         v = v[a := v ! a + v ! b + y]; v = v[d := CRYPTO_rotr_u64 (v ! d XOR v ! a) 16];
         v = v[c := v ! c + v ! d]; v = v[b := CRYPTO_rotr_u64 (v ! b XOR v ! c) 63]
     in v)"

definition blake2b_load :: "u8 list \<Rightarrow> nat \<Rightarrow> u64" where
  "blake2b_load block i = CRYPTO_load_u64_le (drop (8 * i) block)"

record blake2b_state_st =
  b2_h :: "u64 list"
  b2_t_low :: u64
  b2_t_high :: u64
  b2_block :: "u8 list"
  b2_block_used :: nat

definition blake2b_round :: "u8 list \<Rightarrow> u64 list \<Rightarrow> nat \<Rightarrow> u64 list" where
  "blake2b_round block v round =
    (let s = drop (16 * (round mod 10)) kSigma; m = (\<lambda>k. blake2b_load block (s ! k));
         v = blake2b_mix 0 4 8 12 (m 0) (m 1) v; v = blake2b_mix 1 5 9 13 (m 2) (m 3) v;
         v = blake2b_mix 2 6 10 14 (m 4) (m 5) v; v = blake2b_mix 3 7 11 15 (m 6) (m 7) v;
         v = blake2b_mix 0 5 10 15 (m 8) (m 9) v; v = blake2b_mix 1 6 11 12 (m 10) (m 11) v;
         v = blake2b_mix 2 7 8 13 (m 12) (m 13) v; v = blake2b_mix 3 4 9 14 (m 14) (m 15) v
     in v)"

definition blake2b_transform :: "blake2b_state_st \<Rightarrow> u8 list \<Rightarrow> nat \<Rightarrow> bool \<Rightarrow> blake2b_state_st" where
  "blake2b_transform b2b block num_bytes is_final_block =
    (let v = b2_h b2b @ kIV;
         t_low = b2_t_low b2b + of_nat num_bytes;
         t_high = (if t_low < of_nat num_bytes then b2_t_high b2b + 1 else b2_t_high b2b);
         v = v[12 := v ! 12 XOR t_low]; v = v[13 := v ! 13 XOR t_high];
         v = (if is_final_block then v[14 := NOT (v ! 14)] else v);
         v = foldl (blake2b_round block) v [0..<12]
     in b2b\<lparr>b2_h := map (\<lambda>i. b2_h b2b ! i XOR v ! i XOR v ! (i + 8)) [0..<8],
            b2_t_low := t_low, b2_t_high := t_high\<rparr>)"

definition BLAKE2B256_Init :: blake2b_state_st where
  "BLAKE2B256_Init =
     \<lparr>b2_h = kIV[0 := kIV ! 0 XOR (0x01010000 OR 32)], b2_t_low = 0, b2_t_high = 0,
      b2_block = replicate 128 0, b2_block_used = 0\<rparr>"

definition fill_block :: "nat \<Rightarrow> u8 list \<Rightarrow> blake2b_state_st \<Rightarrow> blake2b_state_st" where
  "fill_block i data b2b =
     b2b\<lparr>b2_block := take i (b2_block b2b) @ data @ drop (i + length data) (b2_block b2b),
         b2_block_used := i + length data\<rparr>"

function blake2b_blocks :: "blake2b_state_st \<Rightarrow> u8 list \<Rightarrow> blake2b_state_st \<times> u8 list" where
  "blake2b_blocks b2b data =
    (if 128 < length data then blake2b_blocks (blake2b_transform b2b (take 128 data) 128 False) (drop 128 data)
     else (b2b, data))"
  by pat_completeness auto
termination by (relation "measure (\<lambda>(_, data). length data)") auto

declare blake2b_blocks.simps [simp del]

definition BLAKE2B256_Update :: "blake2b_state_st \<Rightarrow> u8 list \<Rightarrow> blake2b_state_st" where
  "BLAKE2B256_Update b2b data =
    (if length data = 0 then b2b
     else let todo = min (128 - b2_block_used b2b) (length data);
              b2b = fill_block (b2_block_used b2b) (take todo data) b2b;
              data = drop todo data
          in if data = [] then b2b
             else let b2b = blake2b_transform b2b (b2_block b2b) 128 False;
                      (b2b, data) = blake2b_blocks (b2b\<lparr>b2_block_used := 0\<rparr>) data
                  in fill_block 0 data b2b)"

definition BLAKE2B256_Final :: "blake2b_state_st \<Rightarrow> u8 list" where
  "BLAKE2B256_Final b2b =
    (let block = take (b2_block_used b2b) (b2_block b2b) @ replicate (128 - b2_block_used b2b) 0;
         b2b = blake2b_transform (b2b\<lparr>b2_block := block\<rparr>) block (b2_block_used b2b) True
     in take 32 (concat (map CRYPTO_store_u64_le (b2_h b2b))))"

definition BLAKE2B256 :: "u8 list \<Rightarrow> u8 list" where
  "BLAKE2B256 data = BLAKE2B256_Final (BLAKE2B256_Update BLAKE2B256_Init data)"

section \<open>The specification (RFC 7693, sections 3.2 and 3.3)\<close>

text \<open>The compression function takes the 128-bit count of message bytes up to its block.\<close>

definition compress :: "u64 list \<Rightarrow> u8 list \<Rightarrow> nat \<Rightarrow> bool \<Rightarrow> u64 list" where
  "compress h block t final =
    (let v = h @ kIV; v = v[12 := v ! 12 XOR of_nat t]; v = v[13 := v ! 13 XOR of_nat (t div 2 ^ 64)];
         v = (if final then v[14 := NOT (v ! 14)] else v);
         v = foldl (blake2b_round block) v [0..<12]
     in map (\<lambda>i. h ! i XOR v ! i XOR v ! (i + 8)) [0..<8])"

function blake2b_hash :: "u64 list \<Rightarrow> nat \<Rightarrow> u8 list \<Rightarrow> u64 list" where
  "blake2b_hash h t m =
    (if 128 < length m then blake2b_hash (compress h (take 128 m) (t + 128) False) (t + 128) (drop 128 m)
     else compress h (m @ replicate (128 - length m) 0) (t + length m) True)"
  by pat_completeness auto
termination by (relation "measure (\<lambda>(_, _, m). length m)") auto

declare blake2b_hash.simps [simp del]

definition blake2b256_spec :: "u8 list \<Rightarrow> u8 list" where
  "blake2b256_spec m = take 32 (concat (map CRYPTO_store_u64_le
     (blake2b_hash (kIV[0 := kIV ! 0 XOR 0x01010020]) 0 m)))"

section \<open>The byte counter\<close>

definition counts :: "blake2b_state_st \<Rightarrow> nat \<Rightarrow> bool" where
  "counts st n \<longleftrightarrow> b2_t_low st = of_nat n \<and> b2_t_high st = of_nat (n div 2 ^ 64)"

lemma counter_step:
  assumes "k < 2 ^ 64"
  shows "(if (of_nat n + of_nat k :: u64) < of_nat k then of_nat (n div 2 ^ 64) + 1 else of_nat (n div 2 ^ 64)) =
    (of_nat ((n + k) div 2 ^ 64) :: u64)"
proof -
  define r where "r = n mod 2 ^ 64"
  have r: "n = n div 2 ^ 64 * 2 ^ 64 + r" "r < 2 ^ 64" by (simp_all add: r_def)
  have u: "unat (of_nat n :: u64) = r" "unat (of_nat k :: u64) = k"
    using assms by (simp_all add: unat_of_nat r_def)
  have "(n + k) div 2 ^ 64 = n div 2 ^ 64 + (r + k) div 2 ^ 64"
    by (subst r(1)) (simp add: div_mult_self3 add.assoc)
  moreover have "(r + k) div 2 ^ 64 = (if 2 ^ 64 \<le> r + k then 1 else 0)"
    using r(2) assms by (auto simp: div_if)
  moreover have "(of_nat n + of_nat k :: u64) < of_nat k \<longleftrightarrow> 2 ^ 64 \<le> r + k"
    using u64_add_overflow [of "of_nat k" "of_nat n"] by (simp add: u add.commute)
  ultimately show ?thesis by simp
qed

lemma transform_compress:
  assumes "counts st n" "k < 2 ^ 64"
  shows "blake2b_transform st block k final =
    st\<lparr>b2_h := compress (b2_h st) block (n + k) final, b2_t_low := of_nat (n + k), b2_t_high := of_nat ((n + k) div 2 ^ 64)\<rparr>"
proof -
  have l: "b2_t_low st + of_nat k = of_nat (n + k)" using assms(1) by (simp add: counts_def)
  have h: "(if (of_nat (n + k) :: u64) < of_nat k then b2_t_high st + 1 else b2_t_high st) = of_nat ((n + k) div 2 ^ 64)"
    using counter_step [OF assms(2), of n] assms(1) unfolding counts_def by (simp only: of_nat_add)
  show ?thesis unfolding blake2b_transform_def Let_def l h compress_def ..
qed

section \<open>Messages in pieces\<close>

definition absorbed_blocks :: "blake2b_state_st \<Rightarrow> u8 list \<Rightarrow> bool" where
  "absorbed_blocks st full \<longleftrightarrow> length (b2_block st) = 128 \<and> counts st (length full) \<and>
     (\<forall>rest. rest \<noteq> [] \<or> full = [] \<longrightarrow>
        blake2b_hash (b2_h BLAKE2B256_Init) 0 (full @ rest) = blake2b_hash (b2_h st) (length full) rest)"

definition blake2b_absorbed :: "blake2b_state_st \<Rightarrow> u8 list \<Rightarrow> bool" where
  "blake2b_absorbed st m \<longleftrightarrow> (\<exists>full tail. m = full @ tail \<and> absorbed_blocks st full \<and>
     length tail \<le> 128 \<and> (full \<noteq> [] \<longrightarrow> tail \<noteq> []) \<and> b2_block_used st = length tail \<and>
     take (length tail) (b2_block st) = tail)"

lemma absorb_block:
  assumes "absorbed_blocks st full" "length b = 128"
  shows "absorbed_blocks (blake2b_transform st b 128 False) (full @ b)"
proof -
  have c: "counts st (length full)" using assms(1) by (simp add: absorbed_blocks_def)
  have "blake2b_hash (b2_h BLAKE2B256_Init) 0 ((full @ b) @ rest) =
      blake2b_hash (compress (b2_h st) b (length full + 128) False) (length full + 128) rest"
    if "rest \<noteq> []" for rest
  proof -
    have "blake2b_hash (b2_h BLAKE2B256_Init) 0 (full @ (b @ rest)) = blake2b_hash (b2_h st) (length full) (b @ rest)"
      using assms that unfolding absorbed_blocks_def by (metis append_is_Nil_conv)
    also have "\<dots> = blake2b_hash (compress (b2_h st) b (length full + 128) False) (length full + 128) rest"
      using assms(2) that by (subst blake2b_hash.simps) simp
    finally show ?thesis by simp
  qed
  then show ?thesis using assms transform_compress [OF c, of 128 b False]
    by (auto simp: absorbed_blocks_def counts_def)
qed

lemma blake2b_blocks_ok:
  "absorbed_blocks st full \<Longrightarrow> data \<noteq> [] \<Longrightarrow> blake2b_blocks st data = (st', rest) \<Longrightarrow>
   \<exists>c. data = c @ rest \<and> rest \<noteq> [] \<and> length rest \<le> 128 \<and> absorbed_blocks st' (full @ c)"
proof (induction st data arbitrary: full rule: blake2b_blocks.induct)
  case (1 st data)
  show ?case
  proof (cases "128 < length data")
    case True
    have t: "length (take 128 data) = 128" "drop 128 data \<noteq> []" using True by simp_all
    obtain c where "drop 128 data = c @ rest" "rest \<noteq> []" "length rest \<le> 128"
      "absorbed_blocks st' ((full @ take 128 data) @ c)"
      using 1(1) [OF True absorb_block [OF 1(2) t(1)] t(2)] 1(4) True
      by (auto simp: blake2b_blocks.simps [of st])
    then show ?thesis by (intro exI [of _ "take 128 data @ c"]) (simp, metis append_take_drop_id)
  next
    case False
    then show ?thesis using 1 by (auto simp: blake2b_blocks.simps [of st])
  qed
qed

lemma fill_block_absorbed:
  assumes "absorbed_blocks st full" "i + length x \<le> 128"
  shows "absorbed_blocks (fill_block i x st) full" "take (i + length x) (b2_block (fill_block i x st)) = take i (b2_block st) @ x"
  using assms by (auto simp: absorbed_blocks_def fill_block_def counts_def)

lemma fill_block_used: "b2_block_used (fill_block i x st) = i + length x"
  by (simp add: fill_block_def)

lemma Update_absorbed:
  assumes "blake2b_absorbed st m"
  shows "blake2b_absorbed (BLAKE2B256_Update st x) (m @ x)"
proof -
  obtain full tail where m: "m = full @ tail" and s: "absorbed_blocks st full" "length tail \<le> 128" "full \<noteq> [] \<longrightarrow> tail \<noteq> []"
    "b2_block_used st = length tail" "take (length tail) (b2_block st) = tail"
    using assms by (auto simp: blake2b_absorbed_def)
  show ?thesis
  proof (cases "length tail + length x \<le> 128")
    case True
    note f = fill_block_absorbed [OF s(1) True]
    have "blake2b_absorbed (fill_block (length tail) x st) (full @ (tail @ x))"
      unfolding blake2b_absorbed_def
      by (intro exI [of _ full] exI [of _ "tail @ x"] conjI refl f(1)) (use f(2) s(3,5) True in \<open>simp_all add: fill_block_used\<close>)
    moreover have "BLAKE2B256_Update st x = (if x = [] then st else fill_block (length tail) x st)"
      using True s(4) by (simp add: BLAKE2B256_Update_def Let_def)
    ultimately show ?thesis using assms by (cases "x = []") (simp_all add: m)
  next
    case False
    define todo where "todo = 128 - length tail"
    have t: "min (128 - length tail) (length x) = todo" "length (take todo x) = todo" "drop todo x \<noteq> []" "x \<noteq> []"
      "length tail + todo = 128"
      using False s(2) by (auto simp: todo_def)
    define st1 where "st1 = fill_block (length tail) (take todo x) st"
    have b1: "absorbed_blocks st1 full" "b2_block st1 = tail @ take todo x"
      using fill_block_absorbed [OF s(1), of "length tail" "take todo x"] s(1,5) t
      by (simp_all add: st1_def absorbed_blocks_def fill_block_def)
    define st2 where "st2 = (blake2b_transform st1 (b2_block st1) 128 False)\<lparr>b2_block_used := 0\<rparr>"
    have "absorbed_blocks (blake2b_transform st1 (b2_block st1) 128 False) (full @ tail @ take todo x)"
      unfolding b1(2) by (rule absorb_block [OF b1(1)]) (use t in simp)
    then have b2: "absorbed_blocks st2 (full @ tail @ take todo x)"
      by (simp add: st2_def absorbed_blocks_def counts_def)
    obtain st3 rest where r: "blake2b_blocks st2 (drop todo x) = (st3, rest)" by fastforce
    obtain c where c: "drop todo x = c @ rest" "rest \<noteq> []" "length rest \<le> 128"
      "absorbed_blocks st3 ((full @ tail @ take todo x) @ c)"
      using blake2b_blocks_ok [OF b2 t(3) r] by blast
    have "BLAKE2B256_Update st x = fill_block 0 rest st3"
      unfolding BLAKE2B256_Update_def Let_def s(4) t(1) st1_def [symmetric] st2_def [symmetric]
      using t(3,4) r by simp
    moreover have "m @ x = (full @ tail @ take todo x @ c) @ rest"
      using c(1) unfolding m by (metis append.assoc append_take_drop_id)
    moreover have "blake2b_absorbed (fill_block 0 rest st3) ((full @ tail @ take todo x @ c) @ rest)"
      unfolding blake2b_absorbed_def using fill_block_absorbed [of st3 "full @ tail @ take todo x @ c" 0 rest] c(2-4)
      by (intro exI [of _ "full @ tail @ take todo x @ c"] exI [of _ rest]) (simp add: fill_block_used)
    ultimately show ?thesis by simp
  qed
qed

lemma Final_absorbed:
  assumes "blake2b_absorbed st m"
  shows "BLAKE2B256_Final st = blake2b256_spec m"
proof -
  obtain full tail where m: "m = full @ tail" and s: "absorbed_blocks st full" "length tail \<le> 128" "full \<noteq> [] \<longrightarrow> tail \<noteq> []"
    "b2_block_used st = length tail" "take (length tail) (b2_block st) = tail"
    using assms by (auto simp: blake2b_absorbed_def)
  define block where "block = tail @ replicate (128 - length tail) (0 :: u8)"
  have c: "counts (st\<lparr>b2_block := block\<rparr>) (length full)" using s(1) by (simp add: absorbed_blocks_def counts_def)
  have "b2_h (blake2b_transform (st\<lparr>b2_block := block\<rparr>) block (length tail) True) = blake2b_hash (b2_h st) (length full) tail"
    using transform_compress [OF c, of "length tail" block True] s(2)
    by (subst blake2b_hash.simps) (simp add: block_def)
  also have "\<dots> = blake2b_hash (b2_h BLAKE2B256_Init) 0 m"
    using s(1,3) unfolding absorbed_blocks_def m by metis
  finally show ?thesis
    unfolding BLAKE2B256_Final_def Let_def s(4,5) block_def [symmetric] blake2b256_spec_def
    by (simp add: BLAKE2B256_Init_def)
qed

interpretation blake2b: digest blake2b_absorbed BLAKE2B256_Update BLAKE2B256_Final blake2b256_spec "\<lambda>m. True"
  by unfold_locales (simp_all add: Update_absorbed Final_absorbed)

lemma Init_absorbed: "blake2b_absorbed BLAKE2B256_Init []"
  by (simp add: blake2b_absorbed_def absorbed_blocks_def counts_def BLAKE2B256_Init_def)

text \<open>
  C40: BLAKE2b-256 computes the hash of RFC 7693, with its 128-bit byte count, however the message is
  cut into pieces, and in one call.
\<close>

theorem BLAKE2B256_of_chunks:
  "BLAKE2B256_Final (foldl BLAKE2B256_Update BLAKE2B256_Init xs) = blake2b256_spec (concat xs) \<and>
   BLAKE2B256 (concat xs) = blake2b256_spec (concat xs)"
  using blake2b.digest_of_chunks [OF Init_absorbed, of xs] blake2b.digest_of_chunks [OF Init_absorbed, of "[concat xs]"]
  by (simp add: BLAKE2B256_def)

end
