(* ===== verification/Aead.thy ===== *)
theory Aead
  imports ConstTime
begin

text \<open>
  The interface of an authenticated cipher, \<open>evp_aead_st\<close>, and its client
  crypto/fipsmodule/cipher/aead.c.inc, which adds the checks on aliasing, the layout of the tag
  behind the ciphertext and the clearing of the output. Buffers are given by their address and
  contents. The pointer from a context to its table of functions is an argument here.
\<close>

section \<open>The code\<close>

datatype cipher_error = CIPHER_R_TOO_LARGE | CIPHER_R_BUFFER_TOO_SMALL | CIPHER_R_UNSUPPORTED_NONCE_SIZE
  | CIPHER_R_BAD_DECRYPT | CIPHER_R_OUTPUT_ALIASES_INPUT | CIPHER_R_CTRL_NOT_IMPLEMENTED
  | CIPHER_R_INVALID_OPERATION | CIPHER_R_NO_DIRECTION_SET | CIPHER_R_UNSUPPORTED_KEY_SIZE | ERR_R_OVERFLOW
  | internal_error

datatype evp_aead_direction_t = evp_aead_open | evp_aead_seal

record 's evp_aead_ctx_st =
  ctx_state :: 's
  ctx_tag_len :: u8

text \<open>
  A function that may be null is an option. \<open>open\<close> returns the error, the output buffer and its
  used length, \<open>seal_scatter\<close> the bytes for \<open>out\<close> and for \<open>out_tag\<close>, and \<open>open_gather\<close> the error and
  the output buffer, which an error may leave written.
\<close>

record 's evp_aead_st =
  aead_key_len :: u8
  aead_nonce_len :: u8
  aead_overhead :: u8
  aead_max_tag_len :: u8
  aead_seal_scatter_supports_extra_in :: bool
  aead_init :: "(u8 list \<Rightarrow> size_t \<Rightarrow> cipher_error + 's evp_aead_ctx_st) option"
  aead_init_with_direction :: "(u8 list \<Rightarrow> size_t \<Rightarrow> evp_aead_direction_t \<Rightarrow> cipher_error + 's evp_aead_ctx_st) option"
  aead_open :: "('s evp_aead_ctx_st \<Rightarrow> u8 list \<Rightarrow> u8 list \<Rightarrow> u8 list \<Rightarrow> u8 list \<Rightarrow> cipher_error option \<times> u8 list \<times> size_t) option"
  aead_seal_scatter :: "'s evp_aead_ctx_st \<Rightarrow> size_t \<Rightarrow> u8 list \<Rightarrow> u8 list \<Rightarrow> u8 list \<Rightarrow> u8 list \<Rightarrow> cipher_error + u8 list \<times> u8 list"
  aead_open_gather :: "('s evp_aead_ctx_st \<Rightarrow> u8 list \<Rightarrow> u8 list \<Rightarrow> u8 list \<Rightarrow> u8 list \<Rightarrow> u8 list \<Rightarrow> cipher_error option \<times> u8 list) option"
  aead_tag_len :: "('s evp_aead_ctx_st \<Rightarrow> size_t \<Rightarrow> size_t \<Rightarrow> size_t) option"

definition check_alias :: "u64 \<Rightarrow> size_t \<Rightarrow> u64 \<Rightarrow> size_t \<Rightarrow> bool" where
  "check_alias in_p in_len out_p out_len = (if \<not> buffers_alias in_p in_len out_p out_len then True else in_p = out_p)"

definition EVP_AEAD_CTX_init_with_direction ::
  "'s evp_aead_st \<Rightarrow> u8 list \<Rightarrow> size_t \<Rightarrow> evp_aead_direction_t \<Rightarrow> cipher_error + 's evp_aead_ctx_st" where
  "EVP_AEAD_CTX_init_with_direction aead key tag_len dir =
    (if of_nat (length key) \<noteq> (ucast (aead_key_len aead) :: size_t) then Inl CIPHER_R_UNSUPPORTED_KEY_SIZE
     else case aead_init aead of
       Some init \<Rightarrow> init key tag_len
     | None \<Rightarrow> (case aead_init_with_direction aead of
         Some init_with_direction \<Rightarrow> init_with_direction key tag_len dir
       | None \<Rightarrow> Inl internal_error))"

definition EVP_AEAD_CTX_init :: "'s evp_aead_st \<Rightarrow> u8 list \<Rightarrow> size_t \<Rightarrow> cipher_error + 's evp_aead_ctx_st" where
  "EVP_AEAD_CTX_init aead key tag_len =
    (if aead_init aead = None then Inl CIPHER_R_NO_DIRECTION_SET
     else EVP_AEAD_CTX_init_with_direction aead key tag_len evp_aead_open)"

definition EVP_AEAD_CTX_seal ::
  "'s evp_aead_st \<Rightarrow> 's evp_aead_ctx_st \<Rightarrow> u64 \<Rightarrow> u8 list \<Rightarrow> u8 list \<Rightarrow> u64 \<Rightarrow> u8 list \<Rightarrow> u8 list \<Rightarrow>
   cipher_error option \<times> u8 list \<times> size_t" where
  "EVP_AEAD_CTX_seal aead ctx out_p out nonce in_p inp ad =
    (let in_len = (of_nat (length inp) :: size_t);
         max_out_len = (of_nat (length out) :: size_t);
         error = (\<lambda>e. (Some e, replicate (length out) 0, 0))
     in if in_len + ucast (aead_overhead aead) < in_len then error CIPHER_R_TOO_LARGE
        else if max_out_len < in_len then error CIPHER_R_BUFFER_TOO_SMALL
        else if \<not> check_alias in_p in_len out_p max_out_len then error CIPHER_R_OUTPUT_ALIASES_INPUT
        else case aead_seal_scatter aead ctx (max_out_len - in_len) nonce inp [] ad of
          Inr (ct, out_tag) \<Rightarrow>
            (None, ct @ out_tag @ drop (length ct + length out_tag) out, in_len + of_nat (length out_tag))
        | Inl e \<Rightarrow> error e)"

definition EVP_AEAD_CTX_seal_scatter ::
  "'s evp_aead_st \<Rightarrow> 's evp_aead_ctx_st \<Rightarrow> u64 \<Rightarrow> u64 \<Rightarrow> u8 list \<Rightarrow> u8 list \<Rightarrow> u64 \<Rightarrow> u8 list \<Rightarrow> u8 list \<Rightarrow> u8 list \<Rightarrow>
   cipher_error option \<times> u8 list \<times> u8 list \<times> size_t" where
  "EVP_AEAD_CTX_seal_scatter aead ctx out_p out_tag_p out_tag nonce in_p inp extra_in ad =
    (let in_len = (of_nat (length inp) :: size_t);
         max_out_tag_len = (of_nat (length out_tag) :: size_t);
         error = (\<lambda>e. (Some e, replicate (length inp) 0, replicate (length out_tag) 0, 0))
     in if \<not> check_alias in_p in_len out_p in_len \<or> buffers_alias out_p in_len out_tag_p max_out_tag_len \<or>
          buffers_alias in_p in_len out_tag_p max_out_tag_len then error CIPHER_R_OUTPUT_ALIASES_INPUT
        else if \<not> aead_seal_scatter_supports_extra_in aead \<and> extra_in \<noteq> [] then error CIPHER_R_INVALID_OPERATION
        else case aead_seal_scatter aead ctx max_out_tag_len nonce inp extra_in ad of
          Inr (ct, tag) \<Rightarrow> (None, ct, tag @ drop (length tag) out_tag, of_nat (length tag))
        | Inl e \<Rightarrow> error e)"

definition EVP_AEAD_CTX_open_gather ::
  "'s evp_aead_st \<Rightarrow> 's evp_aead_ctx_st \<Rightarrow> u64 \<Rightarrow> u8 list \<Rightarrow> u8 list \<Rightarrow> u64 \<Rightarrow> u8 list \<Rightarrow> u8 list \<Rightarrow> u8 list \<Rightarrow>
   cipher_error option \<times> u8 list" where
  "EVP_AEAD_CTX_open_gather aead ctx out_p out nonce in_p inp in_tag ad =
    (let in_len = (of_nat (length inp) :: size_t);
         error = (\<lambda>e. (Some e, replicate (length inp) 0))
     in if \<not> check_alias in_p in_len out_p in_len then error CIPHER_R_OUTPUT_ALIASES_INPUT
        else case aead_open_gather aead of
          None \<Rightarrow> error CIPHER_R_CTRL_NOT_IMPLEMENTED
        | Some open_gather \<Rightarrow> (case open_gather ctx out nonce inp in_tag ad of
            (None, out) \<Rightarrow> (None, out)
          | (Some e, _) \<Rightarrow> error e))"

definition EVP_AEAD_CTX_open ::
  "'s evp_aead_st \<Rightarrow> 's evp_aead_ctx_st \<Rightarrow> u64 \<Rightarrow> u8 list \<Rightarrow> u8 list \<Rightarrow> u64 \<Rightarrow> u8 list \<Rightarrow> u8 list \<Rightarrow>
   cipher_error option \<times> u8 list \<times> size_t" where
  "EVP_AEAD_CTX_open aead ctx out_p out nonce in_p inp ad =
    (let in_len = (of_nat (length inp) :: size_t);
         max_out_len = (of_nat (length out) :: size_t);
         tag_len = (ucast (ctx_tag_len ctx) :: size_t);
         error = (\<lambda>e. (Some e, replicate (length out) 0, 0))
     in if \<not> check_alias in_p in_len out_p max_out_len then error CIPHER_R_OUTPUT_ALIASES_INPUT
        else case aead_open aead of
          Some open \<Rightarrow> (case open ctx out nonce inp ad of (None, r) \<Rightarrow> (None, r) | (Some e, _) \<Rightarrow> error e)
        | None \<Rightarrow>
            if in_len < tag_len then error CIPHER_R_BAD_DECRYPT
            else let plaintext_len = in_len - tag_len; n = unat plaintext_len
              in if max_out_len < plaintext_len then error CIPHER_R_BUFFER_TOO_SMALL
                 else case EVP_AEAD_CTX_open_gather aead ctx out_p (take n out) nonce in_p (take n inp)
                        (take (unat tag_len) (drop n inp)) ad of
                   (None, plaintext) \<Rightarrow> (None, plaintext @ drop n out, plaintext_len)
                 | (Some e, _) \<Rightarrow> error e)"

definition EVP_AEAD_CTX_tag_len :: "'s evp_aead_st \<Rightarrow> 's evp_aead_ctx_st \<Rightarrow> size_t \<Rightarrow> size_t \<Rightarrow> cipher_error + size_t" where
  "EVP_AEAD_CTX_tag_len aead ctx in_len extra_in_len =
    (case aead_tag_len aead of
       Some tag_len \<Rightarrow> Inr (tag_len ctx in_len extra_in_len)
     | None \<Rightarrow> if extra_in_len + ucast (ctx_tag_len ctx) < extra_in_len then Inl ERR_R_OVERFLOW
               else Inr (extra_in_len + ucast (ctx_tag_len ctx)))"

section \<open>Buffers in memory\<close>

text \<open>A buffer does not reach past the end of the address space.\<close>

definition in_memory :: "u64 \<Rightarrow> u8 list \<Rightarrow> bool" where
  "in_memory p xs \<longleftrightarrow> unat p + length xs < 2 ^ 64"

lemma of_nat_fits: "n < 2 ^ 64 \<Longrightarrow> unat (of_nat n :: u64) = n"
  by (simp add: unat_of_nat)

lemma in_memory_add: "in_memory p xs \<Longrightarrow> n \<le> length xs \<Longrightarrow> unat (p + of_nat n) = unat p + n"
  by (simp add: in_memory_def unat_add_lem [THEN iffD1] of_nat_fits)

lemma buffers_alias_iff:
  assumes "in_memory p xs" "n \<le> length xs" "in_memory q ys" "m \<le> length ys"
  shows "buffers_alias p (of_nat n) q (of_nat m) \<longleftrightarrow> unat q < unat p + n \<and> unat p < unat q + m"
  using in_memory_add [OF assms(1,2)] in_memory_add [OF assms(3,4)]
  by (simp add: buffers_alias_def word_less_nat_alt)

lemma check_alias_mono:
  assumes "check_alias p (of_nat (length xs)) q (of_nat (length ys))" "in_memory p xs" "in_memory q ys"
    and "n \<le> length xs" "m \<le> length ys"
  shows "check_alias p (of_nat n) q (of_nat m)"
  using assms buffers_alias_iff [OF assms(2,4,3,5)] buffers_alias_iff [OF assms(2) order_refl assms(3) order_refl]
  by (auto simp: check_alias_def split: if_splits)

section \<open>The contract of an implementation\<close>

text \<open>
  What the client relies on: what \<open>seal_scatter\<close> writes is as long as it says and fits, and
  \<open>open_gather\<close> recovers the plaintext from it. The client then keeps the contract for the
  one-buffer operations.
\<close>

locale sealing =
  fixes aead :: "'s evp_aead_st"
    and gather :: "'s evp_aead_ctx_st \<Rightarrow> u8 list \<Rightarrow> u8 list \<Rightarrow> u8 list \<Rightarrow> u8 list \<Rightarrow> u8 list \<Rightarrow> cipher_error option \<times> u8 list"
    and valid :: "'s evp_aead_ctx_st \<Rightarrow> bool"
  assumes open_null: "aead_open aead = None"
    and gather: "aead_open_gather aead = Some gather"
    and sealed_size: "valid ctx \<Longrightarrow> length inp < 2 ^ 64 \<Longrightarrow> aead_seal_scatter aead ctx max_len nonce inp [] ad = Inr (ct, tag) \<Longrightarrow>
      length ct = length inp \<and> length tag = unat (ctx_tag_len ctx) \<and> length tag \<le> unat max_len"
    and gather_sealed: "valid ctx \<Longrightarrow> length inp < 2 ^ 64 \<Longrightarrow> aead_seal_scatter aead ctx max_len nonce inp [] ad = Inr (ct, tag) \<Longrightarrow>
      gather ctx out nonce ct tag ad = (None, inp)"
begin

lemma seal_layout:
  assumes "EVP_AEAD_CTX_seal aead ctx out_p out nonce in_p inp ad = (None, sealed, n)"
    and "valid ctx" "in_memory in_p inp" "in_memory out_p out"
  obtains ct tag where "aead_seal_scatter aead ctx (of_nat (length out) - of_nat (length inp)) nonce inp [] ad = Inr (ct, tag)"
    "take (unat n) sealed = ct @ tag" "unat n = length inp + unat (ctx_tag_len ctx)" "unat n \<le> length out"
    "length ct = length inp" "length tag = unat (ctx_tag_len ctx)" "length sealed = length out"
proof -
  have f: "length inp < 2 ^ 64" "length out < 2 ^ 64" using assms(3,4) by (simp_all add: in_memory_def)
  obtain ct tag where s: "aead_seal_scatter aead ctx (of_nat (length out) - of_nat (length inp)) nonce inp [] ad = Inr (ct, tag)"
    and r: "sealed = ct @ tag @ drop (length ct + length tag) out" "n = of_nat (length inp) + of_nat (length tag)"
    and le: "of_nat (length inp) \<le> (of_nat (length out) :: size_t)"
    using assms(1) by (auto simp: EVP_AEAD_CTX_seal_def Let_def split: if_splits sum.splits)
  have l: "length inp \<le> length out" using le f by (simp add: word_le_nat_alt of_nat_fits)
  have "unat (of_nat (length out) - of_nat (length inp) :: size_t) = length out - length inp"
    using unat_sub [OF le] of_nat_fits [OF f(1)] of_nat_fits [OF f(2)] by simp
  then have z: "length ct = length inp" "length tag = unat (ctx_tag_len ctx)" "length inp + length tag \<le> length out"
    using sealed_size [OF assms(2) f(1) s] l by auto
  have "n = of_nat (length inp + length tag)" using r(2) by simp
  then have n: "unat n = length inp + length tag" using z(3) f by (simp only: of_nat_fits)
  show thesis by (rule that [OF s]) (use z n r(1) in simp_all)
qed

lemma open_seal:
  assumes "EVP_AEAD_CTX_seal aead ctx out_p out nonce in_p inp ad = (None, sealed, n)"
    and "valid ctx" "in_memory in_p inp" "in_memory out_p out"
    and "in_memory q buf" "in_memory p (take (unat n) sealed)" "length inp \<le> length buf"
    and "check_alias p (of_nat (length (take (unat n) sealed))) q (of_nat (length buf))"
  shows "EVP_AEAD_CTX_open aead ctx q buf nonce p (take (unat n) sealed) ad =
    (None, inp @ drop (length inp) buf, of_nat (length inp))"
proof -
  obtain ct tag where s: "aead_seal_scatter aead ctx (of_nat (length out) - of_nat (length inp)) nonce inp [] ad = Inr (ct, tag)"
    and t: "take (unat n) sealed = ct @ tag" and z: "unat n = length inp + unat (ctx_tag_len ctx)"
      "length ct = length inp" "length tag = unat (ctx_tag_len ctx)" "unat n \<le> length out"
    by (rule seal_layout [OF assms(1-4)])
  have f: "length inp < 2 ^ 64" "length buf < 2 ^ 64" "length inp + unat (ctx_tag_len ctx) < 2 ^ 64"
    using assms(3,4,5) z by (simp_all add: in_memory_def)
  have tl: "(ucast (ctx_tag_len ctx) :: size_t) = of_nat (length tag)" by (simp add: z(3))
  have pl: "of_nat (length inp + length tag) - of_nat (length tag) = (of_nat (length inp) :: size_t)" by simp
  have c: "check_alias p (of_nat (length inp)) q (of_nat (length inp))"
    by (rule check_alias_mono [OF assms(8) [unfolded t] assms(6) [unfolded t] assms(5)]) (simp_all add: z assms(7))
  have g: "EVP_AEAD_CTX_open_gather aead ctx q (take (length inp) buf) nonce p ct tag ad = (None, inp)"
    using c gather_sealed [OF assms(2) f(1) s] by (simp add: EVP_AEAD_CTX_open_gather_def gather z(2) Let_def)
  have le: "\<not> of_nat (length inp + length tag) < (of_nat (length tag) :: size_t)"
    "\<not> of_nat (length buf) < (of_nat (length inp) :: size_t)"
    using f z(3) assms(7) by (simp_all add: word_less_nat_alt of_nat_fits del: of_nat_add)
  have "length tag < 2 ^ 64" using f(3) z(3) by simp
  note u = of_nat_fits [OF f(1)] of_nat_fits [OF this]
  show ?thesis
    using assms(8) le unfolding t EVP_AEAD_CTX_open_def Let_def open_null tl length_append z(2) pl
    by (simp add: u z(2) g del: of_nat_add)
qed

end

end
