(* ===== verification/AeadChaCha.thy ===== *)
theory AeadChaCha
  imports ChaCha Poly1305Props Aead Mem
begin

text \<open>
  The authenticated encryption of crypto/cipher_extra/e_chacha20poly1305.c: ChaCha20 and Poly1305 put
  together, in the C branch for targets without the assembly kernel. The Poly1305 state is a
  local variable that is not initialised, so its first contents are a parameter \<open>st\<close>.
\<close>

section \<open>The code\<close>

text \<open>The state of a context, \<open>aead_chacha20_poly1305_ctx\<close>.\<close>

record aead_chacha20_poly1305_ctx =
  c20_key :: "u8 list"

definition aead_chacha20_poly1305_init :: "u8 list \<Rightarrow> size_t \<Rightarrow> cipher_error + aead_chacha20_poly1305_ctx evp_aead_ctx_st" where
  "aead_chacha20_poly1305_init key tag_len =
    (let tag_len = (if tag_len = 0 then 16 else tag_len) in
     if tag_len > 16 then Inl CIPHER_R_TOO_LARGE
     else if length key \<noteq> 32 then Inl internal_error
     else Inr \<lparr>ctx_state = \<lparr>c20_key = key\<rparr>, ctx_tag_len = ucast tag_len\<rparr>)"

definition poly1305_update_length :: "poly1305_state_st \<Rightarrow> size_t \<Rightarrow> poly1305_state_st" where
  "poly1305_update_length poly1305 data_len =
     CRYPTO_poly1305_update poly1305 (map (\<lambda>i. ucast (drop_bit (8 * i) data_len)) [0..<8])"

definition calc_tag :: "poly1305_state_st \<Rightarrow> u8 list \<Rightarrow> u8 list \<Rightarrow> u8 list \<Rightarrow> u8 list \<Rightarrow> u8 list \<Rightarrow> u8 list" where
  "calc_tag ctx key nonce ad ciphertext ciphertext_extra =
    (let poly1305_key = CRYPTO_chacha_20 (replicate 32 0) key nonce 0;
         padding = replicate 16 0;
         ctx = CRYPTO_poly1305_init ctx poly1305_key;
         ctx = CRYPTO_poly1305_update ctx ad;
         ctx = (if length ad mod 16 \<noteq> 0 then CRYPTO_poly1305_update ctx (take (16 - length ad mod 16) padding) else ctx);
         ctx = CRYPTO_poly1305_update ctx ciphertext;
         ctx = CRYPTO_poly1305_update ctx ciphertext_extra;
         ciphertext_total = length ciphertext + length ciphertext_extra;
         ctx = (if ciphertext_total mod 16 \<noteq> 0
                then CRYPTO_poly1305_update ctx (take (16 - ciphertext_total mod 16) padding) else ctx);
         ctx = poly1305_update_length ctx (of_nat (length ad));
         ctx = poly1305_update_length ctx (of_nat ciphertext_total)
     in fst (CRYPTO_poly1305_finish ctx))"

function seal_extra :: "u8 list \<Rightarrow> u8 list \<Rightarrow> u32 \<Rightarrow> nat \<Rightarrow> u8 list \<Rightarrow> u8 list" where
  "seal_extra key nonce block_counter offset extra_in =
    (if extra_in = [] then []
     else let block = CRYPTO_chacha_20 (replicate 64 0) key nonce block_counter;
              n = min (64 - offset) (length extra_in)
          in map2 (XOR) (take n extra_in) (take n (drop offset block)) @
             seal_extra key nonce (block_counter + 1) 0 (drop n extra_in))"
  by pat_completeness auto
termination by (relation "measure (\<lambda>(_, _, _, offset, extra_in). length extra_in + (if 64 \<le> offset then 1 else 0))") auto

declare seal_extra.simps [simp del]

text \<open>The limit on the input, in bytes: the 32-bit block counter starts at 1.\<close>

definition in_limit :: u64 where
  "in_limit = push_bit 32 1 * 64 - 64"

definition chacha20_poly1305_seal_scatter ::
  "poly1305_state_st \<Rightarrow> u8 list \<Rightarrow> size_t \<Rightarrow> u8 list \<Rightarrow> u8 list \<Rightarrow> u8 list \<Rightarrow> u8 list \<Rightarrow> size_t \<Rightarrow> cipher_error + u8 list \<times> u8 list" where
  "chacha20_poly1305_seal_scatter ctx key max_out_tag_len nonce inp extra_in ad tag_len =
    (let in_len = (of_nat (length inp) :: size_t); extra_in_len = (of_nat (length extra_in) :: size_t) in
     if extra_in_len + tag_len < tag_len then Inl CIPHER_R_TOO_LARGE
     else if max_out_tag_len < tag_len + extra_in_len then Inl CIPHER_R_BUFFER_TOO_SMALL
     else if length nonce \<noteq> 12 then Inl CIPHER_R_UNSUPPORTED_NONCE_SIZE
     else if in_len \<ge> in_limit then Inl CIPHER_R_TOO_LARGE
     else if max_out_tag_len < tag_len then Inl CIPHER_R_BUFFER_TOO_SMALL
     else let extra_out = (if extra_in_len \<noteq> 0
                then seal_extra key nonce (ucast (1 + in_len div 64)) (unat (in_len mod 64)) extra_in else []);
              out = CRYPTO_chacha_20 inp key nonce 1;
              tag = calc_tag ctx key nonce ad out extra_out
          in Inr (out, extra_out @ take (unat tag_len) tag))"

text \<open>The error, if any, and the contents of \<open>out\<close>, which is written before the tags are compared.\<close>

definition chacha20_poly1305_open_gather ::
  "poly1305_state_st \<Rightarrow> u8 list \<Rightarrow> u8 list \<Rightarrow> u8 list \<Rightarrow> u8 list \<Rightarrow> u8 list \<Rightarrow> u8 list \<Rightarrow> size_t \<Rightarrow> cipher_error option \<times> u8 list" where
  "chacha20_poly1305_open_gather ctx key out nonce inp in_tag ad tag_len =
    (if length nonce \<noteq> 12 then (Some CIPHER_R_UNSUPPORTED_NONCE_SIZE, out)
     else if of_nat (length in_tag) \<noteq> tag_len then (Some CIPHER_R_BAD_DECRYPT, out)
     else if of_nat (length inp) \<ge> in_limit then (Some CIPHER_R_TOO_LARGE, out)
     else let tag = calc_tag ctx key nonce ad inp [];
              out = CRYPTO_chacha_20 inp key nonce 1
          in if CRYPTO_memcmp tag in_tag tag_len \<noteq> 0 then (Some CIPHER_R_BAD_DECRYPT, out)
             else (None, out))"

definition aead_chacha20_poly1305_seal_scatter ::
  "poly1305_state_st \<Rightarrow> aead_chacha20_poly1305_ctx evp_aead_ctx_st \<Rightarrow> size_t \<Rightarrow> u8 list \<Rightarrow> u8 list \<Rightarrow> u8 list \<Rightarrow> u8 list \<Rightarrow>
   cipher_error + u8 list \<times> u8 list" where
  "aead_chacha20_poly1305_seal_scatter st ctx max_out_tag_len nonce inp extra_in ad =
     chacha20_poly1305_seal_scatter st (c20_key (ctx_state ctx)) max_out_tag_len nonce inp extra_in ad
       (ucast (ctx_tag_len ctx))"

definition aead_chacha20_poly1305_open_gather ::
  "poly1305_state_st \<Rightarrow> aead_chacha20_poly1305_ctx evp_aead_ctx_st \<Rightarrow> u8 list \<Rightarrow> u8 list \<Rightarrow> u8 list \<Rightarrow> u8 list \<Rightarrow> u8 list \<Rightarrow>
   cipher_error option \<times> u8 list" where
  "aead_chacha20_poly1305_open_gather st ctx out nonce inp in_tag ad =
     chacha20_poly1305_open_gather st (c20_key (ctx_state ctx)) out nonce inp in_tag ad (ucast (ctx_tag_len ctx))"

definition aead_xchacha20_poly1305_seal_scatter ::
  "poly1305_state_st \<Rightarrow> aead_chacha20_poly1305_ctx evp_aead_ctx_st \<Rightarrow> size_t \<Rightarrow> u8 list \<Rightarrow> u8 list \<Rightarrow> u8 list \<Rightarrow> u8 list \<Rightarrow>
   cipher_error + u8 list \<times> u8 list" where
  "aead_xchacha20_poly1305_seal_scatter st ctx max_out_tag_len nonce inp extra_in ad =
    (if length nonce \<noteq> 24 then Inl CIPHER_R_UNSUPPORTED_NONCE_SIZE
     else let derived_key = CRYPTO_hchacha20 (c20_key (ctx_state ctx)) nonce;
              derived_nonce = replicate 4 0 @ take 8 (drop 16 nonce)
          in chacha20_poly1305_seal_scatter st derived_key max_out_tag_len derived_nonce inp extra_in ad
               (ucast (ctx_tag_len ctx)))"

definition aead_xchacha20_poly1305_open_gather ::
  "poly1305_state_st \<Rightarrow> aead_chacha20_poly1305_ctx evp_aead_ctx_st \<Rightarrow> u8 list \<Rightarrow> u8 list \<Rightarrow> u8 list \<Rightarrow> u8 list \<Rightarrow> u8 list \<Rightarrow>
   cipher_error option \<times> u8 list" where
  "aead_xchacha20_poly1305_open_gather st ctx out nonce inp in_tag ad =
    (if length nonce \<noteq> 24 then (Some CIPHER_R_UNSUPPORTED_NONCE_SIZE, out)
     else let derived_key = CRYPTO_hchacha20 (c20_key (ctx_state ctx)) nonce;
              derived_nonce = replicate 4 0 @ take 8 (drop 16 nonce)
          in chacha20_poly1305_open_gather st derived_key out derived_nonce inp in_tag ad (ucast (ctx_tag_len ctx)))"

definition EVP_aead_chacha20_poly1305 :: "poly1305_state_st \<Rightarrow> aead_chacha20_poly1305_ctx evp_aead_st" where
  "EVP_aead_chacha20_poly1305 st =
    \<lparr>aead_key_len = 32, aead_nonce_len = 12, aead_overhead = 16, aead_max_tag_len = 16,
     aead_seal_scatter_supports_extra_in = True,
     aead_init = Some aead_chacha20_poly1305_init, aead_init_with_direction = None, aead_open = None,
     aead_seal_scatter = aead_chacha20_poly1305_seal_scatter st,
     aead_open_gather = Some (aead_chacha20_poly1305_open_gather st), aead_tag_len = None\<rparr>"

definition EVP_aead_xchacha20_poly1305 :: "poly1305_state_st \<Rightarrow> aead_chacha20_poly1305_ctx evp_aead_st" where
  "EVP_aead_xchacha20_poly1305 st =
    \<lparr>aead_key_len = 32, aead_nonce_len = 24, aead_overhead = 16, aead_max_tag_len = 16,
     aead_seal_scatter_supports_extra_in = True,
     aead_init = Some aead_chacha20_poly1305_init, aead_init_with_direction = None, aead_open = None,
     aead_seal_scatter = aead_xchacha20_poly1305_seal_scatter st,
     aead_open_gather = Some (aead_xchacha20_poly1305_open_gather st), aead_tag_len = None\<rparr>"

section \<open>The tag\<close>

definition pad16 :: "nat \<Rightarrow> u8 list" where
  "pad16 n = replicate ((16 - n mod 16) mod 16) 0"

text \<open>The bytes that are authenticated (RFC 8439, section 2.8).\<close>

definition mac_data :: "u8 list \<Rightarrow> u8 list \<Rightarrow> u8 list" where
  "mac_data ad ct = ad @ pad16 (length ad) @ ct @ pad16 (length ct) @ le_bytes 8 (length ad) @ le_bytes 8 (length ct)"

definition one_time_key :: "u8 list \<Rightarrow> u8 list \<Rightarrow> u8 list" where
  "one_time_key key nonce = CRYPTO_chacha_20 (replicate 32 0) key nonce 0"

lemma le_bytes_map: "le_bytes n v = map (\<lambda>i. of_nat (v div 256 ^ i)) [0..<n]"
proof (induction n arbitrary: v)
  case (Suc n)
  have "[0..<Suc n] = 0 # map Suc [0..<n]" by (simp add: upt_conv_Cons map_Suc_upt del: upt_Suc)
  then show ?case by (simp add: Suc div_mult2_eq comp_def del: upt_Suc)
qed simp

lemma length_bytes: "map (\<lambda>i. ucast (drop_bit (8 * i) (v :: u64))) [0..<8] = le_bytes 8 (unat v)"
proof -
  have "(ucast (drop_bit (8 * i) v) :: u8) = of_nat (unat v div 256 ^ i)" for i
    by (simp add: word_unat_eq_iff unsigned_ucast_eq take_bit_eq_mod unat_drop_bit power_mult)
  then show ?thesis by (simp add: le_bytes_map)
qed

lemma le_bytes_8_mod: "le_bytes 8 (unat (of_nat n :: u64)) = le_bytes 8 n"
  using le_bytes_mod [of 8 n] by (simp add: unat_of_nat)

definition tag_chunks :: "u8 list \<Rightarrow> u8 list \<Rightarrow> u8 list \<Rightarrow> u8 list list" where
  "tag_chunks ad ct extra = [ad, pad16 (length ad), ct, extra, pad16 (length ct + length extra),
     le_bytes 8 (length ad), le_bytes 8 (length ct + length extra)]"

lemma update_pad: "(if n mod 16 \<noteq> 0 then CRYPTO_poly1305_update st (take (16 - n mod 16) (replicate 16 0)) else st) =
    CRYPTO_poly1305_update st (pad16 n)"
  by (cases "n mod 16 = 0") (simp_all add: pad16_def CRYPTO_poly1305_update_def [of _ "[]"] min_def)

lemma calc_tag_mac:
  assumes "length (st_buf ctx) = 16"
  shows "calc_tag ctx key nonce ad ct extra = poly1305_mac (one_time_key key nonce) (mac_data ad (ct @ extra))"
proof -
  have "calc_tag ctx key nonce ad ct extra = fst (CRYPTO_poly1305_finish
      (foldl CRYPTO_poly1305_update (CRYPTO_poly1305_init ctx (one_time_key key nonce)) (tag_chunks ad ct extra)))"
    unfolding calc_tag_def Let_def update_pad poly1305_update_length_def length_bytes le_bytes_8_mod
    by (simp add: tag_chunks_def one_time_key_def)
  also have "\<dots> = poly1305_mac (one_time_key key nonce) (concat (tag_chunks ad ct extra))"
    by (rule poly1305.digest_of_chunks [OF init_absorbed [OF assms] TrueI])
  also have "concat (tag_chunks ad ct extra) = mac_data ad (ct @ extra)"
    by (simp add: tag_chunks_def mac_data_def)
  finally show ?thesis .
qed

section \<open>The extra input\<close>

definition chacha_state :: "u8 list \<Rightarrow> u8 list \<Rightarrow> u32 \<Rightarrow> u32 list" where
  "chacha_state key nonce c = load_words 4 sigma @ load_words 8 key @ [c] @ load_words 3 nonce"

lemma chacha_state_add: "key_byte (chacha_state key nonce (c + of_nat n)) i = key_byte (chacha_state key nonce c) (64 * n + i)"
proof -
  have "(chacha_state key nonce c)[12 := chacha_state key nonce c ! 12 + of_nat n] = chacha_state key nonce (c + of_nat n)"
    by (simp add: chacha_state_def nth_append list_update_append)
  moreover have "12 < length (chacha_state key nonce c)" by (simp add: chacha_state_def)
  ultimately show ?thesis by (metis key_byte_shift)
qed

lemma chacha_20_state:
  "CRYPTO_chacha_20 inp key nonce c = map2 (XOR) inp (map (key_byte (chacha_state key nonce c)) [0..<length inp])"
  by (simp add: chacha_20_stream chacha_state_def)

lemma seal_extra_stream:
  "offset < 64 \<Longrightarrow> seal_extra key nonce (c + of_nat n) offset extra =
     map2 (XOR) extra (map (\<lambda>i. key_byte (chacha_state key nonce c) (64 * n + offset + i)) [0..<length extra])"
proof (induction "length extra" arbitrary: n offset extra rule: less_induct)
  case less
  show ?case
  proof (cases "extra = []")
    case False
    define k where "k = min (64 - offset) (length extra)"
    define block where "block = CRYPTO_chacha_20 (replicate 64 0) key nonce (c + of_nat n)"
    have k: "0 < k" "k \<le> length extra" using False less.prems by (simp_all add: k_def)
    have b: "block ! i = key_byte (chacha_state key nonce c) (64 * n + i)" "length block = 64" if "i < 64" for i
      using that chacha_state_add [of key nonce c n i]
      by (simp_all add: block_def chacha_20_state)
    have "seal_extra key nonce (c + of_nat n) offset extra =
        map2 (XOR) (take k extra) (take k (drop offset block)) @ seal_extra key nonce (c + of_nat (Suc n)) 0 (drop k extra)"
      using False by (subst seal_extra.simps) (simp add: k_def block_def Let_def ac_simps)
    also have "seal_extra key nonce (c + of_nat (Suc n)) 0 (drop k extra) =
        map2 (XOR) (drop k extra) (map (\<lambda>i. key_byte (chacha_state key nonce c) (64 * Suc n + 0 + i)) [0..<length extra - k])"
      using less.hyps [of "drop k extra" 0 "Suc n"] k by simp
    finally have e: "seal_extra key nonce (c + of_nat n) offset extra = map2 (XOR) (take k extra) (take k (drop offset block)) @
        map2 (XOR) (drop k extra) (map (\<lambda>i. key_byte (chacha_state key nonce c) (64 * Suc n + 0 + i)) [0..<length extra - k])" .
    have l: "length (map2 (XOR) (take k extra) (take k (drop offset block))) = k"
      using b(2) [of 0] less.prems by (simp add: k_def)
    show ?thesis
    proof (rule nth_equalityI)
      fix i
      assume "i < length (seal_extra key nonce (c + of_nat n) offset extra)"
      then have i: "i < length extra" unfolding e length_append l using k by simp
      show "seal_extra key nonce (c + of_nat n) offset extra ! i =
          map2 (XOR) extra (map (\<lambda>i. key_byte (chacha_state key nonce c) (64 * n + offset + i)) [0..<length extra]) ! i"
      proof (cases "i < k")
        case True
        then have "offset + i < 64" unfolding k_def by arith
        then show ?thesis unfolding e nth_append l using True i b [of "offset + i"] by (simp add: ac_simps)
      next
        case False
        then have "k = 64 - offset" using i by (simp add: k_def)
        then have "64 * Suc n + (i - k) = 64 * n + offset + i" using False less.prems by simp
        moreover have "i - k < length extra - k" using False i by simp
        ultimately show ?thesis unfolding e nth_append l using False i by simp
      qed
    qed (use e l k in simp)
  qed (simp add: seal_extra.simps)
qed

lemma chacha_with_extra:
  "CRYPTO_chacha_20 (inp @ extra) key nonce c =
   CRYPTO_chacha_20 inp key nonce c @ seal_extra key nonce (c + of_nat (length inp div 64)) (length inp mod 64) extra"
  unfolding chacha_20_state
  by (subst seal_extra_stream, simp, rule nth_equalityI) (auto simp: nth_append)

section \<open>Sealing and opening\<close>

lemma in_limit_val: "unat in_limit = 2 ^ 38 - 64"
  by (simp add: in_limit_def)

lemma in_limit_iff: "length xs < 2 ^ 64 \<Longrightarrow> of_nat (length xs) \<ge> in_limit \<longleftrightarrow> 2 ^ 38 - 64 \<le> length xs"
  by (simp add: word_le_nat_alt in_limit_val of_nat_fits)

lemma seal_counter:
  assumes "n < 2 ^ 64"
  shows "(ucast (1 + (of_nat n :: size_t) div 64) :: u32) = 1 + of_nat (n div 64)"
proof -
  have "(of_nat n :: size_t) div 64 = of_nat (n div 64)"
    using assms by (simp add: word_unat_eq_iff unat_div of_nat_fits)
  then have "1 + (of_nat n :: size_t) div 64 = of_nat (1 + n div 64)" by simp
  then have "(ucast (1 + (of_nat n :: size_t) div 64) :: u32) = ucast (of_nat (1 + n div 64) :: size_t)" by (rule arg_cong)
  also have "\<dots> = of_nat (1 + n div 64)"
    by (simp add: word_unat_eq_iff unsigned_ucast_eq take_bit_eq_mod unat_of_nat mod_mod_cancel del: of_nat_add of_nat_Suc)
  finally show ?thesis by simp
qed

lemma length_donna_output [simp]: "length (donna_output st) = 16"
  by (simp add: donna_output_def Let_def)

lemma length_poly1305_mac [simp]: "length (poly1305_mac key m) = 16"
  by (simp add: poly1305_mac_def)

lemma length_one_time_key [simp]: "length (one_time_key key nonce) = 32"
  by (simp add: one_time_key_def)

text \<open>The ciphertext of the input and the extra input, and its authenticator.\<close>

definition aead_tag :: "u8 list \<Rightarrow> u8 list \<Rightarrow> u8 list \<Rightarrow> u8 list \<Rightarrow> size_t \<Rightarrow> u8 list" where
  "aead_tag key nonce ad ct tag_len = take (unat tag_len) (poly1305_mac (one_time_key key nonce) (mac_data ad ct))"

lemma length_aead_tag: "tag_len \<le> 16 \<Longrightarrow> length (aead_tag key nonce ad ct tag_len) = unat tag_len"
  by (simp add: aead_tag_def word_le_nat_alt)

lemma seal_scatter_eq:
  assumes "length (st_buf st) = 16" "length inp < 2 ^ 64" "length extra + unat tag_len < 2 ^ 64"
  shows "chacha20_poly1305_seal_scatter st key max_len nonce inp extra ad tag_len =
    (if unat max_len < length extra + unat tag_len then Inl CIPHER_R_BUFFER_TOO_SMALL
     else if length nonce \<noteq> 12 then Inl CIPHER_R_UNSUPPORTED_NONCE_SIZE
     else if 2 ^ 38 - 64 \<le> length inp then Inl CIPHER_R_TOO_LARGE
     else let ct = CRYPTO_chacha_20 (inp @ extra) key nonce 1
          in Inr (take (length inp) ct, drop (length inp) ct @ aead_tag key nonce ad ct tag_len))"
proof -
  have x: "length extra < 2 ^ 64" using assms(3) by simp
  have s: "unat (of_nat (length extra) + tag_len) = length extra + unat tag_len"
    using assms(3) of_nat_fits [OF x] by (simp add: unat_add_lem [THEN iffD1])
  have c: "\<not> of_nat (length extra) + tag_len < tag_len"
    "max_len < tag_len + of_nat (length extra) \<longleftrightarrow> unat max_len < length extra + unat tag_len"
    "max_len < tag_len \<Longrightarrow> unat max_len < length extra + unat tag_len"
    "(of_nat (length extra) :: size_t) \<noteq> 0 \<longleftrightarrow> extra \<noteq> []"
    using s of_nat_fits [OF x] by (auto simp: word_less_nat_alt add.commute word_unat_eq_iff)
  have o: "unat ((of_nat (length inp) :: size_t) mod 64) = length inp mod 64"
    by (simp add: unat_mod of_nat_fits [OF assms(2)])
  have e: "(if extra \<noteq> [] then seal_extra key nonce (1 + of_nat (length inp div 64)) (length inp mod 64) extra else []) =
      drop (length inp) (CRYPTO_chacha_20 (inp @ extra) key nonce 1)"
    by (simp add: chacha_with_extra seal_extra.simps)
  have t: "take (length inp) (CRYPTO_chacha_20 (inp @ extra) key nonce 1) = CRYPTO_chacha_20 inp key nonce 1"
    by (simp add: chacha_with_extra)
  have j: "CRYPTO_chacha_20 inp key nonce 1 @ drop (length inp) (CRYPTO_chacha_20 (inp @ extra) key nonce 1) =
      CRYPTO_chacha_20 (inp @ extra) key nonce 1"
    by (metis append_take_drop_id t)
  show ?thesis
    unfolding chacha20_poly1305_seal_scatter_def Let_def in_limit_iff [OF assms(2)] seal_counter [OF assms(2)] o c(2,4) e t
      calc_tag_mac [OF assms(1)] j
    using c(1,3) by (auto simp: aead_tag_def)
qed

lemma open_gather_eq:
  assumes "length (st_buf st) = 16" "length inp < 2 ^ 64" "length in_tag < 2 ^ 64" "tag_len \<le> 16"
  shows "chacha20_poly1305_open_gather st key out nonce inp in_tag ad tag_len =
    (if length nonce \<noteq> 12 then (Some CIPHER_R_UNSUPPORTED_NONCE_SIZE, out)
     else if length in_tag \<noteq> unat tag_len then (Some CIPHER_R_BAD_DECRYPT, out)
     else if 2 ^ 38 - 64 \<le> length inp then (Some CIPHER_R_TOO_LARGE, out)
     else (if in_tag = aead_tag key nonce ad inp tag_len then None else Some CIPHER_R_BAD_DECRYPT,
           CRYPTO_chacha_20 inp key nonce 1))"
proof -
  have l: "of_nat (length in_tag) \<noteq> tag_len \<longleftrightarrow> length in_tag \<noteq> unat tag_len"
    by (simp add: word_unat_eq_iff of_nat_fits [OF assms(3)])
  have t: "unat tag_len \<le> 16" using assms(4) by (simp add: word_le_nat_alt)
  have m: "CRYPTO_memcmp (poly1305_mac (one_time_key key nonce) (mac_data ad inp)) in_tag tag_len \<noteq> 0 \<longleftrightarrow>
      in_tag \<noteq> aead_tag key nonce ad inp tag_len" if "length in_tag = unat tag_len"
    using that t by (auto simp: CRYPTO_memcmp_eq_0 aead_tag_def)
  show ?thesis
    unfolding chacha20_poly1305_open_gather_def Let_def in_limit_iff [OF assms(2)] l calc_tag_mac [OF assms(1)] append_Nil2
    using m by (auto simp del: not_None_eq)
qed

text \<open>Both ciphers keep the contract of the interface.\<close>

definition valid_ctx :: "poly1305_state_st \<Rightarrow> aead_chacha20_poly1305_ctx evp_aead_ctx_st \<Rightarrow> bool" where
  "valid_ctx st ctx \<longleftrightarrow> length (st_buf st) = 16 \<and> ctx_tag_len ctx \<le> 16"

lemma valid_ctxD:
  assumes "valid_ctx st ctx"
  shows "length (st_buf st) = 16" "(ucast (ctx_tag_len ctx) :: size_t) \<le> 16" "unat (ctx_tag_len ctx) \<le> 16"
  using assms by (simp_all add: valid_ctx_def word_le_nat_alt)

lemma seal_scatter_sealed:
  assumes "chacha20_poly1305_seal_scatter st key max_len nonce inp [] ad (ucast (ctx_tag_len ctx)) = Inr (ct, tag)"
    and "valid_ctx st ctx" "length inp < 2 ^ 64"
  shows "ct = CRYPTO_chacha_20 inp key nonce 1" "tag = aead_tag key nonce ad ct (ucast (ctx_tag_len ctx))"
    "length tag = unat (ctx_tag_len ctx)" "length tag \<le> unat max_len"
    "chacha20_poly1305_open_gather st key out nonce ct tag ad (ucast (ctx_tag_len ctx)) = (None, inp)"
proof -
  note v = valid_ctxD [OF assms(2)]
  have f: "length ([] :: u8 list) + unat (ucast (ctx_tag_len ctx) :: size_t) < 2 ^ 64" using v(3) by simp
  show r: "ct = CRYPTO_chacha_20 inp key nonce 1" "tag = aead_tag key nonce ad ct (ucast (ctx_tag_len ctx))"
    and l: "length tag = unat (ctx_tag_len ctx)"
    using assms(1) length_aead_tag [OF v(2)]
    unfolding seal_scatter_eq [OF v(1) assms(3) f] by (auto simp: Let_def split: if_splits)
  show "length tag \<le> unat max_len"
    using assms(1) l unfolding seal_scatter_eq [OF v(1) assms(3) f] by (auto split: if_splits)
  have "length nonce = 12" "length inp < 2 ^ 38 - 64"
    using assms(1) unfolding seal_scatter_eq [OF v(1) assms(3) f] by (auto split: if_splits)
  then show "chacha20_poly1305_open_gather st key out nonce ct tag ad (ucast (ctx_tag_len ctx)) = (None, inp)"
    using r l v(3) assms(3) by (subst open_gather_eq [OF v(1) _ _ v(2)]) (simp_all add: chacha_20_inverse)
qed

interpretation chacha20: sealing "EVP_aead_chacha20_poly1305 st" "aead_chacha20_poly1305_open_gather st" "valid_ctx st" for st
  by unfold_locales
    (auto simp: EVP_aead_chacha20_poly1305_def aead_chacha20_poly1305_seal_scatter_def
       aead_chacha20_poly1305_open_gather_def dest: seal_scatter_sealed)

interpretation xchacha20: sealing "EVP_aead_xchacha20_poly1305 st" "aead_xchacha20_poly1305_open_gather st" "valid_ctx st" for st
  by unfold_locales
    (auto simp: EVP_aead_xchacha20_poly1305_def aead_xchacha20_poly1305_seal_scatter_def
       aead_xchacha20_poly1305_open_gather_def Let_def split: if_splits dest: seal_scatter_sealed)

lemma valid_init:
  assumes "EVP_AEAD_CTX_init (EVP_aead_chacha20_poly1305 st) key tag_len = Inr ctx" "length (st_buf st) = 16"
  shows "valid_ctx st ctx" "ctx_state ctx = \<lparr>c20_key = key\<rparr>"
    "unat (ctx_tag_len ctx) = (if tag_len = 0 then 16 else unat tag_len)"
  using assms by (auto simp: EVP_AEAD_CTX_init_def EVP_AEAD_CTX_init_with_direction_def valid_ctx_def
      EVP_aead_chacha20_poly1305_def aead_chacha20_poly1305_init_def Let_def word_le_nat_alt not_less
      unsigned_ucast_eq take_bit_eq_mod split: if_splits)

text \<open>What \<open>EVP_AEAD_CTX_open\<close> accepts: a tag at the end that authenticates the bytes before it.\<close>

definition authentic :: "u8 list \<Rightarrow> u8 list \<Rightarrow> u8 list \<Rightarrow> u8 list \<Rightarrow> nat \<Rightarrow> bool" where
  "authentic key nonce ad inp t \<longleftrightarrow> t \<le> length inp \<and> length nonce = 12 \<and> length inp - t < 2 ^ 38 - 64 \<and>
     drop (length inp - t) inp =
       take t (poly1305_mac (one_time_key key nonce) (mac_data ad (take (length inp - t) inp)))"

lemma chacha20_open_gather:
  assumes "valid_ctx st ctx" "in_memory p inp" "in_memory q out" "length out = length inp"
    "check_alias p (of_nat (length inp)) q (of_nat (length inp))" "length in_tag = unat (ctx_tag_len ctx)"
  shows "EVP_AEAD_CTX_open_gather (EVP_aead_chacha20_poly1305 st) ctx q out nonce p inp in_tag ad =
    (if length nonce = 12 \<and> length inp < 2 ^ 38 - 64 \<and>
        in_tag = aead_tag (c20_key (ctx_state ctx)) nonce ad inp (ucast (ctx_tag_len ctx))
     then (None, CRYPTO_chacha_20 inp (c20_key (ctx_state ctx)) nonce 1)
     else (Some (if length nonce \<noteq> 12 then CIPHER_R_UNSUPPORTED_NONCE_SIZE
                 else if 2 ^ 38 - 64 \<le> length inp then CIPHER_R_TOO_LARGE else CIPHER_R_BAD_DECRYPT),
           replicate (length inp) 0))"
proof -
  note v = valid_ctxD [OF assms(1)]
  have f: "length inp < 2 ^ 64" "length in_tag < 2 ^ 64" using assms(2,6) v(3) by (simp_all add: in_memory_def)
  show ?thesis
    using assms(5,6)
    by (simp add: EVP_AEAD_CTX_open_gather_def EVP_aead_chacha20_poly1305_def aead_chacha20_poly1305_open_gather_def
        open_gather_eq [OF v(1) f v(2)] length_aead_tag [OF v(2)] Let_def)
qed

lemma in_memory_take: "in_memory p xs \<Longrightarrow> in_memory p (take n xs)"
  by (simp add: in_memory_def)

text \<open>Opening in one buffer, on every branch: \<open>n\<close> is the length of the plaintext.\<close>

definition accepted :: "u8 list \<Rightarrow> nat \<Rightarrow> u64 \<Rightarrow> u8 list \<Rightarrow> u8 list \<Rightarrow> u64 \<Rightarrow> u8 list \<Rightarrow> u8 list \<Rightarrow> bool" where
  "accepted key t out_p out nonce in_p inp ad \<longleftrightarrow>
     check_alias in_p (of_nat (length inp)) out_p (of_nat (length out)) \<and> length inp - t \<le> length out \<and>
     authentic key nonce ad inp t"

lemma chacha20_open:
  assumes "valid_ctx st ctx" "in_memory p inp" "in_memory q out"
  defines "t \<equiv> unat (ctx_tag_len ctx)" and "key \<equiv> c20_key (ctx_state ctx)"
  defines "n \<equiv> length inp - t"
  obtains e where "EVP_AEAD_CTX_open (EVP_aead_chacha20_poly1305 st) ctx q out nonce p inp ad =
    (if accepted key t q out nonce p inp ad then (None, CRYPTO_chacha_20 (take n inp) key nonce 1 @ drop n out, of_nat n)
     else (Some e, replicate (length out) 0, 0))"
proof -
  define r where "r = EVP_AEAD_CTX_open (EVP_aead_chacha20_poly1305 st) ctx q out nonce p inp ad"
  have f: "length inp < 2 ^ 64" "length out < 2 ^ 64" "t < 2 ^ 64" "n < 2 ^ 64"
    using assms(2,3) valid_ctxD(3) [OF assms(1)] by (simp_all add: in_memory_def t_def n_def)
  note u = of_nat_fits [OF f(1)] of_nat_fits [OF f(2)] of_nat_fits [OF f(4)]
  have tl: "unat (ucast (ctx_tag_len ctx) :: size_t) = t" by (simp add: t_def)
  have o: "aead_open (EVP_aead_chacha20_poly1305 st) = None" by (rule chacha20.open_null)
  show thesis
  proof (cases "check_alias p (of_nat (length inp)) q (of_nat (length out)) \<and> t \<le> length inp \<and> n \<le> length out")
    case True
    then have "check_alias p (of_nat (length inp)) q (of_nat (length out))" "n \<le> length inp" "n \<le> length out"
      by (simp_all add: n_def)
    then have c: "check_alias p (of_nat n) q (of_nat n)" by (rule check_alias_mono [OF _ assms(2,3)])
    have d: "(of_nat (length inp) :: size_t) - ucast (ctx_tag_len ctx) = of_nat n"
      using True u(1) tl by (simp add: word_unat_eq_iff unat_sub word_le_nat_alt u(3)) (simp add: n_def)
    have l: "\<not> (of_nat (length inp) :: size_t) < ucast (ctx_tag_len ctx)"
      "\<not> (of_nat (length out) :: size_t) < of_nat n"
      using True u tl by (simp_all add: word_less_nat_alt)
    define e where "e = (if length nonce \<noteq> 12 then CIPHER_R_UNSUPPORTED_NONCE_SIZE
      else if 2 ^ 38 - 64 \<le> n then CIPHER_R_TOO_LARGE else CIPHER_R_BAD_DECRYPT)"
    have "r = (case EVP_AEAD_CTX_open_gather (EVP_aead_chacha20_poly1305 st) ctx q (take n out) nonce p (take n inp)
          (take t (drop n inp)) ad of
        (None, plaintext) \<Rightarrow> (None, plaintext @ drop n out, of_nat n) | (Some e, _) \<Rightarrow> (Some e, replicate (length out) 0, 0))"
      using True l unfolding r_def EVP_AEAD_CTX_open_def Let_def o d u(3) tl by simp
    also have "EVP_AEAD_CTX_open_gather (EVP_aead_chacha20_poly1305 st) ctx q (take n out) nonce p (take n inp)
          (take t (drop n inp)) ad =
        (if authentic key nonce ad inp t then (None, CRYPTO_chacha_20 (take n inp) key nonce 1)
         else (Some e, replicate n 0))"
      using True c by (subst chacha20_open_gather [OF assms(1) in_memory_take [OF assms(2)] in_memory_take [OF assms(3)]])
        (auto simp: e_def authentic_def aead_tag_def tl key_def n_def t_def)
    finally show thesis using True by (intro that [of e]) (simp add: accepted_def flip: r_def n_def)
  next
    case False
    then have "\<exists>e. r = (Some e, replicate (length out) 0, 0)"
      using u tl unfolding r_def EVP_AEAD_CTX_open_def Let_def o
      by (auto simp: word_less_nat_alt word_le_nat_alt unat_sub n_def)
    then show thesis using False that by (auto simp: r_def accepted_def authentic_def n_def)
  qed
qed

section \<open>Properties\<close>

text \<open>
  C37: what \<open>EVP_AEAD_CTX_seal\<close> produces with ChaCha20-Poly1305, \<open>EVP_AEAD_CTX_open\<close> turns back into the
  plaintext, with the same key, nonce and additional data, whatever the Poly1305 state on the stack
  held before.
\<close>

theorem EVP_AEAD_CTX_open_seal:
  assumes "EVP_AEAD_CTX_init (EVP_aead_chacha20_poly1305 st) key tag_len = Inr ctx" "length (st_buf st) = 16"
    and "EVP_AEAD_CTX_seal (EVP_aead_chacha20_poly1305 st) ctx out_p out nonce in_p inp ad = (None, sealed, n)"
    and "in_memory in_p inp" "in_memory out_p out" "in_memory q buf" "in_memory p (take (unat n) sealed)"
    and "length inp \<le> length buf"
    and "check_alias p (of_nat (length (take (unat n) sealed))) q (of_nat (length buf))"
  shows "EVP_AEAD_CTX_open (EVP_aead_chacha20_poly1305 st) ctx q buf nonce p (take (unat n) sealed) ad =
    (None, inp @ drop (length inp) buf, of_nat (length inp))"
  by (rule chacha20.open_seal [OF assms(3) valid_init(1) [OF assms(1,2)] assms(4-9)])

text \<open>
  C38: \<open>EVP_AEAD_CTX_open\<close> with ChaCha20-Poly1305 accepts exactly the inputs whose last bytes are the
  authenticator of the rest, and then writes the plaintext. On every error the whole output buffer is
  cleared, also of the plaintext that was written before the tags were compared.
\<close>

theorem EVP_AEAD_CTX_open_iff:
  assumes "EVP_AEAD_CTX_init (EVP_aead_chacha20_poly1305 st) key tag_len = Inr ctx" "length (st_buf st) = 16"
    and "in_memory p inp" "in_memory q out"
  shows "let t = if tag_len = 0 then 16 else unat tag_len; n = length inp - t;
             (err, out', out_len) = EVP_AEAD_CTX_open (EVP_aead_chacha20_poly1305 st) ctx q out nonce p inp ad
         in if accepted key t q out nonce p inp ad
            then err = None \<and> out' = CRYPTO_chacha_20 (take n inp) key nonce 1 @ drop n out \<and> out_len = of_nat n
            else err \<noteq> None \<and> out' = replicate (length out) 0 \<and> out_len = 0"
proof -
  note v = valid_init [OF assms(1,2)]
  show ?thesis
    by (rule chacha20_open [OF v(1) assms(3,4), of nonce ad]) (auto simp: v(2,3) Let_def)
qed

text \<open>
  The sealing core, on every branch: the errors in their order, one keystream over the input and
  the extra input, and the tag of both with the additional data.
\<close>

theorem chacha20_poly1305_seal_total:
  assumes "length (st_buf st) = 16" "length inp < 2 ^ 64" "length extra + unat tag_len < 2 ^ 64"
  shows "chacha20_poly1305_seal_scatter st key max_len nonce inp extra ad tag_len =
    (if unat max_len < length extra + unat tag_len then Inl CIPHER_R_BUFFER_TOO_SMALL
     else if length nonce \<noteq> 12 then Inl CIPHER_R_UNSUPPORTED_NONCE_SIZE
     else if 2 ^ 38 - 64 \<le> length inp then Inl CIPHER_R_TOO_LARGE
     else let ct = CRYPTO_chacha_20 (inp @ extra) key nonce 1
          in Inr (take (length inp) ct, drop (length inp) ct @
                  take (unat tag_len) (poly1305_mac (one_time_key key nonce) (mac_data ad ct))))"
  using seal_scatter_eq [OF assms] by (simp add: aead_tag_def)

theorem chacha20_poly1305_seal_total_witness:
  "\<exists>out tag. chacha20_poly1305_seal_scatter fresh_poly1305 (replicate 32 7) 20 (replicate 12 1) [1, 2, 3] [4] [5] 16 =
     Inr (out, tag) \<and> length out = 3 \<and> length tag = 17"
  by (subst chacha20_poly1305_seal_total) (simp_all add: fresh_poly1305_def Let_def)

text \<open>A context, a sealed message and its opening, for the witnesses.\<close>

definition example_ctx :: "aead_chacha20_poly1305_ctx evp_aead_ctx_st" where
  "example_ctx = \<lparr>ctx_state = \<lparr>c20_key = replicate 32 7\<rparr>, ctx_tag_len = 16\<rparr>"

lemma example_init: "EVP_AEAD_CTX_init (EVP_aead_chacha20_poly1305 fresh_poly1305) (replicate 32 7) 0 = Inr example_ctx"
  by (simp add: EVP_AEAD_CTX_init_def EVP_AEAD_CTX_init_with_direction_def EVP_aead_chacha20_poly1305_def
      aead_chacha20_poly1305_init_def example_ctx_def)

lemma example_seal:
  "\<exists>sealed. EVP_AEAD_CTX_seal (EVP_aead_chacha20_poly1305 fresh_poly1305) example_ctx 4096 (replicate 19 0) (replicate 12 1)
     4096 [1, 2, 3] [5] = (None, sealed, 19) \<and> length sealed = 19"
  by (simp add: EVP_AEAD_CTX_seal_def EVP_aead_chacha20_poly1305_def aead_chacha20_poly1305_seal_scatter_def
      example_ctx_def check_alias_def seal_scatter_eq fresh_poly1305_def Let_def aead_tag_def)

theorem EVP_AEAD_CTX_open_seal_witness:
  "\<exists>sealed. EVP_AEAD_CTX_seal (EVP_aead_chacha20_poly1305 fresh_poly1305) example_ctx 4096 (replicate 19 0) (replicate 12 1)
     4096 [1, 2, 3] [5] = (None, sealed, 19) \<and>
   EVP_AEAD_CTX_open (EVP_aead_chacha20_poly1305 fresh_poly1305) example_ctx 8192 (replicate 5 9) (replicate 12 1)
     4096 sealed [5] = (None, [1, 2, 3, 9, 9], 3)"
proof -
  obtain sealed where s: "EVP_AEAD_CTX_seal (EVP_aead_chacha20_poly1305 fresh_poly1305) example_ctx 4096 (replicate 19 0)
      (replicate 12 1) 4096 [1, 2, 3] [5] = (None, sealed, 19)" "length sealed = 19"
    using example_seal by blast
  have "EVP_AEAD_CTX_open (EVP_aead_chacha20_poly1305 fresh_poly1305) example_ctx 8192 (replicate 5 9) (replicate 12 1)
      4096 (take (unat (19 :: size_t)) sealed) [5] =
    (None, [1, 2, 3] @ drop (length [1, 2, 3 :: u8]) (replicate 5 9), of_nat (length [1, 2, 3 :: u8]))"
    using s(2) by (intro EVP_AEAD_CTX_open_seal [OF example_init _ s(1)])
      (simp_all add: fresh_poly1305_def in_memory_def check_alias_def buffers_alias_def)
  moreover have "replicate 2 (9 :: u8) = [9, 9]" by (simp add: numeral_2_eq_2)
  ultimately show ?thesis using s by auto
qed

theorem EVP_AEAD_CTX_open_iff_witness:
  "\<exists>e. EVP_AEAD_CTX_open (EVP_aead_chacha20_poly1305 fresh_poly1305) example_ctx 8192 (replicate 5 9) (replicate 12 1)
     4096 (replicate 15 0) [5] = (Some e, replicate 5 0, 0)"
  using EVP_AEAD_CTX_open_iff [OF example_init, of 4096 "replicate 15 0" 8192 "replicate 5 9" "replicate 12 1" "[5]"]
  by (auto simp: fresh_poly1305_def in_memory_def accepted_def authentic_def Let_def split: prod.splits)

end
