(* ===== verification/Spec2Isabelle.thy ===== *)
theory Spec2Isabelle
  imports Mem CbbProps CbsText Unicode StackProps CbbSetOf Ber LhashProps ConstTime Base64 TimeText Conf ConfProps ConfLoad ConfText ConfList LittleEndian PbStream PbField PbWire PbCodec PbMessage PbArray Poly1305 Poly1305Limbs Streaming Poly1305Finish Poly1305Props TlsCbc ChaCha Blake2 Aead AeadChaCha
begin

text \<open>
  A verification library for C code that the iOS build of the Bolola application links: the parsing,
  building and container layer of BoringSSL (ios/Pods/BoringSSL-GRPC/src/crypto), on which its TLS and
  X.509 code rests, some of its cryptographic primitives, and the wire format of nanopb (ios/Pods/nanopb), in which Firebase stores and
  sends its messages. The application itself is Dart; all C of the repository is in its pods.

  Conventions.

  \<^item> A function that returns 0 or false on an error is an operation \<open>'s \<Rightarrow> 'a option \<times> 's\<close>
    (\<open>op\<close> of Prelude): the state is returned on an error too, because the code may have consumed
    input or written output before it failed. \<open>step\<close> is its \<open>if (!f(x)) return 0;\<close>.
  \<^item> Fixed-width integers are words of their width, \<open>size_t\<close> of 64 bits; a wrap-around in the model
    is one in the code. \<open>int\<close> values that the code keeps small are integers.
  \<^item> A pointer to bytes is the list of the bytes that can be read from it. A string is the list of
    its characters before the final NUL. An allocator is a parameter, usually \<open>A\<close>, that says for
    each size whether the request is served, so that every out-of-memory branch is a branch
    of the model.
  \<^item> Callbacks are functions that carry a state of their own. Laws a callback has to obey are locales:
    \<open>comparator\<close> (a total preorder, for \<open>qsort\<close>-like comparisons), \<open>hash_key\<close> (a comparison and
    a hash that agree), \<open>wire_codec\<close> (an encoder and a decoder that agree on the bytes),
    \<open>line_reader\<close> (a BIO whose calls take input or are at its end), \<open>ctr32_kernel\<close> (an assembly
    kernel of ChaCha20) and \<open>sealing\<close> (an implementation of the AEAD interface). \<open>streaming\<close> and its
    extension \<open>digest\<close> are the contract of a hash that takes its input in pieces.

  The parts, bottom up.

  \<^item> Prelude: words, byte order, bit-by-bit equality of words. Mem: crypto/mem.c, the comparisons,
    hashes and bounded string copies.
  \<^item> Reading bytes: Cbs, Asn1, Asn1Int model crypto/bytestring/cbs.c. A \<open>CBS\<close> is its readable memory
    and its length. The specification is the DER encoding (\<open>der_tag\<close>, \<open>der_len\<close>, \<open>der_tlv\<close>,
    \<open>der_int\<close>) as functions on lists; the readers are shown to accept exactly its image, with
    the tag, the body and the rest of the input that it determines.
  \<^item> Building bytes: Cbb models crypto/bytestring/cbb.c. A \<open>CBB\<close> pointer is a depth in the chain of
    open children. CbbDoc states what a builder means, a document of closed bytes and open frames;
    CbbImpl and CbbAsn1 show that each writer, each child constructor and the flush implement
    their operation on documents; CbbProps adds the sticky error flag and that the readers
    of Asn1Int read back what the writers wrote. CbbSetOf sorts the elements of a SET OF, through
    the interpretation of \<open>comparator\<close> on \<open>compare_set_of_element\<close>.
  \<^item> Times: PosixTime models crypto/asn1/posix_time.c, the conversion between seconds and
    calendar. CbsText models the text forms of times and object identifiers in cbs.c and cbb.c;
    TimeText says which texts the time parsers accept and what they mean.
  \<^item> Unicode models crypto/bytestring/unicode.c; UTF-8 is specified on numbers.
  \<^item> Ber models ber.c and asn1_compat.c, the detection and conversion of BER.
  \<^item> Containers: Stack models crypto/stack/stack.c (growth, binary search, heap sort, the sorted
    flag); StackSort proves the sort and the search for any \<open>comparator\<close>, StackProps the list
    operations and the invariant. Lhash models crypto/lhash/lhash.c; LhashProps proves that
    it is a map up to the comparison, for any \<open>hash_key\<close>, keeps its load, and may be iterated
    while the callback deletes.
  \<^item> ConstTime models the constant-time masks, carries and rotations of crypto/internal.h.
  \<^item> Base64 models crypto/base64/base64.c, blocks and streams.
  \<^item> Configuration files: Conf models crypto/conf/conf.c on top of Stack and Lhash, with the buffers
    of crypto/buf/buf.c. Stacks of values live at addresses, because a section and the caller
    of \<open>NCONF_get_section\<close> share them. ConfProps interprets \<open>hash_key\<close> on the two comparisons of
    conf.c and proves the invariant \<open>conf_ok\<close> of the tables and its converse \<open>linked\<close>; ConfLoad lifts
    them to any file and shows that loading ends for every \<open>line_reader\<close>; ConfText is the round
    trip of a written configuration; ConfList splits lists at a separator.
  \<^item> Protocol buffers: PbStream models the streams, integers, tags, skipping and substreams of
    pb_encode.c and pb_decode.c, PbField the encoder and decoder tables, packed arrays and the allocation
    check. PbWire gives an encoder and a decoder their meaning (\<open>writes\<close>, \<open>reads\<close>: exactly which
    bytes are appended or consumed), PbCodec interprets \<open>wire_codec\<close> on the integer codecs,
    PbMessage on every entry of the field tables, and PbArray proves packed arrays and submessages and
    compares the two varint readers.
  \<^item> Cryptographic primitives, on LittleEndian (words in memory) and Streaming (the two locales).
    Poly1305 models crypto/poly1305/poly1305.c; Poly1305Limbs shows that its five limbs
    of 26 bits compute modulo \<open>2^130 - 5\<close> and never overflow, Poly1305Finish the final reduction with the
    residues (\<open>collides\<close>) on which it may lose a carry, and Poly1305Props interprets \<open>digest\<close>. ChaCha models
    crypto/chacha/chacha.c, with the portable function as the interpretation of \<open>ctr32_kernel\<close>;
    Blake2 models crypto/blake2/blake2.c. Aead models the client of the AEAD interface
    (crypto/fipsmodule/cipher/aead.c.inc) and proves in \<open>sealing\<close> that opening inverts sealing;
    AeadChaCha models crypto/cipher_extra/e_chacha20poly1305.c and interprets \<open>sealing\<close> on both of
    its ciphers. TlsCbc models the constant-time padding and MAC extraction of
    crypto/cipher_extra/tls_cbc.c.

  Loops. Loops over data are structural recursions. The others are \<open>function\<close>s with a measure: the bytes
  left in the input (the varint readers and skippers, \<open>CONF_parse_list\<close>, the ASN.1 loops),
  the distance of two indices (binary search, sifting) or the value shifted (varints, base 128). Ber
  recurses on nested input with fuel, the length of the input, and every pass takes a byte
  or more per step, so that this is enough (\<open>find_ber_fuel\<close>). The line loop of \<open>NCONF_load_bio\<close> depends on the reader it
  is given and is a \<open>partial_function\<close>; that it returns is the theorem \<open>NCONF_load_bio_terminates\<close>.
  \<open>CONF_parse_list\<close> has no result where the code would run behind the end of its list.

  Not modelled. Of the components above: the memory functions that only call the system allocator or
  \<open>vsnprintf\<close>; files (\<open>NCONF_load\<close>), the freeing of tables at the end of their life, the
  OPENSSL_sk aliases; error queue entries (\<open>OPENSSL_PUT_ERROR\<close>), which none of this code reads; of
  crypto/internal.h, threads, reference counts and CPU features; of nanopb, the message loop over
  struct layouts (\<open>pb_encode\<close>, \<open>pb_decode\<close>, field iterators, extensions, release), which lives
  on pointer arithmetic into generated structs: the functions that call it take it as a
  parameter. The conversion \<open>CBS_asn1_ber_to_der\<close> is modelled whole, and its correctness is shown for
  input that needs no conversion. Of tls_cbc.c the record digests, which rest on SHA; of the AEAD layer the
  assembly kernels (the model is of the C branch) and the release of contexts. The
  other pods (Firestore, gRPC, abseil, leveldb, the rest of
  BoringSSL, the Objective-C libraries) are third-party code of which the program uses binary
  interfaces, largely C++ and Objective-C, and are left out, as are generated tables.
\<close>

end
